(* ===== verification/Prelude.thy ===== *)
theory Prelude
  imports Main "HOL-Library.Word"
begin

text \<open>
  Shared vocabulary of the development: machine integers at the widths the server uses,
  the status domain of \<^verbatim>\<open>server_engine/server_status.hpp\<close>, the limits of the target's
  \<^verbatim>\<open>std::uint32_t\<close> and \<^verbatim>\<open>std::size_t\<close>, and generic facts on lists, bits and
  cyclic positions that several components use.
\<close>

unbundle bit_operations_syntax

named_theorems arena_simps \<open>facts on text arenas: a byte list addressed by offset and length\<close>

type_synonym u8 = "8 word"
type_synonym u32 = "32 word"
type_synonym u64 = "64 word"

section \<open>Limits and status values\<close>

abbreviation uint32_max :: nat where
  "uint32_max \<equiv> 4294967295"

abbreviation size_max :: nat where
  "size_max \<equiv> 18446744073709551615"

datatype server_status =
    success
  | invalid_configuration
  | project_configuration_invalid
  | io_error
  | unsupported
  | license_read_failed
  | license_invalid
  | license_expired
  | server_lease_read_failed
  | server_lease_invalid
  | server_lease_not_active
  | server_lease_expired
  | server_identity_start_failed
  | authentication_start_failed
  | access_denied
  | project_already_loaded
  | project_not_loaded
  | project_load_failed
  | project_artifact_invalid
  | project_runtime_failed
  | runtime_query_invalid
  | runtime_query_not_found
  | runtime_ic_invalid
  | runtime_ic_not_found
  | runtime_ic_type_mismatch
  | runtime_ic_failed
  | runtime_state_invalid
  | communication_invalid_request
  | communication_start_failed

definition succeeded :: "server_status \<Rightarrow> bool" where
  "succeeded status \<longleftrightarrow> status = success"

section \<open>Text arenas\<close>

text \<open>
  The string, assign and path tables keep their text in one byte vector and address it
  by offset and length. \<open>text_slice\<close> is the pointer arithmetic \<^verbatim>\<open>{data + offset, length}\<close>.
\<close>

definition text_slice :: "'a list \<Rightarrow> nat \<Rightarrow> nat \<Rightarrow> 'a list" where
  "text_slice bytes off len = take len (drop off bytes)"

lemma text_slice_append_left [arena_simps]:
  "off + len \<le> length xs \<Longrightarrow> text_slice (xs @ ys) off len = text_slice xs off len"
  by (simp add: text_slice_def)

lemma text_slice_append_right [arena_simps]:
  "text_slice (xs @ ys) (length xs) (length ys) = ys"
  by (simp add: text_slice_def)

lemma text_slice_append_mid [arena_simps]:
  "text_slice (xs @ ys @ zs) (length xs) (length ys) = ys"
  by (simp add: text_slice_def)

lemma text_slice_length [arena_simps]:
  "off + len \<le> length xs \<Longrightarrow> length (text_slice xs off len) = len"
  by (simp add: text_slice_def)

section \<open>Power-of-two masks\<close>

lemma and_mask_mod: "(h :: nat) AND (2 ^ k - 1) = h mod 2 ^ k"
  by (metis mask_eq_exp_minus_1 take_bit_eq_mask take_bit_eq_mod)

lemma word_xor_left_inj: "(a :: 'a::len word) XOR b = a XOR c \<longleftrightarrow> b = c"
proof
  assume "a XOR b = a XOR c"
  then have "a XOR (a XOR b) = a XOR (a XOR c)" by simp
  then show "b = c" by (simp add: xor.assoc [symmetric])
qed simp

lemma word_xor_right_inj: "(b :: 'a::len word) XOR a = c XOR a \<longleftrightarrow> b = c"
  by (simp only: xor.commute [of _ a] word_xor_left_inj)

lemma word_xor_eq_zero: "(a :: 'a::len word) XOR b = 0 \<longleftrightarrow> a = b"
  using word_xor_left_inj [of a b a] by auto

lemmas word_xor_cancel = word_xor_left_inj word_xor_right_inj word_xor_eq_zero

section \<open>32-bit identifiers\<close>

lemma unat_of_nat_u32 [simp]: "n \<le> uint32_max \<Longrightarrow> unat (of_nat n :: u32) = n"
  by (simp add: unat_of_nat take_bit_nat_eq_self)

lemma of_nat_u32_inj: "m \<le> uint32_max \<Longrightarrow> n \<le> uint32_max \<Longrightarrow> (of_nat m :: u32) = of_nat n \<longleftrightarrow> m = n"
  by (metis unat_of_nat_u32)

lemma of_nat_u32_zero: "n \<le> uint32_max \<Longrightarrow> (of_nat n :: u32) = 0 \<longleftrightarrow> n = 0"
  using of_nat_u32_inj [of n 0] by simp

lemma unat_u32_le: "unat (x :: u32) \<le> uint32_max"
proof -
  have "unat x < 2 ^ LENGTH(32)" by (rule unsigned_less)
  then show ?thesis by simp
qed

end
