(* ===== verification/Probing.thy ===== *)
theory Probing
  imports Prelude "HOL-Library.Multiset"
begin

text \<open>
  The open-addressing scheme that the string table, the identity space, the preprocessor
  and the compiled image share: a vector of power-of-two size, a home position
  \<^verbatim>\<open>hash & (size - 1)\<close> and linear probing \<^verbatim>\<open>position = (position + 1) & mask\<close>. The C++
  code repeats these loops in \<^verbatim>\<open>string_table.cpp\<close>, \<^verbatim>\<open>identity.cpp\<close>,
  \<^verbatim>\<open>preprocessor.cpp\<close> and \<^verbatim>\<open>compiled_project.cpp\<close>; they are modelled once here.
  The predicate \<open>occ\<close> says which positions hold an entry, \<open>hit\<close> which entries match.

  The theory shows when the loops return and what they return, and keeps the invariant
  \<open>probe_ok\<close>: every entry is reachable from its home position through occupied positions.
\<close>

named_theorems probe_simps \<open>evaluation of probing loops\<close>

section \<open>The loops\<close>

text \<open>
  \<^verbatim>\<open>while (target[position].id) position = (position + 1) & mask;\<close> runs forever on a full
  table, so it is a partial function: \<open>None\<close> is non-termination.
\<close>

partial_function (option) probe_free :: "(nat \<Rightarrow> bool) \<Rightarrow> nat \<Rightarrow> nat \<Rightarrow> nat option" where
  "probe_free occ msk pos =
     (if occ pos then probe_free occ msk ((pos + 1) AND msk) else Some pos)"

text \<open>
  \<^verbatim>\<open>for (probe = 0; probe < index.size(); ++probe)\<close>: stop at an empty position, return a
  matching one. The last argument counts the probes left.
\<close>

fun probe_find :: "(nat \<Rightarrow> bool) \<Rightarrow> (nat \<Rightarrow> bool) \<Rightarrow> nat \<Rightarrow> nat \<Rightarrow> nat \<Rightarrow> nat option" where
  "probe_find occ hit msk pos 0 = None"
| "probe_find occ hit msk pos (Suc left) =
     (if \<not> occ pos then None
      else if hit pos then Some pos
      else probe_find occ hit msk ((pos + 1) AND msk) left)"

text \<open>\<^verbatim>\<open>next_index_capacity\<close>, \<^verbatim>\<open>next_capacity\<close>: 0 stands for "no such capacity".\<close>

partial_function (option) capacity_loop :: "nat \<Rightarrow> nat \<Rightarrow> nat option" where
  "capacity_loop capacity minimum =
     (if capacity < minimum
      then (if capacity > size_max div 2 then Some 0 else capacity_loop (capacity * 2) minimum)
      else Some capacity)"

definition next_index_capacity :: "nat \<Rightarrow> nat option" where
  "next_index_capacity required =
     (if required = 0 then Some 0
      else if required > size_max div 2 then Some 0
      else capacity_loop 8 (required * 2))"

section \<open>Cyclic positions\<close>

lemma cyclic_surj:
  assumes "q < (n :: nat)"
  obtains i where "i < n" "(h + i) mod n = q"
proof
  let ?i = "(q + (n - h mod n)) mod n"
  show "?i < n" using assms by simp
  have "(h + ?i) mod n = (h mod n + (q + (n - h mod n))) mod n"
    by (simp add: mod_simps)
  also have "h mod n + (q + (n - h mod n)) = q + n"
    using mod_less_divisor [of n h] assms by linarith
  finally show "(h + ?i) mod n = q" using assms by simp
qed

lemma cyclic_inj:
  assumes "(h + i) mod n = (h + j) mod (n :: nat)" "i < n" "j < n"
  shows "i = j"
proof -
  have "i mod n = j mod n"
    using assms(1) by (simp add: nat_mod_eq_iff)
  then show ?thesis using assms(2,3) by simp
qed

lemma mod_add_right_cancel: "(a + c) mod n = (b + c) mod (n :: nat) \<longleftrightarrow> a mod n = b mod n"
proof
  assume "(a + c) mod n = (b + c) mod n"
  then show "a mod n = b mod n"
    unfolding nat_mod_eq_iff by (metis add.assoc add.commute add_left_imp_eq)
qed (metis mod_add_left_eq)

lemma mask_step: "n = 2 ^ k \<Longrightarrow> (h mod n + 1) AND (n - 1) = (h + 1) mod (n :: nat)"
  by (simp only: and_mask_mod) (simp add: mod_simps)

lemma mask_home: "n = 2 ^ k \<Longrightarrow> h AND (n - 1) = h mod (n :: nat)"
  by (simp only: and_mask_mod)

section \<open>What the loops return\<close>

lemma probe_free_at:
  assumes "n = 2 ^ k" "\<And>j. j < i \<Longrightarrow> occ ((h + j) mod n)" "\<not> occ ((h + i) mod n)"
  shows "probe_free occ (n - 1) (h mod n) = Some ((h + i) mod n)"
  using assms(2,3)
proof (induction i arbitrary: h)
  case 0
  then show ?case by (subst probe_free.simps) simp
next
  case (Suc i)
  have "probe_free occ (n - 1) ((h + 1) mod n) = Some ((h + 1 + i) mod n)"
  proof (rule Suc.IH)
    show "occ ((h + 1 + j) mod n)" if "j < i" for j
      using Suc.prems(1) [of "Suc j"] that by simp
    show "\<not> occ ((h + 1 + i) mod n)" using Suc.prems(2) by simp
  qed
  moreover have "occ (h mod n)" using Suc.prems(1) [of 0] by simp
  ultimately show ?case
    by (subst probe_free.simps) (simp add: mask_step [OF assms(1), simplified])
qed

lemma probe_free_returns:
  assumes "n = 2 ^ k" "q < n" "\<not> occ q"
  obtains i where "i < n" "\<And>j. j < i \<Longrightarrow> occ ((h + j) mod n)" "\<not> occ ((h + i) mod n)"
    "probe_free occ (n - 1) (h mod n) = Some ((h + i) mod n)"
proof -
  obtain i0 where i0: "i0 < n" "(h + i0) mod n = q" by (rule cyclic_surj [OF assms(2)])
  define i where "i = (LEAST i. \<not> occ ((h + i) mod n))"
  have free: "\<not> occ ((h + i) mod n)"
    unfolding i_def by (rule LeastI [of _ i0]) (simp add: i0 assms(3))
  have below: "occ ((h + j) mod n)" if "j < i" for j
    using not_less_Least [of j "\<lambda>i. \<not> occ ((h + i) mod n)"] that unfolding i_def by blast
  have "i \<le> i0" unfolding i_def by (rule Least_le) (simp add: i0 assms(3))
  then show thesis
    using that [of i] i0 free below probe_free_at [OF assms(1), of i occ h] by simp
qed

lemma probe_find_at:
  assumes "n = 2 ^ k" "\<And>j. j < i \<Longrightarrow> occ ((h + j) mod n) \<and> \<not> hit ((h + j) mod n)"
    "occ ((h + i) mod n)" "hit ((h + i) mod n)" "i < m"
  shows "probe_find occ hit (n - 1) (h mod n) m = Some ((h + i) mod n)"
  using assms(2-)
proof (induction i arbitrary: h m)
  case 0
  then show ?case by (cases m) simp_all
next
  case (Suc i)
  obtain m' where m: "m = Suc m'" using Suc.prems(4) by (cases m) simp_all
  have "probe_find occ hit (n - 1) ((h + 1) mod n) m' = Some ((h + 1 + i) mod n)"
  proof (rule Suc.IH)
    show "occ ((h + 1 + j) mod n) \<and> \<not> hit ((h + 1 + j) mod n)" if "j < i" for j
      using Suc.prems(1) [of "Suc j"] that by simp
  qed (use Suc.prems m in auto)
  moreover have "occ (h mod n)" "\<not> hit (h mod n)" using Suc.prems(1) [of 0] by simp_all
  ultimately show ?case
    by (simp add: m mask_step [OF assms(1), simplified])
qed

lemma probe_find_holds: "probe_find occ hit msk pos m = Some q \<Longrightarrow> occ q \<and> hit q"
  by (induction occ hit msk pos m rule: probe_find.induct) (auto split: if_splits)

lemma probe_find_Some:
  assumes "n = 2 ^ k" "probe_find occ hit (n - 1) (h mod n) m = Some p"
  shows "p < n \<and> occ p \<and> hit p"
  using assms(2)
proof (induction m arbitrary: h)
  case (Suc m)
  show ?case
  proof (cases "occ (h mod n) \<and> \<not> hit (h mod n)")
    case True
    then have "probe_find occ hit (n - 1) ((h + 1) mod n) m = Some p"
      using Suc.prems by (simp add: mask_step [OF assms(1), simplified])
    then show ?thesis by (rule Suc.IH)
  next
    case False
    then show ?thesis using Suc.prems by (auto simp: assms(1) split: if_splits)
  qed
qed simp

section \<open>The reachability invariant\<close>

text \<open>\<open>home p\<close> is the hash of the entry at position \<open>p\<close>.\<close>

definition probe_ok :: "nat \<Rightarrow> (nat \<Rightarrow> bool) \<Rightarrow> (nat \<Rightarrow> nat) \<Rightarrow> bool" where
  "probe_ok n occ home \<longleftrightarrow>
     (\<forall>p<n. occ p \<longrightarrow> (\<exists>d<n. (home p + d) mod n = p \<and> (\<forall>j<d. occ ((home p + j) mod n))))"

lemma probe_ok_cong:
  assumes "\<And>p. p < n \<Longrightarrow> occ p = occ' p" "\<And>p. p < n \<Longrightarrow> occ p \<Longrightarrow> home p = home' p"
  shows "probe_ok n occ home = probe_ok n occ' home'"
proof (cases "n = 0")
  case False
  then have "occ ((h + j) mod n) = occ' ((h + j) mod n)" for h j
    using assms(1) by simp
  then show ?thesis using assms unfolding probe_ok_def by (auto 4 0)
qed (simp add: probe_ok_def)

lemma probe_ok_empty [simp]: "probe_ok n (\<lambda>_. False) home"
  by (simp add: probe_ok_def)

lemma probe_find_hit:
  assumes ok: "probe_ok n occ home" and n: "n = 2 ^ k" and p: "p < n" "occ p" "hit p"
    and h: "home p = h" and unique: "\<And>q. q < n \<Longrightarrow> occ q \<Longrightarrow> hit q \<Longrightarrow> q = p"
  shows "probe_find occ hit (n - 1) (h mod n) n = Some p"
proof -
  obtain d where d: "d < n" "(h + d) mod n = p" "\<forall>j<d. occ ((h + j) mod n)"
    using ok p h unfolding probe_ok_def by blast
  have "\<not> hit ((h + j) mod n)" if "j < d" for j
  proof
    assume "hit ((h + j) mod n)"
    then have "(h + j) mod n = p"
      using unique [of "(h + j) mod n"] d(3) that p(1) by simp
    then have "j = d" using cyclic_inj [of h j n d] d that by simp
    then show False using that by simp
  qed
  then show ?thesis
    using probe_find_at [OF n, of d occ h hit n] d p by simp
qed

lemma probe_find_miss:
  assumes "n = 2 ^ k" "\<And>q. q < n \<Longrightarrow> occ q \<Longrightarrow> \<not> hit q"
  shows "probe_find occ hit (n - 1) (h mod n) m = None"
  using probe_find_Some [OF assms(1), of occ hit h m] assms(2)
  by (cases "probe_find occ hit (n - 1) (h mod n) m") auto

lemma probe_insert_ok:
  assumes ok: "probe_ok n occ home" and n: "n = 2 ^ k" and free: "q < n" "\<not> occ q"
  obtains p where "p < n" "\<not> occ p" "probe_free occ (n - 1) (h mod n) = Some p"
    "probe_ok n (occ(p := True)) (home(p := h))"
proof -
  obtain i where i: "i < n" "\<And>j. j < i \<Longrightarrow> occ ((h + j) mod n)" "\<not> occ ((h + i) mod n)"
    "probe_free occ (n - 1) (h mod n) = Some ((h + i) mod n)"
    by (rule probe_free_returns [of n k q occ h]) (use n free in auto)
  let ?p = "(h + i) mod n"
  have "probe_ok n (occ(?p := True)) (home(?p := h))"
    unfolding probe_ok_def
  proof (intro allI impI)
    fix q assume q: "q < n" "(occ(?p := True)) q"
    show "\<exists>d<n. ((home(?p := h)) q + d) mod n = q \<and>
        (\<forall>j<d. (occ(?p := True)) (((home(?p := h)) q + j) mod n))"
    proof (cases "q = ?p")
      case True
      then show ?thesis using i by (intro exI [of _ i]) simp
    next
      case False
      then obtain d where "d < n" "(home q + d) mod n = q" "\<forall>j<d. occ ((home q + j) mod n)"
        using q ok unfolding probe_ok_def by auto
      then show ?thesis using False by (intro exI [of _ d]) simp
    qed
  qed
  then show thesis using that [of ?p] i by simp
qed

section \<open>The capacity loop\<close>

lemma capacity_loop_fits:
  assumes "j \<le> 63" "minimum \<le> 2 ^ 63"
  shows "\<exists>i\<ge>j. i \<le> 63 \<and> capacity_loop (2 ^ j) minimum = Some (2 ^ i) \<and> minimum \<le> 2 ^ i"
  using assms(1)
proof (induction "63 - j" arbitrary: j)
  case 0
  then have "j = 63" by simp
  then show ?case using assms(2) by (subst capacity_loop.simps) auto
next
  case (Suc d)
  show ?case
  proof (cases "(2 ^ j :: nat) < minimum")
    case True
    have "\<exists>i\<ge>Suc j. i \<le> 63 \<and> capacity_loop (2 ^ Suc j) minimum = Some (2 ^ i) \<and> minimum \<le> 2 ^ i"
      using Suc.hyps by (intro Suc.hyps(1)) auto
    moreover have "(2 ^ j :: nat) \<le> 2 ^ 62"
      using Suc.hyps(2) by (intro power_increasing) auto
    then have "\<not> (2 ^ j :: nat) > size_max div 2" by simp
    ultimately show ?thesis
      using True by (subst capacity_loop.simps) (auto simp: mult.commute intro: Suc_leD)
  next
    case False
    then show ?thesis using Suc.prems by (subst capacity_loop.simps) auto
  qed
qed

lemma capacity_loop_overflow:
  assumes "j \<le> 63" "2 ^ 63 < minimum"
  shows "capacity_loop (2 ^ j) minimum = Some 0"
  using assms(1)
proof (induction "63 - j" arbitrary: j)
  case 0
  then have "j = 63" by simp
  then show ?case using assms(2) by (subst capacity_loop.simps) auto
next
  case (Suc d)
  have small: "(2 ^ j :: nat) \<le> 2 ^ 62"
    using Suc.hyps(2) by (intro power_increasing) auto
  then have "(2 ^ j :: nat) < minimum" "\<not> (2 ^ j :: nat) > size_max div 2"
    using assms(2) by simp_all
  moreover have "capacity_loop (2 ^ Suc j) minimum = Some 0"
    using Suc.hyps by (intro Suc.hyps(1)) auto
  ultimately show ?case by (subst capacity_loop.simps) (auto simp: mult.commute)
qed

lemma next_index_capacity_fits:
  assumes "0 < required" "required \<le> 2 ^ 62"
  obtains k where "next_index_capacity required = Some (2 ^ k)" "required * 2 \<le> 2 ^ k"
proof -
  obtain i where "capacity_loop (2 ^ 3) (required * 2) = Some (2 ^ i)" "required * 2 \<le> 2 ^ i"
    using capacity_loop_fits [of 3 "required * 2"] assms(2) by auto
  then show thesis
    using that [of i] assms by (simp add: next_index_capacity_def)
qed

lemma next_index_capacity_overflow:
  "2 ^ 62 < required \<Longrightarrow> next_index_capacity required = Some 0"
  using capacity_loop_overflow [of 3 "required * 2"] by (simp add: next_index_capacity_def)

lemma next_index_capacity_cases:
  obtains "next_index_capacity required = Some 0"
  | k where "0 < required" "next_index_capacity required = Some (2 ^ k)" "required * 2 \<le> 2 ^ k"
proof -
  consider "required = 0" | "2 ^ 62 < required" | "0 < required" "required \<le> 2 ^ 62"
    by linarith
  then show thesis
  proof cases
    case 1 then show ?thesis using that(1) by (simp add: next_index_capacity_def)
  next
    case 2 then show ?thesis using that(1) next_index_capacity_overflow by blast
  next
    case 3 then show ?thesis by (rule next_index_capacity_fits) (use 3 that(2) in blast)
  qed
qed

section \<open>Slot tables\<close>

text \<open>
  A vector of slots of which some are occupied. \<open>slot_insert\<close> is the insertion loop
  followed by the assignment; \<open>slot_find\<close> the bounded look-up.
\<close>

definition slot_free :: "('s \<Rightarrow> bool) \<Rightarrow> 's list \<Rightarrow> nat \<Rightarrow> nat option" where
  "slot_free occupied target hash =
     probe_free (\<lambda>i. occupied (target ! i)) (length target - 1) (hash AND (length target - 1))"

definition slot_insert :: "('s \<Rightarrow> bool) \<Rightarrow> 's list \<Rightarrow> nat \<Rightarrow> 's \<Rightarrow> 's list option" where
  "slot_insert occupied target hash slot =
     map_option (\<lambda>p. target[p := slot]) (slot_free occupied target hash)"

definition slot_find :: "('s \<Rightarrow> bool) \<Rightarrow> ('s \<Rightarrow> bool) \<Rightarrow> 's list \<Rightarrow> nat \<Rightarrow> 's option" where
  "slot_find occupied hit target hash =
     map_option (\<lambda>p. target ! p)
       (probe_find (\<lambda>i. occupied (target ! i)) (\<lambda>i. hit (target ! i)) (length target - 1)
          (hash AND (length target - 1)) (length target))"

fun slot_insert_all :: "('s \<Rightarrow> bool) \<Rightarrow> ('s \<Rightarrow> nat) \<Rightarrow> 's list \<Rightarrow> 's list \<Rightarrow> 's list option" where
  "slot_insert_all occupied home target [] = Some target"
| "slot_insert_all occupied home target (s # ss) =
     Option.bind (slot_insert occupied target (home s) s)
       (\<lambda>target'. slot_insert_all occupied home target' ss)"

definition table_ok :: "('s \<Rightarrow> bool) \<Rightarrow> ('s \<Rightarrow> nat) \<Rightarrow> 's list \<Rightarrow> bool" where
  "table_ok occupied home target \<longleftrightarrow>
     (\<exists>k. length target = 2 ^ k) \<and>
     probe_ok (length target) (\<lambda>i. occupied (target ! i)) (\<lambda>i. home (target ! i))"

lemma mset_filter_update:
  assumes "p < length xs" "\<not> P (xs ! p)" "P x"
  shows "mset (filter P (xs[p := x])) = add_mset x (mset (filter P xs))"
  using assms by (simp add: mset_update)

lemma entries_position_unique:
  assumes "distinct (filter P xs)" "p < length xs" "q < length xs" "xs ! p = xs ! q" "P (xs ! p)"
  shows "p = q"
  using assms
proof (induction xs arbitrary: p q)
  case (Cons x xs)
  then show ?case
    by (cases p; cases q) (auto split: if_splits dest: nth_mem)
qed simp

text \<open>
  \<^verbatim>\<open>preprocessor::position\<close>: probe until the position is empty or holds a matching entry.
\<close>

definition slot_position :: "('s \<Rightarrow> bool) \<Rightarrow> ('s \<Rightarrow> bool) \<Rightarrow> 's list \<Rightarrow> nat \<Rightarrow> nat option" where
  "slot_position occupied hit target hash =
     probe_free (\<lambda>i. occupied (target ! i) \<and> \<not> hit (target ! i)) (length target - 1)
       (hash AND (length target - 1))"

text \<open>
  Deletion in \<^verbatim>\<open>preprocessor::undefine\<close>: after a slot is cleared, the entries that follow it up
  to the next empty position are taken out and inserted again, one after the other.
\<close>

partial_function (option) reinsert_cluster ::
    "('s \<Rightarrow> bool) \<Rightarrow> ('s \<Rightarrow> nat) \<Rightarrow> 's \<Rightarrow> 's list \<Rightarrow> nat \<Rightarrow> 's list option" where
  "reinsert_cluster occupied home blank target current =
     (if occupied (target ! current)
      then Option.bind (slot_insert occupied (target[current := blank]) (home (target ! current)) (target ! current))
             (\<lambda>target'. reinsert_cluster occupied home blank target' ((current + 1) AND (length target - 1)))
      else Some target)"

text \<open>
  Positions are counted from an empty position \<open>e\<close>. \<open>homed\<close>: the home of an entry comes before
  it, without wrapping at \<open>e\<close>; \<open>reach_upto\<close>: the entries among the first \<open>b\<close> positions are
  reachable from their homes.
\<close>

definition homed :: "('s \<Rightarrow> bool) \<Rightarrow> ('s \<Rightarrow> nat) \<Rightarrow> 's list \<Rightarrow> nat \<Rightarrow> bool" where
  "homed occupied home t e \<longleftrightarrow>
     (\<forall>c<length t. occupied (t ! ((e + c) mod length t)) \<longrightarrow>
        (\<exists>h. 0 < h \<and> h \<le> c \<and> home (t ! ((e + c) mod length t)) mod length t = (e + h) mod length t))"

definition reach_upto :: "('s \<Rightarrow> bool) \<Rightarrow> ('s \<Rightarrow> nat) \<Rightarrow> 's list \<Rightarrow> nat \<Rightarrow> nat \<Rightarrow> bool" where
  "reach_upto occupied home t e b \<longleftrightarrow>
     (\<forall>c<b. occupied (t ! ((e + c) mod length t)) \<longrightarrow>
        (\<exists>h. 0 < h \<and> h \<le> c \<and> home (t ! ((e + c) mod length t)) mod length t = (e + h) mod length t \<and>
           (\<forall>j. h \<le> j \<and> j < c \<longrightarrow> occupied (t ! ((e + j) mod length t)))))"

lemma reach_upto_homed: "reach_upto occupied home t e (length t) \<Longrightarrow> homed occupied home t e"
  unfolding reach_upto_def homed_def by blast

lemma table_ok_reach:
  assumes ok: "table_ok occupied home t" and e: "e < length t" "\<not> occupied (t ! e)"
  shows "reach_upto occupied home t e (length t)"
  unfolding reach_upto_def
proof (intro allI impI)
  let ?n = "length t"
  fix c assume c: "c < ?n" "occupied (t ! ((e + c) mod ?n))"
  let ?p = "(e + c) mod ?n"
  have p: "?p < ?n" using e(1) by (intro mod_less_divisor) linarith
  obtain d where d: "d < ?n" "(home (t ! ?p) + d) mod ?n = ?p"
    "\<forall>j<d. occupied (t ! ((home (t ! ?p) + j) mod ?n))"
    using ok p c(2) unfolding table_ok_def probe_ok_def by blast
  have c0: "0 < c" using c e by (cases c) auto
  have "d < c"
  proof (rule ccontr)
    assume "\<not> d < c"
    then have dc: "d = d - c + c" by simp
    have "(home (t ! ?p) + (d - c) + c) mod ?n = (e + c) mod ?n"
      using d(2) dc by (metis add.assoc)
    then have "(home (t ! ?p) + (d - c)) mod ?n = e mod ?n"
      by (simp only: mod_add_right_cancel)
    moreover have "d - c < d" using dc c0 by linarith
    ultimately show False using d(3) e by auto
  qed
  then have cd: "c = c - d + d" by simp
  have "(home (t ! ?p) + d) mod ?n = (e + (c - d) + d) mod ?n"
    using d(2) cd by (metis add.assoc)
  then have h: "home (t ! ?p) mod ?n = (e + (c - d)) mod ?n"
    by (simp only: mod_add_right_cancel)
  have "occupied (t ! ((e + j) mod ?n))" if "c - d \<le> j" "j < c" for j
  proof -
    have "(home (t ! ?p) + (j - (c - d))) mod ?n = (e + (c - d) + (j - (c - d))) mod ?n"
      using h by (metis mod_add_left_eq)
    then show ?thesis using d(3) that by (auto dest!: spec [of _ "j - (c - d)"])
  qed
  then show "\<exists>h>0. h \<le> c \<and> home (t ! ?p) mod ?n = (e + h) mod ?n \<and>
      (\<forall>j. h \<le> j \<and> j < c \<longrightarrow> occupied (t ! ((e + j) mod ?n)))"
    using h \<open>d < c\<close> by (intro exI [of _ "c - d"]) auto
qed

lemma reach_table_ok:
  assumes reach: "reach_upto occupied home t e (length t)" and k: "length t = 2 ^ k"
  shows "table_ok occupied home t"
  unfolding table_ok_def probe_ok_def
proof (intro conjI allI impI)
  let ?n = "length t"
  fix p assume p: "p < ?n" "occupied (t ! p)"
  obtain c where c: "c < ?n" "(e + c) mod ?n = p" by (rule cyclic_surj [OF p(1)])
  obtain h where h: "0 < h" "h \<le> c" "home (t ! p) mod ?n = (e + h) mod ?n"
    "\<forall>j. h \<le> j \<and> j < c \<longrightarrow> occupied (t ! ((e + j) mod ?n))"
    using reach c p unfolding reach_upto_def by blast
  have at: "(home (t ! p) + j) mod ?n = (e + (h + j)) mod ?n" for j
    using h(3) by (metis add.assoc mod_add_left_eq)
  show "\<exists>d<?n. (home (t ! p) + d) mod ?n = p \<and> (\<forall>j<d. occupied (t ! ((home (t ! p) + j) mod ?n)))"
    using c h unfolding at by (intro exI [of _ "c - h"]) auto
qed (use k in blast)

lemma cyclic_eq_iff:
  assumes "i < n" "j < n"
  shows "(e + i) mod n = (e + j) mod (n :: nat) \<longleftrightarrow> i = j"
  using cyclic_inj assms by blast

text \<open>The contract of a slot type: what is occupied, where it belongs, and a blank slot.\<close>

locale slot_table =
  fixes occupied :: "'s \<Rightarrow> bool" and home :: "'s \<Rightarrow> nat" and blank :: "'s"
  assumes blank_free: "\<not> occupied blank"
begin

abbreviation "entries target \<equiv> filter occupied target"

lemma table_ok_blank: "table_ok occupied home (replicate (2 ^ k) blank)"
  unfolding table_ok_def
  by (auto simp: blank_free probe_ok_def)

lemma entries_blank [simp]: "entries (replicate n blank) = []"
  by (simp add: blank_free)

lemma insert_ok:
  assumes ok: "table_ok occupied home target" and room: "length (entries target) < length target"
    and s: "occupied s" "home s = h"
  obtains target' where "slot_insert occupied target h s = Some target'"
    "table_ok occupied home target'" "length target' = length target"
    "mset (entries target') = add_mset s (mset (entries target))"
proof -
  obtain k where k: "length target = 2 ^ k" using ok by (auto simp: table_ok_def)
  have "\<exists>q<length target. \<not> occupied (target ! q)"
    using room by (metis filter_True in_set_conv_nth less_irrefl)
  then obtain q where q: "q < length target" "\<not> occupied (target ! q)" by blast
  let ?n = "length target" and ?occ = "\<lambda>i. occupied (target ! i)" and ?home = "\<lambda>i. home (target ! i)"
  obtain p where p: "p < ?n" "\<not> ?occ p" "probe_free ?occ (?n - 1) (h mod ?n) = Some p"
    "probe_ok ?n (?occ(p := True)) (?home(p := h))"
    by (rule probe_insert_ok [of ?n ?occ ?home k q h]) (use ok k q in \<open>auto simp: table_ok_def\<close>)
  let ?t = "target[p := s]"
  have "probe_ok ?n (\<lambda>i. occupied (?t ! i)) (\<lambda>i. home (?t ! i)) =
      probe_ok ?n (?occ(p := True)) (?home(p := h))"
    by (rule probe_ok_cong) (auto simp: nth_list_update s)
  then have "table_ok occupied home ?t" using p(4) k by (auto simp: table_ok_def)
  moreover have "slot_insert occupied target h s = Some ?t"
    by (simp only: slot_insert_def slot_free_def mask_home [OF k] p(3) option.map)
  moreover have "mset (entries ?t) = add_mset s (mset (entries target))"
    using p(1,2) s(1) by (intro mset_filter_update)
  ultimately show thesis using that [of ?t] by simp
qed

lemma insert_all_ok:
  assumes "table_ok occupied home target"
    and "length (entries target) + length ss < length target" and "\<forall>s\<in>set ss. occupied s"
  shows "\<exists>target'. slot_insert_all occupied home target ss = Some target' \<and>
    table_ok occupied home target' \<and> length target' = length target \<and>
    mset (entries target') = mset (entries target) + mset ss"
  using assms
proof (induction ss arbitrary: target)
  case (Cons s ss)
  obtain t where t: "slot_insert occupied target (home s) s = Some t" "table_ok occupied home t"
    "length t = length target" "mset (entries t) = add_mset s (mset (entries target))"
    by (rule insert_ok [of target s "home s"]) (use Cons.prems in auto)
  have "length (entries t) = Suc (length (entries target))"
    by (metis size_add_mset size_mset t(4))
  then have "\<exists>target'. slot_insert_all occupied home t ss = Some target' \<and>
    table_ok occupied home target' \<and> length target' = length t \<and>
    mset (entries target') = mset (entries t) + mset ss"
    using Cons.prems t by (intro Cons.IH) auto
  then show ?case using t by auto
qed simp

lemma find_hit:
  assumes ok: "table_ok occupied home target" and s: "s \<in> set target" "occupied s" "hit s" "home s = h"
    and dist: "distinct (entries target)"
    and unique: "\<And>t. t \<in> set target \<Longrightarrow> occupied t \<Longrightarrow> hit t \<Longrightarrow> t = s"
  shows "slot_find occupied hit target h = Some s"
proof -
  obtain k where k: "length target = 2 ^ k" using ok by (auto simp: table_ok_def)
  obtain p where p: "p < length target" "target ! p = s" using s(1) by (auto simp: in_set_conv_nth)
  have "probe_find (\<lambda>i. occupied (target ! i)) (\<lambda>i. hit (target ! i)) (length target - 1)
      (h mod length target) (length target) = Some p"
  proof (rule probe_find_hit [where home = "\<lambda>i. home (target ! i)"])
    show "q = p" if "q < length target" "occupied (target ! q)" "hit (target ! q)" for q
      using entries_position_unique [OF dist, of q p] unique [of "target ! q"] that p by simp
  qed (use ok k p s in \<open>auto simp: table_ok_def\<close>)
  then show ?thesis
    using p by (simp only: slot_find_def mask_home [OF k] option.map)
qed

lemma find_sound:
  assumes "\<exists>k. length target = 2 ^ k" and "slot_find occupied hit target h = Some s"
  shows "s \<in> set target \<and> occupied s \<and> hit s"
proof -
  obtain k where k: "length target = 2 ^ k" using assms(1) by auto
  obtain p where "probe_find (\<lambda>i. occupied (target ! i)) (\<lambda>i. hit (target ! i)) (length target - 1)
      (h mod length target) (length target) = Some p" "s = target ! p"
    using assms(2) by (auto simp only: slot_find_def mask_home [OF k] map_option_eq_Some)
  then show ?thesis using probe_find_Some [OF k] by fastforce
qed

lemma find_miss:
  assumes "\<exists>k. length target = 2 ^ k" and "\<And>t. t \<in> set target \<Longrightarrow> occupied t \<Longrightarrow> \<not> hit t"
  shows "slot_find occupied hit target h = None"
  using find_sound [OF assms(1), of hit h] assms(2)
  by (cases "slot_find occupied hit target h") auto

lemma update_entries_same:
  assumes "p < length t" "\<not> occupied (t ! p)" "occupied s"
  shows "mset (entries (t[p := s])) = add_mset s (mset (entries t))"
  using assms by (intro mset_filter_update)

lemma blank_entries:
  assumes "p < length t" "occupied (t ! p)"
  shows "mset (entries t) = add_mset (t ! p) (mset (entries (t[p := blank])))"
  using update_entries_same [of p "t[p := blank]" "t ! p"] assms by (simp add: blank_free)

lemma homed_blank: "homed occupied home t e \<Longrightarrow> homed occupied home (t[p := blank]) e"
  unfolding homed_def length_list_update
proof (intro allI impI)
  fix c
  assume hm: "\<forall>c<length t. occupied (t ! ((e + c) mod length t)) \<longrightarrow>
      (\<exists>h>0. h \<le> c \<and> home (t ! ((e + c) mod length t)) mod length t = (e + h) mod length t)"
    and c: "c < length t" "occupied (t[p := blank] ! ((e + c) mod length t))"
  have "(e + c) mod length t < length t" using c(1) by (intro mod_less_divisor) linarith
  then have "t[p := blank] ! ((e + c) mod length t) = t ! ((e + c) mod length t)"
    using c(2) by (cases "p = (e + c) mod length t") (simp_all add: blank_free)
  then show "\<exists>h>0. h \<le> c \<and> home (t[p := blank] ! ((e + c) mod length t)) mod length t = (e + h) mod length t"
    using hm c by auto
qed

lemma reach_blank:
  assumes reach: "reach_upto occupied home t e b" and b: "c \<le> b" "c < length t"
  shows "reach_upto occupied home (t[(e + c) mod length t := blank]) e (Suc c)"
  unfolding reach_upto_def
proof (intro allI impI)
  let ?n = "length t" and ?t = "t[(e + c) mod length t := blank]"
  fix i assume i: "i < Suc c" "occupied (?t ! ((e + i) mod length ?t))"
  have at: "(e + c) mod ?n < ?n" using b(2) by (intro mod_less_divisor) linarith
  have ic: "i < c" using i at by (cases "i = c") (auto simp: blank_free)
  have same: "?t ! ((e + j) mod ?n) = t ! ((e + j) mod ?n)" if "j < c" for j
    using cyclic_eq_iff [of c ?n j e] that b(2) by (simp add: nth_list_update)
  obtain h where h: "0 < h" "h \<le> i" "home (t ! ((e + i) mod ?n)) mod ?n = (e + h) mod ?n"
    "\<forall>j. h \<le> j \<and> j < i \<longrightarrow> occupied (t ! ((e + j) mod ?n))"
  proof -
    have "i < b" "occupied (t ! ((e + i) mod ?n))" using i(2) ic b(1) same [OF ic] by simp_all
    then show ?thesis using reach that unfolding reach_upto_def by blast
  qed
  then show "\<exists>h>0. h \<le> i \<and> home (?t ! ((e + i) mod length ?t)) mod length ?t = (e + h) mod length ?t \<and>
      (\<forall>j. h \<le> j \<and> j < i \<longrightarrow> occupied (?t ! ((e + j) mod length ?t)))"
    using same ic by (intro exI [of _ h]) auto
qed

lemma reinsert_step:
  assumes k: "length t = 2 ^ k" and c: "0 < c" "c < length t"
    and reach: "reach_upto occupied home t e c" and hm: "homed occupied home t e"
    and occ: "occupied (t ! ((e + c) mod length t))"
  obtains t' where "slot_insert occupied (t[(e + c) mod length t := blank])
      (home (t ! ((e + c) mod length t))) (t ! ((e + c) mod length t)) = Some t'"
    "length t' = length t" "mset (entries t') = mset (entries t)"
    "reach_upto occupied home t' e (Suc c)" "homed occupied home t' e"
    "t' ! (e mod length t) = t ! (e mod length t)"
    "\<And>j. c < j \<Longrightarrow> j < length t \<Longrightarrow> t' ! ((e + j) mod length t) = t ! ((e + j) mod length t)"
proof -
  let ?n = "length t" and ?s = "t ! ((e + c) mod length t)"
  let ?b = "t[(e + c) mod length t := blank]"
  let ?occ = "\<lambda>i. occupied (?b ! i)"
  have pos: "(e + i) mod ?n < ?n" for i using c by (intro mod_less_divisor) linarith
  obtain h where h: "0 < h" "h \<le> c" "home ?s mod ?n = (e + h) mod ?n"
    using hm occ c unfolding homed_def by blast
  define i where "i = (LEAST i. \<not> ?occ ((e + h + i) mod ?n))"
  have at_c: "\<not> ?occ ((e + h + (c - h)) mod ?n)" using h pos [of c] by (simp add: blank_free)
  have free: "\<not> ?occ ((e + h + i) mod ?n)" unfolding i_def
    by (rule LeastI [where P = "\<lambda>i. \<not> ?occ ((e + h + i) mod ?n)", OF at_c])
  have ic: "h + i \<le> c" using Least_le [of "\<lambda>i. \<not> ?occ ((e + h + i) mod ?n)", OF at_c] h unfolding i_def by linarith
  have below: "?occ ((e + h + j) mod ?n)" if "j < i" for j
    using not_less_Least [of j "\<lambda>i. \<not> ?occ ((e + h + i) mod ?n)"] that unfolding i_def by blast
  let ?p = "(e + (h + i)) mod ?n" and ?t' = "?b[(e + (h + i)) mod ?n := ?s]"
  have "probe_free ?occ (?n - 1) ((e + h) mod ?n) = Some ((e + h + i) mod ?n)"
    by (rule probe_free_at [where occ = ?occ and h = "e + h" and i = i, OF k below free])
  then have ins: "slot_insert occupied ?b (home ?s) ?s = Some ?t'"
    by (simp only: slot_insert_def slot_free_def length_list_update mask_home [OF k] h(3) option.map add.assoc)
  have ms: "mset (entries ?t') = mset (entries t)"
    using update_entries_same [of ?p ?b ?s] blank_entries [of "(e + c) mod ?n" t] pos free occ
    by (simp add: add.assoc)
  have same: "?t' ! ((e + j) mod ?n) = ?b ! ((e + j) mod ?n)" if "j < ?n" "j \<noteq> h + i" for j
    using cyclic_eq_iff [of "h + i" ?n j e] that ic c by (simp add: nth_list_update)
  have same2: "?b ! ((e + j) mod ?n) = t ! ((e + j) mod ?n)" if "j < ?n" "j \<noteq> c" for j
    using cyclic_eq_iff [of c ?n j e] that c by (simp add: nth_list_update)
  have new: "?t' ! ?p = ?s" using pos by simp
  have mono: "occupied (?t' ! q)" if "?occ q" for q
    using that occ new by (cases "q = ?p") simp_all
  have rc: "reach_upto occupied home ?t' e (Suc c)"
    unfolding reach_upto_def
  proof (intro allI impI)
    fix j assume j: "j < Suc c" "occupied (?t' ! ((e + j) mod length ?t'))"
    show "\<exists>h>0. h \<le> j \<and> home (?t' ! ((e + j) mod length ?t')) mod length ?t' = (e + h) mod length ?t' \<and>
       (\<forall>ja. h \<le> ja \<and> ja < j \<longrightarrow> occupied (?t' ! ((e + ja) mod length ?t')))"
    proof (cases "j = h + i")
      case True
      have "occupied (?t' ! ((e + ja) mod ?n))" if "h \<le> ja" "ja < j" for ja
        using mono below [of "ja - h"] that True by (simp add: add.assoc)
      then show ?thesis using True new h by (intro exI [of _ h]) simp
    next
      case False
      then have b: "?t' ! ((e + j) mod ?n) = ?b ! ((e + j) mod ?n)" using same j c by simp
      obtain h' where "0 < h'" "h' \<le> j" "home (?b ! ((e + j) mod ?n)) mod ?n = (e + h') mod ?n"
        "\<forall>ja. h' \<le> ja \<and> ja < j \<longrightarrow> ?occ ((e + ja) mod ?n)"
        using reach_blank [OF reach order.refl c(2)] j b unfolding reach_upto_def by auto
      then show ?thesis using b mono by (intro exI [of _ h']) simp
    qed
  qed
  have hm': "homed occupied home ?t' e"
    unfolding homed_def
  proof (intro allI impI)
    fix j assume j: "j < length ?t'" "occupied (?t' ! ((e + j) mod length ?t'))"
    show "\<exists>h>0. h \<le> j \<and> home (?t' ! ((e + j) mod length ?t')) mod length ?t' = (e + h) mod length ?t'"
    proof (cases "j = h + i")
      case True
      then show ?thesis using new h by (intro exI [of _ h]) simp
    next
      case False
      then have "?t' ! ((e + j) mod ?n) = ?b ! ((e + j) mod ?n)" using same j by simp
      then show ?thesis using homed_blank [OF hm, of "(e + c) mod ?n"] j unfolding homed_def by simp
    qed
  qed
  have zero: "?t' ! (e mod ?n) = t ! (e mod ?n)"
    using same [of 0] same2 [of 0] c h by (cases "t = []") simp_all
  have above: "?t' ! ((e + j) mod ?n) = t ! ((e + j) mod ?n)" if "c < j" "j < ?n" for j
    using same [of j] same2 [of j] ic that by simp
  show thesis
    by (rule that [OF ins _ ms rc hm' zero above]) simp_all
qed

lemma reinsert_cluster_ok:
  assumes "length t = 2 ^ k" "0 < c" "c \<le> length t" "reach_upto occupied home t e c"
    "homed occupied home t e" "\<not> occupied (t ! (e mod length t))"
    "\<And>j. c \<le> j \<Longrightarrow> j < length t \<Longrightarrow> occupied (t ! ((e + j) mod length t))"
  shows "\<exists>t'. reinsert_cluster occupied home blank t ((e + c) mod length t) = Some t' \<and>
    table_ok occupied home t' \<and> length t' = length t \<and> mset (entries t') = mset (entries t)"
  using assms
proof (induction "length t - c" arbitrary: t c)
  case 0
  then have c: "c = length t" by simp
  then have "reinsert_cluster occupied home blank t ((e + c) mod length t) = Some t"
    using 0 by (subst reinsert_cluster.simps) simp
  then show ?case using reach_table_ok [of occupied home t e k] 0 c by simp
next
  case (Suc m)
  have cn: "c < length t" using Suc.hyps(2) by linarith
  have occ: "occupied (t ! ((e + c) mod length t))" using Suc.prems cn by blast
  obtain t' where t': "slot_insert occupied (t[(e + c) mod length t := blank])
      (home (t ! ((e + c) mod length t))) (t ! ((e + c) mod length t)) = Some t'"
    "length t' = length t" "mset (entries t') = mset (entries t)"
    "reach_upto occupied home t' e (Suc c)" "homed occupied home t' e"
    "t' ! (e mod length t) = t ! (e mod length t)"
    "\<And>j. c < j \<Longrightarrow> j < length t \<Longrightarrow> t' ! ((e + j) mod length t) = t ! ((e + j) mod length t)"
    by (rule reinsert_step [OF Suc.prems(1,2) cn Suc.prems(4,5) occ]) blast
  have "\<exists>t''. reinsert_cluster occupied home blank t' ((e + Suc c) mod length t') = Some t'' \<and>
    table_ok occupied home t'' \<and> length t'' = length t' \<and> mset (entries t'') = mset (entries t')"
    using Suc.prems Suc.hyps(2) cn t' by (intro Suc.hyps(1)) auto
  moreover have "((e + c) mod length t + 1) AND (length t - 1) = (e + Suc c) mod length t"
    using mask_step [OF Suc.prems(1), of "e + c"] by simp
  ultimately show ?case
    using t' occ by (subst reinsert_cluster.simps) auto
qed

text \<open>Clearing an entry and reinserting the cluster behind it removes exactly that entry.\<close>

lemma delete_ok:
  assumes ok: "table_ok occupied home t" and room: "length (entries t) < length t"
    and p: "p < length t" "occupied (t ! p)"
  obtains t' where "reinsert_cluster occupied home blank (t[p := blank]) ((p + 1) AND (length t - 1)) = Some t'"
    "table_ok occupied home t'" "length t' = length t"
    "mset (entries t) = add_mset (t ! p) (mset (entries t'))"
proof -
  let ?n = "length t"
  obtain k where k: "?n = 2 ^ k" using ok by (auto simp: table_ok_def)
  have "\<exists>q<?n. \<not> occupied (t ! q)"
    using room by (metis filter_True in_set_conv_nth less_irrefl)
  then obtain q where q: "q < ?n" "\<not> occupied (t ! q)" by blast
  obtain i where i: "i < ?n" "\<And>j. j < i \<Longrightarrow> occupied (t ! ((p + 1 + j) mod ?n))"
    "\<not> occupied (t ! ((p + 1 + i) mod ?n))"
    by (rule probe_free_returns [of ?n k q "\<lambda>i. occupied (t ! i)" "p + 1"]) (use k q in auto)
  let ?e = "(p + 1 + i) mod ?n" and ?c = "?n - 1 - i" and ?b = "t[p := blank]"
  have e: "?e < ?n" using p by (intro mod_less_divisor) linarith
  have shift: "(?e + (?c + j)) mod ?n = (p + j) mod ?n" for j
  proof -
    have "(?e + (?c + j)) mod ?n = (p + 1 + i + (?c + j)) mod ?n" by (rule mod_add_left_eq)
    also have "p + 1 + i + (?c + j) = p + j + ?n" using i(1) by linarith
    finally show ?thesis by simp
  qed
  have pe: "(?e + ?c) mod ?n = p" using shift [of 0] p by simp
  have c: "0 < ?c"
  proof (rule ccontr)
    assume "\<not> 0 < ?c"
    then have "?e = p" using pe e by simp
    then show False using i(3) p(2) by simp
  qed
  have reach: "reach_upto occupied home t ?e ?n" by (rule table_ok_reach [OF ok e i(3)])
  have "reach_upto occupied home ?b ?e (Suc ?c)"
    using reach_blank [OF reach, of ?c] pe p by simp
  moreover have "homed occupied home ?b ?e" by (rule homed_blank [OF reach_upto_homed [OF reach]])
  moreover have "?b ! ?e = t ! ?e" using pe i(3) p by (auto simp: nth_list_update)
  moreover have "occupied (?b ! ((?e + j) mod ?n))" if "Suc ?c \<le> j" "j < ?n" for j
  proof -
    have "?c + (j - ?c) = j" "p + (j - ?c) = p + 1 + (j - Suc ?c)" using that(1) by linarith+
    then have "(?e + j) mod ?n = (p + 1 + (j - Suc ?c)) mod ?n" using shift [of "j - ?c"] by metis
    moreover have "j - Suc ?c < i" using that i(1) by linarith
    moreover have "(?e + j) mod ?n \<noteq> p"
      using cyclic_eq_iff [of j ?n ?c ?e] pe that by auto
    ultimately show ?thesis using i(2) by (metis nth_list_update_neq)
  qed
  ultimately have "\<exists>t'. reinsert_cluster occupied home blank ?b ((?e + Suc ?c) mod length ?b) = Some t' \<and>
    table_ok occupied home t' \<and> length t' = length ?b \<and> mset (entries t') = mset (entries ?b)"
    using k c i e p by (intro reinsert_cluster_ok) auto
  moreover have "(?e + Suc ?c) mod ?n = (p + 1) AND (?n - 1)"
    using shift [of 1] mask_home [OF k, of "p + 1"] by simp
  ultimately show thesis using that blank_entries [OF p] by auto
qed

lemma position_hit:
  assumes ok: "table_ok occupied home t" and p: "p < length t" "occupied (t ! p)" "hit (t ! p)" "home (t ! p) = h"
    and unique: "\<And>q. q < length t \<Longrightarrow> occupied (t ! q) \<Longrightarrow> hit (t ! q) \<Longrightarrow> q = p"
  shows "slot_position occupied hit t h = Some p"
proof -
  let ?n = "length t"
  obtain k where k: "?n = 2 ^ k" using ok by (auto simp: table_ok_def)
  obtain d where d: "d < ?n" "(h + d) mod ?n = p" "\<forall>j<d. occupied (t ! ((h + j) mod ?n))"
    using ok p unfolding table_ok_def probe_ok_def by blast
  have "\<not> hit (t ! ((h + j) mod ?n))" if "j < d" for j
  proof
    assume hit: "hit (t ! ((h + j) mod ?n))"
    have "(h + j) mod ?n < ?n" using p(1) by (intro mod_less_divisor) linarith
    then have "(h + j) mod ?n = p" using unique hit d(3) that by blast
    then show False using cyclic_inj [of h j ?n d] d that by simp
  qed
  then have "probe_free (\<lambda>i. occupied (t ! i) \<and> \<not> hit (t ! i)) (?n - 1) (h mod ?n) = Some ((h + d) mod ?n)"
    using d p by (intro probe_free_at [OF k]) auto
  then show ?thesis by (simp only: slot_position_def mask_home [OF k] d(2))
qed

lemma position_miss:
  assumes ok: "table_ok occupied home t" and room: "length (entries t) < length t"
    and miss: "\<And>q. q < length t \<Longrightarrow> occupied (t ! q) \<Longrightarrow> \<not> hit (t ! q)"
  obtains p where "slot_position occupied hit t h = Some p" "p < length t" "\<not> occupied (t ! p)"
    "\<And>s. occupied s \<Longrightarrow> home s = h \<Longrightarrow> table_ok occupied home (t[p := s])"
proof -
  let ?n = "length t" and ?occ = "\<lambda>i. occupied (t ! i)" and ?home = "\<lambda>i. home (t ! i)"
  obtain k where k: "?n = 2 ^ k" using ok by (auto simp: table_ok_def)
  have "\<exists>q<?n. \<not> occupied (t ! q)"
    using room by (metis filter_True in_set_conv_nth less_irrefl)
  then obtain q where q: "q < ?n" "\<not> occupied (t ! q)" by blast
  obtain p where p: "p < ?n" "\<not> ?occ p" "probe_free ?occ (?n - 1) (h mod ?n) = Some p"
    "probe_ok ?n (?occ(p := True)) (?home(p := h))"
    by (rule probe_insert_ok [of ?n ?occ ?home k q h]) (use ok k q in \<open>auto simp: table_ok_def\<close>)
  obtain i where i: "\<And>j. j < i \<Longrightarrow> ?occ ((h + j) mod ?n)" "\<not> ?occ ((h + i) mod ?n)"
    "probe_free ?occ (?n - 1) (h mod ?n) = Some ((h + i) mod ?n)"
    by (rule probe_free_returns [of ?n k q ?occ h]) (use k q in auto)
  have at: "(h + j) mod ?n < ?n" for j using q(1) by (intro mod_less_divisor) linarith
  have "probe_free (\<lambda>i. ?occ i \<and> \<not> hit (t ! i)) (?n - 1) (h mod ?n) = Some ((h + i) mod ?n)"
    using i miss at by (intro probe_free_at [OF k]) auto
  then have "slot_position occupied hit t h = Some p"
    using i(3) p(3) by (simp only: slot_position_def mask_home [OF k])
  moreover have "table_ok occupied home (t[p := s])" if "occupied s" "home s = h" for s
  proof -
    have "probe_ok ?n (\<lambda>i. occupied (t[p := s] ! i)) (\<lambda>i. home (t[p := s] ! i)) =
        probe_ok ?n (?occ(p := True)) (?home(p := h))"
      by (rule probe_ok_cong) (auto simp: nth_list_update that)
    then show ?thesis using p(4) k by (auto simp: table_ok_def)
  qed
  ultimately show thesis using that p by blast
qed

end

end
