(* ===== verification/Identity_Ref.thy ===== *)
theory Identity_Ref
  imports Prelude
begin

text \<open>
  \<^verbatim>\<open>identity_kind\<close> and \<^verbatim>\<open>identity_ref\<close> of \<^verbatim>\<open>server_engine/project/semantic/identity.hpp\<close>, and the
  hash of an identity key, which \<^verbatim>\<open>identity.cpp\<close> and \<^verbatim>\<open>compiled_project.cpp\<close> both define. An
  \<open>identity_ref\<close> packs a 30-bit slot and a 2-bit kind into 32 bits; the theory shows that packing
  and unpacking are inverse on the slots \<open>make_ref\<close> accepts.
\<close>

type_synonym identity_ref = u32

datatype identity_kind = kind_root | kind_namespace_scope | kind_type | kind_object

fun kind_value :: "identity_kind \<Rightarrow> u32" where
  "kind_value kind_root = 0"
| "kind_value kind_namespace_scope = 1"
| "kind_value kind_type = 2"
| "kind_value kind_object = 3"

definition kind_shift :: nat where "kind_shift = 30"
definition slot_mask :: u32 where "slot_mask = 0x3fffffff"
definition maximum_slot :: nat where "maximum_slot = unat slot_mask"

definition ref_slot :: "identity_ref \<Rightarrow> u32" where
  "ref_slot r = r AND slot_mask"

text \<open>The shifted value has two bits, so the conversion to the enumeration is total.\<close>

definition kind_of_value :: "u32 \<Rightarrow> identity_kind" where
  "kind_of_value n =
     (if n = 0 then kind_root else if n = 1 then kind_namespace_scope
      else if n = 2 then kind_type else kind_object)"

definition ref_kind :: "identity_ref \<Rightarrow> identity_kind" where
  "ref_kind r = kind_of_value (drop_bit kind_shift r)"

definition ref_valid :: "identity_ref \<Rightarrow> bool" where
  "ref_valid r \<longleftrightarrow> ref_slot r \<noteq> 0"

definition make_ref :: "u32 \<Rightarrow> identity_kind \<Rightarrow> identity_ref" where
  "make_ref s kind =
     (if s \<noteq> 0 \<and> unat s \<le> maximum_slot then push_bit kind_shift (kind_value kind) OR s else 0)"

definition mix64 :: "u64 \<Rightarrow> u64" where
  "mix64 v =
     (let v = v XOR drop_bit 30 v;
          v = v * 0xbf58476d1ce4e5b9;
          v = v XOR drop_bit 27 v;
          v = v * 0x94d049bb133111eb;
          v = v XOR drop_bit 31 v
      in v)"

definition identity_hash :: "u32 \<Rightarrow> u32 \<Rightarrow> u32 \<Rightarrow> u64" where
  "identity_hash parent name kind =
     (let v = ucast parent OR push_bit 32 (ucast name)
      in mix64 (v XOR (ucast kind * 0x9e3779b97f4a7c15)))"

definition identity_fingerprint :: "u64 \<Rightarrow> u32" where
  "identity_fingerprint hash =
     (let v = ucast (hash XOR drop_bit 32 hash) in if v = 0 then 1 else v)"

section \<open>Packing\<close>

lemma slot_mask_eq: "slot_mask = mask 30"
  by (simp add: slot_mask_def mask_eq_exp_minus_1)

lemma maximum_slot_eq: "maximum_slot = 2 ^ 30 - 1"
  by (simp add: maximum_slot_def slot_mask_def)

lemma small_slot_bit:
  assumes "unat (s :: u32) < 2 ^ 30" "30 \<le> n"
  shows "\<not> bit s n"
proof -
  have "take_bit 30 s = s" using assms(1) by (simp add: word_unat_eq_iff unsigned_take_bit_eq take_bit_nat_eq_self)
  then show ?thesis using assms(2) by (metis bit_take_bit_iff linorder_not_less)
qed

lemma kind_value_bit: "bit (kind_value k) n \<Longrightarrow> n < 2"
proof (rule ccontr)
  assume b: "bit (kind_value k) n" and "\<not> n < 2"
  have "take_bit 2 (kind_value k) = kind_value k" by (cases k) simp_all
  then show False using b \<open>\<not> n < 2\<close> by (metis bit_take_bit_iff)
qed

lemma kind_of_value_inverse: "kind_of_value (kind_value k) = k"
  by (cases k) (simp_all add: kind_of_value_def)

lemma make_ref_slot:
  assumes "s \<noteq> 0" "unat s \<le> maximum_slot"
  shows "ref_slot (make_ref s kind) = s"
proof -
  have small: "unat s < 2 ^ 30" using assms(2) by (simp add: maximum_slot_eq)
  have "bit (ref_slot (make_ref s kind)) n = bit s n" if "n < 32" for n
  proof (cases "n < 30")
    case True
    then show ?thesis
      using assms that by (simp add: ref_slot_def make_ref_def slot_mask_eq kind_shift_def
          bit_and_iff bit_or_iff bit_push_bit_iff bit_mask_iff)
  next
    case False
    then show ?thesis
      using small_slot_bit [OF small, of n] by (simp add: ref_slot_def slot_mask_eq bit_and_iff bit_mask_iff)
  qed
  then show ?thesis by (intro bit_word_eqI) simp
qed

lemma make_ref_kind:
  assumes "s \<noteq> 0" "unat s \<le> maximum_slot"
  shows "ref_kind (make_ref s kind) = kind"
proof -
  have small: "unat s < 2 ^ 30" using assms(2) by (simp add: maximum_slot_eq)
  have "bit (drop_bit 30 (make_ref s kind)) n = bit (kind_value kind) n" if "n < 32" for n
    using assms small_slot_bit [OF small, of "30 + n"] kind_value_bit [of kind n] that
    by (auto simp: make_ref_def kind_shift_def bit_or_iff bit_push_bit_iff bit_drop_bit_eq)
  then have "drop_bit 30 (make_ref s kind) = kind_value kind" by (intro bit_word_eqI) simp
  then show ?thesis by (simp add: ref_kind_def kind_shift_def kind_of_value_inverse)
qed

lemma make_ref_valid: "s \<noteq> 0 \<Longrightarrow> unat s \<le> maximum_slot \<Longrightarrow> ref_valid (make_ref s kind)"
  by (simp add: ref_valid_def make_ref_slot)

lemma kind_value_of_small: "unat v < 4 \<Longrightarrow> kind_value (kind_of_value v) = v"
proof -
  assume "unat v < 4"
  then have "unat v = unat (0::u32) \<or> unat v = unat (1::u32) \<or> unat v = unat (2::u32) \<or> unat v = unat (3::u32)" by auto
  then have "v = 0 \<or> v = 1 \<or> v = 2 \<or> v = 3" by (simp only: word_unat_eq_iff)
  then show ?thesis by (auto simp: kind_of_value_def)
qed

lemma ref_kind_value: "kind_value (ref_kind r) = drop_bit 30 r"
proof -
  have "unat (drop_bit 30 r) < 4" 
    using unat_u32_le [of r] by (simp add: unsigned_drop_bit_eq drop_bit_nat_def drop_bit_eq_div unat_div)
  then show ?thesis by (simp add: ref_kind_def kind_shift_def kind_value_of_small)
qed

lemma ref_eqI:
  assumes "ref_slot r = ref_slot r'" "ref_kind r = ref_kind r'"
  shows "r = r'"
proof -
  have "drop_bit 30 r = drop_bit 30 r'" using assms(2) ref_kind_value by metis
  moreover have "take_bit 30 r = take_bit 30 r'"
    using assms(1) by (simp add: ref_slot_def slot_mask_eq take_bit_eq_mask)
  ultimately show ?thesis by (metis bits_ident)
qed

lemma ref_slot_bound: "unat (ref_slot r) \<le> maximum_slot"
proof -
  have "ref_slot r = take_bit 30 r" by (simp add: ref_slot_def slot_mask_eq take_bit_eq_mask)
  then have "unat (ref_slot r) < 2 ^ 30" by (simp only: unsigned_take_bit_eq take_bit_nat_less_exp)
  then show ?thesis by (simp add: maximum_slot_eq)
qed

lemma ref_zero [simp]: "ref_slot 0 = 0" "\<not> ref_valid 0"
  by (simp_all add: ref_slot_def ref_valid_def)

lemma make_ref_of_parts: "ref_valid r \<Longrightarrow> make_ref (ref_slot r) (ref_kind r) = r"
  by (rule ref_eqI) (simp_all add: make_ref_slot make_ref_kind ref_slot_bound ref_valid_def)

end
