(* ===== verification/Compiled_View.thy ===== *)
theory Compiled_View
  imports Probing Identity_Ref
begin

text \<open>
  The string and identity queries of \<^verbatim>\<open>compiled_project_view\<close>
  (\<^verbatim>\<open>server_engine/project/persistence/compiled_project.cpp\<close>): the read-only view over a
  mapped \<^verbatim>\<open>compiled.bin\<close> image, at the level of the section bytes. The definitions have the
  names of the members; \<open>view_string\<close> is the member \<^verbatim>\<open>string\<close>. Look-ups are sound on every
  image (\<open>find_string_sound\<close>, \<open>find_identity_sound\<close>); \<open>view_strings_ok\<close> and
  \<open>view_identities_ok\<close> say what an audited image guarantees beyond that, and
  \<open>string_index_complete\<close> that a well-formed probing index provides it.
\<close>

section \<open>Sections and little-endian reads\<close>

record section_view =
  sec_data :: "u8 list"
  sec_count :: nat
  sec_record_size :: nat
  sec_crc64 :: u64

record compiled_project_view =
  view_valid :: bool
  string_core :: section_view
  string_bytes :: section_view
  string_index :: section_view
  identity_core :: section_view
  identity_index :: section_view
  string_count_value :: nat
  identity_count_value :: nat
  types_section :: section_view
  type_identities_section :: section_view
  bases_section :: section_view
  members_section :: section_view
  member_construction_section :: section_view
  derived_types_section :: section_view
  derived_index_section :: section_view
  member_name_index_section :: section_view
  objects_section :: section_view
  object_identities_section :: section_view
  object_construction_section :: section_view
  links_section :: section_view
  link_target_index_section :: section_view
  endpoint_paths_section :: section_view
  endpoint_path_steps_section :: section_view
  graph_identity_index_section :: section_view
  assign_records_section :: section_view
  assign_bytes_section :: section_view
  source_contributions_section :: section_view
  source_roots_section :: section_view
  source_files_section :: section_view
  source_file_indices_section :: section_view
  source_paths_section :: section_view
  endpoint_path_index_section :: section_view
  type_count_value :: nat
  object_count_value :: nat
  link_count_value :: nat
  assign_count_value :: nat

definition string_core_size :: nat where "string_core_size = 8"
definition index_record_size :: nat where "index_record_size = 8"
definition identity_core_size :: nat where "identity_core_size = 12"

definition read_u32 :: "u8 list \<Rightarrow> nat \<Rightarrow> u32" where
  "read_u32 source off =
     ucast (source ! off) OR push_bit 8 (ucast (source ! (off + 1))) OR
     push_bit 16 (ucast (source ! (off + 2))) OR push_bit 24 (ucast (source ! (off + 3)))"

definition byte_char :: "u8 \<Rightarrow> char" where
  "byte_char b = char_of (unat b)"

definition string_hash :: "string \<Rightarrow> u32" where
  "string_hash text =
     (let hash = foldl (\<lambda>hash c. (hash XOR of_char c) * 16777619) 2166136261 text
      in if hash = 0 then 1 else hash)"

section \<open>String queries\<close>

definition string_byte_size :: "compiled_project_view \<Rightarrow> nat" where
  "string_byte_size v = sec_count (string_bytes v)"

definition string_from_raw :: "compiled_project_view \<Rightarrow> u32 \<Rightarrow> u32" where
  "string_from_raw v raw = (if raw \<noteq> 0 \<and> unat raw \<le> string_count_value v then raw else 0)"

definition view_string :: "compiled_project_view \<Rightarrow> u32 \<Rightarrow> string" where
  "view_string v sid =
     (if sid = 0 \<or> string_count_value v < unat sid then []
      else
        let record = unat (sid - 1) * string_core_size;
            off = unat (read_u32 (sec_data (string_core v)) record);
            len = unat (read_u32 (sec_data (string_core v)) (record + 4))
        in if len = 0 \<or> sec_count (string_bytes v) < off \<or> sec_count (string_bytes v) - off < len then []
           else map byte_char (text_slice (sec_data (string_bytes v)) off len))"

definition index_fingerprint :: "compiled_project_view \<Rightarrow> nat \<Rightarrow> u32" where
  "index_fingerprint v position =
     read_u32 (sec_data (string_index v)) (position * index_record_size)"

definition index_raw :: "compiled_project_view \<Rightarrow> nat \<Rightarrow> u32" where
  "index_raw v position =
     read_u32 (sec_data (string_index v)) (position * index_record_size + 4)"

definition find_string :: "compiled_project_view \<Rightarrow> string \<Rightarrow> u32" where
  "find_string v text =
     (if text = [] then 0
      else
        let count = sec_count (string_index v)
        in if count = 0 \<or> count AND (count - 1) \<noteq> 0 then 0
           else
             let hash = string_hash text
             in case probe_find (\<lambda>p. index_raw v p \<noteq> 0)
                  (\<lambda>p. index_fingerprint v p = hash \<and>
                       string_from_raw v (index_raw v p) \<noteq> 0 \<and>
                       view_string v (string_from_raw v (index_raw v p)) = text)
                  (count - 1) (unat hash AND (count - 1)) count of
                None \<Rightarrow> 0
              | Some p \<Rightarrow> string_from_raw v (index_raw v p))"

section \<open>Identity queries\<close>

definition identity_from_raw :: "compiled_project_view \<Rightarrow> u32 \<Rightarrow> identity_ref" where
  "identity_from_raw v raw =
     (let s = raw AND slot_mask
      in if s = 0 \<or> identity_count_value v < unat s then 0
         else if read_u32 (sec_data (identity_core v)) (unat (s - 1) * identity_core_size) = raw then raw
         else 0)"

definition identity_root :: "compiled_project_view \<Rightarrow> identity_ref" where
  "identity_root v = identity_from_raw v 1"

definition identity_at_slot :: "compiled_project_view \<Rightarrow> u32 \<Rightarrow> identity_ref" where
  "identity_at_slot v s =
     (if s = 0 \<or> identity_count_value v < unat s then 0
      else identity_from_raw v (read_u32 (sec_data (identity_core v)) (unat (s - 1) * identity_core_size)))"

definition identity_valid :: "compiled_project_view \<Rightarrow> identity_ref \<Rightarrow> bool" where
  "identity_valid v r \<longleftrightarrow> ref_valid (identity_from_raw v r)"

definition identity_parent :: "compiled_project_view \<Rightarrow> identity_ref \<Rightarrow> identity_ref" where
  "identity_parent v r =
     (let r = identity_from_raw v r
      in if \<not> ref_valid r \<or> ref_slot r = 1 then 0
         else identity_from_raw v
           (read_u32 (sec_data (identity_core v)) (unat (ref_slot r - 1) * identity_core_size + 4)))"

definition identity_name :: "compiled_project_view \<Rightarrow> identity_ref \<Rightarrow> u32" where
  "identity_name v r =
     (let r = identity_from_raw v r
      in if \<not> ref_valid r \<or> ref_slot r = 1 then 0
         else string_from_raw v
           (read_u32 (sec_data (identity_core v)) (unat (ref_slot r - 1) * identity_core_size + 8)))"

definition identity_slot_fingerprint :: "compiled_project_view \<Rightarrow> nat \<Rightarrow> u32" where
  "identity_slot_fingerprint v position =
     read_u32 (sec_data (identity_index v)) (position * index_record_size)"

definition identity_slot_raw :: "compiled_project_view \<Rightarrow> nat \<Rightarrow> u32" where
  "identity_slot_raw v position =
     read_u32 (sec_data (identity_index v)) (position * index_record_size + 4)"

definition find_identity ::
    "compiled_project_view \<Rightarrow> identity_ref \<Rightarrow> u32 \<Rightarrow> identity_kind \<Rightarrow> identity_ref" where
  "find_identity v parent name kind =
     (if \<not> identity_valid v parent \<or> string_from_raw v name = 0 \<or> kind = kind_root then 0
      else
        let count = sec_count (identity_index v)
        in if count = 0 \<or> count AND (count - 1) \<noteq> 0 then 0
           else
             let hash = identity_hash parent name (kind_value kind);
                 fingerprint = identity_fingerprint hash
             in case probe_find (\<lambda>p. identity_slot_raw v p \<noteq> 0)
                  (\<lambda>p. identity_slot_fingerprint v p = fingerprint \<and>
                     (let identity = identity_from_raw v (identity_slot_raw v p)
                      in ref_valid identity \<and> ref_kind identity = kind \<and>
                         identity_parent v identity = parent \<and> identity_name v identity = name))
                  (count - 1) (unat hash AND (count - 1)) count of
                None \<Rightarrow> 0
              | Some p \<Rightarrow> identity_from_raw v (identity_slot_raw v p))"

section \<open>Well-formed string sections\<close>

text \<open>
  What an encoded image guarantees: every spelling is non-empty, spellings are distinct, and
  the index is a probing table that holds every identifier once, under the hash of its
  spelling.
\<close>

definition view_ids :: "compiled_project_view \<Rightarrow> u32 set" where
  "view_ids v = {sid. sid \<noteq> 0 \<and> unat sid \<le> string_count_value v}"

definition view_strings_ok :: "compiled_project_view \<Rightarrow> bool" where
  "view_strings_ok v \<longleftrightarrow>
     view_valid v \<and> string_count_value v \<le> uint32_max \<and> string_byte_size v \<le> uint32_max \<and>
     (\<forall>sid\<in>view_ids v. view_string v sid \<noteq> [] \<and> find_string v (view_string v sid) = sid)"

text \<open>
  The invariant of the index the encoder writes: spellings are non-empty and distinct, and the
  index is a probing table that holds every identifier once, under the hash of its spelling.
\<close>

definition view_string_index_ok :: "compiled_project_view \<Rightarrow> bool" where
  "view_string_index_ok v \<longleftrightarrow>
     (\<forall>sid\<in>view_ids v. view_string v sid \<noteq> []) \<and>
     inj_on (view_string v) (view_ids v) \<and>
     (\<exists>k. sec_count (string_index v) = 2 ^ k) \<and>
     probe_ok (sec_count (string_index v)) (\<lambda>p. index_raw v p \<noteq> 0)
       (\<lambda>p. unat (index_fingerprint v p)) \<and>
     inj_on (index_raw v) {p. p < sec_count (string_index v) \<and> index_raw v p \<noteq> 0} \<and>
     (\<forall>sid\<in>view_ids v. \<exists>p < sec_count (string_index v).
        index_raw v p = sid \<and> index_fingerprint v p = string_hash (view_string v sid))"

text \<open>
  What an audited image guarantees of identities: the root is slot 1, every other slot holds a
  non-root identity of that slot whose parent has a smaller slot and whose name is a persisted
  string, and the key of an identity leads back to it.
\<close>

definition view_identities_ok :: "compiled_project_view \<Rightarrow> bool" where
  "view_identities_ok v \<longleftrightarrow>
     identity_root v = 1 \<and> identity_count_value v \<le> maximum_slot \<and>
     (\<forall>i\<in>{2..identity_count_value v}.
        let r = identity_at_slot v (of_nat i)
        in ref_valid r \<and> ref_slot r = of_nat i \<and> ref_kind r \<noteq> kind_root \<and>
           ref_valid (identity_parent v r) \<and> unat (ref_slot (identity_parent v r)) < i \<and>
           identity_name v r \<noteq> 0 \<and>
           find_identity v (identity_parent v r) (identity_name v r) (ref_kind r) = r)"

lemma find_string_complete:
  "view_strings_ok v \<Longrightarrow> sid \<in> view_ids v \<Longrightarrow> find_string v (view_string v sid) = sid"
  by (simp add: view_strings_ok_def)

lemma view_strings_inj: "view_strings_ok v \<Longrightarrow> inj_on (view_string v) (view_ids v)"
  by (rule inj_on_inverseI [of _ "find_string v"]) (simp add: find_string_complete)

lemma power_of_two_and_pred: "(2 ^ k :: nat) AND (2 ^ k - 1) = 0"
  unfolding and_mask_mod by simp

lemma find_string_sound:
  assumes "find_string v text = sid" "sid \<noteq> 0"
  shows "sid \<in> view_ids v \<and> view_string v sid = text"
proof -
  let ?n = "sec_count (string_index v)"
  let ?occ = "\<lambda>p. index_raw v p \<noteq> 0"
  let ?hit = "\<lambda>p. index_fingerprint v p = string_hash text \<and>
     string_from_raw v (index_raw v p) \<noteq> 0 \<and> view_string v (string_from_raw v (index_raw v p)) = text"
  have hit: "?hit p" if "probe_find ?occ ?hit msk pos m = Some p" for msk pos m p
    using that by (induction m arbitrary: pos) (auto split: if_splits)
  obtain p where p: "probe_find ?occ ?hit (?n - 1) (unat (string_hash text) AND (?n - 1)) ?n = Some p"
    "sid = string_from_raw v (index_raw v p)"
    using assms by (auto simp: find_string_def Let_def split: if_splits option.splits)
  have "?hit p" by (rule hit [OF p(1)])
  then show ?thesis
    using p(2) by (simp add: view_ids_def string_from_raw_def split: if_splits)
qed

lemma string_index_complete:
  assumes ok: "view_string_index_ok v" and sid: "sid \<in> view_ids v"
  shows "find_string v (view_string v sid) = sid"
proof -
  let ?n = "sec_count (string_index v)" and ?text = "view_string v sid"
  let ?occ = "\<lambda>p. index_raw v p \<noteq> 0"
  let ?hit = "\<lambda>p. index_fingerprint v p = string_hash ?text \<and>
     string_from_raw v (index_raw v p) \<noteq> 0 \<and> view_string v (string_from_raw v (index_raw v p)) = ?text"
  obtain k where k: "?n = 2 ^ k" using ok by (auto simp: view_string_index_ok_def)
  obtain p where p: "p < ?n" "index_raw v p = sid" "index_fingerprint v p = string_hash ?text"
    using ok sid by (auto simp: view_string_index_ok_def)
  have raw: "string_from_raw v sid = sid" using sid by (simp add: view_ids_def string_from_raw_def)
  have "probe_find ?occ ?hit (?n - 1) (unat (string_hash ?text) mod ?n) ?n = Some p"
  proof (rule probe_find_hit [where home = "\<lambda>p. unat (index_fingerprint v p)"])
    fix q assume q: "q < ?n" "?occ q" "?hit q"
    have "index_raw v q \<in> view_ids v" "string_from_raw v (index_raw v q) = index_raw v q"
      using q(3) by (auto simp: string_from_raw_def view_ids_def split: if_splits)
    moreover have "view_string v (index_raw v q) = ?text" using q(3) calculation(2) by simp
    ultimately have "index_raw v q = sid"
      using ok sid by (auto simp: view_string_index_ok_def dest: inj_onD)
    then show "q = p"
      using ok p q(1,2) by (auto simp: view_string_index_ok_def dest: inj_onD)
  qed (use ok k p raw sid in \<open>auto simp: view_string_index_ok_def view_ids_def\<close>)
  moreover have "?text \<noteq> []" using ok sid by (simp add: view_string_index_ok_def)
  moreover have "\<not> (?n = 0 \<or> ?n AND (?n - 1) \<noteq> 0)"
    using k by (simp only: power_of_two_and_pred) simp
  ultimately show ?thesis
    using p raw by (simp only: find_string_def Let_def mask_home [OF k]) simp
qed

lemma identity_from_raw_cases: "identity_from_raw v raw = raw \<or> identity_from_raw v raw = 0"
  by (auto simp: identity_from_raw_def Let_def)

lemma identity_from_raw_idem: "identity_from_raw v (identity_from_raw v raw) = identity_from_raw v raw"
  using identity_from_raw_cases [of v raw] by (elim disjE) (simp_all, simp add: identity_from_raw_def)

lemma ref_valid_nonzero: "ref_valid r \<Longrightarrow> r \<noteq> 0"
  by auto

lemma identity_valid_raw: "identity_valid v r \<longleftrightarrow> ref_valid r \<and> identity_from_raw v r = r"
  using identity_from_raw_cases [of v r] by (auto simp: identity_valid_def)

lemma identity_valid_slot:
  "identity_valid v r \<Longrightarrow> unat (ref_slot r) \<le> identity_count_value v \<and> identity_at_slot v (ref_slot r) = r"
proof -
  assume "identity_valid v r"
  then have r: "ref_valid r" "identity_from_raw v r = r" by (simp_all add: identity_valid_raw)
  then have raw: "read_u32 (sec_data (identity_core v)) (unat (ref_slot r - 1) * identity_core_size) = r"
    and "unat (ref_slot r) \<le> identity_count_value v"
    by (auto simp: identity_from_raw_def ref_slot_def ref_valid_def Let_def split: if_splits)
  then show ?thesis using r by (simp add: identity_at_slot_def ref_valid_def)
qed

lemma identity_at_slot_valid: "identity_at_slot v s \<noteq> 0 \<Longrightarrow> identity_valid v (identity_at_slot v s)"
  unfolding identity_at_slot_def identity_valid_def identity_from_raw_def
  by (auto simp: Let_def ref_valid_def ref_slot_def split: if_splits)

lemma identity_parent_valid: "ref_valid (identity_parent v r) \<Longrightarrow> identity_valid v (identity_parent v r)"
  by (simp add: identity_parent_def identity_valid_def identity_from_raw_idem Let_def split: if_splits)

lemma identity_name_string: "identity_name v r \<noteq> 0 \<Longrightarrow> identity_name v r \<in> view_ids v"
  by (auto simp: identity_name_def string_from_raw_def view_ids_def Let_def split: if_splits)

lemma find_identity_sound:
  assumes "find_identity v parent name kind = r" "r \<noteq> 0"
  shows "identity_valid v r \<and> ref_kind r = kind \<and> identity_parent v r = parent \<and> identity_name v r = name"
proof -
  let ?n = "sec_count (identity_index v)" and ?hash = "identity_hash parent name (kind_value kind)"
  let ?occ = "\<lambda>p. identity_slot_raw v p \<noteq> 0"
  let ?hit = "\<lambda>p. identity_slot_fingerprint v p = identity_fingerprint ?hash \<and>
      (let identity = identity_from_raw v (identity_slot_raw v p)
       in ref_valid identity \<and> ref_kind identity = kind \<and>
          identity_parent v identity = parent \<and> identity_name v identity = name)"
  obtain p where p: "probe_find ?occ ?hit (?n - 1) (unat ?hash AND (?n - 1)) ?n = Some p"
    "r = identity_from_raw v (identity_slot_raw v p)"
    using assms by (auto simp: find_identity_def Let_def split: if_splits option.splits)
  have "?hit p" using probe_find_holds [OF p(1)] by simp
  then show ?thesis unfolding p(2) Let_def by (simp add: identity_valid_def identity_from_raw_idem)
qed

section \<open>A sample image\<close>

text \<open>
  One string, \<^verbatim>\<open>"a"\<close>, and two identities, the root and a namespace of that name in it, with
  one-slot indexes and the section checksums; the witnesses of the theorems on images use it.
\<close>

definition empty_section :: section_view where
  "empty_section = \<lparr>sec_data = [], sec_count = 0, sec_record_size = 0, sec_crc64 = 0\<rparr>"

definition sample_view :: compiled_project_view where
  "sample_view =
     \<lparr>view_valid = True,
      string_core = \<lparr>sec_data = [0, 0, 0, 0, 1, 0, 0, 0], sec_count = 1, sec_record_size = 8,
        sec_crc64 = 0xe59c4cf90ce5976b\<rparr>,
      string_bytes = \<lparr>sec_data = [97], sec_count = 1, sec_record_size = 1,
        sec_crc64 = 0x548f120162451c62\<rparr>,
      string_index = \<lparr>sec_data = [0x2c, 0x29, 0x0c, 0xe4, 1, 0, 0, 0], sec_count = 1, sec_record_size = 8,
        sec_crc64 = 0x9ce75fabee1ddc07\<rparr>,
      identity_core = \<lparr>sec_data = [1, 0, 0, 0, 0, 0, 0, 0, 0, 0, 0, 0, 2, 0, 0, 64, 1, 0, 0, 0, 1, 0, 0, 0],
        sec_count = 2, sec_record_size = 12, sec_crc64 = 0x0df56cc22ba7fa41\<rparr>,
      identity_index = \<lparr>sec_data = [249, 222, 1, 182, 2, 0, 0, 64], sec_count = 1, sec_record_size = 8,
        sec_crc64 = 0x816d057500481323\<rparr>,
      string_count_value = 1, identity_count_value = 2,
      types_section = empty_section, type_identities_section = empty_section, bases_section = empty_section,
      members_section = empty_section, member_construction_section = empty_section,
      derived_types_section = empty_section, derived_index_section = empty_section,
      member_name_index_section = empty_section, objects_section = empty_section,
      object_identities_section = empty_section, object_construction_section = empty_section,
      links_section = empty_section, link_target_index_section = empty_section,
      endpoint_paths_section = empty_section, endpoint_path_steps_section = empty_section,
      graph_identity_index_section = empty_section, assign_records_section = empty_section,
      assign_bytes_section = empty_section, source_contributions_section = empty_section,
      source_roots_section = empty_section, source_files_section = empty_section,
      source_file_indices_section = empty_section, source_paths_section = empty_section,
      endpoint_path_index_section = empty_section,
      type_count_value = 0, object_count_value = 0, link_count_value = 0, assign_count_value = 0\<rparr>"

lemma sample_view_ids: "view_ids sample_view = {1}"
proof -
  have "unat x \<le> 1 \<and> x \<noteq> 0 \<longleftrightarrow> x = 1" for x :: u32
  proof
    assume "unat x \<le> 1 \<and> x \<noteq> 0"
    then have "unat x = 1" using unat_gt_0 [of x] by linarith
    then show "x = 1" by (metis unat_1 word_unat_eq_iff)
  qed simp
  then show ?thesis by (auto simp: view_ids_def sample_view_def)
qed

lemma sample_view_fields:
  "view_valid sample_view" "string_count_value sample_view = 1" "string_byte_size sample_view = 1"
  "sec_count (string_index sample_view) = 1" "sec_count (string_bytes sample_view) = 1"
  "identity_count_value sample_view = 2" "sec_count (identity_index sample_view) = 1"
  by (simp_all add: sample_view_def string_byte_size_def)

lemma sample_string_core:
  "read_u32 (sec_data (string_core sample_view)) 0 = 0" "read_u32 (sec_data (string_core sample_view)) 4 = 1"
  by (simp_all add: sample_view_def read_u32_def)

lemma sample_view_string: "view_string sample_view 1 = ''a''"
  by (simp add: view_string_def sample_view_def read_u32_def string_core_size_def byte_char_def
      text_slice_def char_of_def bit_0 bit_Suc)

lemma sample_string_hash: "string_hash ''a'' = 0xe40c292c"
  by (simp add: string_hash_def)

lemma sample_index: "index_raw sample_view 0 = 1" "index_fingerprint sample_view 0 = 0xe40c292c"
  by (simp_all add: index_raw_def index_fingerprint_def sample_view_def read_u32_def index_record_size_def)

lemma sample_string_from_raw: "string_from_raw sample_view 1 = 1"
  by (simp add: string_from_raw_def sample_view_fields)

lemma sample_find_string: "find_string sample_view ''a'' = 1"
  by (simp add: find_string_def sample_view_fields sample_string_hash sample_index
      sample_string_from_raw sample_view_string)

lemma sample_identity_core:
  "read_u32 (sec_data (identity_core sample_view)) 0 = 1"
  "read_u32 (sec_data (identity_core sample_view)) 12 = 0x40000002"
  "read_u32 (sec_data (identity_core sample_view)) 16 = 1"
  "read_u32 (sec_data (identity_core sample_view)) 20 = 1"
  by (simp_all add: sample_view_def read_u32_def)

lemma sample_identities:
  "identity_from_raw sample_view 1 = 1" "identity_from_raw sample_view 0x40000002 = 0x40000002"
  "identity_at_slot sample_view 2 = 0x40000002"
  "ref_slot 0x40000002 = 2" "ref_slot 1 = 1" "ref_kind 0x40000002 = kind_namespace_scope"
  by (simp_all add: identity_from_raw_def identity_at_slot_def sample_view_fields slot_mask_def
      identity_core_size_def sample_identity_core ref_slot_def ref_kind_def kind_shift_def kind_of_value_def)

lemma sample_identity_record:
  "identity_parent sample_view 0x40000002 = 1" "identity_name sample_view 0x40000002 = 1"
  by (simp_all add: identity_parent_def identity_name_def sample_identities ref_valid_def
      identity_core_size_def sample_identity_core sample_string_from_raw)

lemma sample_identity_index:
  "identity_slot_raw sample_view 0 = 0x40000002" "identity_slot_fingerprint sample_view 0 = 0xb601def9"
  by (simp_all add: identity_slot_raw_def identity_slot_fingerprint_def sample_view_def read_u32_def
      index_record_size_def)

lemma sample_identity_fingerprint: "identity_fingerprint (identity_hash 1 1 1) = 0xb601def9"
  by (simp add: identity_fingerprint_def identity_hash_def mix64_def)

lemma sample_find_identity: "find_identity sample_view 1 1 kind_namespace_scope = 0x40000002"
  by (simp add: find_identity_def identity_valid_def sample_view_fields sample_identities ref_valid_def
      sample_string_from_raw sample_identity_index sample_identity_fingerprint sample_identity_record)

lemma sample_view_ok: "view_strings_ok sample_view"
  by (simp add: view_strings_ok_def sample_view_ids sample_view_fields sample_view_string sample_find_string)

lemma sample_view_identities_ok: "view_identities_ok sample_view"
proof -
  have "{2..identity_count_value sample_view} = {2}" by (simp add: sample_view_fields)
  then show ?thesis
    by (simp add: view_identities_ok_def identity_root_def sample_view_fields sample_identities
        sample_identity_record sample_find_identity ref_valid_def maximum_slot_eq)
qed

end
