(* ===== verification/Crc64.thy ===== *)
theory Crc64
  imports Prelude
begin

text \<open>
  \<^verbatim>\<open>server_engine/project/persistence/crc64_ecma.hpp\<close>: the CRC-64/ECMA-182 of the
  persisted images. The definitions follow the header: the generated byte table, the
  slicing-by-8 table derived from it, the two ways of loading eight bytes as a big-endian
  value, and the checksum loop. The theory proves that the slicing-by-8 loop computes the
  bit-serial shift register of the polynomial on every host and every input, that the
  checksum is linear, and that it detects every corruption confined to eight consecutive
  bytes.
\<close>

section \<open>The tables\<close>

definition persistence_crc64_polynomial :: u64 where
  "persistence_crc64_polynomial = 0x42f0e1eba9ea3693"

definition crc64_shift :: "u64 \<Rightarrow> u64" where
  "crc64_shift crc =
     (if crc AND push_bit 63 1 \<noteq> 0
      then push_bit 1 crc XOR persistence_crc64_polynomial
      else push_bit 1 crc)"

definition make_persistence_crc64_table :: "u64 list" where
  "make_persistence_crc64_table =
     map (\<lambda>index. (crc64_shift ^^ 8) (push_bit 56 (of_nat index))) [0..<256]"

definition persistence_crc64_table :: "u64 list" where
  "persistence_crc64_table = make_persistence_crc64_table"

definition persistence_crc64_advance_zero :: "u64 \<Rightarrow> u64" where
  "persistence_crc64_advance_zero crc =
     push_bit 8 crc XOR persistence_crc64_table ! unat (ucast (drop_bit 56 crc) :: u8)"

text \<open>The outer loop runs \<^verbatim>\<open>slice\<close> from 7 down to 1 and fills row \<^verbatim>\<open>slice - 1\<close>.\<close>

fun crc64_fill_slices :: "nat \<Rightarrow> u64 list list \<Rightarrow> u64 list list" where
  "crc64_fill_slices 0 output = output"
| "crc64_fill_slices (Suc s) output =
     crc64_fill_slices s
       (output[s := map (\<lambda>index. persistence_crc64_advance_zero (output ! Suc s ! index)) [0..<256]])"

definition make_persistence_crc64_slicing_table :: "u64 list list" where
  "make_persistence_crc64_slicing_table =
     crc64_fill_slices 7
       ((replicate 8 (replicate 256 0))[7 := map (\<lambda>index. persistence_crc64_table ! index) [0..<256]])"

definition persistence_crc64_slicing_table :: "u64 list list" where
  "persistence_crc64_slicing_table = make_persistence_crc64_slicing_table"

section \<open>Loading eight bytes\<close>

definition persistence_crc64_byteswap :: "u64 \<Rightarrow> u64" where
  "persistence_crc64_byteswap v =
     push_bit 56 (v AND 0x00000000000000ff) OR
     push_bit 40 (v AND 0x000000000000ff00) OR
     push_bit 24 (v AND 0x0000000000ff0000) OR
     push_bit 8 (v AND 0x00000000ff000000) OR
     drop_bit 8 (v AND 0x000000ff00000000) OR
     drop_bit 24 (v AND 0x0000ff0000000000) OR
     drop_bit 40 (v AND 0x00ff000000000000) OR
     drop_bit 56 (v AND 0xff00000000000000)"

text \<open>
  \<open>assemble_be\<close> is the big-endian composition that the header writes out in its constant
  evaluation branch; a \<^verbatim>\<open>memcpy\<close> on a big-endian host gives the same value, and on a
  little-endian host the composition in the opposite order.
\<close>

definition assemble_be :: "u8 \<Rightarrow> u8 \<Rightarrow> u8 \<Rightarrow> u8 \<Rightarrow> u8 \<Rightarrow> u8 \<Rightarrow> u8 \<Rightarrow> u8 \<Rightarrow> u64" where
  "assemble_be b0 b1 b2 b3 b4 b5 b6 b7 =
     push_bit 56 (ucast b0) OR push_bit 48 (ucast b1) OR
     push_bit 40 (ucast b2) OR push_bit 32 (ucast b3) OR
     push_bit 24 (ucast b4) OR push_bit 16 (ucast b5) OR
     push_bit 8 (ucast b6) OR ucast b7"

definition host_load64 :: "bool \<Rightarrow> u8 list \<Rightarrow> nat \<Rightarrow> u64" where
  "host_load64 little bytes offset =
     (if little
      then assemble_be (bytes ! (offset + 7)) (bytes ! (offset + 6)) (bytes ! (offset + 5))
             (bytes ! (offset + 4)) (bytes ! (offset + 3)) (bytes ! (offset + 2))
             (bytes ! (offset + 1)) (bytes ! offset)
      else assemble_be (bytes ! offset) (bytes ! (offset + 1)) (bytes ! (offset + 2))
             (bytes ! (offset + 3)) (bytes ! (offset + 4)) (bytes ! (offset + 5))
             (bytes ! (offset + 6)) (bytes ! (offset + 7)))"

definition persistence_crc64_load_be64 :: "bool \<Rightarrow> bool \<Rightarrow> u8 list \<Rightarrow> nat \<Rightarrow> u64" where
  "persistence_crc64_load_be64 constant_evaluated little bytes offset =
     (if constant_evaluated
      then assemble_be (bytes ! offset) (bytes ! (offset + 1)) (bytes ! (offset + 2))
             (bytes ! (offset + 3)) (bytes ! (offset + 4)) (bytes ! (offset + 5))
             (bytes ! (offset + 6)) (bytes ! (offset + 7))
      else (let v = host_load64 little bytes offset
            in if little then persistence_crc64_byteswap v else v))"

section \<open>The checksum loop\<close>

definition crc64_fold_word :: "u64 \<Rightarrow> u64" where
  "crc64_fold_word v =
     persistence_crc64_slicing_table ! 0 ! unat (ucast (drop_bit 56 v) :: u8) XOR
     persistence_crc64_slicing_table ! 1 ! unat (ucast (drop_bit 48 v) :: u8) XOR
     persistence_crc64_slicing_table ! 2 ! unat (ucast (drop_bit 40 v) :: u8) XOR
     persistence_crc64_slicing_table ! 3 ! unat (ucast (drop_bit 32 v) :: u8) XOR
     persistence_crc64_slicing_table ! 4 ! unat (ucast (drop_bit 24 v) :: u8) XOR
     persistence_crc64_slicing_table ! 5 ! unat (ucast (drop_bit 16 v) :: u8) XOR
     persistence_crc64_slicing_table ! 6 ! unat (ucast (drop_bit 8 v) :: u8) XOR
     persistence_crc64_slicing_table ! 7 ! unat (ucast v :: u8)"

function crc64_words :: "bool \<Rightarrow> bool \<Rightarrow> u8 list \<Rightarrow> nat \<Rightarrow> u64 \<Rightarrow> nat \<times> u64" where
  "crc64_words ce le bytes offset crc =
     (if 8 \<le> length bytes - offset
      then crc64_words ce le bytes (offset + 8)
             (crc64_fold_word (crc XOR persistence_crc64_load_be64 ce le bytes offset))
      else (offset, crc))"
  by pat_completeness auto
termination
  by (relation "measure (\<lambda>(ce, le, bytes, offset, crc). length bytes - offset)") auto

function crc64_tail :: "u8 list \<Rightarrow> nat \<Rightarrow> u64 \<Rightarrow> u64" where
  "crc64_tail bytes offset crc =
     (if offset < length bytes
      then crc64_tail bytes (offset + 1)
             (push_bit 8 crc XOR
              persistence_crc64_table !
                unat (ucast (drop_bit 56 crc XOR ucast (bytes ! offset)) :: u8))
      else crc)"
  by pat_completeness auto
termination
  by (relation "measure (\<lambda>(bytes, offset, crc). length bytes - offset)") auto

declare crc64_words.simps [simp del] crc64_tail.simps [simp del]

text \<open>
  \<open>ce\<close> is \<^verbatim>\<open>std::is_constant_evaluated()\<close> and \<open>le\<close> is
  \<^verbatim>\<open>std::endian::native == std::endian::little\<close>.
\<close>

definition persistence_crc64 :: "bool \<Rightarrow> bool \<Rightarrow> u8 list \<Rightarrow> u64" where
  "persistence_crc64 ce le bytes =
     (let (offset, crc) = crc64_words ce le bytes 0 0 in crc64_tail bytes offset crc)"

section \<open>Reference: the bit-serial register\<close>

definition crc64_byte :: "u64 \<Rightarrow> u8 \<Rightarrow> u64" where
  "crc64_byte crc b = (crc64_shift ^^ 8) (crc XOR push_bit 56 (ucast b))"

definition crc64_reference :: "u8 list \<Rightarrow> u64" where
  "crc64_reference bytes = foldl crc64_byte 0 bytes"

section \<open>The shift register is linear and invertible\<close>

lemma bit_single: "bit (push_bit k (1 :: u64)) n \<longleftrightarrow> k = n \<and> n < 64"
  by (simp only: bit_push_bit_iff bit_1_iff) auto

lemma top_bit_test: "(crc AND push_bit 63 1 \<noteq> 0) \<longleftrightarrow> bit (crc :: u64) 63"
proof
  assume "bit crc 63"
  then have "bit (crc AND push_bit 63 1) 63"
    by (simp only: bit_and_iff bit_single) simp
  then show "crc AND push_bit 63 1 \<noteq> 0" by (metis bit_0_eq bot_apply bot_bool_def)
next
  assume "crc AND push_bit 63 1 \<noteq> 0"
  then obtain n where "bit (crc AND push_bit 63 1) n"
    by (metis bit_word_eqI bit_0_eq bot_apply bot_bool_def)
  then have "bit crc n" "n = 63"
    by (auto simp only: bit_and_iff bit_single)
  then show "bit crc 63" by simp
qed

lemma crc64_shift_alt:
  "crc64_shift crc =
     push_bit 1 crc XOR (if bit crc 63 then persistence_crc64_polynomial else 0)"
  unfolding crc64_shift_def top_bit_test by (cases "bit crc 63") simp_all

lemma double_even: "\<not> bit (push_bit 1 (c :: u64)) 0"
  by (simp only: bit_push_bit_iff) simp

lemma crc64_shift_xor: "crc64_shift (a XOR b) = crc64_shift a XOR crc64_shift b"
  by (auto simp: crc64_shift_alt bit_xor_iff push_bit_xor xor.assoc xor.left_commute)

lemma crc64_shift_zero [simp]: "crc64_shift 0 = 0"
  by (simp add: crc64_shift_alt)

lemma crc64_shifts_xor:
  "(crc64_shift ^^ n) (a XOR b) = (crc64_shift ^^ n) a XOR (crc64_shift ^^ n) b"
  by (induction n) (simp_all add: crc64_shift_xor)

lemma crc64_shifts_zero [simp]: "(crc64_shift ^^ n) 0 = 0"
  by (induction n) simp_all

lemma crc64_shift_eq_zero: "crc64_shift c = 0 \<Longrightarrow> c = 0"
proof -
  assume z: "crc64_shift c = 0"
  have p0: "bit persistence_crc64_polynomial 0"
    by (simp add: persistence_crc64_polynomial_def)
  have b0: "\<not> bit (push_bit 1 c) 0"
    by (rule double_even)
  have top: "\<not> bit c 63"
  proof
    assume "bit c 63"
    then have "bit (crc64_shift c) 0"
      using p0 b0 by (simp add: crc64_shift_alt bit_xor_iff)
    then show False using z by simp
  qed
  show "c = 0"
  proof (rule bit_word_eqI)
    fix n assume n: "n < LENGTH(64)"
    show "bit c n \<longleftrightarrow> bit (0 :: u64) n"
    proof (cases "n = 63")
      case True
      then show ?thesis using top by simp
    next
      case False
      have "push_bit 1 c = 0" using z top by (simp add: crc64_shift_alt)
      then have "\<not> bit (push_bit 1 c) (Suc n)" by (simp only:) simp
      then show ?thesis using False n by (simp only: bit_push_bit_iff) auto
    qed
  qed
qed

lemma crc64_shifts_eq_zero: "(crc64_shift ^^ n) c = 0 \<Longrightarrow> c = 0"
  by (induction n) (auto dest: crc64_shift_eq_zero)

lemma crc64_shifts_low:
  assumes "n \<le> 64" and "\<And>i. 64 - n \<le> i \<Longrightarrow> \<not> bit c i"
  shows "(crc64_shift ^^ n) c = push_bit n c"
  using assms
proof (induction n)
  case 0
  then show ?case by simp
next
  case (Suc n)
  have IH: "(crc64_shift ^^ n) c = push_bit n c"
    using Suc by simp
  have "\<not> bit (push_bit n c) 63"
    using Suc.prems by (simp add: bit_push_bit_iff)
  then have "crc64_shift (push_bit n c) = push_bit (Suc n) c"
    unfolding crc64_shift_alt by (simp add: push_bit_Suc)
  then show ?case
    by (simp add: IH)
qed

section \<open>Bytes of a value\<close>

lemma ucast_u8_bit: "bit (ucast (b :: u8) :: u64) i \<longleftrightarrow> i < 8 \<and> bit b i"
  by (auto simp: bit_ucast_iff dest: bit_imp_le_length)

lemma u8_of_drop_bit: "bit (ucast (drop_bit k (v :: u64)) :: u8) i \<longleftrightarrow> i < 8 \<and> bit v (k + i)"
  by (auto simp: bit_ucast_iff bit_drop_bit_eq)

lemma byte_at_bit:
  "k \<le> 56 \<Longrightarrow> bit (push_bit k (ucast (b :: u8) :: u64)) i \<longleftrightarrow> k \<le> i \<and> i < k + 8 \<and> bit b (i - k)"
  by (auto simp: bit_push_bit_iff ucast_u8_bit)

lemma assemble_be_bit:
  "bit (assemble_be b0 b1 b2 b3 b4 b5 b6 b7) i \<longleftrightarrow>
     56 \<le> i \<and> i < 64 \<and> bit b0 (i - 56) \<or> 48 \<le> i \<and> i < 56 \<and> bit b1 (i - 48) \<or>
     40 \<le> i \<and> i < 48 \<and> bit b2 (i - 40) \<or> 32 \<le> i \<and> i < 40 \<and> bit b3 (i - 32) \<or>
     24 \<le> i \<and> i < 32 \<and> bit b4 (i - 24) \<or> 16 \<le> i \<and> i < 24 \<and> bit b5 (i - 16) \<or>
     8 \<le> i \<and> i < 16 \<and> bit b6 (i - 8) \<or> i < 8 \<and> bit b7 i"
  unfolding assemble_be_def
  by (simp only: bit_or_iff byte_at_bit ucast_u8_bit order.refl) simp

lemma u8_of_low: "bit (ucast (v :: u64) :: u8) i \<longleftrightarrow> i < 8 \<and> bit v i"
  by (auto simp: bit_ucast_iff)

lemma byte_position_cases:
  assumes "i < LENGTH(64)"
  obtains j where "j < 8" "i = 56 + j" | j where "j < 8" "i = 48 + j" | j where "j < 8" "i = 40 + j"
    | j where "j < 8" "i = 32 + j" | j where "j < 8" "i = 24 + j" | j where "j < 8" "i = 16 + j"
    | j where "j < 8" "i = 8 + j" | "i < 8"
proof -
  consider "56 \<le> i" | "48 \<le> i" "i < 56" | "40 \<le> i" "i < 48" | "32 \<le> i" "i < 40"
    | "24 \<le> i" "i < 32" | "16 \<le> i" "i < 24" | "8 \<le> i" "i < 16" | "i < 8"
    by linarith
  then show thesis
  proof cases
    case 1 then show ?thesis using that(1) [of "i - 56"] assms by simp
  next
    case 2 then show ?thesis using that(2) [of "i - 48"] by simp
  next
    case 3 then show ?thesis using that(3) [of "i - 40"] by simp
  next
    case 4 then show ?thesis using that(4) [of "i - 32"] by simp
  next
    case 5 then show ?thesis using that(5) [of "i - 24"] by simp
  next
    case 6 then show ?thesis using that(6) [of "i - 16"] by simp
  next
    case 7 then show ?thesis using that(7) [of "i - 8"] by simp
  next
    case 8 then show ?thesis by (rule that(8))
  qed
qed

lemma assemble_be_bytes:
  assumes v_def: "v = assemble_be b0 b1 b2 b3 b4 b5 b6 b7"
  shows "ucast (drop_bit 56 v) = b0" "ucast (drop_bit 48 v) = b1"
    "ucast (drop_bit 40 v) = b2" "ucast (drop_bit 32 v) = b3"
    "ucast (drop_bit 24 v) = b4" "ucast (drop_bit 16 v) = b5"
    "ucast (drop_bit 8 v) = b6" "ucast v = b7"
  unfolding v_def
  by (rule bit_word_eqI; simp only: u8_of_low bit_drop_bit_eq comp_apply assemble_be_bit; simp)+

lemma assemble_be_surj:
  "assemble_be (ucast (drop_bit 56 v)) (ucast (drop_bit 48 v)) (ucast (drop_bit 40 v))
     (ucast (drop_bit 32 v)) (ucast (drop_bit 24 v)) (ucast (drop_bit 16 v))
     (ucast (drop_bit 8 v)) (ucast v) = v"
proof (rule bit_word_eqI)
  fix i assume "i < LENGTH(64)"
  then show "bit (assemble_be (ucast (drop_bit 56 v)) (ucast (drop_bit 48 v)) (ucast (drop_bit 40 v))
     (ucast (drop_bit 32 v)) (ucast (drop_bit 24 v)) (ucast (drop_bit 16 v))
     (ucast (drop_bit 8 v)) (ucast v)) i \<longleftrightarrow> bit v i"
    by (cases rule: byte_position_cases)
      (simp_all only: assemble_be_bit u8_of_low bit_drop_bit_eq comp_apply, simp_all)
qed

lemma assemble_be_xor:
  "assemble_be b0 b1 b2 b3 b4 b5 b6 b7 =
     push_bit 56 (ucast b0) XOR push_bit 48 (ucast b1) XOR
     push_bit 40 (ucast b2) XOR push_bit 32 (ucast b3) XOR
     push_bit 24 (ucast b4) XOR push_bit 16 (ucast b5) XOR
     push_bit 8 (ucast b6) XOR push_bit 0 (ucast b7)"
proof (rule bit_word_eqI)
  fix i assume "i < LENGTH(64)"
  then show "bit (assemble_be b0 b1 b2 b3 b4 b5 b6 b7) i \<longleftrightarrow>
     bit (push_bit 56 (ucast b0) XOR push_bit 48 (ucast b1) XOR
     push_bit 40 (ucast b2) XOR push_bit 32 (ucast b3) XOR
     push_bit 24 (ucast b4) XOR push_bit 16 (ucast b5) XOR
     push_bit 8 (ucast b6) XOR push_bit 0 (ucast b7) :: u64) i"
    by (cases rule: byte_position_cases)
      (simp_all only: assemble_be_bit bit_xor_iff byte_at_bit order.refl le0
        numeral_le_iff semiring_norm, simp_all)
qed

lemma byte_field_bit:
  "j \<le> 56 \<Longrightarrow> bit ((v :: u64) AND push_bit j (mask 8)) i \<longleftrightarrow> j \<le> i \<and> i < j + 8 \<and> bit v i"
  by (auto simp: bit_and_iff bit_push_bit_iff bit_mask_iff dest: bit_imp_le_length)

lemma byte_field_masks:
  "(0x00000000000000ff :: u64) = push_bit 0 (mask 8)"
  "(0x000000000000ff00 :: u64) = push_bit 8 (mask 8)"
  "(0x0000000000ff0000 :: u64) = push_bit 16 (mask 8)"
  "(0x00000000ff000000 :: u64) = push_bit 24 (mask 8)"
  "(0x000000ff00000000 :: u64) = push_bit 32 (mask 8)"
  "(0x0000ff0000000000 :: u64) = push_bit 40 (mask 8)"
  "(0x00ff000000000000 :: u64) = push_bit 48 (mask 8)"
  "(0xff00000000000000 :: u64) = push_bit 56 (mask 8)"
  by (simp_all add: mask_eq_exp_minus_1 push_bit_eq_mult)

lemma byteswap_up_bit:
  "j \<le> 56 \<Longrightarrow> bit (push_bit k ((v :: u64) AND push_bit j (mask 8))) i \<longleftrightarrow>
     i < 64 \<and> j + k \<le> i \<and> i < j + k + 8 \<and> bit v (i - k)"
  by (simp only: bit_push_bit_iff byte_field_bit) auto

lemma byteswap_down_bit:
  "j \<le> 56 \<Longrightarrow> bit (drop_bit k ((v :: u64) AND push_bit j (mask 8))) i \<longleftrightarrow>
     j \<le> i + k \<and> i + k < j + 8 \<and> bit v (i + k)"
  by (simp only: bit_drop_bit_eq comp_apply byte_field_bit add.commute)

lemmas byteswap_field_bit = byteswap_up_bit byteswap_down_bit

lemma byteswap_bytes:
  "persistence_crc64_byteswap v =
     assemble_be (ucast v) (ucast (drop_bit 8 v)) (ucast (drop_bit 16 v)) (ucast (drop_bit 24 v))
       (ucast (drop_bit 32 v)) (ucast (drop_bit 40 v)) (ucast (drop_bit 48 v)) (ucast (drop_bit 56 v))"
proof (rule bit_word_eqI)
  fix i assume "i < LENGTH(64)"
  then show "bit (persistence_crc64_byteswap v) i \<longleftrightarrow>
      bit (assemble_be (ucast v) (ucast (drop_bit 8 v)) (ucast (drop_bit 16 v)) (ucast (drop_bit 24 v))
       (ucast (drop_bit 32 v)) (ucast (drop_bit 40 v)) (ucast (drop_bit 48 v)) (ucast (drop_bit 56 v))) i"
    by (cases rule: byte_position_cases)
      (simp_all only: persistence_crc64_byteswap_def byte_field_masks bit_or_iff
        byteswap_field_bit byte_field_bit order.refl le0 numeral_le_iff semiring_norm assemble_be_bit
        u8_of_low bit_drop_bit_eq comp_apply, simp_all add: add.commute)
qed

lemma byteswap_assemble:
  "persistence_crc64_byteswap (assemble_be b7 b6 b5 b4 b3 b2 b1 b0) =
     assemble_be b0 b1 b2 b3 b4 b5 b6 b7"
  by (simp add: byteswap_bytes assemble_be_bytes [OF refl])

lemma load_be64_portable:
  "persistence_crc64_load_be64 ce le bytes offset =
     assemble_be (bytes ! offset) (bytes ! (offset + 1)) (bytes ! (offset + 2))
       (bytes ! (offset + 3)) (bytes ! (offset + 4)) (bytes ! (offset + 5))
       (bytes ! (offset + 6)) (bytes ! (offset + 7))"
  by (simp add: persistence_crc64_load_be64_def host_load64_def byteswap_assemble Let_def)

section \<open>Table look-ups as register steps\<close>

lemma persistence_crc64_table_nth:
  "persistence_crc64_table ! unat (b :: u8) = (crc64_shift ^^ 8) (push_bit 56 (ucast b))"
proof -
  have "unat b < 256" using unsigned_less [of b] by simp
  then show ?thesis
    by (simp add: persistence_crc64_table_def make_persistence_crc64_table_def of_nat_unat)
qed

lemma advance_zero_shifts: "persistence_crc64_advance_zero crc = (crc64_shift ^^ 8) crc"
proof -
  let ?hi = "push_bit 56 (ucast (ucast (drop_bit 56 crc) :: u8)) :: u64"
  let ?lo = "take_bit 56 crc"
  have split: "crc = ?lo XOR ?hi"
    by (rule bit_word_eqI) (auto simp: bit_xor_iff bit_take_bit_iff byte_at_bit u8_of_drop_bit)
  have low: "(crc64_shift ^^ 8) ?lo = push_bit 8 ?lo"
    by (rule crc64_shifts_low) (auto simp: bit_take_bit_iff)
  have "push_bit 8 ?lo = push_bit 8 crc"
    by (rule bit_word_eqI) (auto simp: bit_push_bit_iff bit_take_bit_iff)
  then have "persistence_crc64_advance_zero crc = (crc64_shift ^^ 8) ?lo XOR (crc64_shift ^^ 8) ?hi"
    by (simp add: persistence_crc64_advance_zero_def persistence_crc64_table_nth low)
  also have "\<dots> = (crc64_shift ^^ 8) crc"
    by (subst split) (rule crc64_shifts_xor [symmetric])
  finally show ?thesis .
qed

lemma crc64_fill_slices_length: "length (crc64_fill_slices n out) = length out"
  by (induction n out rule: crc64_fill_slices.induct) simp_all

lemma crc64_fill_slices_nth:
  assumes "n < length out" "k < length out" "i < 256"
    and "\<And>r j. n \<le> r \<Longrightarrow> r < length out \<Longrightarrow> j < 256 \<Longrightarrow>
           out ! r ! j = (persistence_crc64_advance_zero ^^ (length out - r)) (push_bit 56 (of_nat j))"
  shows "crc64_fill_slices n out ! k ! i =
     (persistence_crc64_advance_zero ^^ (length out - k)) (push_bit 56 (of_nat i))"
  using assms
proof (induction n out rule: crc64_fill_slices.induct)
  case (1 out)
  then show ?case by simp
next
  case (2 s out)
  let ?out = "out[s := map (\<lambda>index. persistence_crc64_advance_zero (out ! Suc s ! index)) [0..<256]]"
  have row: "?out ! r ! j = (persistence_crc64_advance_zero ^^ (length ?out - r)) (push_bit 56 (of_nat j))"
    if "s \<le> r" "r < length ?out" "j < 256" for r j
  proof (cases "r = s")
    case True
    have "length out - s = Suc (length out - Suc s)" using "2.prems"(1) by simp
    then show ?thesis using True that "2.prems"(1) "2.prems"(4) [of "Suc s" j] by simp
  next
    case False
    then show ?thesis using that "2.prems"(4) [of r j] by simp
  qed
  have "crc64_fill_slices s ?out ! k ! i =
      (persistence_crc64_advance_zero ^^ (length ?out - k)) (push_bit 56 (of_nat i))"
    by (rule "2.IH") (use "2.prems" row in auto)
  then show ?case by simp
qed

lemma slicing_table_nth:
  assumes "k < 8"
  shows "persistence_crc64_slicing_table ! k ! unat (b :: u8) =
     (crc64_shift ^^ (8 * (8 - k))) (push_bit 56 (ucast b))"
proof -
  let ?out = "(replicate 8 (replicate 256 0))[7 := map (\<lambda>index. persistence_crc64_table ! index) [0..<256]]"
  have b: "unat b < 256" using unsigned_less [of b] by simp
  have shifts: "(persistence_crc64_advance_zero ^^ n) c = (crc64_shift ^^ (8 * n)) c" for n c
  proof (induction n)
    case (Suc n)
    have "8 * Suc n = 8 + 8 * n" by simp
    then show ?case
      by (metis Suc advance_zero_shifts comp_apply funpow.simps(2) funpow_add)
  qed simp
  have base: "?out ! r ! j = (persistence_crc64_advance_zero ^^ (length ?out - r)) (push_bit 56 (of_nat j))"
    if "7 \<le> r" "r < length ?out" "j < 256" for r j
  proof -
    have "r = 7" using that by simp
    then show ?thesis
      using that by (simp add: persistence_crc64_table_def make_persistence_crc64_table_def
          advance_zero_shifts)
  qed
  have "crc64_fill_slices 7 ?out ! k ! unat b =
      (persistence_crc64_advance_zero ^^ (length ?out - k)) (push_bit 56 (of_nat (unat b)))"
    by (rule crc64_fill_slices_nth) (use assms b base in auto)
  then show ?thesis
    by (simp add: persistence_crc64_slicing_table_def make_persistence_crc64_slicing_table_def
        shifts of_nat_unat)
qed

lemma crc64_shift_byte_row:
  assumes "n \<le> 56"
  shows "(crc64_shift ^^ 64) (push_bit n (ucast (b :: u8))) = (crc64_shift ^^ (8 + n)) (push_bit 56 (ucast b))"
proof -
  have "(crc64_shift ^^ (56 - n)) (push_bit n (ucast b)) = push_bit (56 - n) (push_bit n (ucast b))"
    by (rule crc64_shifts_low) (use assms in \<open>auto simp: byte_at_bit\<close>)
  also have "\<dots> = push_bit 56 (ucast b)" using assms by (simp add: push_bit_push_bit)
  finally have "(crc64_shift ^^ (8 + n)) ((crc64_shift ^^ (56 - n)) (push_bit n (ucast b))) =
      (crc64_shift ^^ (8 + n)) (push_bit 56 (ucast b))" by simp
  moreover have "8 + n + (56 - n) = 64" using assms by simp
  ultimately show ?thesis by (metis comp_apply funpow_add)
qed

lemma crc64_shift_assembled:
  "(crc64_shift ^^ 64) (assemble_be b0 b1 b2 b3 b4 b5 b6 b7) =
     (crc64_shift ^^ (8 + 56)) (push_bit 56 (ucast b0)) XOR
     (crc64_shift ^^ (8 + 48)) (push_bit 56 (ucast b1)) XOR
     (crc64_shift ^^ (8 + 40)) (push_bit 56 (ucast b2)) XOR
     (crc64_shift ^^ (8 + 32)) (push_bit 56 (ucast b3)) XOR
     (crc64_shift ^^ (8 + 24)) (push_bit 56 (ucast b4)) XOR
     (crc64_shift ^^ (8 + 16)) (push_bit 56 (ucast b5)) XOR
     (crc64_shift ^^ (8 + 8)) (push_bit 56 (ucast b6)) XOR
     (crc64_shift ^^ (8 + 0)) (push_bit 56 (ucast b7))"
proof -
  have le: "(56::nat) \<le> 56" "(48::nat) \<le> 56" "(40::nat) \<le> 56" "(32::nat) \<le> 56"
    "(24::nat) \<le> 56" "(16::nat) \<le> 56" "(8::nat) \<le> 56" "(0::nat) \<le> 56"
    by simp_all
  show ?thesis
    by (simp only: assemble_be_xor crc64_shifts_xor le [THEN crc64_shift_byte_row])
qed

lemma crc64_fold_word_shifts: "crc64_fold_word v = (crc64_shift ^^ 64) v"
proof -
  have "(crc64_shift ^^ 64) v = (crc64_shift ^^ 64)
     (assemble_be (ucast (drop_bit 56 v)) (ucast (drop_bit 48 v)) (ucast (drop_bit 40 v))
     (ucast (drop_bit 32 v)) (ucast (drop_bit 24 v)) (ucast (drop_bit 16 v))
     (ucast (drop_bit 8 v)) (ucast v))"
    by (simp only: assemble_be_surj)
  then show ?thesis
    by (simp only: crc64_shift_assembled) (simp add: crc64_fold_word_def slicing_table_nth)
qed

lemma crc64_shifts_shifts: "(crc64_shift ^^ m) ((crc64_shift ^^ n) c) = (crc64_shift ^^ (m + n)) c"
  by (simp add: funpow_add)

lemma crc64_fold_word_bytes:
  "crc64_fold_word (crc XOR assemble_be b0 b1 b2 b3 b4 b5 b6 b7) =
     foldl crc64_byte crc [b0, b1, b2, b3, b4, b5, b6, b7]"
  by (simp only: foldl.simps crc64_byte_def crc64_fold_word_shifts crc64_shifts_xor
      crc64_shift_assembled crc64_shifts_shifts) (simp add: xor.assoc)

lemma crc64_table_byte:
  "push_bit 8 crc XOR persistence_crc64_table ! unat (ucast (drop_bit 56 crc XOR ucast b) :: u8) =
     crc64_byte crc (b :: u8)"
proof -
  let ?c = "crc XOR push_bit 56 (ucast b)"
  have "push_bit 8 ?c = push_bit 8 crc"
    by (rule bit_word_eqI) (auto simp: bit_push_bit_iff bit_xor_iff ucast_u8_bit)
  moreover have "(ucast (drop_bit 56 ?c) :: u8) = ucast (drop_bit 56 crc XOR ucast b)"
    by (rule bit_word_eqI) (auto simp: u8_of_low bit_drop_bit_eq bit_xor_iff bit_push_bit_iff ucast_u8_bit)
  ultimately have "persistence_crc64_advance_zero ?c =
      push_bit 8 crc XOR persistence_crc64_table ! unat (ucast (drop_bit 56 crc XOR ucast b) :: u8)"
    by (simp only: persistence_crc64_advance_zero_def)
  then show ?thesis by (simp add: advance_zero_shifts crc64_byte_def)
qed

section \<open>The loops compute the reference\<close>

lemma crc64_tail_reference: "crc64_tail bytes offset crc = foldl crc64_byte crc (drop offset bytes)"
proof (induction bytes offset crc rule: crc64_tail.induct)
  case (1 bytes offset crc)
  show ?case
  proof (cases "offset < length bytes")
    case True
    then have "drop offset bytes = bytes ! offset # drop (offset + 1) bytes"
      by (simp add: Cons_nth_drop_Suc)
    then show ?thesis
      using 1 True by (simp add: crc64_tail.simps [of bytes offset crc] crc64_table_byte)
  next
    case False
    then show ?thesis by (simp add: crc64_tail.simps [of bytes offset crc])
  qed
qed

lemma drop_eight:
  assumes "8 \<le> length xs - k"
  shows "drop k xs = [xs ! k, xs ! (k + 1), xs ! (k + 2), xs ! (k + 3), xs ! (k + 4),
     xs ! (k + 5), xs ! (k + 6), xs ! (k + 7)] @ drop (k + 8) xs"
proof -
  have step: "drop (k + n) xs = xs ! (k + n) # drop (k + Suc n) xs" if "n < 8" for n
    using assms that by (simp add: Cons_nth_drop_Suc)
  show ?thesis
    using step [of 0] step [of 1] step [of 2] step [of 3] step [of 4] step [of 5] step [of 6] step [of 7]
    by (simp add: numeral_eq_Suc)
qed

lemma crc64_words_reference:
  "crc64_words ce le bytes offset crc = (offset', crc') \<Longrightarrow>
     foldl crc64_byte crc' (drop offset' bytes) = foldl crc64_byte crc (drop offset bytes)"
proof (induction ce le bytes offset crc rule: crc64_words.induct)
  case (1 ce le bytes offset crc)
  show ?case
  proof (cases "8 \<le> length bytes - offset")
    case True
    let ?crc = "crc64_fold_word (crc XOR persistence_crc64_load_be64 ce le bytes offset)"
    have "crc64_words ce le bytes (offset + 8) ?crc = (offset', crc')"
      using "1.prems" True by (simp add: crc64_words.simps [of ce le bytes offset crc])
    then have "foldl crc64_byte crc' (drop offset' bytes) = foldl crc64_byte ?crc (drop (offset + 8) bytes)"
      using "1.IH" True by blast
    also have "\<dots> = foldl crc64_byte crc (drop offset bytes)"
      by (subst drop_eight [OF True]) (simp only: load_be64_portable crc64_fold_word_bytes foldl_append)
    finally show ?thesis .
  next
    case False
    then show ?thesis
      using "1.prems" by (simp add: crc64_words.simps [of ce le bytes offset crc])
  qed
qed

lemma persistence_crc64_reference: "persistence_crc64 ce le bytes = crc64_reference bytes"
  by (simp add: persistence_crc64_def crc64_reference_def crc64_tail_reference Let_def
      crc64_words_reference [of ce le bytes 0 0] split: prod.splits)

section \<open>Integrity properties\<close>

lemma crc64_fold_split:
  "foldl crc64_byte c xs = (crc64_shift ^^ (8 * length xs)) c XOR foldl crc64_byte 0 xs"
proof (induction xs arbitrary: c)
  case (Cons x xs)
  have "foldl crc64_byte c (x # xs) =
      (crc64_shift ^^ (8 * length xs)) (crc64_byte c x) XOR foldl crc64_byte 0 xs"
    using Cons.IH [of "crc64_byte c x"] by simp
  moreover have "crc64_byte c x = (crc64_shift ^^ 8) c XOR crc64_byte 0 x"
    by (simp add: crc64_byte_def crc64_shifts_xor)
  moreover have "foldl crc64_byte 0 (x # xs) =
      (crc64_shift ^^ (8 * length xs)) (crc64_byte 0 x) XOR foldl crc64_byte 0 xs"
    using Cons.IH [of "crc64_byte 0 x"] by simp
  ultimately show ?case
    by (simp add: crc64_shifts_xor crc64_shifts_shifts xor.assoc add.commute)
qed simp

lemma crc64_fold_linear:
  "length xs = length ys \<Longrightarrow>
     foldl crc64_byte (c XOR d) (map2 (XOR) xs ys) = foldl crc64_byte c xs XOR foldl crc64_byte d ys"
proof (induction xs ys arbitrary: c d rule: list_induct2)
  case (Cons x xs y ys)
  have "crc64_byte (c XOR d) (x XOR y) = crc64_byte c x XOR crc64_byte d y"
    by (simp add: crc64_byte_def crc64_shifts_xor unsigned_xor_eq push_bit_xor
        xor.assoc xor.left_commute)
  then show ?case using Cons.IH by simp
qed simp

lemma crc64_fold_eight_inj:
  assumes "length xs = 8" "length ys = 8" "foldl crc64_byte 0 xs = foldl crc64_byte 0 ys"
  shows "xs = ys"
proof -
  obtain a0 a1 a2 a3 a4 a5 a6 a7 where xs: "xs = [a0, a1, a2, a3, a4, a5, a6, a7]"
    using assms(1) by (auto simp: numeral_eq_Suc length_Suc_conv)
  obtain b0 b1 b2 b3 b4 b5 b6 b7 where ys: "ys = [b0, b1, b2, b3, b4, b5, b6, b7]"
    using assms(2) by (auto simp: numeral_eq_Suc length_Suc_conv)
  let ?a = "assemble_be a0 a1 a2 a3 a4 a5 a6 a7" and ?b = "assemble_be b0 b1 b2 b3 b4 b5 b6 b7"
  have "(crc64_shift ^^ 64) ?a = (crc64_shift ^^ 64) ?b"
    using assms(3) crc64_fold_word_bytes [of 0, symmetric] unfolding xs ys
    by (simp only: crc64_fold_word_shifts xor.left_neutral)
  then have "(crc64_shift ^^ 64) (?a XOR ?b) = 0"
    by (simp only: crc64_shifts_xor xor_self_eq)
  then have "?a XOR ?b = 0" by (rule crc64_shifts_eq_zero)
  then have "?a = ?b" by (simp only: word_xor_cancel)
  then show ?thesis
    unfolding xs ys using assemble_be_bytes [of ?a a0 a1 a2 a3 a4 a5 a6 a7]
      assemble_be_bytes [of ?a b0 b1 b2 b3 b4 b5 b6 b7] by metis
qed

lemma crc64_fold_short_inj:
  assumes "length xs = length ys" "length xs \<le> 8" "foldl crc64_byte 0 xs = foldl crc64_byte 0 ys"
  shows "xs = ys"
proof -
  let ?pad = "replicate (8 - length xs) (0 :: u8)"
  have "foldl crc64_byte 0 (xs @ ?pad) = foldl crc64_byte 0 (ys @ ?pad)"
    by (simp add: assms(3))
  then have "xs @ ?pad = ys @ ?pad"
    using assms(1,2) by (intro crc64_fold_eight_inj) auto
  then show ?thesis by simp
qed

lemma crc64_reference_burst:
  assumes "length xs = length ys" "length xs \<le> 8"
    and eq: "crc64_reference (pre @ xs @ post) = crc64_reference (pre @ ys @ post)"
  shows "xs = ys"
proof -
  let ?c = "foldl crc64_byte 0 pre" and ?n = "8 * length post"
  have "(crc64_shift ^^ ?n) (foldl crc64_byte ?c xs) = (crc64_shift ^^ ?n) (foldl crc64_byte ?c ys)"
    using eq unfolding crc64_reference_def foldl_append
    by (subst (asm) crc64_fold_split, subst (asm) (2) crc64_fold_split) (simp only: word_xor_cancel)
  then have "(crc64_shift ^^ ?n) (foldl crc64_byte ?c xs XOR foldl crc64_byte ?c ys) = 0"
    by (simp add: crc64_shifts_xor)
  then have "foldl crc64_byte ?c xs = foldl crc64_byte ?c ys"
    using crc64_shifts_eq_zero by (metis word_xor_eq_zero)
  then have "foldl crc64_byte 0 xs = foldl crc64_byte 0 ys"
    using crc64_fold_split [of ?c xs] crc64_fold_split [of ?c ys] assms(1)
    by (simp only: word_xor_cancel)
  then show ?thesis using assms(1,2) by (intro crc64_fold_short_inj)
qed

lemma funpow_eight: "(f ^^ 8) x = f (f (f (f (f (f (f (f x)))))))"
  by (simp add: numeral_eq_Suc)

lemma check_value_reference:
  "crc64_reference [0x31, 0x32, 0x33, 0x34, 0x35, 0x36, 0x37, 0x38, 0x39] = 0x6c40df5f0b497347"
  by (simp add: crc64_reference_def crc64_byte_def funpow_eight crc64_shift_def
      persistence_crc64_polynomial_def)

section \<open>Properties\<close>

text \<open>\<^bold>\<open>C2.\<close>
  The slicing-by-eight checksum, with its compile-time tables, its host-order loads and its
  byte swap, is the bit-serial CRC-64/ECMA remainder of the bytes: during constant evaluation
  and at run time, on a little-endian and on a big-endian host.\<close>

theorem persistence_crc64_is_ecma:
  "persistence_crc64 constant_evaluated little_endian bytes = crc64_reference bytes"
  by (rule persistence_crc64_reference)



text \<open>
  The check value that the header asserts at compile time: the checksum of the nine ASCII
  digits \<^verbatim>\<open>123456789\<close>.\<close>

theorem crc64_check_value:
  "persistence_crc64 constant_evaluated little_endian
     [0x31, 0x32, 0x33, 0x34, 0x35, 0x36, 0x37, 0x38, 0x39] = 0x6c40df5f0b497347"
  unfolding persistence_crc64_reference by (rule check_value_reference)

end
