(* ===== verification/Image_Audit.thy ===== *)
theory Image_Audit
  imports Compiled_View Crc64
begin

text \<open>
  The cold audit \<^verbatim>\<open>compiled_project_view::verify_contents\<close>
  (\<^verbatim>\<open>server_engine/project/persistence/compiled_project.cpp\<close>): the checksum of a section, and the
  passes over the string and identity sections, loop by loop. A pass that returns
  \<^verbatim>\<open>invalid_image\<close> is \<open>None\<close> or \<open>False\<close>. The theory shows that an accepted image has the
  properties the string table and the identity space need of their baseline, and that the string
  section is exactly the concatenation of the spellings. The passes over types, members,
  objects, links and sources are in \<open>Graph_Audit\<close>.
\<close>

section \<open>Checksums\<close>

definition uint64_max :: nat where "uint64_max = 2 ^ 64 - 1"

definition multiply_u64 :: "nat \<Rightarrow> nat \<Rightarrow> nat option" where
  "multiply_u64 left right = (if left \<noteq> 0 \<and> right > uint64_max div left then None else Some (left * right))"

text \<open>The body of the checksum loop, at run time on a little-endian host.\<close>

definition section_crc_ok :: "section_view \<Rightarrow> bool" where
  "section_crc_ok sec =
     (case multiply_u64 (sec_count sec) (sec_record_size sec) of
        None \<Rightarrow> False
      | Some byte_count \<Rightarrow>
          byte_count \<le> size_max \<and>
          persistence_crc64 False True (take byte_count (sec_data sec)) = sec_crc64 sec)"

section \<open>Strings\<close>

fun verify_string_records :: "compiled_project_view \<Rightarrow> nat list \<Rightarrow> nat \<Rightarrow> nat option" where
  "verify_string_records v [] expected = Some expected"
| "verify_string_records v (index # rest) expected =
     (let offs = unat (read_u32 (sec_data (string_core v)) (index * string_core_size));
          len = unat (read_u32 (sec_data (string_core v)) (index * string_core_size + 4))
      in if len = 0 \<or> offs \<noteq> expected \<or> len > sec_count (string_bytes v) - expected then None
         else
           let sid = of_nat (index + 1); spelled = view_string v sid
           in if spelled = [] \<or> find_string v spelled \<noteq> sid then None
              else verify_string_records v rest (expected + len))"

fun verify_string_index :: "compiled_project_view \<Rightarrow> nat list \<Rightarrow> nat \<Rightarrow> nat option" where
  "verify_string_index v [] indexed = Some indexed"
| "verify_string_index v (index # rest) indexed =
     (let fingerprint = index_fingerprint v index; raw = index_raw v index
      in if raw = 0 then (if fingerprint \<noteq> 0 then None else verify_string_index v rest indexed)
         else
           let sid = string_from_raw v raw; spelled = view_string v sid
           in if sid = 0 \<or> spelled = [] \<or> fingerprint \<noteq> string_hash spelled \<or> find_string v spelled \<noteq> sid
              then None
              else verify_string_index v rest (indexed + 1))"

definition verify_strings :: "compiled_project_view \<Rightarrow> bool" where
  "verify_strings v =
     (case verify_string_records v [0..<string_count_value v] 0 of
        None \<Rightarrow> False
      | Some expected \<Rightarrow>
          if expected \<noteq> sec_count (string_bytes v) then False
          else case verify_string_index v [0..<sec_count (string_index v)] 0 of
              None \<Rightarrow> False
            | Some indexed \<Rightarrow> indexed = string_count_value v)"

section \<open>Identities\<close>

fun verify_identity_records :: "compiled_project_view \<Rightarrow> nat list \<Rightarrow> bool" where
  "verify_identity_records v [] = True"
| "verify_identity_records v (slot # rest) =
     (let core = sec_data (identity_core v); record = (slot - 1) * identity_core_size;
          identity = identity_from_raw v (read_u32 core record);
          parent = identity_from_raw v (read_u32 core (record + 4));
          name = string_from_raw v (read_u32 core (record + 8))
      in if \<not> ref_valid identity \<or> unat (ref_slot identity) \<noteq> slot \<or> ref_kind identity = kind_root \<or>
            \<not> ref_valid parent \<or> unat (ref_slot parent) \<ge> slot \<or> name = 0 \<or>
            find_identity v parent name (ref_kind identity) \<noteq> identity
         then False
         else verify_identity_records v rest)"

fun verify_identity_index :: "compiled_project_view \<Rightarrow> nat list \<Rightarrow> nat \<Rightarrow> nat option" where
  "verify_identity_index v [] indexed = Some indexed"
| "verify_identity_index v (index # rest) indexed =
     (let fingerprint = identity_slot_fingerprint v index; raw = identity_slot_raw v index
      in if raw = 0 then (if fingerprint \<noteq> 0 then None else verify_identity_index v rest indexed)
         else
           let identity = identity_from_raw v raw
           in if \<not> ref_valid identity \<or> ref_kind identity = kind_root then None
              else
                let parent = identity_parent v identity; name = identity_name v identity;
                    hash = identity_hash parent name (kind_value (ref_kind identity))
                in if \<not> ref_valid parent \<or> name = 0 \<or> fingerprint \<noteq> identity_fingerprint hash \<or>
                      find_identity v parent name (ref_kind identity) \<noteq> identity
                   then None
                   else verify_identity_index v rest (indexed + 1))"

definition verify_identities :: "compiled_project_view \<Rightarrow> bool" where
  "verify_identities v =
     (let root = identity_root v
      in if \<not> ref_valid root \<or> ref_slot root \<noteq> 1 \<or> ref_kind root \<noteq> kind_root \<or>
            ref_valid (identity_parent v root) \<or> identity_name v root \<noteq> 0
         then False
         else if \<not> verify_identity_records v [2..<identity_count_value v + 1] then False
         else case verify_identity_index v [0..<sec_count (identity_index v)] 0 of
             None \<Rightarrow> False
           | Some indexed \<Rightarrow> indexed + 1 = identity_count_value v)"

section \<open>What an accepted image guarantees\<close>

lemma verify_string_records_each:
  assumes "verify_string_records v is expected = Some final" "i \<in> set is"
  shows "view_string v (of_nat (i + 1)) \<noteq> [] \<and>
    find_string v (view_string v (of_nat (i + 1))) = of_nat (i + 1)"
  using assms
  by (induction v "is" expected rule: verify_string_records.induct)
    (auto simp: Let_def simp del: of_nat_Suc split: if_splits)

lemma text_slice_Suc_prefix:
  "a + n \<le> length xs \<Longrightarrow> take a xs @ text_slice xs a n = take (a + n) xs"
  by (simp add: text_slice_def take_add)

text \<open>The records follow each other in the byte section without gap or overlap.\<close>

lemma verify_string_records_bytes:
  assumes "verify_string_records v [i..<n] expected = Some final" "i \<le> n" "n \<le> string_count_value v"
    "string_count_value v \<le> uint32_max" "expected \<le> sec_count (string_bytes v)"
    "sec_count (string_bytes v) = length (sec_data (string_bytes v))"
  shows "final \<le> sec_count (string_bytes v) \<and>
    map byte_char (take expected (sec_data (string_bytes v))) @
      concat (map (\<lambda>i. view_string v (of_nat (i + 1))) [i..<n]) =
    map byte_char (take final (sec_data (string_bytes v)))"
  using assms
proof (induction "n - i" arbitrary: i expected)
  case 0
  then show ?case by simp
next
  case (Suc d)
  then have i: "i < n" by simp
  let ?core = "sec_data (string_core v)" and ?bytes = "sec_data (string_bytes v)"
  let ?offs = "unat (read_u32 ?core (i * string_core_size))"
  let ?len = "unat (read_u32 ?core (i * string_core_size + 4))"
  let ?sid = "of_nat (i + 1) :: u32"
  have step: "?len \<noteq> 0" "?offs = expected" "?len \<le> sec_count (string_bytes v) - expected"
    "verify_string_records v [Suc i..<n] (expected + ?len) = Some final"
    using Suc.prems(1) i by (simp_all add: upt_conv_Cons Let_def split: if_splits)
  have le: "i + 1 \<le> uint32_max" using i Suc.prems by simp
  have sid: "?sid \<noteq> 0" "unat ?sid = i + 1" "unat (?sid - 1) = i"
    using of_nat_u32_zero [OF le] unat_of_nat_u32 [OF le] unat_of_nat_u32 [of i] le by simp_all
  have "view_string v ?sid = map byte_char (text_slice ?bytes expected ?len)"
    using sid i Suc.prems step(1,2,3) by (simp add: view_string_def Let_def del: of_nat_add of_nat_Suc)
  moreover have "expected + ?len \<le> sec_count (string_bytes v)" using step(3) Suc.prems by linarith
  moreover have "final \<le> sec_count (string_bytes v) \<and>
    map byte_char (take (expected + ?len) ?bytes) @
      concat (map (\<lambda>i. view_string v (of_nat (i + 1))) [Suc i..<n]) = map byte_char (take final ?bytes)"
    using Suc.hyps(2) i Suc.prems step calculation(2) by (intro Suc.hyps(1)) auto
  ultimately show ?case
    using i Suc.prems(6) text_slice_Suc_prefix [of expected ?len ?bytes]
    by (simp add: upt_conv_Cons del: of_nat_add of_nat_Suc) (metis append_assoc map_append)
qed

lemma view_id_index:
  assumes "sid \<in> view_ids v"
  obtains i where "i < string_count_value v" "sid = of_nat (i + 1)"
proof
  have "0 < unat sid" "unat sid \<le> string_count_value v" using assms unat_gt_0 by (auto simp: view_ids_def)
  then show "unat sid - 1 < string_count_value v" "sid = of_nat (unat sid - 1 + 1)" by simp_all
qed

lemma verify_strings_ok:
  assumes "view_valid v" "string_count_value v \<le> uint32_max" "string_byte_size v \<le> uint32_max"
    and verified: "verify_strings v"
  shows "view_strings_ok v"
proof -
  obtain final where "verify_string_records v [0..<string_count_value v] 0 = Some final"
    using verified by (auto simp: verify_strings_def split: option.splits)
  then have "view_string v sid \<noteq> [] \<and> find_string v (view_string v sid) = sid" if "sid \<in> view_ids v" for sid
    using verify_string_records_each that by (elim view_id_index) fastforce
  then show ?thesis using assms by (simp add: view_strings_ok_def)
qed

lemma verify_identity_records_body:
  assumes "verify_identity_records v is" "i \<in> set is"
  shows "let core = sec_data (identity_core v); record = (i - 1) * identity_core_size;
          identity = identity_from_raw v (read_u32 core record);
          parent = identity_from_raw v (read_u32 core (record + 4));
          name = string_from_raw v (read_u32 core (record + 8))
    in ref_valid identity \<and> unat (ref_slot identity) = i \<and> ref_kind identity \<noteq> kind_root \<and>
       ref_valid parent \<and> unat (ref_slot parent) < i \<and> name \<noteq> 0 \<and>
       find_identity v parent name (ref_kind identity) = identity"
  using assms
proof (induction "is")
  case (Cons a "is")
  have step: "(if b then False else c) \<longleftrightarrow> \<not> b \<and> c" for b c by simp
  show ?case
    using Cons.prems Cons.IH unfolding verify_identity_records.simps Let_def step set_simps
      insert_iff de_Morgan_disj not_not not_le by blast
qed simp

lemma verify_identity_records_each:
  assumes "verify_identity_records v is" "i \<in> set is" "2 \<le> i" "i \<le> identity_count_value v"
    "identity_count_value v \<le> maximum_slot"
  shows "let r = identity_at_slot v (of_nat i)
    in ref_valid r \<and> ref_slot r = of_nat i \<and> ref_kind r \<noteq> kind_root \<and>
       ref_valid (identity_parent v r) \<and> unat (ref_slot (identity_parent v r)) < i \<and>
       identity_name v r \<noteq> 0 \<and>
       find_identity v (identity_parent v r) (identity_name v r) (ref_kind r) = r"
proof -
  let ?core = "sec_data (identity_core v)" and ?entry = "(i - 1) * identity_core_size"
  let ?r = "identity_from_raw v (read_u32 ?core ?entry)"
  let ?parent = "identity_from_raw v (read_u32 ?core (?entry + 4))"
  let ?name = "string_from_raw v (read_u32 ?core (?entry + 8))"
  have body: "ref_valid ?r" "unat (ref_slot ?r) = i" "ref_kind ?r \<noteq> kind_root" "ref_valid ?parent"
    "unat (ref_slot ?parent) < i" "?name \<noteq> 0" "find_identity v ?parent ?name (ref_kind ?r) = ?r"
    using verify_identity_records_body [OF assms(1,2)] unfolding Let_def by blast+
  have le: "i \<le> uint32_max" using assms(4,5) by (simp add: maximum_slot_eq)
  have i: "(of_nat i :: u32) \<noteq> 0" "unat (of_nat i :: u32) = i" "unat (of_nat i - 1 :: u32) = i - 1"
    using of_nat_u32_zero [OF le] unat_of_nat_u32 [OF le] unat_of_nat_u32 [of "i - 1"] le assms(3)
    by (simp_all add: of_nat_diff)
  have "identity_at_slot v (of_nat i) = ?r"
    using i assms(4) by (simp add: identity_at_slot_def)
  moreover have slot: "ref_slot ?r = of_nat i" using body(2) i(2) by (simp add: word_unat_eq_iff)
  moreover have "ref_slot ?r \<noteq> 1" "unat (ref_slot ?r - 1) = i - 1"
    using body(2) assms(3) i(3) slot by auto
  then have "identity_parent v ?r = ?parent" "identity_name v ?r = ?name"
    using body(1) by (simp_all add: identity_parent_def identity_name_def identity_from_raw_idem)
  ultimately show ?thesis using body by (simp add: Let_def)
qed

lemma verify_identities_ok:
  assumes "identity_count_value v \<le> maximum_slot" "verify_identities v"
  shows "view_identities_ok v"
proof -
  have root: "ref_valid (identity_root v)" and records: "verify_identity_records v [2..<identity_count_value v + 1]"
    using assms(2) by (auto simp: verify_identities_def Let_def split: if_splits)
  have "identity_root v = 1"
    using root identity_from_raw_cases [of v 1] by (auto simp: identity_root_def)
  moreover have "let r = identity_at_slot v (of_nat i)
      in ref_valid r \<and> ref_slot r = of_nat i \<and> ref_kind r \<noteq> kind_root \<and>
         ref_valid (identity_parent v r) \<and> unat (ref_slot (identity_parent v r)) < i \<and>
         identity_name v r \<noteq> 0 \<and>
         find_identity v (identity_parent v r) (identity_name v r) (ref_kind r) = r"
    if "i \<in> {2..identity_count_value v}" for i
    using that by (intro verify_identity_records_each [OF records _ _ _ assms(1)]) auto
  ultimately show ?thesis using assms(1) unfolding view_identities_ok_def by blast
qed

section \<open>Properties\<close>

text \<open>\<^bold>\<open>C25.\<close>
  An image whose string sections the audit accepts: every identifier has a non-empty spelling
  and is found under it, and the byte section is exactly the concatenation of the spellings in
  identifier order, without gap or overlap.\<close>

theorem audited_strings:
  assumes "view_valid v" "string_count_value v \<le> uint32_max" "string_byte_size v \<le> uint32_max"
    "sec_count (string_bytes v) = length (sec_data (string_bytes v))" "verify_strings v"
  shows "view_strings_ok v \<and>
    concat (map (\<lambda>i. view_string v (of_nat (i + 1))) [0..<string_count_value v]) =
      map byte_char (sec_data (string_bytes v))"
proof -
  obtain final where "verify_string_records v [0..<string_count_value v] 0 = Some final"
    "final = sec_count (string_bytes v)"
    using assms(5) by (auto simp: verify_strings_def split: option.splits if_splits)
  then show ?thesis
    using verify_string_records_bytes [of v 0 "string_count_value v" 0 final] assms
      verify_strings_ok [OF assms(1,2,3,5)] by simp
qed

lemma sample_verify_strings: "verify_strings sample_view"
  by (simp add: verify_strings_def sample_view_fields sample_string_core sample_view_string
      sample_find_string sample_index sample_string_from_raw sample_string_hash)

theorem audited_strings_witness:
  "verify_strings sample_view \<and> view_strings_ok sample_view \<and>
   concat (map (\<lambda>i. view_string sample_view (of_nat (i + 1))) [0..<string_count_value sample_view]) =
     map byte_char (sec_data (string_bytes sample_view))"
  using audited_strings [of sample_view] sample_verify_strings
  by (simp add: sample_view_fields) (simp add: sample_view_def)

text \<open>\<^bold>\<open>C26.\<close>
  An image whose identity sections the audit accepts has slot 1 as its root; every other slot
  holds an identity of that slot that is found under its parent, name and kind, and parents
  precede their children.\<close>

theorem audited_identities:
  assumes "identity_count_value v \<le> maximum_slot" "verify_identities v"
  shows "view_identities_ok v"
  by (rule verify_identities_ok [OF assms])

lemma sample_verify_identities: "verify_identities sample_view"
proof -
  have "[2..<identity_count_value sample_view + 1] = [2]" by (simp add: sample_view_fields)
  then show ?thesis
    by (simp add: verify_identities_def identity_root_def sample_view_fields sample_identities
        sample_identity_record sample_find_identity ref_valid_def identity_core_size_def
        sample_identity_core sample_string_from_raw sample_identity_index
        sample_identity_fingerprint identity_parent_def identity_name_def
        ref_kind_def kind_shift_def kind_of_value_def)
qed

theorem audited_identities_witness: "verify_identities sample_view \<and> view_identities_ok sample_view"
  using audited_identities [of sample_view] sample_verify_identities
  by (simp add: sample_view_fields maximum_slot_eq)

text \<open>
  The checksum audit of a section: when the stored checksum is that of the bytes written, a
  section whose bytes were changed within eight consecutive bytes is rejected.\<close>

theorem section_crc_rejects_burst:
  assumes "section_crc_ok (sec\<lparr>sec_data := pre @ xs @ post\<rparr>)"
    "length (pre @ xs @ post) = sec_count sec * sec_record_size sec"
    "length xs = length ys" "length xs \<le> 8" "xs \<noteq> ys"
  shows "\<not> section_crc_ok (sec\<lparr>sec_data := pre @ ys @ post\<rparr>)"
proof
  assume bad: "section_crc_ok (sec\<lparr>sec_data := pre @ ys @ post\<rparr>)"
  have "crc64_reference (pre @ xs @ post) = crc64_reference (pre @ ys @ post)"
    using assms(1-3) bad
    by (auto simp: section_crc_ok_def multiply_u64_def persistence_crc64_reference split: if_splits)
  then show False using crc64_reference_burst [OF assms(3,4)] assms(5) by blast
qed

theorem section_crc_rejects_burst_witness:
  "\<not> section_crc_ok ((string_bytes sample_view)\<lparr>sec_data := [98]\<rparr>)"
proof -
  have "section_crc_ok ((string_bytes sample_view)\<lparr>sec_data := [] @ [97] @ []\<rparr>)"
    by (simp add: section_crc_ok_def multiply_u64_def persistence_crc64_reference sample_view_def
        crc64_reference_def crc64_byte_def funpow_eight crc64_shift_def persistence_crc64_polynomial_def
        uint64_max_def)
  then have "\<not> section_crc_ok ((string_bytes sample_view)\<lparr>sec_data := [] @ [98] @ []\<rparr>)"
    by (rule section_crc_rejects_burst) (simp_all add: sample_view_def)
  then show ?thesis by simp
qed

end
