(* ===== verification/Interner.thy ===== *)
theory Interner
  imports Prelude
begin

text \<open>
  The contract that the string table and the identity space promise to their clients: an
  intern step gives a key an identifier, identifiers given earlier keep their meaning, and no
  key has two identifiers. \<open>step st k st' i\<close> is one successful call, \<open>name_of st i\<close> what the
  identifier stands for.
\<close>

inductive intern_log :: "('st \<Rightarrow> 'k \<Rightarrow> 'st \<Rightarrow> 'i \<Rightarrow> bool) \<Rightarrow> 'st \<Rightarrow> ('k \<times> 'i) list \<Rightarrow> 'st \<Rightarrow> bool"
  for step :: "'st \<Rightarrow> 'k \<Rightarrow> 'st \<Rightarrow> 'i \<Rightarrow> bool" where
  no_call: "intern_log step st [] st"
| call: "step st k st1 i \<Longrightarrow> intern_log step st1 calls st' \<Longrightarrow> intern_log step st ((k, i) # calls) st'"

inductive_cases intern_log_NilE: "intern_log step st [] st'"
inductive_cases intern_log_ConsE: "intern_log step st (call # calls) st'"

locale interner =
  fixes ok :: "'st \<Rightarrow> bool"
    and step :: "'st \<Rightarrow> 'k \<Rightarrow> 'st \<Rightarrow> 'i \<Rightarrow> bool"
    and name_of :: "'st \<Rightarrow> 'i \<Rightarrow> 'k option"
  assumes step_ok: "ok st \<Longrightarrow> step st k st' i \<Longrightarrow> ok st'"
    and step_names: "ok st \<Longrightarrow> step st k st' i \<Longrightarrow> name_of st' i = Some k"
    and step_keeps: "ok st \<Longrightarrow> step st k st' i \<Longrightarrow> name_of st j = Some k' \<Longrightarrow> name_of st' j = Some k'"
    and names_inj: "ok st \<Longrightarrow> name_of st i = Some k \<Longrightarrow> name_of st j = Some k \<Longrightarrow> i = j"
begin

lemma log_ok: "intern_log step st calls st' \<Longrightarrow> ok st \<Longrightarrow> ok st'"
  by (induction rule: intern_log.induct) (auto intro: step_ok)

lemma log_keeps:
  "intern_log step st calls st' \<Longrightarrow> ok st \<Longrightarrow> name_of st j = Some k \<Longrightarrow> name_of st' j = Some k"
  by (induction rule: intern_log.induct) (auto intro: step_ok step_keeps)

lemma log_names:
  "intern_log step st calls st' \<Longrightarrow> ok st \<Longrightarrow> (k, i) \<in> set calls \<Longrightarrow> name_of st' i = Some k"
  by (induction rule: intern_log.induct) (auto intro: step_ok log_keeps step_names)

lemma log_canonical:
  assumes "intern_log step st calls st'" "ok st" "(k, i) \<in> set calls" "(k', i') \<in> set calls"
  shows "i = i' \<longleftrightarrow> k = k'"
  using log_names [OF assms(1,2,3)] log_names [OF assms(1,2,4)]
    names_inj [OF log_ok [OF assms(1,2)]] by auto

end

end
