(* ===== verification/String_Table.thy ===== *)
theory String_Table
  imports Compiled_View Interner
begin

text \<open>
  \<^verbatim>\<open>server_engine/project/string/string_table.{hpp,cpp}\<close>: the canonical string table of Project
  construction. It is either fresh or an append-only overlay over the strings of a compiled
  image. The state is the class's private data; every member function is one definition.
  Identifiers are 32-bit, 0 is the invalid identifier.

  Allocation may fail in C++ (the \<^verbatim>\<open>catch (...)\<close> branches); the definitions that allocate
  take the outcome as an argument. The insertion loop does not end on a full table, so
  \<open>ensure_index_capacity\<close> and \<open>intern\<close> return an option.
\<close>

section \<open>State\<close>

record string_record =
  rec_offset :: u32
  rec_length :: u32
  rec_hash :: u32

record string_slot =
  slot_hash :: u32
  slot_id :: u32

record string_table =
  str_baseline :: "compiled_project_view option"
  str_baseline_count :: nat
  str_baseline_bytes :: nat
  str_records :: "string_record list"
  str_bytes :: string
  str_index :: "string_slot list"

definition fresh_string_table :: string_table where
  "fresh_string_table =
     \<lparr>str_baseline = None, str_baseline_count = 0, str_baseline_bytes = 0,
      str_records = [], str_bytes = [], str_index = []\<rparr>"

abbreviation slot_used :: "string_slot \<Rightarrow> bool" where
  "slot_used s \<equiv> slot_id s \<noteq> 0"

abbreviation blank_slot :: string_slot where
  "blank_slot \<equiv> \<lparr>slot_hash = 0, slot_id = 0\<rparr>"

abbreviation slot_home :: "string_slot \<Rightarrow> nat" where
  "slot_home s \<equiv> unat (slot_hash s)"

section \<open>Operations\<close>

definition string_table_size :: "string_table \<Rightarrow> nat" where
  "string_table_size st = str_baseline_count st + length (str_records st)"

definition string_table_byte_size :: "string_table \<Rightarrow> nat" where
  "string_table_byte_size st = str_baseline_bytes st + length (str_bytes st)"

definition bind_baseline :: "compiled_project_view \<Rightarrow> string_table \<Rightarrow> server_status \<times> string_table" where
  "bind_baseline v st =
     (if \<not> view_valid v \<or> str_baseline st \<noteq> None \<or> str_records st \<noteq> [] \<or>
         str_bytes st \<noteq> [] \<or> str_index st \<noteq> []
      then (project_artifact_invalid, st)
      else if string_count_value v > uint32_max \<or> string_byte_size v > uint32_max
      then (project_artifact_invalid, st)
      else (success,
        st\<lparr>str_baseline := Some v, str_baseline_count := string_count_value v,
           str_baseline_bytes := string_byte_size v\<rparr>))"

definition hash_text :: "string \<Rightarrow> u32" where
  "hash_text text =
     (let hash = foldl (\<lambda>hash c. (hash XOR of_char c) * 16777619) 2166136261 text
      in if hash = 0 then 1 else hash)"

definition str_contains :: "string_table \<Rightarrow> u32 \<Rightarrow> bool" where
  "str_contains st sid =
     (if sid = 0 then False
      else case (str_baseline st, unat sid \<le> str_baseline_count st) of
          (Some v, True) \<Rightarrow> view_string v sid \<noteq> []
        | (None, True) \<Rightarrow> False
        | (_, False) \<Rightarrow> unat sid - str_baseline_count st - 1 < length (str_records st))"

definition str_get :: "string_table \<Rightarrow> u32 \<Rightarrow> string" where
  "str_get st sid =
     (if sid = 0 then []
      else case (str_baseline st, unat sid \<le> str_baseline_count st) of
          (Some v, True) \<Rightarrow> view_string v sid
        | (None, True) \<Rightarrow> []
        | (_, False) \<Rightarrow>
            let local = unat sid - str_baseline_count st - 1
            in if length (str_records st) \<le> local then []
               else
                 let record = str_records st ! local;
                     off = unat (rec_offset record);
                     len = unat (rec_length record)
                 in if length (str_bytes st) < off \<or> length (str_bytes st) - off < len then []
                    else text_slice (str_bytes st) off len)"

definition str_spelling :: "string_table \<Rightarrow> u32 \<Rightarrow> string" where
  "str_spelling st slot =
     (if slot = 0 \<or> string_table_size st < unat slot then [] else str_get st slot)"

definition find_hashed :: "string_table \<Rightarrow> string \<Rightarrow> u32 \<Rightarrow> u32" where
  "find_hashed st text hash =
     (case (if str_index st = [] then None
            else slot_find slot_used
                   (\<lambda>s. slot_hash s = hash \<and> str_get st (slot_id s) = text)
                   (str_index st) (unat hash)) of
        Some s \<Rightarrow> slot_id s
      | None \<Rightarrow> (case str_baseline st of Some v \<Rightarrow> find_string v text | None \<Rightarrow> 0))"

definition str_find :: "string_table \<Rightarrow> string \<Rightarrow> u32" where
  "str_find st text = (if text = [] then 0 else find_hashed st text (hash_text text))"

definition insert_index :: "string_slot list \<Rightarrow> u32 \<Rightarrow> u32 \<Rightarrow> string_slot list option" where
  "insert_index target sid hash =
     slot_insert slot_used target (unat hash) \<lparr>slot_hash = hash, slot_id = sid\<rparr>"

text \<open>The rebuild loop inserts the slot of every local record, in record order.\<close>

fun reindex :: "string_table \<Rightarrow> string_slot list \<Rightarrow> nat list \<Rightarrow> string_slot list option" where
  "reindex st candidate [] = Some candidate"
| "reindex st candidate (current # rest) =
     Option.bind
       (insert_index candidate (of_nat (str_baseline_count st + current + 1))
          (rec_hash (str_records st ! current)))
       (\<lambda>candidate'. reindex st candidate' rest)"

definition ensure_index_capacity ::
  "nat \<Rightarrow> bool \<Rightarrow> string_table \<Rightarrow> (server_status \<times> string_table) option" where
  "ensure_index_capacity additional alloc st =
     (if additional > size_max - length (str_records st) then Some (io_error, st)
      else
        let required = length (str_records st) + additional
        in if str_index st \<noteq> [] \<and> required \<le> length (str_index st) div 2 then Some (success, st)
           else case next_index_capacity required of
               None \<Rightarrow> None
             | Some capacity \<Rightarrow>
                 if capacity = 0 then Some (io_error, st)
                 else if \<not> alloc then Some (io_error, st)
                 else map_option (\<lambda>candidate. (success, st\<lparr>str_index := candidate\<rparr>))
                        (reindex st (replicate capacity blank_slot) [0..<length (str_records st)]))"

text \<open>
  \<open>alloc_index\<close>: the candidate index could be allocated; \<open>alloc_store\<close>: the stable copy of
  an aliased argument, the byte arena and the record vector could grow. When they cannot, the
  code restores both vectors, so the stored state is the one before the insertion.
\<close>

definition intern ::
  "string_table \<Rightarrow> string \<Rightarrow> bool \<Rightarrow> bool \<Rightarrow> (server_status \<times> u32 \<times> string_table) option" where
  "intern st text alloc_index alloc_store =
     (if text = [] then Some (project_configuration_invalid, 0, st)
      else
        let hash = hash_text text; existing = find_hashed st text hash
        in if existing \<noteq> 0 then Some (success, existing, st)
           else case ensure_index_capacity 1 alloc_index st of
               None \<Rightarrow> None
             | Some (prepared, st1) \<Rightarrow>
                 if \<not> succeeded prepared then Some (prepared, 0, st1)
                 else if str_baseline_count st1 > uint32_max \<or>
                    length (str_records st1) \<ge> uint32_max - str_baseline_count st1 \<or>
                    length text > uint32_max \<or>
                    str_baseline_bytes st1 > uint32_max \<or>
                    length (str_bytes st1) > uint32_max - str_baseline_bytes st1 \<or>
                    length text > uint32_max - str_baseline_bytes st1 - length (str_bytes st1)
                 then Some (io_error, 0, st1)
                 else if \<not> alloc_store then Some (io_error, 0, st1)
                 else
                   let record = \<lparr>rec_offset = of_nat (length (str_bytes st1)),
                                 rec_length = of_nat (length text), rec_hash = hash\<rparr>;
                       st2 = st1\<lparr>str_bytes := str_bytes st1 @ text,
                                 str_records := str_records st1 @ [record]\<rparr>;
                       output = of_nat (str_baseline_count st2 + length (str_records st2))
                   in map_option (\<lambda>target. (success, output, st2\<lparr>str_index := target\<rparr>))
                        (insert_index (str_index st2) output hash))"

section \<open>Abstraction and invariant\<close>

definition record_text :: "string_table \<Rightarrow> string_record \<Rightarrow> string" where
  "record_text st r = text_slice (str_bytes st) (unat (rec_offset r)) (unat (rec_length r))"

definition baseline_texts :: "string_table \<Rightarrow> string list" where
  "baseline_texts st =
     (case str_baseline st of
        None \<Rightarrow> []
      | Some v \<Rightarrow> map (\<lambda>i. view_string v (of_nat (Suc i))) [0..<str_baseline_count st])"

text \<open>The table stands for its list of spellings; identifier \<open>i + 1\<close> names entry \<open>i\<close>.\<close>

definition spellings :: "string_table \<Rightarrow> string list" where
  "spellings st = baseline_texts st @ map (record_text st) (str_records st)"

definition slot_of :: "string_table \<Rightarrow> nat \<Rightarrow> string_slot" where
  "slot_of st i =
     \<lparr>slot_hash = rec_hash (str_records st ! i), slot_id = of_nat (str_baseline_count st + i + 1)\<rparr>"

definition baseline_ok :: "string_table \<Rightarrow> bool" where
  "baseline_ok st \<longleftrightarrow>
     (case str_baseline st of
        None \<Rightarrow> str_baseline_count st = 0 \<and> str_baseline_bytes st = 0
      | Some v \<Rightarrow> view_strings_ok v \<and> str_baseline_count st = string_count_value v \<and>
                  str_baseline_bytes st = string_byte_size v)"

definition records_ok :: "string_table \<Rightarrow> bool" where
  "records_ok st \<longleftrightarrow>
     str_baseline_count st + length (str_records st) \<le> uint32_max \<and>
     str_baseline_bytes st + length (str_bytes st) \<le> uint32_max \<and>
     (\<forall>r\<in>set (str_records st).
        0 < unat (rec_length r) \<and> unat (rec_offset r) + unat (rec_length r) \<le> length (str_bytes st) \<and>
        rec_hash r = hash_text (record_text st r))"

definition index_ok :: "string_table \<Rightarrow> bool" where
  "index_ok st \<longleftrightarrow>
     (if str_index st = [] then str_records st = []
      else table_ok slot_used slot_home (str_index st) \<and>
           2 * length (str_records st) \<le> length (str_index st) \<and>
           mset (filter slot_used (str_index st)) = mset (map (slot_of st) [0..<length (str_records st)]))"

definition string_table_ok :: "string_table \<Rightarrow> bool" where
  "string_table_ok st \<longleftrightarrow>
     baseline_ok st \<and> records_ok st \<and> index_ok st \<and> distinct (spellings st)"

section \<open>Reading the table\<close>

interpretation string_slots: slot_table slot_used slot_home blank_slot
  by unfold_locales simp

lemma hash_text_eq: "hash_text = string_hash"
  by (simp add: fun_eq_iff hash_text_def string_hash_def)

lemma reindex_insert_all:
  "reindex st candidate is =
     slot_insert_all slot_used slot_home candidate (map (slot_of st) is)"
  by (induction "is" arbitrary: candidate) (simp_all add: insert_index_def slot_of_def)

lemma length_baseline_texts: "baseline_ok st \<Longrightarrow> length (baseline_texts st) = str_baseline_count st"
  by (simp add: baseline_ok_def baseline_texts_def split: option.splits)

lemma length_spellings: "baseline_ok st \<Longrightarrow> length (spellings st) = string_table_size st"
  by (simp add: spellings_def length_baseline_texts string_table_size_def)

lemma str_get_baseline:
  assumes "baseline_ok st" "records_ok st" "i < str_baseline_count st"
  shows "str_get st (of_nat (Suc i)) = baseline_texts st ! i"
proof -
  obtain v where v: "str_baseline st = Some v"
    using assms by (auto simp: baseline_ok_def split: option.splits)
  have "Suc i \<le> uint32_max" using assms by (simp add: records_ok_def)
  then show ?thesis
    using v assms(3) unat_of_nat_u32 [of "Suc i"] of_nat_u32_zero [of "Suc i"]
    by (simp add: str_get_def baseline_texts_def del: of_nat_Suc)
qed

lemma str_get_local:
  assumes "records_ok st" "i < length (str_records st)"
  shows "str_get st (of_nat (str_baseline_count st + i + 1)) = record_text st (str_records st ! i)"
proof -
  let ?k = "str_baseline_count st + i + 1" and ?r = "str_records st ! i"
  have k: "?k \<le> uint32_max" using assms by (simp add: records_ok_def)
  have r: "unat (rec_offset ?r) + unat (rec_length ?r) \<le> length (str_bytes st)"
    using assms by (auto simp: records_ok_def)
  have "unat (of_nat ?k :: u32) = ?k" "(of_nat ?k :: u32) \<noteq> 0"
    using k of_nat_u32_zero [OF k] unat_of_nat_u32 [OF k] by simp_all
  moreover have "\<not> (length (str_bytes st) < unat (rec_offset ?r) \<or>
      length (str_bytes st) - unat (rec_offset ?r) < unat (rec_length ?r))"
    using r by arith
  ultimately show ?thesis
    using assms(2)
    by (simp only: str_get_def record_text_def) (auto simp: Let_def split: option.splits)
qed

lemma str_get_spelling:
  assumes "baseline_ok st" "records_ok st" "i < length (spellings st)"
  shows "str_get st (of_nat (Suc i)) = spellings st ! i"
proof (cases "i < str_baseline_count st")
  case True
  then show ?thesis
    using assms by (simp add: str_get_baseline spellings_def nth_append length_baseline_texts del: of_nat_Suc)
next
  case False
  then obtain j where j: "i = str_baseline_count st + j" by (metis le_add_diff_inverse not_less)
  have "j < length (str_records st)"
    using assms j by (simp add: length_spellings string_table_size_def)
  then show ?thesis
    using str_get_local [OF assms(2), of j] assms(1) j
    by (simp add: spellings_def nth_append length_baseline_texts)
qed

lemma distinct_slots:
  assumes "records_ok st"
  shows "distinct (map (slot_of st) [0..<length (str_records st)])"
proof -
  have "inj_on (slot_of st) {0..<length (str_records st)}"
  proof (rule inj_onI)
    fix i j assume ij: "i \<in> {0..<length (str_records st)}" "j \<in> {0..<length (str_records st)}"
      "slot_of st i = slot_of st j"
    then have "(of_nat (str_baseline_count st + i + 1) :: u32) = of_nat (str_baseline_count st + j + 1)"
      by (simp add: slot_of_def)
    moreover have "str_baseline_count st + i + 1 \<le> uint32_max" "str_baseline_count st + j + 1 \<le> uint32_max"
      using ij assms by (auto simp: records_ok_def)
    ultimately show "i = j" using of_nat_u32_inj by fastforce
  qed
  then show ?thesis by (simp add: distinct_map)
qed

lemma index_slot_cases:
  assumes "index_ok st" "str_index st \<noteq> []" "t \<in> set (str_index st)" "slot_used t"
  obtains j where "j < length (str_records st)" "t = slot_of st j"
proof -
  have "set (filter slot_used (str_index st)) = set (map (slot_of st) [0..<length (str_records st)])"
    using assms(1,2) by (intro mset_eq_setD) (simp add: index_ok_def)
  moreover have "t \<in> set (filter slot_used (str_index st))" using assms(3,4) by simp
  ultimately show thesis using that by auto
qed

lemma distinct_index:
  assumes "index_ok st" "records_ok st" "str_index st \<noteq> []"
  shows "distinct (filter slot_used (str_index st))"
proof -
  have "mset (filter slot_used (str_index st)) = mset (map (slot_of st) [0..<length (str_records st)])"
    using assms by (simp add: index_ok_def)
  then show ?thesis using distinct_slots [OF assms(2)] by (metis mset_eq_imp_distinct_iff)
qed

lemma distinct_record_texts:
  assumes "distinct (spellings st)" "i < length (str_records st)" "j < length (str_records st)"
    "record_text st (str_records st ! i) = record_text st (str_records st ! j)"
  shows "i = j"
proof -
  have "distinct (map (record_text st) (str_records st))"
    using assms(1) by (simp add: spellings_def)
  then show ?thesis using assms by (auto simp: distinct_conv_nth)
qed

section \<open>Look-up finds exactly the stored spellings\<close>

lemma find_hashed_local:
  assumes ok: "string_table_ok st" and i: "i < length (str_records st)"
    and tx: "record_text st (str_records st ! i) = text"
  shows "find_hashed st text (hash_text text) = of_nat (str_baseline_count st + i + 1)"
proof -
  let ?hit = "\<lambda>s. slot_hash s = hash_text text \<and> str_get st (slot_id s) = text"
  have parts: "records_ok st" "index_ok st" "distinct (spellings st)"
    using ok by (simp_all add: string_table_ok_def)
  have ne: "str_index st \<noteq> []" using parts(2) i by (auto simp: index_ok_def)
  have idx: "mset (filter slot_used (str_index st)) = mset (map (slot_of st) [0..<length (str_records st)])"
    "table_ok slot_used slot_home (str_index st)"
    using parts(2) ne by (simp_all add: index_ok_def)
  have "slot_of st i \<in> set (filter slot_used (str_index st))"
    using i by (metis idx(1) atLeastLessThan_iff imageI le0 list.set_map mset_eq_setD set_upt)
  then have mem: "slot_of st i \<in> set (str_index st)" "slot_used (slot_of st i)" by simp_all
  have hash: "rec_hash (str_records st ! i) = hash_text text"
    using parts(1) i tx by (auto simp: records_ok_def)
  have "slot_find slot_used ?hit (str_index st) (unat (hash_text text)) = Some (slot_of st i)"
  proof (rule string_slots.find_hit)
    show "distinct (filter slot_used (str_index st))" by (rule distinct_index [OF parts(2,1) ne])
    show "t = slot_of st i" if t: "t \<in> set (str_index st)" "slot_used t" "?hit t" for t
    proof -
      obtain j where j: "j < length (str_records st)" "t = slot_of st j"
        by (rule index_slot_cases [OF parts(2) ne t(1,2)])
      have "record_text st (str_records st ! j) = text"
        using t(3) j str_get_local [OF parts(1) j(1)] by (simp add: slot_of_def)
      then have "i = j" using distinct_record_texts [OF parts(3) i j(1)] tx by simp
      then show ?thesis using j by simp
    qed
    show "?hit (slot_of st i)"
      using hash str_get_local [OF parts(1) i] tx by (simp add: slot_of_def)
  qed (use idx mem hash in \<open>simp_all add: slot_of_def\<close>)
  then show ?thesis using ne by (simp add: find_hashed_def slot_of_def)
qed

lemma find_hashed_not_local:
  assumes ok: "string_table_ok st" and tx: "text \<notin> set (map (record_text st) (str_records st))"
  shows "find_hashed st text (hash_text text) =
    (case str_baseline st of Some v \<Rightarrow> find_string v text | None \<Rightarrow> 0)"
proof (cases "str_index st = []")
  case True
  then show ?thesis by (simp add: find_hashed_def)
next
  case False
  have parts: "records_ok st" "index_ok st" using ok by (simp_all add: string_table_ok_def)
  have "slot_find slot_used (\<lambda>s. slot_hash s = hash_text text \<and> str_get st (slot_id s) = text)
      (str_index st) (unat (hash_text text)) = None"
  proof (rule string_slots.find_miss)
    show "\<exists>k. length (str_index st) = 2 ^ k"
      using parts(2) False by (auto simp: index_ok_def table_ok_def)
    fix t assume t: "t \<in> set (str_index st)" "slot_used t"
    obtain j where j: "j < length (str_records st)" "t = slot_of st j"
      by (rule index_slot_cases [OF parts(2) False t])
    show "\<not> (slot_hash t = hash_text text \<and> str_get st (slot_id t) = text)"
      using str_get_local [OF parts(1) j(1)] tx j by (auto simp: slot_of_def)
  qed
  then show ?thesis using False by (simp add: find_hashed_def)
qed

lemma find_hashed_stored:
  assumes ok: "string_table_ok st" and i: "i < length (spellings st)" "spellings st ! i = text"
  shows "find_hashed st text (hash_text text) = of_nat (Suc i)"
proof (cases "i < str_baseline_count st")
  case True
  have parts: "baseline_ok st" "records_ok st" "distinct (spellings st)"
    using ok by (simp_all add: string_table_ok_def)
  obtain v where v: "str_baseline st = Some v" "view_strings_ok v" "str_baseline_count st = string_count_value v"
    using parts(1) True by (auto simp: baseline_ok_def split: option.splits)
  have tx: "text = view_string v (of_nat (Suc i))"
    using i(2) True v length_baseline_texts [OF parts(1)]
    by (simp add: spellings_def nth_append baseline_texts_def del: of_nat_Suc)
  have "Suc i \<le> uint32_max" using True parts(2) by (simp add: records_ok_def)
  then have "of_nat (Suc i) \<in> view_ids v"
    using True v(3) unat_of_nat_u32 of_nat_u32_zero by (simp add: view_ids_def del: of_nat_Suc)
  then have "find_string v text = of_nat (Suc i)"
    using find_string_complete [OF v(2)] tx by blast
  moreover have "text \<in> set (baseline_texts st)"
    using i True length_baseline_texts [OF parts(1)] by (simp add: spellings_def nth_append) (metis nth_mem)
  then have "text \<notin> set (map (record_text st) (str_records st))"
    using parts(3) by (auto simp: spellings_def)
  ultimately show ?thesis using find_hashed_not_local [OF ok] v(1) by simp
next
  case False
  then obtain j where j: "i = str_baseline_count st + j" by (metis le_add_diff_inverse not_less)
  have bl: "baseline_ok st" using ok by (simp add: string_table_ok_def)
  have jr: "j < length (str_records st)"
    using i(1) j bl by (simp add: length_spellings string_table_size_def)
  moreover have "record_text st (str_records st ! j) = text"
    using i(2) j jr length_baseline_texts [OF bl] by (simp add: spellings_def nth_append)
  ultimately show ?thesis using find_hashed_local [OF ok, of j "text"] j by simp
qed

lemma find_hashed_absent:
  assumes ok: "string_table_ok st" and tx: "text \<notin> set (spellings st)"
  shows "find_hashed st text (hash_text text) = 0"
proof -
  have bl: "baseline_ok st" using ok by (simp add: string_table_ok_def)
  have "text \<notin> set (map (record_text st) (str_records st))" using tx by (simp add: spellings_def)
  then have eq: "find_hashed st text (hash_text text) =
      (case str_baseline st of Some v \<Rightarrow> find_string v text | None \<Rightarrow> 0)"
    by (rule find_hashed_not_local [OF ok])
  show ?thesis
  proof (cases "str_baseline st")
    case (Some v)
    have "find_string v text = 0"
    proof (rule ccontr)
      assume nz: "find_string v text \<noteq> 0"
      define sid where "sid = find_string v text"
      have sid: "sid \<in> view_ids v" "view_string v sid = text"
        using find_string_sound [of v "text" sid] nz sid_def by auto
      have c: "str_baseline_count st = string_count_value v" using bl Some by (simp add: baseline_ok_def)
      have pos: "0 < unat sid" "unat sid \<le> str_baseline_count st"
        using sid(1) c by (auto simp: view_ids_def unat_gt_0)
      then have "unat sid - 1 < str_baseline_count st" "of_nat (Suc (unat sid - 1)) = sid"
        by (simp_all add: Suc_diff_1 del: of_nat_Suc)
      then have "text \<in> set (baseline_texts st)"
        using Some sid(2) by (auto simp: baseline_texts_def image_iff intro!: bexI [of _ "unat sid - 1"])
      then show False using tx by (simp add: spellings_def)
    qed
    then show ?thesis using eq Some by simp
  qed (use eq in simp)
qed

section \<open>The index can always be prepared\<close>

lemma index_update_simps [simp]:
  "baseline_ok (st\<lparr>str_index := t\<rparr>) = baseline_ok st"
  "records_ok (st\<lparr>str_index := t\<rparr>) = records_ok st"
  "spellings (st\<lparr>str_index := t\<rparr>) = spellings st"
  "slot_of (st\<lparr>str_index := t\<rparr>) = slot_of st"
  by (simp_all add: baseline_ok_def records_ok_def record_text_def spellings_def baseline_texts_def
      slot_of_def fun_eq_iff split: option.splits)

lemma slot_of_used: "records_ok st \<Longrightarrow> i < length (str_records st) \<Longrightarrow> slot_used (slot_of st i)"
  using of_nat_u32_zero [of "str_baseline_count st + i + 1"]
  by (simp add: slot_of_def records_ok_def del: of_nat_add of_nat_Suc)

lemma ensure_index_capacity_ok:
  assumes ok: "string_table_ok st"
  obtains t where "ensure_index_capacity 1 alloc st = Some (success, st\<lparr>str_index := t\<rparr>)"
      "string_table_ok (st\<lparr>str_index := t\<rparr>)" "2 * Suc (length (str_records st)) \<le> length t"
  | "\<not> alloc" "ensure_index_capacity 1 alloc st = Some (io_error, st)"
proof -
  let ?n = "length (str_records st)"
  have parts: "baseline_ok st" "records_ok st" "index_ok st" "distinct (spellings st)"
    using ok by (simp_all add: string_table_ok_def)
  have small: "?n \<le> uint32_max" using parts(2) by (simp add: records_ok_def)
  show thesis
  proof (cases "str_index st \<noteq> [] \<and> ?n + 1 \<le> length (str_index st) div 2")
    case True
    then have "ensure_index_capacity 1 alloc st = Some (success, st\<lparr>str_index := str_index st\<rparr>)"
      using small by (simp add: ensure_index_capacity_def Let_def)
    moreover have "2 * Suc ?n \<le> length (str_index st)" using True by auto
    ultimately show thesis using that(1) [of "str_index st"] ok by simp
  next
    case False
    obtain k where k: "next_index_capacity (?n + 1) = Some (2 ^ k)" "(?n + 1) * 2 \<le> 2 ^ k"
      by (rule next_index_capacity_fits [of "?n + 1"]) (use small in auto)
    show thesis
    proof (cases alloc)
      case True
      have "\<exists>t. slot_insert_all slot_used slot_home (replicate (2 ^ k) blank_slot)
          (map (slot_of st) [0..<?n]) = Some t \<and> table_ok slot_used slot_home t \<and>
          length t = length (replicate (2 ^ k) blank_slot) \<and>
          mset (filter slot_used t) = mset (filter slot_used (replicate (2 ^ k) blank_slot)) +
            mset (map (slot_of st) [0..<?n])"
        by (rule string_slots.insert_all_ok)
          (use k(2) slot_of_used [OF parts(2)] string_slots.table_ok_blank in auto)
      then obtain t where t: "reindex st (replicate (2 ^ k) blank_slot) [0..<?n] = Some t"
        "table_ok slot_used slot_home t" "length t = 2 ^ k"
        "mset (filter slot_used t) = mset (map (slot_of st) [0..<?n])"
        by (auto simp: reindex_insert_all)
      have "string_table_ok (st\<lparr>str_index := t\<rparr>)"
        using parts t k(2) by (simp add: string_table_ok_def index_ok_def) (auto simp: index_ok_def)
      moreover have "ensure_index_capacity 1 alloc st = Some (success, st\<lparr>str_index := t\<rparr>)"
        using False small k(1) t(1) True
        by (auto simp: ensure_index_capacity_def Let_def)
      ultimately show thesis using that(1) [of t] t(3) k(2) by simp
    next
      case no: False
      then have "ensure_index_capacity 1 alloc st = Some (io_error, st)"
        using False small k(1) by (auto simp: ensure_index_capacity_def Let_def)
      then show thesis using that(2) no by simp
    qed
  qed
qed

section \<open>Interning\<close>

definition append_record :: "string_table \<Rightarrow> string \<Rightarrow> string_table" where
  "append_record st text =
     st\<lparr>str_bytes := str_bytes st @ text,
        str_records := str_records st @
          [\<lparr>rec_offset = of_nat (length (str_bytes st)), rec_length = of_nat (length text),
            rec_hash = hash_text text\<rparr>]\<rparr>"

lemma append_record_texts:
  assumes "records_ok st" "str_baseline_bytes st + length (str_bytes st) + length text \<le> uint32_max"
  shows "map (record_text (append_record st text)) (str_records (append_record st text)) =
    map (record_text st) (str_records st) @ [text]"
proof -
  have "record_text (append_record st text) r = record_text st r" if "r \<in> set (str_records st)" for r
    using assms(1) that by (auto simp: records_ok_def record_text_def append_record_def arena_simps)
  moreover have "length (str_bytes st) \<le> uint32_max" "length text \<le> uint32_max" using assms(2) by simp_all
  ultimately show ?thesis
    by (simp add: append_record_def record_text_def arena_simps)
qed

lemma append_record_spellings:
  assumes "records_ok st" "str_baseline_bytes st + length (str_bytes st) + length text \<le> uint32_max"
  shows "spellings (append_record st text) = spellings st @ [text]"
proof -
  have "baseline_texts (append_record st text) = baseline_texts st"
    by (simp add: baseline_texts_def append_record_def split: option.splits)
  then show ?thesis
    using append_record_texts [OF assms] by (simp add: spellings_def)
qed

lemma append_record_records_ok:
  assumes ok: "records_ok st" and tx: "text \<noteq> []"
    and bytes: "str_baseline_bytes st + length (str_bytes st) + length text \<le> uint32_max"
    and count: "str_baseline_count st + length (str_records st) < uint32_max"
  shows "records_ok (append_record st text)"
proof -
  have len: "length (str_bytes st) \<le> uint32_max" "length text \<le> uint32_max" using bytes by simp_all
  have old: "record_text (append_record st text) r = record_text st r" if "r \<in> set (str_records st)" for r
    using ok that by (auto simp: records_ok_def record_text_def append_record_def arena_simps)
  have new: "record_text (append_record st text)
      \<lparr>rec_offset = of_nat (length (str_bytes st)), rec_length = of_nat (length text),
       rec_hash = hash_text text\<rparr> = text"
    using len by (simp add: record_text_def append_record_def arena_simps)
  have sets: "set (str_records (append_record st text)) = insert
      \<lparr>rec_offset = of_nat (length (str_bytes st)), rec_length = of_nat (length text),
       rec_hash = hash_text text\<rparr> (set (str_records st))"
    "length (str_bytes (append_record st text)) = length (str_bytes st) + length text"
    "length (str_records (append_record st text)) = Suc (length (str_records st))"
    "str_baseline_count (append_record st text) = str_baseline_count st"
    "str_baseline_bytes (append_record st text) = str_baseline_bytes st"
    by (auto simp: append_record_def)
  show ?thesis
    unfolding records_ok_def sets using ok bytes count tx len old new
    by (auto simp: records_ok_def)
qed

lemma slot_of_append:
  "map (slot_of (append_record st text)) [0..<length (str_records (append_record st text))] =
     map (slot_of st) [0..<length (str_records st)] @
     [\<lparr>slot_hash = hash_text text, slot_id = of_nat (str_baseline_count st + length (str_records st) + 1)\<rparr>]"
  by (auto simp: append_record_def slot_of_def nth_append)

lemma append_record_insert:
  assumes ok: "string_table_ok st" and room: "2 * Suc (length (str_records st)) \<le> length (str_index st)"
    and tx: "text \<noteq> []" "text \<notin> set (spellings st)"
    and bytes: "str_baseline_bytes st + length (str_bytes st) + length text \<le> uint32_max"
    and count: "str_baseline_count st + length (str_records st) < uint32_max"
  obtains t where
    "insert_index (str_index st) (of_nat (str_baseline_count st + length (str_records st) + 1))
       (hash_text text) = Some t"
    "string_table_ok ((append_record st text)\<lparr>str_index := t\<rparr>)"
proof -
  let ?slot = "\<lparr>slot_hash = hash_text text,
    slot_id = of_nat (str_baseline_count st + length (str_records st) + 1)\<rparr> :: string_slot"
  have parts: "baseline_ok st" "records_ok st" "index_ok st" "distinct (spellings st)"
    using ok by (simp_all add: string_table_ok_def)
  have ne: "str_index st \<noteq> []" using room by auto
  have idx: "table_ok slot_used slot_home (str_index st)"
    "mset (filter slot_used (str_index st)) = mset (map (slot_of st) [0..<length (str_records st)])"
    using parts(3) ne by (simp_all add: index_ok_def)
  have few: "length (filter slot_used (str_index st)) = length (str_records st)"
    by (metis idx(2) length_map length_upt minus_nat.diff_0 size_mset)
  have used: "slot_used ?slot"
    using of_nat_u32_zero [of "str_baseline_count st + length (str_records st) + 1"] count
    by (simp del: of_nat_add of_nat_Suc)
  obtain t where t: "slot_insert slot_used (str_index st) (unat (hash_text text)) ?slot = Some t"
    "table_ok slot_used slot_home t" "length t = length (str_index st)"
    "mset (filter slot_used t) = add_mset ?slot (mset (filter slot_used (str_index st)))"
    by (rule string_slots.insert_ok [OF idx(1), of ?slot "unat (hash_text text)"])
      (use few room used in auto)
  have "string_table_ok ((append_record st text)\<lparr>str_index := t\<rparr>)"
    unfolding string_table_ok_def index_update_simps
  proof (intro conjI)
    show "baseline_ok (append_record st text)"
      using parts(1) by (simp add: baseline_ok_def append_record_def split: option.splits)
    show "records_ok (append_record st text)"
      by (rule append_record_records_ok [OF parts(2) tx(1) bytes count])
    show "distinct (spellings (append_record st text))"
      using parts(4) tx(2) by (simp add: append_record_spellings [OF parts(2) bytes])
    have "length (str_records (append_record st text)) = Suc (length (str_records st))"
      by (simp add: append_record_def)
    moreover have "mset (filter slot_used t) =
        mset (map (slot_of (append_record st text)) [0..<length (str_records (append_record st text))])"
      by (simp only: slot_of_append t(4) idx(2)) simp
    moreover have "t \<noteq> []" using t(3) ne by auto
    ultimately show "index_ok ((append_record st text)\<lparr>str_index := t\<rparr>)"
      using t(2,3) room by (simp add: index_ok_def)
  qed
  then show thesis using that [of t] t(1) by (simp add: insert_index_def)
qed

text \<open>
  The outcome of \<open>intern\<close>, as a relation on spelling lists: the empty spelling is refused, a
  stored spelling keeps its identifier, a new spelling is appended, and a failure leaves the
  spellings alone.
\<close>

definition intern_post :: "string_table \<Rightarrow> string \<Rightarrow> server_status \<Rightarrow> u32 \<Rightarrow> string_table \<Rightarrow> bool" where
  "intern_post st text status sid st' \<longleftrightarrow>
     (if text = [] then status = project_configuration_invalid \<and> sid = 0 \<and> st' = st
      else if text \<in> set (spellings st)
      then status = success \<and> st' = st \<and>
           (\<exists>i<length (spellings st). spellings st ! i = text \<and> sid = of_nat (Suc i))
      else if status = success
      then spellings st' = spellings st @ [text] \<and> sid = of_nat (length (spellings st'))
      else status = io_error \<and> sid = 0 \<and> spellings st' = spellings st)"

definition intern_fits :: "string_table \<Rightarrow> string \<Rightarrow> bool" where
  "intern_fits st text \<longleftrightarrow>
     string_table_size st < uint32_max \<and> string_table_byte_size st + length text \<le> uint32_max"

lemma intern_new:
  assumes ok: "string_table_ok st" and tx: "text \<noteq> []" "text \<notin> set (spellings st)"
  obtains status sid st' where "intern st text ai as = Some (status, sid, st')" "string_table_ok st'"
    "if status = success
      then spellings st' = spellings st @ [text] \<and> sid = of_nat (length (spellings st'))
      else status = io_error \<and> sid = 0 \<and> spellings st' = spellings st"
    "ai \<Longrightarrow> as \<Longrightarrow> intern_fits st text \<Longrightarrow> status = success"
proof -
  have absent: "find_hashed st text (hash_text text) = 0" by (rule find_hashed_absent [OF ok tx(2)])
  from ok show thesis
  proof (cases rule: ensure_index_capacity_ok [where alloc = ai])
    case (1 t)
    let ?st = "st\<lparr>str_index := t\<rparr>"
    have parts: "baseline_ok st" "records_ok st" using ok by (simp_all add: string_table_ok_def)
    let ?full = "str_baseline_count st > uint32_max \<or>
        length (str_records st) \<ge> uint32_max - str_baseline_count st \<or>
        length text > uint32_max \<or> str_baseline_bytes st > uint32_max \<or>
        length (str_bytes st) > uint32_max - str_baseline_bytes st \<or>
        length text > uint32_max - str_baseline_bytes st - length (str_bytes st)"
    show thesis
    proof (cases "?full \<or> \<not> as")
      case True
      then have "intern st text ai as = Some (io_error, 0, ?st)"
        using tx(1) absent 1(1) by (auto simp: intern_def Let_def succeeded_def)
      moreover have "\<not> ?full" if "intern_fits st text"
        using that parts by (auto simp: intern_fits_def string_table_size_def string_table_byte_size_def)
      ultimately show thesis using that [of io_error 0 ?st] 1(2) True by auto
    next
      case False
      then have bytes: "str_baseline_bytes ?st + length (str_bytes ?st) + length text \<le> uint32_max"
        and count: "str_baseline_count ?st + length (str_records ?st) < uint32_max"
        by auto
      obtain u where u: "insert_index (str_index ?st)
          (of_nat (str_baseline_count ?st + length (str_records ?st) + 1)) (hash_text text) = Some u"
        "string_table_ok ((append_record ?st text)\<lparr>str_index := u\<rparr>)"
        by (rule append_record_insert [OF 1(2) _ tx(1) _ bytes count])
          (use 1(3) tx(2) in auto)
      let ?st' = "(append_record ?st text)\<lparr>str_index := u\<rparr>"
      have "intern st text ai as =
          Some (success, of_nat (str_baseline_count st + length (str_records st) + 1), ?st')"
        using tx(1) absent 1(1) False u(1)
        by (simp add: intern_def Let_def succeeded_def append_record_def ac_simps)
      moreover have sp: "spellings ?st' = spellings st @ [text]"
        using append_record_spellings [of ?st "text"] bytes parts(2) by simp
      moreover have "length (spellings ?st') = str_baseline_count st + length (str_records st) + 1"
        using sp length_spellings [OF parts(1)] by (simp add: string_table_size_def)
      ultimately show thesis using that [of success _ ?st'] u(2) by simp
    qed
  next
    case 2
    then have "intern st text ai as = Some (io_error, 0, st)"
      using tx(1) absent by (simp add: intern_def Let_def succeeded_def)
    then show thesis using that [of io_error 0 st] ok 2(1) by simp
  qed
qed

lemma intern_total:
  assumes ok: "string_table_ok st"
  obtains status sid st' where "intern st text ai as = Some (status, sid, st')" "string_table_ok st'"
    "intern_post st text status sid st'"
    "text \<noteq> [] \<Longrightarrow> ai \<Longrightarrow> as \<Longrightarrow> intern_fits st text \<Longrightarrow> status = success"
proof (cases "text = [] \<or> text \<in> set (spellings st)")
  case True
  show thesis
  proof (cases "text = []")
    case empty: True
    then show thesis
      using that [of project_configuration_invalid 0 st] ok
      by (simp add: intern_def intern_post_def)
  next
    case False
    then obtain i where i: "i < length (spellings st)" "spellings st ! i = text"
      using True by (auto simp: in_set_conv_nth)
    have "Suc i \<le> uint32_max"
      using i(1) ok by (simp add: string_table_ok_def length_spellings string_table_size_def records_ok_def)
    then have "(of_nat (Suc i) :: u32) \<noteq> 0" using of_nat_u32_zero by blast
    then have "intern st text ai as = Some (success, of_nat (Suc i), st)"
      using find_hashed_stored [OF ok i] False by (simp add: intern_def Let_def del: of_nat_Suc)
    then show thesis
      using that [of success "of_nat (Suc i)" st] ok i False True
      by (auto simp: intern_post_def simp del: of_nat_Suc)
  qed
next
  case False
  then have tx: "text \<noteq> []" "text \<notin> set (spellings st)" by auto
  show thesis
    by (rule intern_new [OF ok tx, of ai as]) (use tx that in \<open>auto simp: intern_post_def split: if_splits\<close>)
qed

section \<open>The interning contract\<close>

lemma str_contains_iff:
  assumes ok: "string_table_ok st"
  shows "str_contains st sid \<longleftrightarrow> (\<exists>i<length (spellings st). sid = of_nat (Suc i))"
proof -
  have parts: "baseline_ok st" "records_ok st" using ok by (simp_all add: string_table_ok_def)
  have max: "length (spellings st) \<le> uint32_max"
    using parts by (simp add: length_spellings string_table_size_def records_ok_def)
  have "str_contains st sid \<longleftrightarrow> sid \<noteq> 0 \<and> unat sid \<le> length (spellings st)"
  proof (cases "str_baseline st")
    case None
    then show ?thesis
      using parts(1) unat_gt_0 [of sid]
      by (auto simp: str_contains_def baseline_ok_def length_spellings string_table_size_def)
  next
    case (Some v)
    then have v: "view_strings_ok v" "str_baseline_count st = string_count_value v"
      using parts(1) by (simp_all add: baseline_ok_def)
    have "sid \<noteq> 0 \<Longrightarrow> unat sid \<le> string_count_value v \<Longrightarrow> view_string v sid \<noteq> []"
      using v(1) by (simp add: view_strings_ok_def view_ids_def)
    then show ?thesis
      using Some v(2) length_spellings [OF parts(1)]
      by (cases "unat sid \<le> string_count_value v")
        (auto simp: str_contains_def string_table_size_def)
  qed
  also have "\<dots> \<longleftrightarrow> (\<exists>i<length (spellings st). sid = of_nat (Suc i))"
  proof
    assume a: "sid \<noteq> 0 \<and> unat sid \<le> length (spellings st)"
    then have "0 < unat sid" by (simp add: unat_gt_0)
    then show "\<exists>i<length (spellings st). sid = of_nat (Suc i)"
      using a by (intro exI [of _ "unat sid - 1"]) (auto simp del: of_nat_Suc)
  next
    assume "\<exists>i<length (spellings st). sid = of_nat (Suc i)"
    then obtain i where i: "i < length (spellings st)" "sid = of_nat (Suc i)" by blast
    have "Suc i \<le> uint32_max" using i(1) max by simp
    then show "sid \<noteq> 0 \<and> unat sid \<le> length (spellings st)"
      using i unat_of_nat_u32 of_nat_u32_zero by (metis Suc_leI old.nat.distinct(2))
  qed
  finally show ?thesis .
qed

definition str_name :: "string_table \<Rightarrow> u32 \<Rightarrow> string option" where
  "str_name st sid = (if str_contains st sid then Some (str_get st sid) else None)"

lemma str_name_iff:
  assumes ok: "string_table_ok st"
  shows "str_name st sid = Some text \<longleftrightarrow>
    (\<exists>i<length (spellings st). sid = of_nat (Suc i) \<and> spellings st ! i = text)"
proof -
  have "str_get st (of_nat (Suc i)) = spellings st ! i" if "i < length (spellings st)" for i
    using str_get_spelling that ok by (simp add: string_table_ok_def del: of_nat_Suc)
  then show ?thesis
    unfolding str_name_def str_contains_iff [OF ok] by (auto simp del: of_nat_Suc)
qed

lemma str_name_find:
  assumes ok: "string_table_ok st" and sid: "str_name st sid = Some text"
  shows "str_find st text = sid"
proof -
  obtain i where i: "i < length (spellings st)" "sid = of_nat (Suc i)" "spellings st ! i = text"
    using sid str_name_iff [OF ok] by blast
  have "text \<noteq> []"
  proof (cases "i < str_baseline_count st")
    case True
    have parts: "baseline_ok st" "records_ok st" using ok by (simp_all add: string_table_ok_def)
    obtain v where v: "str_baseline st = Some v" "view_strings_ok v" "str_baseline_count st = string_count_value v"
      using parts(1) True by (auto simp: baseline_ok_def split: option.splits)
    have "Suc i \<le> uint32_max" using True parts(2) by (simp add: records_ok_def)
    then have "of_nat (Suc i) \<in> view_ids v"
      using True v(3) unat_of_nat_u32 of_nat_u32_zero by (simp add: view_ids_def del: of_nat_Suc)
    moreover have "text = view_string v (of_nat (Suc i))"
      using i(3) True v(1) length_baseline_texts [OF parts(1)]
      by (simp add: spellings_def nth_append baseline_texts_def del: of_nat_Suc)
    ultimately show ?thesis using v(2) by (simp add: view_strings_ok_def)
  next
    case False
    have parts: "baseline_ok st" "records_ok st" using ok by (simp_all add: string_table_ok_def)
    obtain j where j: "i = str_baseline_count st + j" using False by (metis le_add_diff_inverse not_less)
    have jr: "j < length (str_records st)"
      using i(1) j parts(1) by (simp add: length_spellings string_table_size_def)
    have "text = record_text st (str_records st ! j)"
      using i(3) j jr length_baseline_texts [OF parts(1)] by (simp add: spellings_def nth_append)
    moreover have "length (record_text st (str_records st ! j)) = unat (rec_length (str_records st ! j))"
      "0 < unat (rec_length (str_records st ! j))"
      using parts(2) jr by (auto simp: records_ok_def record_text_def arena_simps)
    ultimately show ?thesis by auto
  qed
  then show ?thesis using find_hashed_stored [OF ok i(1,3)] i(2) by (simp add: str_find_def)
qed

lemma str_find_name:
  assumes ok: "string_table_ok st" and sid: "str_find st text = sid" "sid \<noteq> 0"
  shows "str_name st sid = Some text"
proof -
  have ne: "text \<noteq> []" and f: "find_hashed st text (hash_text text) = sid"
    using sid by (auto simp: str_find_def split: if_splits)
  have "text \<in> set (spellings st)"
    using find_hashed_absent [OF ok, of "text"] f sid(2) by auto
  then obtain i where "i < length (spellings st)" "spellings st ! i = text"
    by (auto simp: in_set_conv_nth)
  then show ?thesis
    using find_hashed_stored [OF ok] f str_name_iff [OF ok] by metis
qed

text \<open>One successful call of \<open>intern\<close>, whatever the allocator did.\<close>

definition string_step :: "string_table \<Rightarrow> string \<Rightarrow> string_table \<Rightarrow> u32 \<Rightarrow> bool" where
  "string_step st text st' sid \<longleftrightarrow> (\<exists>ai as. intern st text ai as = Some (success, sid, st'))"

lemma string_step_post:
  assumes "string_table_ok st" "string_step st text st' sid"
  shows "string_table_ok st' \<and> intern_post st text success sid st'"
proof -
  obtain ai as where eq: "intern st text ai as = Some (success, sid, st')"
    using assms(2) by (auto simp: string_step_def)
  show ?thesis
    by (rule intern_total [OF assms(1), of "text" ai as]) (use eq in auto)
qed

lemma intern_post_names:
  assumes ok: "string_table_ok st" "string_table_ok st'" and post: "intern_post st text success sid st'"
  shows "str_name st' sid = Some text"
proof (cases "text \<in> set (spellings st)")
  case True
  then show ?thesis
    using post by (auto simp: intern_post_def str_name_iff [OF ok(2)] simp del: of_nat_Suc split: if_splits)
next
  case False
  then have "spellings st' = spellings st @ [text]" "sid = of_nat (length (spellings st'))"
    using post by (auto simp: intern_post_def split: if_splits)
  then show ?thesis
    unfolding str_name_iff [OF ok(2)]
    by (intro exI [of _ "length (spellings st)"]) (simp add: nth_append)
qed

lemma intern_post_keeps:
  assumes ok: "string_table_ok st" "string_table_ok st'" and post: "intern_post st text status sid st'"
    and j: "str_name st j = Some text'"
  shows "str_name st' j = Some text'"
proof -
  have "spellings st' = spellings st \<or> spellings st' = spellings st @ [text]"
    using post by (auto simp: intern_post_def split: if_splits)
  moreover obtain i where "i < length (spellings st)" "j = of_nat (Suc i)" "spellings st ! i = text'"
    using j str_name_iff [OF ok(1)] by blast
  ultimately show ?thesis
    unfolding str_name_iff [OF ok(2)] by (intro exI [of _ i]) (auto simp: nth_append)
qed

interpretation string_interner: interner string_table_ok string_step str_name
proof
  show "string_table_ok st'" if "string_table_ok st" "string_step st k st' i" for st k st' i
    using string_step_post that by blast
  show "str_name st' i = Some k" if "string_table_ok st" "string_step st k st' i" for st k st' i
    using string_step_post [OF that] intern_post_names [OF that(1)] by blast
  show "str_name st' j = Some k'"
    if "string_table_ok st" "string_step st k st' i" "str_name st j = Some k'" for st k st' i j k'
    using string_step_post [OF that(1,2)] intern_post_keeps [OF that(1)] that(3) by blast
  show "i = j" if "string_table_ok st" "str_name st i = Some k" "str_name st j = Some k" for st i k j
    using str_name_find [OF that(1,2)] str_name_find [OF that(1,3)] by simp
qed

lemma fresh_string_table_ok: "string_table_ok fresh_string_table"
  by (simp add: string_table_ok_def fresh_string_table_def baseline_ok_def records_ok_def
      index_ok_def spellings_def baseline_texts_def)

lemma bound_string_table_ok:
  assumes v: "view_strings_ok v"
  shows "string_table_ok (fresh_string_table\<lparr>str_baseline := Some v,
    str_baseline_count := string_count_value v, str_baseline_bytes := string_byte_size v\<rparr>)"
proof -
  let ?n = "string_count_value v"
  have n: "?n \<le> uint32_max" "string_byte_size v \<le> uint32_max"
    and inj: "inj_on (view_string v) (view_ids v)"
    using v view_strings_inj [OF v] by (simp_all add: view_strings_ok_def)
  have "inj_on (\<lambda>i. view_string v (of_nat (Suc i))) {0..<?n}"
  proof (rule inj_onI)
    fix i j assume ij: "i \<in> {0..<?n}" "j \<in> {0..<?n}"
      "view_string v (of_nat (Suc i)) = view_string v (of_nat (Suc j))"
    have le: "Suc i \<le> uint32_max" "Suc j \<le> uint32_max" using ij n by auto
    have "(of_nat (Suc i) :: u32) \<in> view_ids v" "(of_nat (Suc j) :: u32) \<in> view_ids v"
      using ij le unat_of_nat_u32 of_nat_u32_zero by (auto simp: view_ids_def simp del: of_nat_Suc)
    then have "(of_nat (Suc i) :: u32) = of_nat (Suc j)" using ij(3) inj by (meson inj_onD)
    then show "i = j" using of_nat_u32_inj [OF le] by simp
  qed
  then show ?thesis
    using v n by (simp add: string_table_ok_def fresh_string_table_def baseline_ok_def records_ok_def
        index_ok_def spellings_def baseline_texts_def distinct_map del: of_nat_Suc)
qed

section \<open>Properties\<close>

text \<open>\<^bold>\<open>C1.\<close>
  On a well-formed table \<open>intern\<close> always returns, keeps the table well formed and refines the
  list of spellings: the empty text is refused, a stored text gets the identifier it has, a new
  text is appended and named by the new length, and a failed call changes no spelling.\<close>

theorem intern_refines_spellings:
  assumes "string_table_ok st"
  shows "\<exists>status sid st'. intern st text alloc_index alloc_store = Some (status, sid, st') \<and>
     string_table_ok st' \<and> intern_post st text status sid st'"
  by (rule intern_total [OF assms, of "text" alloc_index alloc_store]) blast

theorem intern_refines_spellings_witness:
  "string_table_ok fresh_string_table \<and>
   (\<exists>status sid st'. intern fresh_string_table ''speed'' True True = Some (status, sid, st') \<and>
      string_table_ok st' \<and> intern_post fresh_string_table ''speed'' status sid st')"
  using intern_refines_spellings [OF fresh_string_table_ok] fresh_string_table_ok by blast

text \<open>\<^bold>\<open>C13.\<close>
  Interning succeeds whenever the 32-bit limits on the number of strings and on the bytes are
  respected and memory is available; afterwards the identifier spells the text and the text is
  found under that identifier.\<close>

theorem intern_succeeds:
  assumes "string_table_ok st" "text \<noteq> []" "intern_fits st text"
  shows "\<exists>sid st'. intern st text True True = Some (success, sid, st') \<and> sid \<noteq> 0 \<and>
     str_get st' sid = text \<and> str_find st' text = sid"
proof -
  obtain status sid st' where r: "intern st text True True = Some (status, sid, st')"
    "string_table_ok st'" "intern_post st text status sid st'" "status = success"
    by (rule intern_total [OF assms(1), of "text" True True]) (use assms(2,3) in auto)
  have "str_name st' sid = Some text" using intern_post_names assms(1) r by blast
  then have "str_get st' sid = text" "str_find st' text = sid" "sid \<noteq> 0"
    using str_name_find [OF r(2)] by (auto simp: str_name_def str_contains_def split: if_splits)
  then show ?thesis using r by blast
qed

theorem intern_succeeds_witness:
  "\<exists>sid st'. intern fresh_string_table ''speed'' True True = Some (success, sid, st') \<and> sid \<noteq> 0 \<and>
     str_get st' sid = ''speed'' \<and> str_find st' ''speed'' = sid"
proof -
  have "intern_fits fresh_string_table ''speed''"
    by (simp add: intern_fits_def string_table_size_def string_table_byte_size_def
        fresh_string_table_def)
  then show ?thesis using intern_succeeds [OF fresh_string_table_ok, of "''speed''"] by simp
qed

text \<open>\<^bold>\<open>C12.\<close>
  Identifiers are canonical over any sequence of successful calls on a well-formed table: two
  calls got the same identifier exactly when they asked for the same text, and at the end every
  identifier handed out still spells the text it was given for.\<close>

theorem string_ids_canonical:
  assumes "string_table_ok st" "intern_log string_step st calls st'"
    "(text, sid) \<in> set calls" "(text', sid') \<in> set calls"
  shows "(sid = sid' \<longleftrightarrow> text = text') \<and> str_get st' sid = text"
proof -
  have "str_name st' sid = Some text" using string_interner.log_names assms by blast
  then show ?thesis
    using string_interner.log_canonical [OF assms(2,1,3,4)] by (auto simp: str_name_def split: if_splits)
qed

theorem string_ids_canonical_witness:
  "\<exists>st' sid. intern_log string_step fresh_string_table [(''a'', sid)] st' \<and>
     (sid = sid \<longleftrightarrow> ''a'' = ''a'') \<and> str_get st' sid = ''a''"
proof -
  obtain status sid st' where r: "intern fresh_string_table ''a'' True True = Some (status, sid, st')"
    "status = success"
    by (rule intern_total [OF fresh_string_table_ok, of "''a''" True True])
      (auto simp: intern_fits_def string_table_size_def string_table_byte_size_def fresh_string_table_def)
  then have "string_step fresh_string_table ''a'' st' sid"
    unfolding string_step_def by blast
  then have log: "intern_log string_step fresh_string_table [(''a'', sid)] st'"
    by (rule call [OF _ no_call])
  have mem: "(''a'', sid) \<in> set [(''a'', sid)]" by simp
  show ?thesis
    using string_ids_canonical [OF fresh_string_table_ok log mem mem] log by blast
qed



end
