(* ===== verification/Preprocessor.thy ===== *)
theory Preprocessor
  imports String_Table
begin

text \<open>
  The object-like macro table of \<^verbatim>\<open>server_engine/project/preprocessor/preprocessor.cpp\<close>: an
  open-addressing table of \<open>define_slot\<close>s whose deletion reinserts the cluster behind the
  cleared slot, and an expansion that follows identifier replacements with Floyd's cycle
  detection. \<open>pp_bindings\<close> is the abstract map from a macro name to its replacement (0 for
  an empty one); the theory shows that \<open>define\<close>, \<open>undefine\<close>, \<open>reset\<close> and \<open>defined\<close>
  implement the map operations, and that \<open>expand\<close> always returns the end of the chain of
  replacements, or the entry of the cycle it runs into.

  \<open>None\<close> stands for a probing loop that does not end; an \<open>alloc\<close> argument says whether the
  vector allocation of the call succeeds.
\<close>

section \<open>Data\<close>

record define_slot =
  slot_name :: u32
  slot_replacement :: u32

record preprocessor =
  pp_definitions :: "define_slot list"
  pp_definition_count :: nat

datatype preprocessor_expansion_kind = expansion_identifier | expansion_empty

record preprocessor_expansion =
  exp_kind :: preprocessor_expansion_kind
  exp_identifier :: u32

datatype transition_kind = transition_next | transition_identifier | transition_empty

definition blank_define :: define_slot where
  "blank_define = \<lparr>slot_name = 0, slot_replacement = 0\<rparr>"

definition fresh_preprocessor :: preprocessor where
  "fresh_preprocessor = \<lparr>pp_definitions = [], pp_definition_count = 0\<rparr>"

definition default_expansion :: preprocessor_expansion where
  "default_expansion = \<lparr>exp_kind = expansion_identifier, exp_identifier = 0\<rparr>"

section \<open>Operations\<close>

definition next_capacity :: "nat \<Rightarrow> nat option" where
  "next_capacity required = next_index_capacity required"

definition hash_name :: "u32 \<Rightarrow> u32" where
  "hash_name name =
     (let value = name;
          value = value XOR drop_bit 16 value;
          value = value * 0x7feb352d;
          value = value XOR drop_bit 15 value;
          value = value * 0x846ca68b;
          value = value XOR drop_bit 16 value
      in value)"

abbreviation define_used :: "define_slot \<Rightarrow> bool" where
  "define_used s \<equiv> slot_name s \<noteq> 0"

abbreviation define_home :: "define_slot \<Rightarrow> nat" where
  "define_home s \<equiv> unat (hash_name (slot_name s))"

definition pp_position :: "preprocessor \<Rightarrow> u32 \<Rightarrow> nat option" where
  "pp_position pp name =
     (if pp_definitions pp = [] then Some 0
      else slot_position define_used (\<lambda>s. slot_name s = name) (pp_definitions pp) (unat (hash_name name)))"

definition insert_slot :: "define_slot list \<Rightarrow> define_slot \<Rightarrow> define_slot list option" where
  "insert_slot target slot = slot_insert define_used target (define_home slot) slot"

fun insert_slots :: "define_slot list \<Rightarrow> define_slot list \<Rightarrow> define_slot list option" where
  "insert_slots candidate [] = Some candidate"
| "insert_slots candidate (slot # slots) =
     (if define_used slot
      then Option.bind (insert_slot candidate slot) (\<lambda>candidate'. insert_slots candidate' slots)
      else insert_slots candidate slots)"

definition ensure_capacity :: "preprocessor \<Rightarrow> nat \<Rightarrow> bool \<Rightarrow> (server_status \<times> preprocessor) option" where
  "ensure_capacity pp additional alloc =
     (if additional > size_max - pp_definition_count pp then Some (io_error, pp)
      else
        let required = pp_definition_count pp + additional
        in if pp_definitions pp \<noteq> [] \<and> required \<le> length (pp_definitions pp) div 2 then Some (success, pp)
           else Option.bind (next_capacity required) (\<lambda>capacity.
             if capacity = 0 then Some (io_error, pp)
             else if \<not> alloc then Some (io_error, pp)
             else Option.bind (insert_slots (replicate capacity blank_define) (pp_definitions pp))
               (\<lambda>candidate. Some (success, pp\<lparr>pp_definitions := candidate\<rparr>))))"

definition pp_reset :: "preprocessor \<Rightarrow> preprocessor" where
  "pp_reset pp = pp\<lparr>pp_definitions := map (\<lambda>_. blank_define) (pp_definitions pp), pp_definition_count := 0\<rparr>"

definition define_impl ::
    "string_table \<Rightarrow> preprocessor \<Rightarrow> u32 \<Rightarrow> u32 \<Rightarrow> bool \<Rightarrow> (server_status \<times> preprocessor) option" where
  "define_impl strings pp name replacement alloc =
     (if \<not> str_contains strings name \<or> replacement \<noteq> 0 \<and> \<not> str_contains strings replacement
      then Some (project_configuration_invalid, pp)
      else
        let insert_new = Option.bind (ensure_capacity pp 1 alloc) (\<lambda>(prepared, pp1).
              if \<not> succeeded prepared then Some (prepared, pp1)
              else Option.bind (pp_position pp1 name) (\<lambda>target.
                Some (success, pp1\<lparr>pp_definitions := (pp_definitions pp1)
                    [target := \<lparr>slot_name = name, slot_replacement = replacement\<rparr>],
                  pp_definition_count := pp_definition_count pp1 + 1\<rparr>)))
        in if pp_definitions pp \<noteq> []
           then Option.bind (pp_position pp name) (\<lambda>existing_position.
             let existing = pp_definitions pp ! existing_position
             in if slot_name existing \<noteq> 0
                then Some (if slot_replacement existing = replacement then success
                           else project_configuration_invalid, pp)
                else insert_new)
           else insert_new)"

definition define_empty :: "string_table \<Rightarrow> preprocessor \<Rightarrow> u32 \<Rightarrow> bool \<Rightarrow> (server_status \<times> preprocessor) option" where
  "define_empty strings pp name alloc = define_impl strings pp name 0 alloc"

definition define_replacement ::
    "string_table \<Rightarrow> preprocessor \<Rightarrow> u32 \<Rightarrow> u32 \<Rightarrow> bool \<Rightarrow> (server_status \<times> preprocessor) option" where
  "define_replacement strings pp name replacement alloc =
     (if replacement = 0 then Some (project_configuration_invalid, pp)
      else define_impl strings pp name replacement alloc)"

definition undefine :: "string_table \<Rightarrow> preprocessor \<Rightarrow> u32 \<Rightarrow> (server_status \<times> preprocessor) option" where
  "undefine strings pp name =
     (if \<not> str_contains strings name then Some (project_configuration_invalid, pp)
      else if pp_definitions pp = [] then Some (success, pp)
      else Option.bind (pp_position pp name) (\<lambda>found.
        if slot_name (pp_definitions pp ! found) = 0 then Some (success, pp)
        else Option.bind
          (reinsert_cluster define_used define_home blank_define ((pp_definitions pp)[found := blank_define])
             ((found + 1) AND (length (pp_definitions pp) - 1)))
          (\<lambda>definitions. Some (success, pp\<lparr>pp_definitions := definitions,
              pp_definition_count := pp_definition_count pp - 1\<rparr>))))"

definition pp_defined :: "string_table \<Rightarrow> preprocessor \<Rightarrow> u32 \<Rightarrow> bool option" where
  "pp_defined strings pp name =
     (if \<not> str_contains strings name \<or> pp_definitions pp = [] then Some False
      else Option.bind (pp_position pp name) (\<lambda>p. Some (slot_name (pp_definitions pp ! p) = name)))"

definition pp_transition :: "preprocessor \<Rightarrow> u32 \<Rightarrow> (transition_kind \<times> u32) option" where
  "pp_transition pp name =
     (if pp_definitions pp = [] then Some (transition_identifier, 0)
      else Option.bind (pp_position pp name) (\<lambda>p.
        let slot = pp_definitions pp ! p
        in Some (if slot_name slot \<noteq> name then (transition_identifier, 0)
                 else if slot_replacement slot = 0 then (transition_empty, 0)
                 else (transition_next, slot_replacement slot))))"

definition expand_terminal :: "transition_kind \<Rightarrow> u32 \<Rightarrow> preprocessor_expansion" where
  "expand_terminal kind identifier =
     (if kind = transition_empty then \<lparr>exp_kind = expansion_empty, exp_identifier = 0\<rparr>
      else \<lparr>exp_kind = expansion_identifier, exp_identifier = identifier\<rparr>)"

text \<open>The first loop: \<open>Inl\<close> is a return with a terminal, \<open>Inr\<close> the meeting point at \<^verbatim>\<open>break\<close>.\<close>

partial_function (option) expand_chase ::
    "preprocessor \<Rightarrow> u32 \<Rightarrow> u32 \<Rightarrow> (preprocessor_expansion + u32) option" where
  "expand_chase pp tortoise hare =
     Option.bind (pp_transition pp tortoise) (\<lambda>t1.
       if fst t1 \<noteq> transition_next then Some (Inl (expand_terminal (fst t1) tortoise))
       else Option.bind (pp_transition pp hare) (\<lambda>t2.
         if fst t2 \<noteq> transition_next then Some (Inl (expand_terminal (fst t2) hare))
         else Option.bind (pp_transition pp (snd t2)) (\<lambda>t3.
           if fst t3 \<noteq> transition_next then Some (Inl (expand_terminal (fst t3) (snd t2)))
           else if snd t1 = snd t3 then Some (Inr (snd t1))
           else expand_chase pp (snd t1) (snd t3))))"

text \<open>The second loop: \<open>Inl\<close> is the early return with an error.\<close>

partial_function (option) expand_entry ::
    "preprocessor \<Rightarrow> u32 \<Rightarrow> u32 \<Rightarrow> (server_status + u32) option" where
  "expand_entry pp entry meeting =
     (if entry \<noteq> meeting
      then Option.bind (pp_transition pp entry) (\<lambda>t1.
        if fst t1 \<noteq> transition_next then Some (Inl project_configuration_invalid)
        else Option.bind (pp_transition pp meeting) (\<lambda>t2.
          if fst t2 \<noteq> transition_next then Some (Inl project_configuration_invalid)
          else expand_entry pp (snd t1) (snd t2)))
      else Some (Inr entry))"

definition pp_expand ::
    "string_table \<Rightarrow> preprocessor \<Rightarrow> u32 \<Rightarrow> (server_status \<times> preprocessor_expansion) option" where
  "pp_expand strings pp name =
     (if \<not> str_contains strings name then Some (project_configuration_invalid, default_expansion)
      else Option.bind (expand_chase pp name name) (\<lambda>chased.
        case chased of
          Inl terminal \<Rightarrow> Some (success, terminal)
        | Inr tortoise \<Rightarrow> Option.bind (expand_entry pp name tortoise) (\<lambda>entered.
            case entered of
              Inl status \<Rightarrow> Some (status, default_expansion)
            | Inr entry \<Rightarrow> Some (success, \<lparr>exp_kind = expansion_identifier, exp_identifier = entry\<rparr>))))"

section \<open>Abstraction and invariant\<close>

definition pp_entries :: "preprocessor \<Rightarrow> define_slot list" where
  "pp_entries pp = filter define_used (pp_definitions pp)"

definition pp_bindings :: "preprocessor \<Rightarrow> u32 \<rightharpoonup> u32" where
  "pp_bindings pp = map_of (map (\<lambda>s. (slot_name s, slot_replacement s)) (pp_entries pp))"

definition pp_ok :: "preprocessor \<Rightarrow> bool" where
  "pp_ok pp \<longleftrightarrow>
     pp_definition_count pp = length (pp_entries pp) \<and>
     distinct (map slot_name (pp_entries pp)) \<and>
     (pp_definitions pp = [] \<or>
        table_ok define_used define_home (pp_definitions pp) \<and>
        2 * length (pp_entries pp) \<le> length (pp_definitions pp) \<and>
        1 < length (pp_definitions pp))"

interpretation define_table: slot_table define_used define_home blank_define
  by unfold_locales (simp add: blank_define_def)

lemma pp_entries_nil [simp]: "pp_definitions pp = [] \<Longrightarrow> pp_entries pp = []"
  by (simp add: pp_entries_def)

lemma pp_bindings_Some:
  assumes "pp_ok pp"
  shows "pp_bindings pp name = Some r \<longleftrightarrow>
     (\<exists>s\<in>set (pp_definitions pp). slot_name s = name \<and> slot_replacement s = r) \<and> name \<noteq> 0"
  using assms by (auto simp: pp_bindings_def pp_ok_def pp_entries_def map_of_eq_Some_iff comp_def)

lemma pp_bindings_None:
  "pp_bindings pp name = None \<longleftrightarrow> (\<forall>s\<in>set (pp_definitions pp). slot_name s = name \<longrightarrow> name = 0)"
  by (auto simp: pp_bindings_def pp_entries_def map_of_eq_None_iff image_image)

lemma pp_room: "pp_ok pp \<Longrightarrow> pp_definitions pp \<noteq> [] \<Longrightarrow> length (pp_entries pp) < length (pp_definitions pp)"
  by (auto simp: pp_ok_def)

lemma pp_position_bound:
  assumes ok: "pp_ok pp" and b: "pp_bindings pp name = Some r"
  obtains p where "pp_position pp name = Some p" "p < length (pp_definitions pp)"
    "pp_definitions pp ! p = \<lparr>slot_name = name, slot_replacement = r\<rparr>"
proof -
  let ?t = "pp_definitions pp"
  obtain s where s: "s \<in> set ?t" "slot_name s = name" "slot_replacement s = r" "name \<noteq> 0"
    using b pp_bindings_Some [OF ok] by auto
  then obtain p where p: "p < length ?t" "?t ! p = s" by (auto simp: in_set_conv_nth)
  have ne: "?t \<noteq> []" using p by auto
  have dist: "distinct (pp_entries pp)" and inj: "inj_on slot_name (set (pp_entries pp))"
    using ok by (simp_all add: pp_ok_def distinct_map)
  have "slot_position define_used (\<lambda>s. slot_name s = name) ?t (unat (hash_name name)) = Some p"
  proof (rule define_table.position_hit)
    show "q = p" if q: "q < length ?t" "define_used (?t ! q)" "slot_name (?t ! q) = name" for q
    proof (rule entries_position_unique [of define_used ?t])
      show "?t ! q = ?t ! p"
        using inj_onD [OF inj, of "?t ! q" "?t ! p"] p q s by (simp add: pp_entries_def)
    qed (use dist p q in \<open>auto simp: pp_entries_def\<close>)
  qed (use ok ne p s in \<open>auto simp: pp_ok_def\<close>)
  moreover have "s = \<lparr>slot_name = name, slot_replacement = r\<rparr>" using s by simp
  ultimately show thesis using that [of p] ne p by (simp add: pp_position_def)
qed

lemma pp_position_unbound:
  assumes ok: "pp_ok pp" and b: "pp_bindings pp name = None" and ne: "pp_definitions pp \<noteq> []"
    and name: "name \<noteq> 0"
  obtains p where "pp_position pp name = Some p" "p < length (pp_definitions pp)"
    "slot_name (pp_definitions pp ! p) = 0"
    "\<And>r. table_ok define_used define_home ((pp_definitions pp)[p := \<lparr>slot_name = name, slot_replacement = r\<rparr>])"
proof -
  let ?t = "pp_definitions pp"
  have "slot_name (?t ! q) \<noteq> name" if "q < length ?t" "define_used (?t ! q)" for q
    using b name that by (auto simp: pp_bindings_None)
  then obtain p where "slot_position define_used (\<lambda>s. slot_name s = name) ?t (unat (hash_name name)) = Some p"
    "p < length ?t" "\<not> define_used (?t ! p)"
    "\<And>s. define_used s \<Longrightarrow> define_home s = unat (hash_name name) \<Longrightarrow> table_ok define_used define_home (?t[p := s])"
    using define_table.position_miss [of ?t "\<lambda>s. slot_name s = name" "unat (hash_name name)"]
      ok ne pp_room [OF ok ne] by (auto simp: pp_ok_def pp_entries_def)
  then show thesis using that [of p] ne name by (simp add: pp_position_def)
qed

lemma insert_slots_all:
  "insert_slots candidate slots = slot_insert_all define_used define_home candidate (filter define_used slots)"
  by (induction slots arbitrary: candidate) (auto simp: insert_slot_def)

lemma distinct_names_mset:
  "mset xs = mset ys \<Longrightarrow> distinct (map slot_name xs) \<longleftrightarrow> distinct (map slot_name ys)"
  by (metis mset_eq_imp_distinct_iff mset_map)

lemma pp_bindings_mset:
  assumes "pp_ok pp" "pp_ok pp'" "mset (pp_entries pp) = mset (pp_entries pp')"
  shows "pp_bindings pp = pp_bindings pp'"
proof -
  have "set (pp_entries pp) = set (pp_entries pp')" using assms(3) by (rule mset_eq_setD)
  then show ?thesis
    using assms(1,2) unfolding pp_bindings_def pp_ok_def
    by (subst map_of_inject_set) (simp_all add: comp_def)
qed

lemma ensure_capacity_ok:
  assumes ok: "pp_ok pp"
  obtains status pp' where "ensure_capacity pp 1 alloc = Some (status, pp')" "pp_ok pp'"
    "pp_bindings pp' = pp_bindings pp" "pp_definition_count pp' = pp_definition_count pp"
    "status = success \<Longrightarrow> pp_definitions pp' \<noteq> [] \<and> 2 * (pp_definition_count pp + 1) \<le> length (pp_definitions pp')"
    "status = success \<or> status = io_error \<and> pp' = pp"
    "alloc \<Longrightarrow> pp_definition_count pp < 2 ^ 62 \<Longrightarrow> status = success"
proof -
  let ?n = "pp_definition_count pp" and ?t = "pp_definitions pp"
  consider "1 > size_max - ?n" | "1 \<le> size_max - ?n" "?t \<noteq> []" "?n + 1 \<le> length ?t div 2"
    | "1 \<le> size_max - ?n" "?t = [] \<or> \<not> ?n + 1 \<le> length ?t div 2" by linarith
  then show thesis
  proof cases
    case 1
    then show thesis using ok by (intro that [of io_error pp]) (auto simp: ensure_capacity_def)
  next
    case 2
    then show thesis using ok
      by (intro that [of success pp]) (auto simp: ensure_capacity_def Let_def)
  next
    case 3
    consider "next_index_capacity (?n + 1) = Some 0"
      | k where "next_index_capacity (?n + 1) = Some (2 ^ k)" "(?n + 1) * 2 \<le> 2 ^ k"
      using next_index_capacity_cases [of "?n + 1"] by metis
    then show thesis
    proof cases
      case 1
      have "\<not> ?n < 2 ^ 62"
        using next_index_capacity_fits [of "?n + 1"] 1 by (metis Suc_eq_plus1 Suc_leI option.inject power_not_zero zero_less_Suc zero_neq_numeral)
      then show thesis using 1 3 ok
        by (intro that [of io_error pp]) (auto simp: ensure_capacity_def next_capacity_def Let_def)
    next
      case (2 k)
      obtain t where t: "insert_slots (replicate (2 ^ k) blank_define) ?t = Some t"
        "table_ok define_used define_home t" "length t = 2 ^ k"
        "mset (filter define_used t) = mset (pp_entries pp)"
      proof -
        let ?b = "replicate (2 ^ k) blank_define"
        have none: "filter define_used ?b = []" by (rule define_table.entries_blank)
        have "\<exists>t. slot_insert_all define_used define_home ?b (pp_entries pp) = Some t \<and>
            table_ok define_used define_home t \<and> length t = length ?b \<and>
            mset (filter define_used t) = mset (filter define_used ?b) + mset (pp_entries pp)"
        proof (rule define_table.insert_all_ok [OF define_table.table_ok_blank])
          show "length (filter define_used ?b) + length (pp_entries pp) < length ?b"
            unfolding none using 2(2) ok by (simp add: pp_ok_def)
        qed (simp add: pp_entries_def)
        then show ?thesis
          using that unfolding none insert_slots_all pp_entries_def by auto
      qed
      let ?pp = "pp\<lparr>pp_definitions := t\<rparr>"
      have entries: "mset (pp_entries ?pp) = mset (pp_entries pp)" using t(4) by (simp add: pp_entries_def)
      have "1 < length t" unfolding t(3) by (rule less_le_trans [OF _ 2(2)]) simp
      then have ok': "pp_ok ?pp"
        using ok entries distinct_names_mset [OF entries] mset_eq_length [OF entries] t(2,3) 2(2)
        unfolding pp_ok_def by auto
      show thesis
      proof (cases alloc)
        case True
        have "ensure_capacity pp 1 alloc = Some (success, ?pp)"
          using 2 3 t(1) True by (auto simp: ensure_capacity_def next_capacity_def Let_def)
        then show thesis
          using ok' pp_bindings_mset [OF ok' ok entries] t(3) 2(2) by (intro that [of success ?pp]) auto
      next
        case False
        then show thesis using 2 3 ok
          by (intro that [of io_error pp]) (auto simp: ensure_capacity_def next_capacity_def Let_def)
      qed
    qed
  qed
qed

text \<open>Storing a new binding at the position the probe found.\<close>

lemma pp_store_ok:
  assumes ok: "pp_ok pp" and name: "name \<noteq> 0" and new: "pp_bindings pp name = None"
    and room: "pp_definitions pp \<noteq> []" "2 * (pp_definition_count pp + 1) \<le> length (pp_definitions pp)"
  obtains p where "pp_position pp name = Some p"
    "pp_ok (pp\<lparr>pp_definitions := (pp_definitions pp)[p := \<lparr>slot_name = name, slot_replacement = r\<rparr>],
       pp_definition_count := pp_definition_count pp + 1\<rparr>)"
    "pp_bindings (pp\<lparr>pp_definitions := (pp_definitions pp)[p := \<lparr>slot_name = name, slot_replacement = r\<rparr>],
       pp_definition_count := pp_definition_count pp + 1\<rparr>) = (pp_bindings pp)(name \<mapsto> r)"
proof -
  let ?t = "pp_definitions pp" and ?s = "\<lparr>slot_name = name, slot_replacement = r\<rparr>"
  obtain p where p: "pp_position pp name = Some p" "p < length ?t" "slot_name (?t ! p) = 0"
    "\<And>r. table_ok define_used define_home (?t[p := \<lparr>slot_name = name, slot_replacement = r\<rparr>])"
    by (rule pp_position_unbound [OF ok new room(1) name]) blast
  let ?pp = "pp\<lparr>pp_definitions := ?t[p := ?s], pp_definition_count := pp_definition_count pp + 1\<rparr>"
  have entries: "mset (pp_entries ?pp) = mset (?s # pp_entries pp)"
    using define_table.update_entries_same [of p ?t ?s] p name by (simp add: pp_entries_def)
  have fresh: "name \<notin> slot_name ` set (pp_entries pp)"
    using new name by (auto simp: pp_bindings_None pp_entries_def)
  have dist: "distinct (map slot_name (?s # pp_entries pp))"
    using ok fresh by (simp add: pp_ok_def)
  have ok': "pp_ok ?pp"
    using ok room p(4) dist distinct_names_mset [OF entries] mset_eq_length [OF entries]
    unfolding pp_ok_def by auto
  have "pp_bindings ?pp = map_of (map (\<lambda>s. (slot_name s, slot_replacement s)) (?s # pp_entries pp))"
    using ok' dist mset_eq_setD [OF entries] unfolding pp_bindings_def pp_ok_def
    by (subst map_of_inject_set) (simp_all add: comp_def)
  then have "pp_bindings ?pp = (pp_bindings pp)(name \<mapsto> r)" by (simp add: pp_bindings_def)
  then show thesis using that p(1) ok' by blast
qed

text \<open>The contract of \<open>define\<close> over the abstract bindings.\<close>

definition define_post ::
    "string_table \<Rightarrow> preprocessor \<Rightarrow> u32 \<Rightarrow> u32 \<Rightarrow> bool \<Rightarrow> server_status \<Rightarrow> preprocessor \<Rightarrow> bool" where
  "define_post strings pp name r alloc status pp' \<longleftrightarrow>
     (if \<not> str_contains strings name \<or> r \<noteq> 0 \<and> \<not> str_contains strings r
      then status = project_configuration_invalid \<and> pp' = pp
      else case pp_bindings pp name of
          Some r' \<Rightarrow> status = (if r' = r then success else project_configuration_invalid) \<and> pp' = pp
        | None \<Rightarrow>
            (status = success \<and> pp_bindings pp' = (pp_bindings pp)(name \<mapsto> r) \<and>
               pp_definition_count pp' = pp_definition_count pp + 1 \<or>
             status = io_error \<and> pp' = pp) \<and>
            (alloc \<and> pp_definition_count pp < 2 ^ 62 \<longrightarrow> status = success))"

lemma str_contains_nonzero: "str_contains strings name \<Longrightarrow> name \<noteq> 0"
  by (auto simp: str_contains_def)

lemma pp_position_none:
  assumes "pp_ok pp" "pp_bindings pp name = None" "pp_definitions pp \<noteq> []" "name \<noteq> 0"
  obtains p where "pp_position pp name = Some p" "slot_name (pp_definitions pp ! p) = 0"
  by (rule pp_position_unbound [OF assms]) blast

lemma define_impl_post:
  assumes ok: "pp_ok pp"
  shows "\<exists>status pp'. define_impl strings pp name r alloc = Some (status, pp') \<and> pp_ok pp' \<and>
    define_post strings pp name r alloc status pp'"
proof (cases "\<not> str_contains strings name \<or> r \<noteq> 0 \<and> \<not> str_contains strings r")
  case True
  then show ?thesis using ok by (auto simp: define_impl_def define_post_def)
next
  case valid: False
  then have name: "name \<noteq> 0" by (auto dest: str_contains_nonzero)
  show ?thesis
  proof (cases "pp_bindings pp name")
    case (Some r')
    obtain p where "pp_position pp name = Some p" "p < length (pp_definitions pp)"
      "pp_definitions pp ! p = \<lparr>slot_name = name, slot_replacement = r'\<rparr>"
      by (rule pp_position_bound [OF ok Some]) blast
    then show ?thesis
      using ok valid name Some by (auto simp: define_impl_def define_post_def Let_def)
  next
    case None
    obtain prepared pp1 where e: "ensure_capacity pp 1 alloc = Some (prepared, pp1)" "pp_ok pp1"
      "pp_bindings pp1 = pp_bindings pp" "pp_definition_count pp1 = pp_definition_count pp"
      "prepared = success \<Longrightarrow> pp_definitions pp1 \<noteq> [] \<and> 2 * (pp_definition_count pp + 1) \<le> length (pp_definitions pp1)"
      "prepared = success \<or> prepared = io_error \<and> pp1 = pp"
      "alloc \<Longrightarrow> pp_definition_count pp < 2 ^ 62 \<Longrightarrow> prepared = success"
      by (rule ensure_capacity_ok [OF ok, of alloc]) blast
    let ?new = "Option.bind (ensure_capacity pp 1 alloc) (\<lambda>(prepared, pp1).
          if \<not> succeeded prepared then Some (prepared, pp1)
          else Option.bind (pp_position pp1 name) (\<lambda>target.
            Some (success, pp1\<lparr>pp_definitions := (pp_definitions pp1)
                [target := \<lparr>slot_name = name, slot_replacement = r\<rparr>],
              pp_definition_count := pp_definition_count pp1 + 1\<rparr>)))"
    have "define_impl strings pp name r alloc = ?new"
    proof (cases "pp_definitions pp = []")
      case True
      then show ?thesis using valid by (simp only: define_impl_def Let_def) simp
    next
      case False
      obtain p where "pp_position pp name = Some p" "slot_name (pp_definitions pp ! p) = 0"
        by (rule pp_position_none [OF ok None False name])
      then show ?thesis using valid False by (simp only: define_impl_def Let_def) simp
    qed
    moreover have "\<exists>status pp'. ?new = Some (status, pp') \<and> pp_ok pp' \<and>
      define_post strings pp name r alloc status pp'"
    proof (cases "prepared = success")
      case True
      obtain p where p: "pp_position pp1 name = Some p"
        "pp_ok (pp1\<lparr>pp_definitions := (pp_definitions pp1)[p := \<lparr>slot_name = name, slot_replacement = r\<rparr>],
           pp_definition_count := pp_definition_count pp1 + 1\<rparr>)"
        "pp_bindings (pp1\<lparr>pp_definitions := (pp_definitions pp1)[p := \<lparr>slot_name = name, slot_replacement = r\<rparr>],
           pp_definition_count := pp_definition_count pp1 + 1\<rparr>) = (pp_bindings pp1)(name \<mapsto> r)"
        by (rule pp_store_ok [OF e(2) name, of r]) (use e None True in auto)
      then show ?thesis using e(1,3,4) True valid None by (auto simp: define_post_def succeeded_def)
    next
      case False
      then show ?thesis using e ok valid None by (auto simp: define_post_def succeeded_def)
    qed
    ultimately show ?thesis by simp
  qed
qed

lemma undefine_post:
  assumes ok: "pp_ok pp" and known: "str_contains strings name"
  shows "\<exists>pp'. undefine strings pp name = Some (success, pp') \<and> pp_ok pp' \<and>
    pp_bindings pp' = (pp_bindings pp)(name := None)"
proof (cases "pp_bindings pp name")
  case None
  have "pp_definitions pp = [] \<or> (\<exists>p. pp_position pp name = Some p \<and> slot_name (pp_definitions pp ! p) = 0)"
    using pp_position_none [OF ok None _ str_contains_nonzero [OF known]] by metis
  moreover have "(pp_bindings pp)(name := None) = pp_bindings pp" using None by auto
  ultimately show ?thesis using ok known by (auto simp: undefine_def)
next
  case (Some r)
  let ?t = "pp_definitions pp" and ?s = "\<lparr>slot_name = name, slot_replacement = r\<rparr>"
  obtain p where p: "pp_position pp name = Some p" "p < length ?t" "?t ! p = ?s"
    by (rule pp_position_bound [OF ok Some]) blast
  have name: "name \<noteq> 0" and ne: "?t \<noteq> []" using known str_contains_nonzero p by auto
  have tab: "table_ok define_used define_home ?t" "length (filter define_used ?t) < length ?t"
    using ok ne pp_room [OF ok ne] by (auto simp: pp_ok_def pp_entries_def)
  obtain t where t: "reinsert_cluster define_used define_home blank_define (?t[p := blank_define])
        ((p + 1) AND (length ?t - 1)) = Some t" "table_ok define_used define_home t" "length t = length ?t"
    "mset (filter define_used ?t) = add_mset (?t ! p) (mset (filter define_used t))"
    by (rule define_table.delete_ok [OF tab p(2)]) (use p name in auto)
  let ?pp = "pp\<lparr>pp_definitions := t, pp_definition_count := pp_definition_count pp - 1\<rparr>"
  have entries: "mset (pp_entries pp) = mset (?s # pp_entries ?pp)" using t(4) p(3) by (simp add: pp_entries_def)
  have dist: "distinct (map slot_name (?s # pp_entries ?pp))"
    using ok unfolding distinct_names_mset [OF entries, symmetric] pp_ok_def by blast
  have ok': "pp_ok ?pp"
    using ok ne t(2,3) dist mset_eq_length [OF entries] unfolding pp_ok_def by auto
  have "pp_bindings pp = map_of (map (\<lambda>s. (slot_name s, slot_replacement s)) (?s # pp_entries ?pp))"
    using ok dist mset_eq_setD [OF entries] unfolding pp_bindings_def pp_ok_def
    by (subst map_of_inject_set) (simp_all add: comp_def)
  moreover have "pp_bindings ?pp name = None"
    using dist by (simp add: pp_bindings_def map_of_eq_None_iff image_image)
  ultimately have "pp_bindings ?pp = (pp_bindings pp)(name := None)"
    by (auto simp: pp_bindings_def)
  moreover have "undefine strings pp name = Some (success, ?pp)"
    using known ne p name t(1) by (simp add: undefine_def)
  ultimately show ?thesis using ok' by blast
qed

lemma reset_post:
  assumes "pp_ok pp"
  shows "pp_ok (pp_reset pp) \<and> pp_bindings (pp_reset pp) = Map.empty \<and>
    length (pp_definitions (pp_reset pp)) = length (pp_definitions pp)"
proof -
  let ?b = "replicate (length (pp_definitions pp)) blank_define"
  have r: "pp_definitions (pp_reset pp) = ?b" by (simp add: pp_reset_def map_replicate_const)
  have none: "pp_entries (pp_reset pp) = []" unfolding pp_entries_def r by (rule define_table.entries_blank)
  have "table_ok define_used define_home ?b" if ne: "pp_definitions pp \<noteq> []"
  proof -
    obtain k where "length (pp_definitions pp) = 2 ^ k"
      using assms ne unfolding pp_ok_def table_ok_def by blast
    then show ?thesis by (simp add: define_table.table_ok_blank del: replicate.simps)
  qed
  then show ?thesis
    using assms none r by (auto simp: pp_ok_def pp_bindings_def pp_reset_def)
qed

lemma pp_defined_spec:
  assumes ok: "pp_ok pp"
  shows "pp_defined strings pp name = Some (str_contains strings name \<and> name \<in> dom (pp_bindings pp))"
proof (cases "str_contains strings name \<and> pp_definitions pp \<noteq> []")
  case True
  then have name: "name \<noteq> 0" by (auto dest: str_contains_nonzero)
  show ?thesis
  proof (cases "pp_bindings pp name")
    case None
    obtain p where "pp_position pp name = Some p" "slot_name (pp_definitions pp ! p) = 0"
      by (rule pp_position_none [OF ok None _ name]) (use True in auto)
    then show ?thesis using True None name by (auto simp: pp_defined_def)
  next
    case (Some r)
    obtain p where "pp_position pp name = Some p" "pp_definitions pp ! p = \<lparr>slot_name = name, slot_replacement = r\<rparr>"
      by (rule pp_position_bound [OF ok Some]) blast
    then show ?thesis using True Some by (auto simp: pp_defined_def)
  qed
qed (auto simp: pp_defined_def pp_bindings_def)

section \<open>Expansion\<close>

text \<open>
  The specification of \<open>expand\<close>: \<open>macro_step\<close> is one identifier replacement and
  \<open>macro_chain\<close> its iteration. A chain that ends gives its last identifier, or nothing if that
  one is defined empty; a chain that does not end gives the first identifier on it that lies
  on a cycle.
\<close>

definition macro_step :: "(u32 \<rightharpoonup> u32) \<Rightarrow> u32 \<Rightarrow> u32 option" where
  "macro_step b x = (case b x of None \<Rightarrow> None | Some r \<Rightarrow> if r = 0 then None else Some r)"

fun macro_chain :: "(u32 \<rightharpoonup> u32) \<Rightarrow> nat \<Rightarrow> u32 \<Rightarrow> u32 option" where
  "macro_chain b 0 x = Some x"
| "macro_chain b (Suc n) x = Option.bind (macro_chain b n x) (macro_step b)"

definition terminal_expansion :: "(u32 \<rightharpoonup> u32) \<Rightarrow> u32 \<Rightarrow> preprocessor_expansion" where
  "terminal_expansion b x =
     (if b x = None then \<lparr>exp_kind = expansion_identifier, exp_identifier = x\<rparr>
      else \<lparr>exp_kind = expansion_empty, exp_identifier = 0\<rparr>)"

definition on_cycle :: "(u32 \<rightharpoonup> u32) \<Rightarrow> u32 \<Rightarrow> bool" where
  "on_cycle b x \<longleftrightarrow> (\<exists>l>0. macro_chain b l x = Some x)"

definition expands_to :: "(u32 \<rightharpoonup> u32) \<Rightarrow> u32 \<Rightarrow> preprocessor_expansion \<Rightarrow> bool" where
  "expands_to b name out \<longleftrightarrow>
     (\<exists>n x. macro_chain b n name = Some x \<and> macro_step b x = None \<and> out = terminal_expansion b x) \<or>
     (\<exists>n x. macro_chain b n name = Some x \<and> on_cycle b x \<and>
        (\<forall>j<n. \<forall>y. macro_chain b j name = Some y \<longrightarrow> \<not> on_cycle b y) \<and>
        out = \<lparr>exp_kind = expansion_identifier, exp_identifier = x\<rparr>)"

lemma pp_transition_spec:
  assumes ok: "pp_ok pp" and name: "name \<noteq> 0"
  shows "pp_transition pp name = Some (case pp_bindings pp name of
      None \<Rightarrow> (transition_identifier, 0)
    | Some r \<Rightarrow> if r = 0 then (transition_empty, 0) else (transition_next, r))"
proof (cases "pp_bindings pp name")
  case None
  have "pp_definitions pp = [] \<or> (\<exists>p. pp_position pp name = Some p \<and> slot_name (pp_definitions pp ! p) = 0)"
    using pp_position_none [OF ok None _ name] by metis
  then show ?thesis using None name by (auto simp: pp_transition_def)
next
  case (Some r)
  obtain p where "pp_position pp name = Some p" "p < length (pp_definitions pp)"
    "pp_definitions pp ! p = \<lparr>slot_name = name, slot_replacement = r\<rparr>"
    by (rule pp_position_bound [OF ok Some]) blast
  then show ?thesis using Some by (auto simp: pp_transition_def)
qed

lemma pp_transition_next:
  assumes "pp_ok pp" "name \<noteq> 0" "macro_step (pp_bindings pp) name = Some r"
  shows "pp_transition pp name = Some (transition_next, r)" "r \<noteq> 0"
  using pp_transition_spec [OF assms(1,2)] assms(3)
  by (auto simp: macro_step_def split: option.splits if_splits)

lemma pp_transition_end:
  assumes "pp_ok pp" "name \<noteq> 0" "macro_step (pp_bindings pp) name = None"
  obtains k where "pp_transition pp name = Some (k, 0)" "k \<noteq> transition_next"
    "expand_terminal k name = terminal_expansion (pp_bindings pp) name"
  using pp_transition_spec [OF assms(1,2)] assms(3)
  by (auto simp: macro_step_def terminal_expansion_def expand_terminal_def split: option.splits if_splits)

subsection \<open>Chains\<close>

lemma macro_chain_add: "macro_chain b (m + n) x = Option.bind (macro_chain b n x) (macro_chain b m)"
  by (induction m) (auto simp: Option.bind_assoc)

lemma macro_chain_nonzero: "x \<noteq> 0 \<Longrightarrow> macro_chain b n x = Some y \<Longrightarrow> y \<noteq> 0"
proof (induction n arbitrary: y)
  case (Suc n)
  then show ?case
    by (auto simp: macro_step_def bind_eq_Some_conv split: option.splits if_splits)
qed simp

text \<open>A chain that ends visits no identifier twice.\<close>

lemma ending_chain_distinct:
  assumes fin: "macro_chain b n x = Some y" "macro_step b y = None"
    and ij: "i < j" "j \<le> n" and eq: "macro_chain b i x = macro_chain b j x"
  shows False
proof -
  have n: "n = n - j + j" using ij by simp
  have "macro_chain b (n - j + i) x = macro_chain b n x"
    by (subst (2) n) (simp only: macro_chain_add eq)
  then have "macro_chain b (Suc (n - j + i)) x = None" using fin by simp
  moreover have "macro_chain b (n - Suc (n - j + i) + Suc (n - j + i)) x = Some y"
    using fin(1) ij by simp
  ultimately show False by (simp only: macro_chain_add) simp
qed

lemma macro_chain_before:
  assumes "macro_chain b n x = Some y" "i \<le> n"
  obtains z where "macro_chain b i x = Some z"
  using assms macro_chain_add [of b "n - i" i x] by (cases "macro_chain b i x") auto

lemma macro_chain_step:
  assumes "macro_chain b n x = Some y" "i < n" "macro_chain b i x = Some z"
  obtains z' where "macro_step b z = Some z'" "macro_chain b (Suc i) x = Some z'"
  using macro_chain_before [OF assms(1), of "Suc i"] assms(2,3) by auto

text \<open>The first loop on a chain that ends.\<close>

lemma expand_chase_ending:
  assumes ok: "pp_ok pp" and x: "x \<noteq> 0"
    and fin: "macro_chain (pp_bindings pp) n x = Some y" "macro_step (pp_bindings pp) y = None"
  shows "2 * i \<le> n \<Longrightarrow> macro_chain (pp_bindings pp) i x = Some t \<Longrightarrow>
    macro_chain (pp_bindings pp) (2 * i) x = Some h \<Longrightarrow>
    expand_chase pp t h = Some (Inl (terminal_expansion (pp_bindings pp) y))"
proof (induction "n - i" arbitrary: i t h rule: less_induct)
  case less
  let ?b = "pp_bindings pp"
  obtain k where k: "pp_transition pp y = Some (k, 0)" "k \<noteq> transition_next"
    "expand_terminal k y = terminal_expansion ?b y"
    by (rule pp_transition_end [OF ok macro_chain_nonzero [OF x fin(1)] fin(2)]) blast
  note nz = macro_chain_nonzero [OF x]
  show ?case
  proof (cases "i = n")
    case True
    then have "t = y" using less.prems fin by simp
    then show ?thesis using k by (subst expand_chase.simps) simp
  next
    case False
    then have "i < n" using less.prems by simp
    then obtain t' where t': "macro_step ?b t = Some t'" "macro_chain ?b (Suc i) x = Some t'"
      by (rule macro_chain_step [OF fin(1) _ less.prems(2)]) blast
    note tt = pp_transition_next(1) [OF ok nz [OF less.prems(2)] t'(1)]
    show ?thesis
    proof (cases "2 * i = n")
      case True
      then have "h = y" using less.prems fin by simp
      then show ?thesis using k tt by (subst expand_chase.simps) simp
    next
      case False
      then have "2 * i < n" using less.prems by simp
      then obtain h' where h': "macro_step ?b h = Some h'" "macro_chain ?b (Suc (2 * i)) x = Some h'"
        by (rule macro_chain_step [OF fin(1) _ less.prems(3)]) blast
      note th = pp_transition_next(1) [OF ok nz [OF less.prems(3)] h'(1)]
      show ?thesis
      proof (cases "Suc (2 * i) = n")
        case True
        then have "h' = y" using h' fin by simp
        then show ?thesis using k tt th by (subst expand_chase.simps) simp
      next
        case False
        then have lt: "Suc (2 * i) < n" using \<open>2 * i < n\<close> by simp
        then obtain h'' where h'': "macro_step ?b h' = Some h''" "macro_chain ?b (Suc (Suc (2 * i))) x = Some h''"
          by (rule macro_chain_step [OF fin(1) _ h'(2)]) blast
        note th' = pp_transition_next(1) [OF ok nz [OF h'(2)] h''(1)]
        have "t' \<noteq> h''"
          using ending_chain_distinct [OF fin, of "Suc i" "Suc (Suc (2 * i))"] lt t'(2) h''(2) by auto
        moreover have "expand_chase pp t' h'' = Some (Inl (terminal_expansion ?b y))"
          using less.hyps [of "Suc i" t' h''] lt t'(2) h''(2) \<open>i < n\<close> by auto
        ultimately show ?thesis using tt th th' by (subst expand_chase.simps) simp
      qed
    qed
  qed
qed

subsection \<open>Cycle detection\<close>

text \<open>
  The laws of a sequence produced by iterating a deterministic step, as both expansion loops
  use them: Floyd's meeting point exists on a finite range, and walking from the start and from
  the meeting point in lock step meets exactly at the entry of the cycle.
\<close>

locale walk =
  fixes s :: "nat \<Rightarrow> 'a" and g :: "'a \<Rightarrow> 'a"
  assumes walk_step: "s (Suc n) = g (s n)"
begin

lemma shift: "s i = s j \<Longrightarrow> s (i + k) = s (j + k)"
proof (induction k)
  case (Suc k)
  then show ?case by (simp add: walk_step)
qed simp

lemma recur: "s m = s (m + l) \<Longrightarrow> s (m + k + q * l) = s (m + k)"
proof (induction q)
  case (Suc q)
  have "s (m + (k + q * l)) = s (m + l + (k + q * l))" by (rule shift [OF Suc.prems])
  then show ?case using Suc.IH [OF Suc.prems] by (simp add: algebra_simps)
qed simp

lemma meets:
  assumes "finite (range s)"
  obtains i where "0 < i" "s i = s (2 * i)"
proof -
  have "\<not> inj s" using assms finite_imageD [of s UNIV] by auto
  then obtain m l where ml: "0 < l" "s m = s (m + l)"
    unfolding inj_def by (metis less_imp_add_positive linorder_neqE_nat)
  let ?i = "Suc m * l"
  have "m \<le> ?i" using ml(1) by (cases l) auto
  then have "s (m + (?i - m) + Suc m * l) = s (m + (?i - m))" by (intro recur [OF ml(2)])
  then have "s (?i + ?i) = s ?i" using \<open>m \<le> ?i\<close> by (simp del: mult_Suc)
  then have "s ?i = s (2 * ?i)" by (simp only: mult_2)
  then show thesis using that [of ?i] ml(1) by simp
qed

definition entry :: nat where
  "entry = (LEAST m. \<exists>l>0. s m = s (m + l))"

lemma entry_cycle:
  assumes "0 < i" "s i = s (2 * i)"
  shows "\<exists>l>0. s entry = s (entry + l)"
  unfolding entry_def
  by (rule LeastI [of "\<lambda>m. \<exists>l>0. s m = s (m + l)" i]) (use assms in \<open>auto simp: mult_2\<close>)

lemma before_entry: "j < entry \<Longrightarrow> 0 < l \<Longrightarrow> s j \<noteq> s (j + l)"
  using not_less_Least [of j "\<lambda>m. \<exists>l>0. s m = s (m + l)"] unfolding entry_def by blast

lemma entry_meets:
  assumes "0 < i" "s i = s (2 * i)"
  shows "s entry = s (i + entry)"
proof -
  obtain l where l: "0 < l" "s entry = s (entry + l)" using entry_cycle [OF assms] by blast
  let ?k = "entry + i * l - i"
  have i: "i \<le> entry + i * l" using l(1) by (cases l) auto
  have "s (i + ?k) = s (i + i + ?k)" using shift [of i "i + i" ?k] assms(2) by (simp add: mult_2)
  then have "s (entry + 0 + i * l) = s (entry + i + i * l)" using i by (simp add: algebra_simps)
  then show ?thesis using recur [OF l(2), of 0 i] recur [OF l(2), of i i] by (simp add: add.commute)
qed

end

definition macro_follow :: "(u32 \<rightharpoonup> u32) \<Rightarrow> u32 \<Rightarrow> u32" where
  "macro_follow b x = (case macro_step b x of None \<Rightarrow> x | Some y \<Rightarrow> y)"

definition chain_at :: "(u32 \<rightharpoonup> u32) \<Rightarrow> u32 \<Rightarrow> nat \<Rightarrow> u32" where
  "chain_at b x n = (macro_follow b ^^ n) x"

interpretation macro_walk: walk "chain_at b x" "macro_follow b" for b x
  by unfold_locales (simp add: chain_at_def)

lemma endless_chain:
  assumes "\<And>n y. macro_chain b n x = Some y \<Longrightarrow> macro_step b y \<noteq> None"
  shows "macro_chain b n x = Some (chain_at b x n)"
    and "macro_step b (chain_at b x n) = Some (chain_at b x (Suc n))"
proof -
  have step: "macro_step b (chain_at b x n) = Some (chain_at b x (Suc n))"
    if "macro_chain b n x = Some (chain_at b x n)" for n
    using assms [OF that] by (auto simp: macro_walk.walk_step macro_follow_def)
  have at: "macro_chain b n x = Some (chain_at b x n)" for n
    by (induction n) (simp_all add: step, simp add: chain_at_def)
  show "macro_chain b n x = Some (chain_at b x n)" by (rule at)
  show "macro_step b (chain_at b x n) = Some (chain_at b x (Suc n))" by (rule step [OF at])
qed

lemma expand_chase_cyclic:
  assumes ok: "pp_ok pp" and w: "\<And>n. macro_step (pp_bindings pp) (s n) = Some (s (Suc n))" and nz: "\<And>n. s n \<noteq> 0"
    and least: "\<And>j. 0 < j \<Longrightarrow> j < m \<Longrightarrow> s j \<noteq> s (2 * j)" and m: "s m = s (2 * m)"
  shows "i < m \<Longrightarrow> expand_chase pp (s i) (s (2 * i)) = Some (Inr (s m))"
proof (induction "m - i" arbitrary: i rule: less_induct)
  case less
  have t: "pp_transition pp (s n) = Some (transition_next, s (Suc n))" for n
    by (rule pp_transition_next(1) [OF ok nz w])
  show ?case
  proof (cases "Suc i = m")
    case True
    then have "s (Suc i) = s (Suc (Suc (2 * i)))" using m by auto
    then show ?thesis using True by (subst expand_chase.simps) (simp add: t)
  next
    case False
    then have "s (Suc i) \<noteq> s (Suc (Suc (2 * i)))" using least [of "Suc i"] less.prems by simp
    moreover have "expand_chase pp (s (Suc i)) (s (2 * Suc i)) = Some (Inr (s m))"
      using False less.prems by (intro less.hyps) auto
    ultimately show ?thesis by (subst expand_chase.simps) (simp add: t)
  qed
qed

lemma expand_entry_cyclic:
  assumes ok: "pp_ok pp" and w: "\<And>n. macro_step (pp_bindings pp) (s n) = Some (s (Suc n))" and nz: "\<And>n. s n \<noteq> 0"
    and before: "\<And>j. j < e \<Longrightarrow> s j \<noteq> s (i + j)" and e: "s e = s (i + e)"
  shows "j \<le> e \<Longrightarrow> expand_entry pp (s j) (s (i + j)) = Some (Inr (s e))"
proof (induction "e - j" arbitrary: j)
  case 0
  then show ?case using e by (subst expand_entry.simps) simp
next
  case (Suc d)
  have t: "pp_transition pp (s n) = Some (transition_next, s (Suc n))" for n
    by (rule pp_transition_next(1) [OF ok nz w])
  have "s j \<noteq> s (i + j)" using before Suc.hyps(2) by simp
  moreover have "expand_entry pp (s (Suc j)) (s (i + Suc j)) = Some (Inr (s e))"
    using Suc.hyps(2) by (intro Suc.hyps(1)) auto
  ultimately show ?case by (subst expand_entry.simps) (simp add: t)
qed

lemma pp_expand_ending:
  assumes ok: "pp_ok pp" and known: "str_contains strings name"
    and fin: "macro_chain (pp_bindings pp) n name = Some y" "macro_step (pp_bindings pp) y = None"
  shows "pp_expand strings pp name = Some (success, terminal_expansion (pp_bindings pp) y)"
  using expand_chase_ending [OF ok str_contains_nonzero [OF known] fin, of 0 name name] known
  by (simp add: pp_expand_def)

lemma pp_expand_cyclic:
  assumes ok: "pp_ok pp" and known: "str_contains strings name"
    and endless: "\<And>n y. macro_chain (pp_bindings pp) n name = Some y \<Longrightarrow> macro_step (pp_bindings pp) y \<noteq> None"
  shows "\<exists>n x. macro_chain (pp_bindings pp) n name = Some x \<and> on_cycle (pp_bindings pp) x \<and>
        (\<forall>j<n. \<forall>y. macro_chain (pp_bindings pp) j name = Some y \<longrightarrow> \<not> on_cycle (pp_bindings pp) y) \<and>
    pp_expand strings pp name = Some (success, \<lparr>exp_kind = expansion_identifier, exp_identifier = x\<rparr>)"
proof -
  let ?b = "pp_bindings pp"
  define s where "s = chain_at ?b name"
  have at: "macro_chain ?b n name = Some (s n)" for n unfolding s_def by (rule endless_chain(1) [OF endless])
  have w: "macro_step ?b (s n) = Some (s (Suc n))" for n
    unfolding s_def by (rule endless_chain(2) [OF endless])
  have nz: "s n \<noteq> 0" for n by (rule macro_chain_nonzero [OF str_contains_nonzero [OF known] at])
  have "s n \<in> dom ?b" for n using w [of n] by (auto simp: macro_step_def split: option.splits)
  then have "range s \<subseteq> dom ?b" by blast
  then have "finite (range s)" by (rule finite_subset) (simp add: pp_bindings_def finite_dom_map_of)
  then obtain i0 where i0: "0 < i0" "s i0 = s (2 * i0)" by (rule macro_walk.meets [of ?b name, folded s_def])
  define m where "m = (LEAST i. 0 < i \<and> s i = s (2 * i))"
  have m: "0 < m" "s m = s (2 * m)"
    using LeastI [of "\<lambda>i. 0 < i \<and> s i = s (2 * i)" i0] i0 unfolding m_def by blast+
  have least: "s j \<noteq> s (2 * j)" if "0 < j" "j < m" for j
    using not_less_Least [of j "\<lambda>i. 0 < i \<and> s i = s (2 * i)"] that unfolding m_def by blast
  let ?e = "walk.entry s"
  note laws = macro_walk.before_entry [of _ ?b name, folded s_def]
    macro_walk.entry_meets [of _ ?b name, folded s_def] macro_walk.entry_cycle [of _ ?b name, folded s_def]
  have chase: "expand_chase pp (s 0) (s 0) = Some (Inr (s m))"
    using expand_chase_cyclic [where s = s, OF ok w nz least m(2) m(1)] by simp
  have "expand_entry pp (s 0) (s (m + 0)) = Some (Inr (s ?e))"
  proof (rule expand_entry_cyclic [where s = s, OF ok w nz])
    show "s j \<noteq> s (m + j)" if "j < ?e" for j
      using laws(1) [OF that m(1)] by (simp add: add.commute)
  qed (use laws(2) [OF m] in auto)
  moreover have "s 0 = name" using at [of 0] by simp
  ultimately have out: "pp_expand strings pp name =
      Some (success, \<lparr>exp_kind = expansion_identifier, exp_identifier = s ?e\<rparr>)"
    using chase known by (simp add: pp_expand_def)
  have from_s: "macro_chain ?b l (s n) = Some (s (n + l))" for l n
    using macro_chain_add [of ?b l n name] at by (simp add: add.commute)
  have "on_cycle ?b (s ?e)"
    using laws(3) [OF m] by (auto simp: on_cycle_def from_s)
  moreover have "\<not> on_cycle ?b (s j)" if "j < ?e" for j
    using laws(1) [OF that] by (auto simp: on_cycle_def from_s) metis
  ultimately show ?thesis using out at by auto
qed

lemma pp_expand_spec:
  assumes "pp_ok pp" "str_contains strings name"
  shows "\<exists>out. pp_expand strings pp name = Some (success, out) \<and> expands_to (pp_bindings pp) name out"
proof (cases "\<exists>n y. macro_chain (pp_bindings pp) n name = Some y \<and> macro_step (pp_bindings pp) y = None")
  case True
  then show ?thesis using pp_expand_ending [OF assms] unfolding expands_to_def by blast
next
  case False
  then have "macro_step (pp_bindings pp) y \<noteq> None" if "macro_chain (pp_bindings pp) n name = Some y" for n y
    using that by auto
  then show ?thesis using pp_expand_cyclic [OF assms] unfolding expands_to_def by metis
qed

section \<open>Reachable tables\<close>

text \<open>The states the public operations can produce from a new preprocessor.\<close>

inductive pp_reachable :: "string_table \<Rightarrow> preprocessor \<Rightarrow> bool" for strings where
  created: "pp_reachable strings fresh_preprocessor"
| after_reset: "pp_reachable strings pp \<Longrightarrow> pp_reachable strings (pp_reset pp)"
| after_define_empty: "pp_reachable strings pp \<Longrightarrow> define_empty strings pp name alloc = Some (status, pp') \<Longrightarrow>
    pp_reachable strings pp'"
| after_define: "pp_reachable strings pp \<Longrightarrow> define_replacement strings pp name r alloc = Some (status, pp') \<Longrightarrow>
    pp_reachable strings pp'"
| after_undefine: "pp_reachable strings pp \<Longrightarrow> undefine strings pp name = Some (status, pp') \<Longrightarrow>
    pp_reachable strings pp'"

lemma fresh_preprocessor_ok: "pp_ok fresh_preprocessor"
  by (simp add: pp_ok_def fresh_preprocessor_def pp_entries_def)

lemma define_impl_ok: "pp_ok pp \<Longrightarrow> define_impl strings pp name r alloc = Some (status, pp') \<Longrightarrow> pp_ok pp'"
  using define_impl_post [of pp strings name r alloc] by auto

lemma undefine_ok: "pp_ok pp \<Longrightarrow> undefine strings pp name = Some (status, pp') \<Longrightarrow> pp_ok pp'"
  using undefine_post [of pp strings name]
  by (cases "str_contains strings name") (auto simp: undefine_def)

lemma pp_reachable_ok: "pp_reachable strings pp \<Longrightarrow> pp_ok pp"
proof (induction rule: pp_reachable.induct)
  case (after_define pp name r alloc status pp')
  then show ?case by (auto simp: define_replacement_def intro: define_impl_ok split: if_splits)
qed (auto simp: fresh_preprocessor_ok reset_post define_empty_def intro: define_impl_ok undefine_ok)

section \<open>Properties\<close>

text \<open>\<^bold>\<open>C20.\<close>
  On every macro table the operations can produce, expanding a known identifier returns, with
  status success: the end of the chain of replacements (nothing if that end is defined empty),
  or, for a chain that runs into a cycle, the entry of the cycle.\<close>

theorem expand_follows_chain:
  assumes "pp_reachable strings pp" "str_contains strings name"
  shows "\<exists>out. pp_expand strings pp name = Some (success, out) \<and> expands_to (pp_bindings pp) name out"
  by (rule pp_expand_spec [OF pp_reachable_ok [OF assms(1)] assms(2)])

text \<open>A string table with two spellings, for the witnesses.\<close>

definition two_strings :: string_table where
  "two_strings = fresh_string_table\<lparr>str_bytes := ''ab'',
     str_records := [\<lparr>rec_offset = 0, rec_length = 1, rec_hash = hash_text ''a''\<rparr>,
                     \<lparr>rec_offset = 1, rec_length = 1, rec_hash = hash_text ''b''\<rparr>]\<rparr>"

lemma two_strings_contains: "str_contains two_strings 1" "str_contains two_strings 2"
  by (simp_all add: str_contains_def two_strings_def fresh_string_table_def)

theorem expand_follows_chain_witness:
  "str_contains two_strings 1 \<and> (\<exists>out. pp_expand two_strings fresh_preprocessor 1 = Some (success, out) \<and>
     expands_to (pp_bindings fresh_preprocessor) 1 out)"
  using expand_follows_chain [OF created two_strings_contains(1)] two_strings_contains by blast

text \<open>\<^bold>\<open>C23.\<close>
  \<open>define\<close> on every macro table the operations can produce: it returns; unknown identifiers are
  refused; a redefinition succeeds without effect when it is identical and is refused otherwise;
  a new binding extends the bindings by exactly that name, or the call fails with \<open>io_error\<close> and
  changes nothing, which cannot happen when memory is available.\<close>

theorem define_refines_bindings:
  assumes "pp_reachable strings pp"
  shows "\<exists>status pp'. define_impl strings pp name r alloc = Some (status, pp') \<and> pp_ok pp' \<and>
    define_post strings pp name r alloc status pp'"
  by (rule define_impl_post [OF pp_reachable_ok [OF assms]])

theorem define_refines_bindings_witness:
  "pp_reachable two_strings fresh_preprocessor \<and>
   (\<exists>status pp'. define_impl two_strings fresh_preprocessor 1 2 True = Some (status, pp') \<and> pp_ok pp' \<and>
    define_post two_strings fresh_preprocessor 1 2 True status pp')"
  using define_refines_bindings [OF created] created by blast

text \<open>\<^bold>\<open>C24.\<close>
  \<open>undefine\<close> of a known identifier returns success on every macro table the operations can
  produce and removes exactly that binding: clearing the slot and reinserting the cluster behind
  it loses and duplicates no other binding and leaves every binding findable.\<close>

theorem undefine_removes_binding:
  assumes "pp_reachable strings pp" "str_contains strings name"
  shows "\<exists>pp'. undefine strings pp name = Some (success, pp') \<and>
    pp_bindings pp' = (pp_bindings pp)(name := None) \<and>
    (\<forall>other. pp_defined strings pp' other =
        Some (str_contains strings other \<and> other \<noteq> name \<and> other \<in> dom (pp_bindings pp)))"
proof -
  obtain pp' where r: "undefine strings pp name = Some (success, pp')" "pp_ok pp'"
    "pp_bindings pp' = (pp_bindings pp)(name := None)"
    using undefine_post [OF pp_reachable_ok [OF assms(1)] assms(2)] by blast
  have "pp_defined strings pp' other =
      Some (str_contains strings other \<and> other \<noteq> name \<and> other \<in> dom (pp_bindings pp))" for other
    unfolding pp_defined_spec [OF r(2)] r(3) by (auto simp: dom_def)
  then show ?thesis using r by blast
qed

theorem undefine_removes_binding_witness:
  "str_contains two_strings 2 \<and>
   (\<exists>pp'. undefine two_strings fresh_preprocessor 2 = Some (success, pp') \<and>
     pp_bindings pp' = (pp_bindings fresh_preprocessor)(2 := None) \<and>
     (\<forall>other. pp_defined two_strings pp' other =
        Some (str_contains two_strings other \<and> other \<noteq> 2 \<and> other \<in> dom (pp_bindings fresh_preprocessor))))"
  using undefine_removes_binding [OF created two_strings_contains(2)] two_strings_contains by blast

end
