(* ===== verification/Identity_Space.thy ===== *)
theory Identity_Space
  imports String_Table
begin

text \<open>
  \<^verbatim>\<open>identity_space\<close> of \<^verbatim>\<open>server_engine/project/semantic/identity.cpp\<close>: the project-local
  identities, each a (parent, name, kind) key with a dense slot. An optional compiled image
  provides the first slots; new identities are appended and indexed by a probing table. The
  definitions keep the member names with the prefix \<open>isp_\<close>; the string table the space refers
  to is the argument \<open>strings\<close>. \<^verbatim>\<open>strings.baseline != &baseline_value\<close> compares addresses in the
  code and images here.

  \<open>isp_key\<close> is the abstract state, the key of every identity; the theory shows that \<open>resolve\<close>
  refines "return the identity of the key, or add one", that look-up is its inverse, and that
  parents always precede their children.
\<close>

section \<open>Data\<close>

record identity_record =
  idr_parent :: identity_ref
  idr_name :: u32

record identity_slot =
  ids_fingerprint :: u32
  ids_identity :: identity_ref

record identity_space =
  isp_baseline :: "compiled_project_view option"
  isp_baseline_count :: nat
  isp_records :: "identity_record list"
  isp_kinds :: "identity_kind list"
  isp_index :: "identity_slot list"

definition fresh_identity_space :: identity_space where
  "fresh_identity_space =
     \<lparr>isp_baseline = None, isp_baseline_count = 1, isp_records = [], isp_kinds = [], isp_index = []\<rparr>"

definition blank_identity_slot :: identity_slot where
  "blank_identity_slot = \<lparr>ids_fingerprint = 0, ids_identity = 0\<rparr>"

definition empty_identity_record :: identity_record where
  "empty_identity_record = \<lparr>idr_parent = 0, idr_name = 0\<rparr>"

section \<open>Operations\<close>

definition isp_root :: identity_ref where
  "isp_root = make_ref 1 kind_root"

definition isp_size :: "identity_space \<Rightarrow> nat" where
  "isp_size st = isp_baseline_count st + length (isp_records st)"

definition isp_bind_baseline ::
    "string_table \<Rightarrow> compiled_project_view \<Rightarrow> identity_space \<Rightarrow> server_status \<times> identity_space" where
  "isp_bind_baseline strings v st =
     (if \<not> view_valid v \<or> isp_baseline st \<noteq> None \<or> str_baseline strings \<noteq> Some v \<or>
         isp_records st \<noteq> [] \<or> isp_kinds st \<noteq> [] \<or> isp_index st \<noteq> [] \<or>
         identity_count_value v = 0 \<or> identity_count_value v > maximum_slot \<or>
         identity_root v \<noteq> isp_root
      then (project_artifact_invalid, st)
      else (success, st\<lparr>isp_baseline := Some v, isp_baseline_count := identity_count_value v\<rparr>))"

definition hash_key :: "identity_ref \<Rightarrow> u32 \<Rightarrow> identity_kind \<Rightarrow> u64" where
  "hash_key parent name kind =
     (let v = ucast parent OR push_bit 32 (ucast name)
      in mix64 (v XOR (ucast (ucast (kind_value kind) :: u8) * 0x9e3779b97f4a7c15)))"

definition fingerprint :: "u64 \<Rightarrow> u32" where
  "fingerprint hash = (let v = ucast (hash XOR drop_bit 32 hash) in if v = 0 then 1 else v)"

definition isp_contains :: "identity_space \<Rightarrow> identity_ref \<Rightarrow> bool" where
  "isp_contains st r =
     (if \<not> ref_valid r then False
      else if ref_slot r = 1 then ref_kind r = kind_root
      else if isp_baseline st \<noteq> None \<and> unat (ref_slot r) \<le> isp_baseline_count st
      then identity_valid (the (isp_baseline st)) r
      else if unat (ref_slot r) \<le> isp_baseline_count st then False
      else
        let i = unat (ref_slot r) - isp_baseline_count st - 1
        in i < length (isp_records st) \<and> i < length (isp_kinds st) \<and> isp_kinds st ! i = ref_kind r)"

text \<open>The Boolean result with its output parameter is an option.\<close>

definition isp_record :: "identity_space \<Rightarrow> identity_ref \<Rightarrow> identity_record option" where
  "isp_record st r =
     (if \<not> isp_contains st r then None
      else if ref_slot r = 1 then Some empty_identity_record
      else if isp_baseline st \<noteq> None \<and> unat (ref_slot r) \<le> isp_baseline_count st
      then
        let parent = identity_parent (the (isp_baseline st)) r; name = identity_name (the (isp_baseline st)) r
        in if \<not> ref_valid parent \<or> name = 0 then None else Some \<lparr>idr_parent = parent, idr_name = name\<rparr>
      else
        let i = unat (ref_slot r) - isp_baseline_count st - 1
        in if i \<ge> length (isp_records st) then None else Some (isp_records st ! i))"

definition isp_at_slot :: "identity_space \<Rightarrow> u32 \<Rightarrow> identity_ref" where
  "isp_at_slot st s =
     (if s = 0 then 0
      else if s = 1 then isp_root
      else if isp_baseline st \<noteq> None \<and> unat s \<le> isp_baseline_count st
      then identity_at_slot (the (isp_baseline st)) s
      else if unat s \<le> isp_baseline_count st then 0
      else
        let i = unat s - isp_baseline_count st - 1
        in if i \<ge> length (isp_records st) \<or> i \<ge> length (isp_kinds st) then 0
           else make_ref s (isp_kinds st ! i))"

definition same_key :: "identity_space \<Rightarrow> identity_ref \<Rightarrow> identity_ref \<Rightarrow> u32 \<Rightarrow> identity_kind \<Rightarrow> bool" where
  "same_key st r parent name kind =
     (if \<not> isp_contains st r \<or> ref_kind r \<noteq> kind \<or> unat (ref_slot r) \<le> isp_baseline_count st then False
      else case isp_record st r of
          None \<Rightarrow> False
        | Some value \<Rightarrow> idr_parent value = parent \<and> idr_name value = name)"

abbreviation ident_used :: "identity_slot \<Rightarrow> bool" where
  "ident_used s \<equiv> ref_valid (ids_identity s)"

definition find_key ::
    "identity_space \<Rightarrow> identity_ref \<Rightarrow> u32 \<Rightarrow> identity_kind \<Rightarrow> u64 \<Rightarrow> u32 \<Rightarrow> identity_ref" where
  "find_key st parent name kind hash expected =
     (if isp_index st = [] then 0
      else case slot_find ident_used
          (\<lambda>s. ids_fingerprint s = expected \<and> same_key st (ids_identity s) parent name kind)
          (isp_index st) (unat hash) of
        Some s \<Rightarrow> ids_identity s
      | None \<Rightarrow> 0)"

definition isp_find ::
    "string_table \<Rightarrow> identity_space \<Rightarrow> identity_ref \<Rightarrow> u32 \<Rightarrow> identity_kind \<Rightarrow> identity_ref" where
  "isp_find strings st parent name kind =
     (if \<not> isp_contains st parent \<or> \<not> str_contains strings name \<or> kind = kind_root then 0
      else
        let hash = hash_key parent name kind;
            found = find_key st parent name kind hash (fingerprint hash)
        in if ref_valid found then found
           else case isp_baseline st of Some v \<Rightarrow> find_identity v parent name kind | None \<Rightarrow> 0)"

definition isp_insert_index ::
    "identity_slot list \<Rightarrow> identity_ref \<Rightarrow> u64 \<Rightarrow> u32 \<Rightarrow> identity_slot list option" where
  "isp_insert_index target r hash fp =
     slot_insert ident_used target (unat hash) \<lparr>ids_fingerprint = fp, ids_identity = r\<rparr>"

fun isp_reindex :: "identity_space \<Rightarrow> identity_slot list \<Rightarrow> nat list \<Rightarrow> identity_slot list option" where
  "isp_reindex st candidate [] = Some candidate"
| "isp_reindex st candidate (i # rest) =
     (let r = isp_at_slot st (of_nat (isp_baseline_count st + i + 1));
          value = isp_records st ! i;
          hash = hash_key (idr_parent value) (idr_name value) (ref_kind r)
      in Option.bind (isp_insert_index candidate r hash (fingerprint hash))
           (\<lambda>candidate'. isp_reindex st candidate' rest))"

definition isp_ensure_index_capacity ::
    "nat \<Rightarrow> bool \<Rightarrow> identity_space \<Rightarrow> (server_status \<times> identity_space) option" where
  "isp_ensure_index_capacity additional alloc st =
     (if additional > size_max - length (isp_records st) then Some (io_error, st)
      else
        let required = length (isp_records st) + additional
        in if isp_index st \<noteq> [] \<and> required \<le> length (isp_index st) div 2 then Some (success, st)
           else case next_index_capacity required of
               None \<Rightarrow> None
             | Some capacity \<Rightarrow>
                 if capacity = 0 then Some (io_error, st)
                 else if \<not> alloc then Some (io_error, st)
                 else map_option (\<lambda>candidate. (success, st\<lparr>isp_index := candidate\<rparr>))
                        (isp_reindex st (replicate capacity blank_identity_slot) [0..<length (isp_records st)]))"

text \<open>
  \<open>alloc_index\<close>: the candidate index could be allocated; \<open>alloc_store\<close>: the record and kind
  vectors could grow. When they cannot, the code restores both.
\<close>

definition isp_resolve ::
    "string_table \<Rightarrow> identity_space \<Rightarrow> identity_ref \<Rightarrow> u32 \<Rightarrow> identity_kind \<Rightarrow> bool \<Rightarrow> bool \<Rightarrow>
       (server_status \<times> identity_ref \<times> identity_space) option" where
  "isp_resolve strings st parent name kind alloc_index alloc_store =
     (if \<not> isp_contains st parent \<or> \<not> str_contains strings name \<or> kind = kind_root
      then Some (project_configuration_invalid, 0, st)
      else
        let hash = hash_key parent name kind; fp = fingerprint hash;
            existing = find_key st parent name kind hash fp;
            persisted = (case isp_baseline st of Some v \<Rightarrow> find_identity v parent name kind | None \<Rightarrow> 0)
        in if ref_valid existing then Some (success, existing, st)
           else if isp_baseline st \<noteq> None \<and> ref_valid persisted then Some (success, persisted, st)
           else case isp_ensure_index_capacity 1 alloc_index st of
               None \<Rightarrow> None
             | Some (prepared, st1) \<Rightarrow>
                 if \<not> succeeded prepared then Some (prepared, 0, st1)
                 else if isp_size st1 \<ge> maximum_slot then Some (io_error, 0, st1)
                 else
                   let r = make_ref (of_nat (isp_size st1 + 1)) kind
                   in if \<not> ref_valid r then Some (io_error, 0, st1)
                      else if \<not> alloc_store then Some (io_error, 0, st1)
                      else
                        let st2 = st1\<lparr>isp_records := isp_records st1 @ [\<lparr>idr_parent = parent, idr_name = name\<rparr>],
                                      isp_kinds := isp_kinds st1 @ [kind]\<rparr>
                        in map_option (\<lambda>target. (success, r, st2\<lparr>isp_index := target\<rparr>))
                             (isp_insert_index (isp_index st2) r hash fp))"

section \<open>Abstraction and invariant\<close>

type_synonym identity_key = "identity_ref \<times> u32 \<times> identity_kind"

definition isp_key :: "identity_space \<Rightarrow> identity_ref \<Rightarrow> identity_key option" where
  "isp_key st r =
     (if ref_slot r = 1 then None
      else map_option (\<lambda>value. (idr_parent value, idr_name value, ref_kind r)) (isp_record st r))"

definition local_ref :: "identity_space \<Rightarrow> nat \<Rightarrow> identity_ref" where
  "local_ref st i = make_ref (of_nat (isp_baseline_count st + i + 1)) (isp_kinds st ! i)"

definition local_key :: "identity_space \<Rightarrow> nat \<Rightarrow> identity_key" where
  "local_key st i = (idr_parent (isp_records st ! i), idr_name (isp_records st ! i), isp_kinds st ! i)"

fun key_hash :: "identity_key \<Rightarrow> u64" where
  "key_hash (parent, name, kind) = hash_key parent name kind"

definition isp_home :: "identity_space \<Rightarrow> identity_slot \<Rightarrow> nat" where
  "isp_home st s = unat (key_hash (local_key st (unat (ref_slot (ids_identity s)) - isp_baseline_count st - 1)))"

definition islot_of :: "identity_space \<Rightarrow> nat \<Rightarrow> identity_slot" where
  "islot_of st i = \<lparr>ids_fingerprint = fingerprint (key_hash (local_key st i)), ids_identity = local_ref st i\<rparr>"

fun persisted_find :: "identity_space \<Rightarrow> identity_key \<Rightarrow> identity_ref" where
  "persisted_find st (parent, name, kind) =
     (case isp_baseline st of Some v \<Rightarrow> find_identity v parent name kind | None \<Rightarrow> 0)"

definition isp_baseline_ok :: "string_table \<Rightarrow> identity_space \<Rightarrow> bool" where
  "isp_baseline_ok strings st \<longleftrightarrow>
     (case isp_baseline st of
        None \<Rightarrow> isp_baseline_count st = 1
      | Some v \<Rightarrow> view_identities_ok v \<and> isp_baseline_count st = identity_count_value v \<and>
                  str_baseline strings = Some v)"

definition isp_records_ok :: "string_table \<Rightarrow> identity_space \<Rightarrow> bool" where
  "isp_records_ok strings st \<longleftrightarrow>
     1 \<le> isp_baseline_count st \<and> isp_size st \<le> maximum_slot \<and>
     length (isp_kinds st) = length (isp_records st) \<and>
     (\<forall>i<length (isp_records st).
        isp_contains st (idr_parent (isp_records st ! i)) \<and>
        unat (ref_slot (idr_parent (isp_records st ! i))) \<le> isp_baseline_count st + i \<and>
        str_contains strings (idr_name (isp_records st ! i)) \<and> isp_kinds st ! i \<noteq> kind_root)"

definition isp_keys_ok :: "identity_space \<Rightarrow> bool" where
  "isp_keys_ok st \<longleftrightarrow>
     distinct (map (local_key st) [0..<length (isp_records st)]) \<and>
     (\<forall>i<length (isp_records st). \<not> ref_valid (persisted_find st (local_key st i)))"

definition isp_index_ok :: "identity_space \<Rightarrow> bool" where
  "isp_index_ok st \<longleftrightarrow>
     (if isp_index st = [] then isp_records st = []
      else table_ok ident_used (isp_home st) (isp_index st) \<and>
           2 * length (isp_records st) \<le> length (isp_index st) \<and>
           mset (filter ident_used (isp_index st)) = mset (map (islot_of st) [0..<length (isp_records st)]))"

definition isp_ok :: "string_table \<Rightarrow> identity_space \<Rightarrow> bool" where
  "isp_ok strings st \<longleftrightarrow>
     isp_baseline_ok strings st \<and> isp_records_ok strings st \<and> isp_keys_ok st \<and> isp_index_ok st"

interpretation identity_slots: slot_table ident_used "isp_home st" blank_identity_slot for st
  by unfold_locales (simp add: blank_identity_slot_def)

section \<open>Local identities\<close>

lemma hash_key_identity_hash: "hash_key parent name kind = identity_hash parent name (kind_value kind)"
  by (cases kind) (simp_all add: hash_key_def identity_hash_def)

lemma fingerprint_identity_fingerprint: "fingerprint = identity_fingerprint"
  by (simp add: fun_eq_iff fingerprint_def identity_fingerprint_def)

lemma small_slot:
  assumes "n + 1 \<le> maximum_slot"
  shows "(of_nat (n + 1) :: u32) \<noteq> 0" "unat (of_nat (n + 1) :: u32) = n + 1"
proof -
  have le: "n + 1 \<le> uint32_max" using assms by (simp add: maximum_slot_eq)
  show "(of_nat (n + 1) :: u32) \<noteq> 0" "unat (of_nat (n + 1) :: u32) = n + 1"
    using of_nat_u32_zero [OF le] unat_of_nat_u32 [OF le] by simp_all
qed

lemma local_ref_parts:
  assumes "isp_records_ok strings st" "i < length (isp_records st)"
  shows "ref_slot (local_ref st i) = of_nat (isp_baseline_count st + i + 1)"
    "unat (ref_slot (local_ref st i)) = isp_baseline_count st + i + 1"
    "ref_kind (local_ref st i) = isp_kinds st ! i" "ref_valid (local_ref st i)"
    "ref_slot (local_ref st i) \<noteq> 1"
proof -
  let ?n = "isp_baseline_count st + i"
  have small: "?n + 1 \<le> maximum_slot" and pos: "0 < ?n" using assms by (auto simp: isp_records_ok_def isp_size_def)
  note s = small_slot [OF small]
  have le: "unat (of_nat (?n + 1) :: u32) \<le> maximum_slot" using s(2) small by simp
  show slot: "ref_slot (local_ref st i) = of_nat (?n + 1)"
    unfolding local_ref_def by (rule make_ref_slot [OF s(1) le])
  then show unat: "unat (ref_slot (local_ref st i)) = ?n + 1" using s(2) by simp
  show "ref_kind (local_ref st i) = isp_kinds st ! i" "ref_valid (local_ref st i)"
    unfolding local_ref_def by (rule make_ref_kind [OF s(1) le], rule make_ref_valid [OF s(1) le])
  show "ref_slot (local_ref st i) \<noteq> 1"
    using unat pos by (metis One_nat_def add.commute add_left_cancel less_numeral_extra(3) plus_1_eq_Suc unat_1 add_0_right)
qed

lemma local_ref_record:
  assumes "isp_records_ok strings st" "i < length (isp_records st)"
  shows "isp_contains st (local_ref st i)" "isp_record st (local_ref st i) = Some (isp_records st ! i)"
    "isp_key st (local_ref st i) = Some (local_key st i)"
proof -
  note parts = local_ref_parts [OF assms]
  have len: "length (isp_kinds st) = length (isp_records st)" using assms(1) by (simp add: isp_records_ok_def)
  have i: "unat (ref_slot (local_ref st i)) - isp_baseline_count st - 1 = i" using parts(2) by simp
  have above: "\<not> unat (ref_slot (local_ref st i)) \<le> isp_baseline_count st" using parts(2) by simp
  show c: "isp_contains st (local_ref st i)"
    unfolding isp_contains_def Let_def i using parts above assms(2) len by simp
  show r: "isp_record st (local_ref st i) = Some (isp_records st ! i)"
    unfolding isp_record_def Let_def i using c parts(5) above assms(2) by simp
  show "isp_key st (local_ref st i) = Some (local_key st i)"
    unfolding isp_key_def r local_key_def using parts(3,5) by simp
qed

lemma local_ref_cases:
  assumes ok: "isp_records_ok strings st" and r: "isp_contains st r" "isp_baseline_count st < unat (ref_slot r)"
  obtains i where "i < length (isp_records st)" "r = local_ref st i"
proof -
  let ?i = "unat (ref_slot r) - isp_baseline_count st - 1"
  have "1 < unat (ref_slot r)" using ok r(2) by (simp add: isp_records_ok_def)
  then have "ref_slot r \<noteq> 1" by auto
  then have i: "?i < length (isp_records st)" "isp_kinds st ! ?i = ref_kind r"
    using r by (auto simp: isp_contains_def Let_def split: if_splits)
  have "isp_baseline_count st + ?i + 1 = unat (ref_slot r)" using r(2) by simp
  then have "unat (ref_slot r) = unat (ref_slot (local_ref st ?i))"
    using local_ref_parts(2) [OF ok i(1)] by (simp only:)
  then have "ref_slot r = ref_slot (local_ref st ?i)" by (simp only: word_unat_eq_iff)
  moreover have "ref_kind r = ref_kind (local_ref st ?i)" using local_ref_parts(3) [OF ok i(1)] i(2) by (simp only:)
  ultimately show thesis using that [OF i(1)] ref_eqI by blast
qed

lemma local_ref_inj:
  assumes "isp_records_ok strings st" "i < length (isp_records st)" "j < length (isp_records st)"
    "local_ref st i = local_ref st j"
  shows "i = j"
proof -
  have "isp_baseline_count st + i + 1 = isp_baseline_count st + j + 1"
    using local_ref_parts(2) [OF assms(1,2)] local_ref_parts(2) [OF assms(1,3)] assms(4) by (simp only:)
  then show ?thesis by simp
qed

lemma isp_home_slot:
  assumes "isp_records_ok strings st" "i < length (isp_records st)"
  shows "isp_home st (islot_of st i) = unat (key_hash (local_key st i))"
  using local_ref_parts(2) [OF assms] by (simp add: isp_home_def islot_of_def)

lemma same_key_local:
  assumes ok: "isp_records_ok strings st" and i: "i < length (isp_records st)"
  shows "same_key st (local_ref st i) parent name kind \<longleftrightarrow> local_key st i = (parent, name, kind)"
  using local_ref_parts [OF ok i] local_ref_record [OF ok i] by (auto simp: same_key_def local_key_def)

lemma isp_at_slot_local:
  assumes ok: "isp_records_ok strings st" and i: "i < length (isp_records st)"
  shows "isp_at_slot st (of_nat (isp_baseline_count st + i + 1)) = local_ref st i"
proof -
  note parts = local_ref_parts [OF ok i, unfolded local_ref_parts(1) [OF ok i]]
  have small: "isp_baseline_count st + i + 1 \<le> maximum_slot" using ok i by (simp add: isp_records_ok_def isp_size_def)
  note s = small_slot [OF small]
  show ?thesis
    unfolding isp_at_slot_def Let_def s(2)
    using s(1) parts(5) ok i by (simp add: isp_records_ok_def local_ref_def del: of_nat_add)
qed

section \<open>The index\<close>

lemma isp_reindex_insert_all:
  assumes ok: "isp_records_ok strings st"
  shows "\<forall>i\<in>set is. i < length (isp_records st) \<Longrightarrow>
    isp_reindex st candidate is = slot_insert_all ident_used (isp_home st) candidate (map (islot_of st) is)"
proof (induction "is" arbitrary: candidate)
  case (Cons i "is")
  have i: "i < length (isp_records st)" using Cons.prems by simp
  have "isp_reindex st candidate (i # is) =
      Option.bind (slot_insert ident_used candidate (unat (key_hash (local_key st i))) (islot_of st i))
        (\<lambda>c. isp_reindex st c is)"
    unfolding isp_reindex.simps isp_at_slot_local [OF ok i] Let_def isp_insert_index_def
      local_ref_parts(3) [OF ok i] by (simp add: islot_of_def local_key_def)
  then show ?case using Cons by (simp add: isp_home_slot [OF ok i])
qed simp

lemma islot_used: "isp_records_ok strings st \<Longrightarrow> i < length (isp_records st) \<Longrightarrow> ident_used (islot_of st i)"
  by (simp add: islot_of_def local_ref_parts)

lemma isp_index_cases:
  assumes "isp_index_ok st" "isp_index st \<noteq> []" "t \<in> set (isp_index st)" "ident_used t"
  obtains j where "j < length (isp_records st)" "t = islot_of st j"
proof -
  have "set (filter ident_used (isp_index st)) = set (map (islot_of st) [0..<length (isp_records st)])"
    using assms(1,2) by (intro mset_eq_setD) (simp add: isp_index_ok_def)
  moreover have "t \<in> set (filter ident_used (isp_index st))" using assms(3,4) by simp
  ultimately show thesis using that by auto
qed

lemma isp_distinct_index:
  assumes "isp_index_ok st" "isp_records_ok strings st" "isp_index st \<noteq> []"
  shows "distinct (filter ident_used (isp_index st))"
proof -
  have "inj_on (islot_of st) {0..<length (isp_records st)}"
    using local_ref_inj [OF assms(2)] by (auto simp: inj_on_def islot_of_def)
  moreover have "mset (filter ident_used (isp_index st)) = mset (map (islot_of st) [0..<length (isp_records st)])"
    using assms by (simp add: isp_index_ok_def)
  ultimately show ?thesis by (metis distinct_map distinct_upt mset_eq_imp_distinct_iff set_upt)
qed

lemma find_key_local:
  assumes ok: "isp_ok strings st" and i: "i < length (isp_records st)" "local_key st i = (parent, name, kind)"
  shows "find_key st parent name kind (hash_key parent name kind) (fingerprint (hash_key parent name kind)) =
    local_ref st i"
proof -
  have parts: "isp_records_ok strings st" "isp_keys_ok st" "isp_index_ok st" using ok by (simp_all add: isp_ok_def)
  let ?hash = "hash_key parent name kind"
  have ne: "isp_index st \<noteq> []" using parts(3) i(1) by (auto simp: isp_index_ok_def)
  have hash: "key_hash (local_key st i) = ?hash" using i(2) by simp
  have "slot_find ident_used (\<lambda>s. ids_fingerprint s = fingerprint ?hash \<and> same_key st (ids_identity s) parent name kind)
      (isp_index st) (unat ?hash) = Some (islot_of st i)"
  proof (rule identity_slots.find_hit [where st = st])
    have "set (filter ident_used (isp_index st)) = set (map (islot_of st) [0..<length (isp_records st)])"
      using parts(3) ne by (intro mset_eq_setD) (simp add: isp_index_ok_def)
    then show "islot_of st i \<in> set (isp_index st)" using i(1) by auto
    show "distinct (filter ident_used (isp_index st))" by (rule isp_distinct_index [OF parts(3,1) ne])
    show "isp_home st (islot_of st i) = unat ?hash" using isp_home_slot [OF parts(1) i(1)] hash by simp
    show "t = islot_of st i"
      if t: "t \<in> set (isp_index st)" "ident_used t"
        "ids_fingerprint t = fingerprint ?hash \<and> same_key st (ids_identity t) parent name kind" for t
    proof -
      obtain j where j: "j < length (isp_records st)" "t = islot_of st j"
        by (rule isp_index_cases [OF parts(3) ne t(1,2)])
      then have "local_key st j = local_key st i"
        using t(3) same_key_local [OF parts(1) j(1)] i(2) by (simp add: islot_of_def)
      then have "j = i" using parts(2) i(1) j(1) by (auto simp: isp_keys_ok_def distinct_conv_nth)
      then show ?thesis using j by simp
    qed
  qed (use parts ne i hash islot_used [OF parts(1) i(1)] same_key_local [OF parts(1) i(1)] in
      \<open>auto simp: isp_index_ok_def islot_of_def\<close>)
  then show ?thesis using ne by (simp add: find_key_def islot_of_def)
qed

lemma find_key_absent:
  assumes ok: "isp_ok strings st" and none: "\<And>i. i < length (isp_records st) \<Longrightarrow> local_key st i \<noteq> (parent, name, kind)"
  shows "find_key st parent name kind hash fp = 0"
proof (cases "isp_index st = []")
  case False
  have parts: "isp_records_ok strings st" "isp_index_ok st" using ok by (simp_all add: isp_ok_def)
  have "slot_find ident_used (\<lambda>s. ids_fingerprint s = fp \<and> same_key st (ids_identity s) parent name kind)
      (isp_index st) (unat hash) = None"
  proof (rule identity_slots.find_miss)
    show "\<exists>k. length (isp_index st) = 2 ^ k" using parts(2) False by (auto simp: isp_index_ok_def table_ok_def)
    fix t assume t: "t \<in> set (isp_index st)" "ident_used t"
    obtain j where j: "j < length (isp_records st)" "t = islot_of st j"
      by (rule isp_index_cases [OF parts(2) False t])
    show "\<not> (ids_fingerprint t = fp \<and> same_key st (ids_identity t) parent name kind)"
      using same_key_local [OF parts(1) j(1)] none [OF j(1)] j(2) by (simp add: islot_of_def)
  qed
  then show ?thesis using False by (simp add: find_key_def)
qed (simp add: find_key_def)

section \<open>Keys of all identities\<close>

lemma ref_one: "ref_slot 1 = 1" "ref_kind 1 = kind_root" "ref_valid 1"
  by (simp_all add: ref_slot_def slot_mask_def ref_kind_def kind_shift_def kind_of_value_def ref_valid_def)

lemma isp_root_one: "isp_root = 1"
  by (simp add: isp_root_def make_ref_def kind_shift_def maximum_slot_eq)

lemma view_root_slot:
  assumes "view_identities_ok v" "identity_valid v r" "ref_slot r = 1"
  shows "r = 1"
proof -
  have "identity_valid v 1" using assms(1) by (simp add: view_identities_ok_def identity_root_def identity_valid_def ref_one)
  then show ?thesis using identity_valid_slot [of v r] identity_valid_slot [of v 1] assms(2,3) ref_one(1) by simp
qed

lemma view_identity:
  assumes ok: "view_identities_ok v" and r: "identity_valid v r" "ref_slot r \<noteq> 1"
  shows "identity_valid v (identity_parent v r)" "unat (ref_slot (identity_parent v r)) < unat (ref_slot r)"
    "identity_name v r \<in> view_ids v" "ref_kind r \<noteq> kind_root"
    "find_identity v (identity_parent v r) (identity_name v r) (ref_kind r) = r"
    "identity_name v r \<noteq> 0" "ref_valid (identity_parent v r)"
proof -
  let ?i = "unat (ref_slot r)"
  have "ref_slot r \<noteq> 0" using r(1) by (simp add: identity_valid_raw ref_valid_def)
  then have "?i \<noteq> 0" "?i \<noteq> 1" using r(2) word_unat_eq_iff [of "ref_slot r" 1] by (auto simp: unat_eq_0)
  then have i: "?i \<in> {2..identity_count_value v}" "identity_at_slot v (of_nat ?i) = r"
    using identity_valid_slot [OF r(1)] by auto
  have all: "ref_kind r \<noteq> kind_root" "ref_valid (identity_parent v r)"
    "unat (ref_slot (identity_parent v r)) < ?i" "identity_name v r \<noteq> 0"
    "find_identity v (identity_parent v r) (identity_name v r) (ref_kind r) = r"
    using ok i unfolding view_identities_ok_def Let_def by metis+
  then show "identity_valid v (identity_parent v r)" "identity_name v r \<in> view_ids v"
    "unat (ref_slot (identity_parent v r)) < unat (ref_slot r)" "ref_kind r \<noteq> kind_root"
    "find_identity v (identity_parent v r) (identity_name v r) (ref_kind r) = r"
    "identity_name v r \<noteq> 0" "ref_valid (identity_parent v r)"
    using identity_parent_valid identity_name_string by blast+
qed

lemma isp_contains_persisted:
  assumes "isp_baseline_ok strings st" "isp_baseline st = Some v" "identity_valid v r"
  shows "isp_contains st r"
proof -
  have v: "view_identities_ok v" "isp_baseline_count st = identity_count_value v"
    using assms(1,2) by (simp_all add: isp_baseline_ok_def)
  have "ref_valid r" "unat (ref_slot r) \<le> identity_count_value v"
    using assms(3) identity_valid_slot by (auto simp: identity_valid_raw)
  then show ?thesis
    using assms(2,3) v view_root_slot [OF v(1) assms(3)] ref_one by (auto simp: isp_contains_def)
qed

lemma isp_key_persisted:
  assumes "isp_baseline_ok strings st" "isp_baseline st = Some v" "identity_valid v r" "ref_slot r \<noteq> 1"
  shows "isp_key st r = Some (identity_parent v r, identity_name v r, ref_kind r)"
proof -
  have v: "view_identities_ok v" "isp_baseline_count st = identity_count_value v"
    using assms(1,2) by (simp_all add: isp_baseline_ok_def)
  show ?thesis
    using isp_contains_persisted [OF assms(1-3)] view_identity(6,7) [OF v(1) assms(3,4)]
      identity_valid_slot [OF assms(3)] assms(2,4) v(2)
    by (simp add: isp_key_def isp_record_def Let_def)
qed

text \<open>Every identity other than the root is a local one or one of the image.\<close>

lemma isp_key_cases:
  assumes ok: "isp_baseline_ok strings st" "isp_records_ok strings st" and key: "isp_key st r = Some key"
  obtains (own) i where "i < length (isp_records st)" "r = local_ref st i" "key = local_key st i"
  | (persisted) v where "isp_baseline st = Some v" "identity_valid v r" "ref_slot r \<noteq> 1"
      "key = (identity_parent v r, identity_name v r, ref_kind r)"
proof -
  have r: "isp_contains st r" "ref_slot r \<noteq> 1"
    using key by (auto simp: isp_key_def isp_record_def split: if_splits)
  show thesis
  proof (cases "unat (ref_slot r) \<le> isp_baseline_count st")
    case True
    then obtain v where v: "isp_baseline st = Some v" "identity_valid v r"
      using r by (auto simp: isp_contains_def split: if_splits)
    then show thesis using persisted [OF v r(2)] isp_key_persisted [OF ok(1) v r(2)] key by simp
  next
    case False
    then obtain i where "i < length (isp_records st)" "r = local_ref st i"
      using local_ref_cases [OF ok(2) r(1)] by auto
    then show thesis using own local_ref_record(3) [OF ok(2)] key by simp
  qed
qed

text \<open>The two look-ups of \<open>resolve\<close> and \<open>find\<close>: the local index, then the image.\<close>

definition lookup_key :: "identity_space \<Rightarrow> identity_key \<Rightarrow> identity_ref" where
  "lookup_key st key =
     (case key of (parent, name, kind) \<Rightarrow>
        let hash = hash_key parent name kind; found = find_key st parent name kind hash (fingerprint hash)
        in if ref_valid found then found else persisted_find st key)"

lemma lookup_key_hit:
  assumes ok: "isp_ok strings st" and key: "isp_key st r = Some key"
  shows "lookup_key st key = r" "ref_valid r"
proof -
  obtain parent name kind where k: "key = (parent, name, kind)" by (cases key) auto
  have parts: "isp_baseline_ok strings st" "isp_records_ok strings st" "isp_keys_ok st" using ok by (simp_all add: isp_ok_def)
  from parts(1,2) key have "lookup_key st key = r \<and> ref_valid r"
  proof (cases rule: isp_key_cases)
    case (own i)
    have "find_key st parent name kind (hash_key parent name kind) (fingerprint (hash_key parent name kind)) = r"
      using find_key_local [OF ok own(1)] own k by simp
    moreover have "ref_valid r" using local_ref_parts(4) [OF parts(2) own(1)] own(2) by simp
    ultimately show ?thesis by (simp add: lookup_key_def k Let_def)
  next
    case (persisted v)
    have v: "view_identities_ok v" using parts(1) persisted(1) by (simp add: isp_baseline_ok_def)
    have valid: "ref_valid r" using persisted(2) by (simp add: identity_valid_raw)
    have found: "persisted_find st key = r"
      using view_identity(5) [OF v persisted(2,3)] persisted(1,4) by simp
    then have "local_key st i \<noteq> (parent, name, kind)" if "i < length (isp_records st)" for i
      using parts(3) that valid k unfolding isp_keys_ok_def by metis
    then have "find_key st parent name kind hash fp = 0" for hash fp
      by (rule find_key_absent [OF ok])
    then show ?thesis using found valid by (simp add: lookup_key_def k Let_def)
  qed
  then show "lookup_key st key = r" "ref_valid r" by blast+
qed

lemma lookup_key_sound:
  assumes ok: "isp_ok strings st" and found: "ref_valid (lookup_key st key)"
  shows "isp_key st (lookup_key st key) = Some key"
proof -
  obtain parent name kind where k: "key = (parent, name, kind)" by (cases key) auto
  have parts: "isp_baseline_ok strings st" "isp_records_ok strings st" using ok by (simp_all add: isp_ok_def)
  show ?thesis
  proof (cases "\<exists>i<length (isp_records st). local_key st i = key")
    case True
    then obtain i where i: "i < length (isp_records st)" "local_key st i = key" by blast
    have "lookup_key st key = local_ref st i"
      using lookup_key_hit(1) [OF ok] local_ref_record(3) [OF parts(2) i(1)] i(2) by simp
    then show ?thesis using local_ref_record(3) [OF parts(2) i(1)] i(2) by simp
  next
    case False
    then have "find_key st parent name kind hash fp = 0" for hash fp
      using k by (intro find_key_absent [OF ok]) auto
    then have r: "lookup_key st key = persisted_find st key" by (simp add: lookup_key_def k Let_def)
    then obtain v where v: "isp_baseline st = Some v" "lookup_key st key = find_identity v parent name kind"
      using found k by (auto split: option.splits)
    let ?r = "find_identity v parent name kind"
    have s: "identity_valid v ?r" "ref_kind ?r = kind" "identity_parent v ?r = parent" "identity_name v ?r = name"
      using find_identity_sound [OF refl ref_valid_nonzero] found v(2) by simp_all
    have "ref_slot ?r \<noteq> 1"
    proof
      assume "ref_slot ?r = 1"
      moreover have "view_identities_ok v" using parts(1) v(1) by (simp add: isp_baseline_ok_def)
      ultimately have "?r = 1" using view_root_slot s(1) by blast
      then have "kind = kind_root" using s(2) ref_one by simp
      then show False using \<open>?r = 1\<close> by (simp add: find_identity_def)
    qed
    then show ?thesis using isp_key_persisted [OF parts(1) v(1) s(1)] s v(2) k by simp
  qed
qed

lemma lookup_key_miss:
  assumes "isp_ok strings st" "\<And>r. isp_key st r \<noteq> Some key"
  shows "\<not> ref_valid (lookup_key st key)"
  using lookup_key_sound [OF assms(1)] assms(2) by blast

lemma isp_find_lookup:
  "isp_find strings st parent name kind =
     (if \<not> isp_contains st parent \<or> \<not> str_contains strings name \<or> kind = kind_root then 0
      else lookup_key st (parent, name, kind))"
  by (simp add: isp_find_def lookup_key_def Let_def)

lemma str_contains_persisted:
  assumes "string_table_ok strings" "str_baseline strings = Some v" "name \<in> view_ids v"
  shows "str_contains strings name"
  using assms by (auto simp: str_contains_def string_table_ok_def baseline_ok_def view_strings_ok_def view_ids_def)

lemma isp_key_parts:
  assumes ok: "isp_ok strings st" and strings: "string_table_ok strings"
    and key: "isp_key st r = Some (parent, name, kind)"
  shows "isp_contains st parent" "str_contains strings name" "kind \<noteq> kind_root"
    "unat (ref_slot parent) < unat (ref_slot r)"
proof -
  have parts: "isp_baseline_ok strings st" "isp_records_ok strings st" using ok by (simp_all add: isp_ok_def)
  from parts key have "isp_contains st parent \<and> str_contains strings name \<and> kind \<noteq> kind_root \<and>
    unat (ref_slot parent) < unat (ref_slot r)"
  proof (cases rule: isp_key_cases)
    case (own i)
    then have "unat (ref_slot parent) \<le> isp_baseline_count st + i"
      "unat (ref_slot r) = isp_baseline_count st + i + 1"
      using parts(2) local_ref_parts(2) [OF parts(2) own(1)] by (auto simp: isp_records_ok_def local_key_def)
    then show ?thesis using own parts(2) by (auto simp: isp_records_ok_def local_key_def)
  next
    case (persisted v)
    have v: "view_identities_ok v" "str_baseline strings = Some v"
      using parts(1) persisted(1) by (simp_all add: isp_baseline_ok_def)
    note facts = view_identity [OF v(1) persisted(2,3)]
    show ?thesis
      using persisted facts isp_contains_persisted [OF parts(1) persisted(1)]
        str_contains_persisted [OF strings v(2)] by simp
  qed
  then show "isp_contains st parent" "str_contains strings name" "kind \<noteq> kind_root"
    "unat (ref_slot parent) < unat (ref_slot r)" by blast+
qed

lemma isp_key_find:
  assumes ok: "isp_ok strings st" "string_table_ok strings" and key: "isp_key st r = Some (parent, name, kind)"
  shows "isp_find strings st parent name kind = r"
  using lookup_key_hit(1) [OF ok(1) key] isp_key_parts [OF ok key] by (simp add: isp_find_lookup)

section \<open>Resolving\<close>

lemma table_ok_cong:
  assumes "\<And>s. s \<in> set t \<Longrightarrow> occupied s \<Longrightarrow> home s = home' s"
  shows "table_ok occupied home t = table_ok occupied home' t"
  unfolding table_ok_def
  by (intro conj_cong refl probe_ok_cong) (auto simp: assms)

lemma isp_index_update_simps [simp]:
  "isp_contains (st\<lparr>isp_index := t\<rparr>) = isp_contains st"
  "isp_record (st\<lparr>isp_index := t\<rparr>) = isp_record st"
  "isp_key (st\<lparr>isp_index := t\<rparr>) = isp_key st"
  "local_key (st\<lparr>isp_index := t\<rparr>) = local_key st"
  "local_ref (st\<lparr>isp_index := t\<rparr>) = local_ref st"
  "islot_of (st\<lparr>isp_index := t\<rparr>) = islot_of st"
  "isp_home (st\<lparr>isp_index := t\<rparr>) = isp_home st"
  "isp_baseline_ok strings (st\<lparr>isp_index := t\<rparr>) = isp_baseline_ok strings st"
  "isp_records_ok strings (st\<lparr>isp_index := t\<rparr>) = isp_records_ok strings st"
  "isp_keys_ok (st\<lparr>isp_index := t\<rparr>) = isp_keys_ok st"
  "isp_size (st\<lparr>isp_index := t\<rparr>) = isp_size st"
proof -
  show c: "isp_contains (st\<lparr>isp_index := t\<rparr>) = isp_contains st"
    by (simp add: fun_eq_iff isp_contains_def)
  show r: "isp_record (st\<lparr>isp_index := t\<rparr>) = isp_record st"
    by (simp add: fun_eq_iff isp_record_def c Let_def)
  show "isp_key (st\<lparr>isp_index := t\<rparr>) = isp_key st" by (simp add: fun_eq_iff isp_key_def r)
  show k: "local_key (st\<lparr>isp_index := t\<rparr>) = local_key st" by (simp add: fun_eq_iff local_key_def)
  show l: "local_ref (st\<lparr>isp_index := t\<rparr>) = local_ref st" by (simp add: fun_eq_iff local_ref_def)
  show "islot_of (st\<lparr>isp_index := t\<rparr>) = islot_of st" by (simp add: fun_eq_iff islot_of_def k l)
  show "isp_home (st\<lparr>isp_index := t\<rparr>) = isp_home st" by (simp add: fun_eq_iff isp_home_def k)
  show "isp_baseline_ok strings (st\<lparr>isp_index := t\<rparr>) = isp_baseline_ok strings st"
    by (simp add: isp_baseline_ok_def split: option.splits)
  show "isp_records_ok strings (st\<lparr>isp_index := t\<rparr>) = isp_records_ok strings st"
    by (simp add: isp_records_ok_def isp_size_def c)
  have "persisted_find (st\<lparr>isp_index := t\<rparr>) key = persisted_find st key" for key by (cases key) simp
  then show "isp_keys_ok (st\<lparr>isp_index := t\<rparr>) = isp_keys_ok st" by (simp add: isp_keys_ok_def k)
  show "isp_size (st\<lparr>isp_index := t\<rparr>) = isp_size st" by (simp add: isp_size_def)
qed

lemma isp_ensure_ok:
  assumes ok: "isp_ok strings st"
  obtains t where "isp_ensure_index_capacity 1 alloc st = Some (success, st\<lparr>isp_index := t\<rparr>)"
      "isp_ok strings (st\<lparr>isp_index := t\<rparr>)" "2 * Suc (length (isp_records st)) \<le> length t"
  | "\<not> alloc" "isp_ensure_index_capacity 1 alloc st = Some (io_error, st)"
proof -
  let ?n = "length (isp_records st)"
  have parts: "isp_baseline_ok strings st" "isp_records_ok strings st" "isp_keys_ok st" "isp_index_ok st"
    using ok by (simp_all add: isp_ok_def)
  have small: "?n \<le> 2 ^ 30" using parts(2) by (simp add: isp_records_ok_def isp_size_def maximum_slot_eq)
  show thesis
  proof (cases "isp_index st \<noteq> [] \<and> ?n + 1 \<le> length (isp_index st) div 2")
    case True
    then have "isp_ensure_index_capacity 1 alloc st = Some (success, st\<lparr>isp_index := isp_index st\<rparr>)"
      using small by (simp add: isp_ensure_index_capacity_def Let_def)
    moreover have "2 * Suc ?n \<le> length (isp_index st)" using True by auto
    ultimately show thesis using that(1) [of "isp_index st"] ok by simp
  next
    case False
    obtain k where k: "next_index_capacity (?n + 1) = Some (2 ^ k)" "(?n + 1) * 2 \<le> 2 ^ k"
      by (rule next_index_capacity_fits [of "?n + 1"]) (use small in auto)
    show thesis
    proof (cases alloc)
      case True
      have "\<exists>t. slot_insert_all ident_used (isp_home st) (replicate (2 ^ k) blank_identity_slot)
          (map (islot_of st) [0..<?n]) = Some t \<and> table_ok ident_used (isp_home st) t \<and>
          length t = length (replicate (2 ^ k) blank_identity_slot) \<and>
          mset (filter ident_used t) = mset (filter ident_used (replicate (2 ^ k) blank_identity_slot)) +
            mset (map (islot_of st) [0..<?n])"
        by (rule identity_slots.insert_all_ok)
          (use k(2) islot_used [OF parts(2)] identity_slots.table_ok_blank identity_slots.blank_free in auto)
      then obtain t where t: "isp_reindex st (replicate (2 ^ k) blank_identity_slot) [0..<?n] = Some t"
        "table_ok ident_used (isp_home st) t" "length t = 2 ^ k"
        "mset (filter ident_used t) = mset (map (islot_of st) [0..<?n])"
        using identity_slots.blank_free by (auto simp: isp_reindex_insert_all [OF parts(2)])
      have "isp_index_ok (st\<lparr>isp_index := t\<rparr>)"
        using t k(2) by (auto simp: isp_index_ok_def)
      then have "isp_ok strings (st\<lparr>isp_index := t\<rparr>)" using parts by (simp add: isp_ok_def)
      moreover have "isp_ensure_index_capacity 1 alloc st = Some (success, st\<lparr>isp_index := t\<rparr>)"
        using False small k(1) t(1) True by (auto simp: isp_ensure_index_capacity_def Let_def)
      ultimately show thesis using that(1) [of t] t(3) k(2) by simp
    next
      case no: False
      then have "isp_ensure_index_capacity 1 alloc st = Some (io_error, st)"
        using False small k(1) by (auto simp: isp_ensure_index_capacity_def Let_def)
      then show thesis using that(2) no by simp
    qed
  qed
qed

definition append_identity :: "identity_space \<Rightarrow> identity_key \<Rightarrow> identity_space" where
  "append_identity st key =
     st\<lparr>isp_records := isp_records st @ [\<lparr>idr_parent = fst key, idr_name = fst (snd key)\<rparr>],
        isp_kinds := isp_kinds st @ [snd (snd key)]\<rparr>"

lemma append_identity_fields [simp]:
  "isp_baseline (append_identity st key) = isp_baseline st"
  "isp_baseline_count (append_identity st key) = isp_baseline_count st"
  "isp_index (append_identity st key) = isp_index st"
  "length (isp_records (append_identity st key)) = Suc (length (isp_records st))"
  "length (isp_kinds (append_identity st key)) = Suc (length (isp_kinds st))"
  by (simp_all add: append_identity_def)

lemma append_identity_old:
  assumes "isp_records_ok strings st" "i < length (isp_records st)"
  shows "local_key (append_identity st key) i = local_key st i"
    "local_ref (append_identity st key) i = local_ref st i"
    "isp_records (append_identity st key) ! i = isp_records st ! i"
    "isp_kinds (append_identity st key) ! i = isp_kinds st ! i"
  using assms by (auto simp: local_key_def local_ref_def append_identity_def isp_records_ok_def nth_append)

lemma append_identity_new:
  assumes "isp_records_ok strings st"
  shows "local_key (append_identity st key) (length (isp_records st)) = key"
    "local_ref (append_identity st key) (length (isp_records st)) =
       make_ref (of_nat (isp_size st + 1)) (snd (snd key))"
  using assms
  by (auto simp: local_key_def local_ref_def append_identity_def isp_records_ok_def isp_size_def nth_append)

lemma append_identity_contains:
  assumes "isp_contains st r"
  shows "isp_contains (append_identity st key) r"
  using assms
  by (auto simp: isp_contains_def append_identity_def Let_def nth_append split: if_splits)

lemma append_identity_persisted: "persisted_find (append_identity st key) k = persisted_find st k"
  by (cases k) simp

lemma isp_contains_slot:
  assumes "isp_records_ok strings st" "isp_contains st r"
  shows "unat (ref_slot r) \<le> isp_size st"
proof (cases "unat (ref_slot r) \<le> isp_baseline_count st")
  case False
  then obtain i where "i < length (isp_records st)" "r = local_ref st i"
    using local_ref_cases [OF assms] by auto
  then show ?thesis using local_ref_parts(2) [OF assms(1)] by (simp add: isp_size_def)
qed (simp add: isp_size_def)

lemma append_identity_ok:
  assumes ok: "isp_ok strings st" and size: "isp_size st < maximum_slot"
    and key: "isp_contains st (fst key)" "str_contains strings (fst (snd key))" "snd (snd key) \<noteq> kind_root"
    and new: "\<And>r. isp_key st r \<noteq> Some key"
  shows "isp_baseline_ok strings (append_identity st key)" "isp_records_ok strings (append_identity st key)"
    "isp_keys_ok (append_identity st key)"
proof -
  let ?st = "append_identity st key" and ?n = "length (isp_records st)"
  have parts: "isp_baseline_ok strings st" "isp_records_ok strings st" "isp_keys_ok st"
    using ok by (simp_all add: isp_ok_def)
  show "isp_baseline_ok strings ?st" using parts(1) by (simp add: isp_baseline_ok_def split: option.splits)
  have pslot: "unat (ref_slot (fst key)) \<le> isp_size st" by (rule isp_contains_slot [OF parts(2) key(1)])
  have each: "isp_contains ?st (idr_parent (isp_records ?st ! i)) \<and>
      unat (ref_slot (idr_parent (isp_records ?st ! i))) \<le> isp_baseline_count st + i \<and>
      str_contains strings (idr_name (isp_records ?st ! i)) \<and> isp_kinds ?st ! i \<noteq> kind_root" if "i < Suc ?n" for i
  proof (cases "i = ?n")
    case True
    then show ?thesis
      using key pslot append_identity_contains [OF key(1)] parts(2)
      by (simp add: append_identity_def isp_size_def isp_records_ok_def nth_append)
  next
    case False
    then have "i < ?n" using that by simp
    then show ?thesis
      using parts(2) append_identity_old [OF parts(2)] append_identity_contains
      by (simp add: isp_records_ok_def)
  qed
  show "isp_records_ok strings ?st"
    unfolding isp_records_ok_def using each parts(2) size by (simp add: isp_records_ok_def isp_size_def)
  have keys: "map (local_key ?st) [0..<Suc ?n] = map (local_key st) [0..<?n] @ [key]"
    using append_identity_old(1) [OF parts(2)] append_identity_new(1) [OF parts(2)] by simp
  have fresh: "local_key st i \<noteq> key" if "i < ?n" for i
    using local_ref_record(3) [OF parts(2) that] new by metis
  have "key \<notin> set (map (local_key st) [0..<?n])"
  proof
    assume "key \<in> set (map (local_key st) [0..<?n])"
    then obtain i where "i < ?n" "local_key st i = key" by auto
    then show False using fresh [of i] by simp
  qed
  then have "distinct (map (local_key ?st) [0..<Suc ?n])"
    unfolding keys using parts(3) by (simp add: isp_keys_ok_def)
  moreover have "\<not> ref_valid (persisted_find st key)"
  proof
    assume valid: "ref_valid (persisted_find st key)"
    have "find_key st (fst key) (fst (snd key)) (snd (snd key)) hash fp = 0" for hash fp
      using fresh by (intro find_key_absent [OF ok]) simp
    then have "lookup_key st key = persisted_find st key" by (cases key) (simp add: lookup_key_def Let_def)
    then show False using lookup_key_sound [OF ok] valid new by metis
  qed
  ultimately show "isp_keys_ok ?st"
    unfolding isp_keys_ok_def append_identity_persisted
    using parts(3) append_identity_old(1) [OF parts(2)] append_identity_new(1) [OF parts(2)]
    by (auto simp: isp_keys_ok_def less_Suc_eq)
qed

lemma append_identity_insert:
  assumes ok: "isp_ok strings st" and size: "isp_size st < maximum_slot"
    and key: "isp_contains st (fst key)" "str_contains strings (fst (snd key))" "snd (snd key) \<noteq> kind_root"
    and new: "\<And>r. isp_key st r \<noteq> Some key" and room: "2 * Suc (length (isp_records st)) \<le> length (isp_index st)"
  obtains t where
    "isp_insert_index (isp_index st) (make_ref (of_nat (isp_size st + 1)) (snd (snd key)))
       (key_hash key) (fingerprint (key_hash key)) = Some t"
    "isp_ok strings ((append_identity st key)\<lparr>isp_index := t\<rparr>)"
proof -
  let ?st = "append_identity st key" and ?n = "length (isp_records st)"
  let ?slot = "islot_of ?st ?n"
  have parts: "isp_records_ok strings st" "isp_index_ok st" using ok by (simp_all add: isp_ok_def)
  note ok' = append_identity_ok [OF ok size key new]
  have ne: "isp_index st \<noteq> []" using room by auto
  have old: "islot_of ?st i = islot_of st i" if "i < ?n" for i
    using append_identity_old [OF parts(1) that] by (simp add: islot_of_def)
  have slot: "?slot = \<lparr>ids_fingerprint = fingerprint (key_hash key),
      ids_identity = make_ref (of_nat (isp_size st + 1)) (snd (snd key))\<rparr>"
    using append_identity_new [OF parts(1)] by (simp only: islot_of_def)
  have idx: "table_ok ident_used (isp_home st) (isp_index st)"
    "mset (filter ident_used (isp_index st)) = mset (map (islot_of st) [0..<?n])"
    using parts(2) ne by (simp_all add: isp_index_ok_def)
  have same: "isp_home st s = isp_home ?st s" if s: "s \<in> set (isp_index st)" "ident_used s" for s
  proof -
    obtain j where j: "j < ?n" "s = islot_of st j" by (rule isp_index_cases [OF parts(2) ne s])
    have "j < length (isp_records ?st)" using j(1) by simp
    then have "isp_home ?st (islot_of ?st j) = unat (key_hash (local_key ?st j))" by (rule isp_home_slot [OF ok'(2)])
    then show ?thesis
      unfolding j(2) isp_home_slot [OF parts(1) j(1)] old [OF j(1)] append_identity_old(1) [OF parts(1) j(1)]
      by (rule sym)
  qed
  have tab: "table_ok ident_used (isp_home ?st) (isp_index st)"
    by (rule iffD1 [OF table_ok_cong idx(1)]) (rule same)
  have home: "isp_home ?st ?slot = unat (key_hash key)"
    using isp_home_slot [OF ok'(2), of ?n] append_identity_new(1) [OF parts(1)] by simp
  have few: "length (filter ident_used (isp_index st)) = ?n"
    by (metis idx(2) length_map length_upt minus_nat.diff_0 size_mset)
  obtain t where t: "slot_insert ident_used (isp_index st) (unat (key_hash key)) ?slot = Some t"
    "table_ok ident_used (isp_home ?st) t" "length t = length (isp_index st)"
    "mset (filter ident_used t) = add_mset ?slot (mset (filter ident_used (isp_index st)))"
    by (rule identity_slots.insert_ok [OF tab, of ?slot "unat (key_hash key)"])
      (use few room home islot_used [OF ok'(2), of ?n] in auto)
  have "map (islot_of ?st) [0..<Suc ?n] = map (islot_of st) [0..<?n] @ [?slot]" using old by simp
  then have "mset (filter ident_used t) = mset (map (islot_of ?st) [0..<Suc ?n])"
    by (simp only: t(4) idx(2)) simp
  moreover have "t \<noteq> []" using t(3) ne by auto
  ultimately have "isp_index_ok (?st\<lparr>isp_index := t\<rparr>)"
    using t(2,3) room by (simp add: isp_index_ok_def)
  then show thesis
    using that [of t] t(1) ok' slot by (simp add: isp_ok_def isp_insert_index_def)
qed

lemma append_identity_keys:
  assumes ok: "isp_ok strings st" and size: "isp_size st < maximum_slot"
    and key: "isp_contains st (fst key)" "str_contains strings (fst (snd key))" "snd (snd key) \<noteq> kind_root"
    and new: "\<And>r. isp_key st r \<noteq> Some key"
  shows "isp_key (append_identity st key) =
    (isp_key st)(make_ref (of_nat (isp_size st + 1)) (snd (snd key)) \<mapsto> key)"
proof
  let ?st = "append_identity st key" and ?n = "length (isp_records st)"
  fix r
  have parts: "isp_baseline_ok strings st" "isp_records_ok strings st" using ok by (simp_all add: isp_ok_def)
  note ok' = append_identity_ok [OF ok size key new]
  have fwd: "isp_key ?st r = Some k" if "isp_key st r = Some k" for k
    using parts that
  proof (cases rule: isp_key_cases)
    case (own i)
    then show ?thesis
      using local_ref_record(3) [OF ok'(2), of i] append_identity_old [OF parts(2) own(1)] by simp
  next
    case (persisted v)
    then show ?thesis using isp_key_persisted [OF ok'(1), of v r] by simp
  qed
  have bwd: "isp_key st r = Some k \<or> r = local_ref ?st ?n \<and> k = key" if "isp_key ?st r = Some k" for k
    using ok'(1,2) that
  proof (cases rule: isp_key_cases)
    case (own i)
    show ?thesis
    proof (cases "i = ?n")
      case True
      then show ?thesis using own append_identity_new(1) [OF parts(2)] by simp
    next
      case False
      then have "i < ?n" using own(1) by simp
      then show ?thesis
        using own local_ref_record(3) [OF parts(2)] append_identity_old [OF parts(2)] by simp
    qed
  next
    case (persisted v)
    then show ?thesis using isp_key_persisted [OF parts(1), of v r] by simp
  qed
  have new_key: "isp_key ?st (local_ref ?st ?n) = Some key"
    using local_ref_record(3) [OF ok'(2), of ?n] append_identity_new(1) [OF parts(2)] by simp
  show "isp_key ?st r = ((isp_key st)(make_ref (of_nat (isp_size st + 1)) (snd (snd key)) \<mapsto> key)) r"
  proof (cases "r = local_ref ?st ?n")
    case True
    then show ?thesis using new_key append_identity_new(2) [OF parts(2), of key] by simp
  next
    case False
    then have "isp_key ?st r = isp_key st r"
      using fwd bwd by (metis not_None_eq)
    then show ?thesis using False append_identity_new(2) [OF parts(2), of key] by simp
  qed
qed

text \<open>The contract of \<open>resolve\<close> over the keys.\<close>

definition resolve_post ::
    "string_table \<Rightarrow> identity_space \<Rightarrow> identity_key \<Rightarrow> server_status \<Rightarrow> identity_ref \<Rightarrow> identity_space \<Rightarrow> bool" where
  "resolve_post strings st key status r st' \<longleftrightarrow>
     (if \<not> isp_contains st (fst key) \<or> \<not> str_contains strings (fst (snd key)) \<or> snd (snd key) = kind_root
      then status = project_configuration_invalid \<and> r = 0 \<and> st' = st
      else if \<exists>q. isp_key st q = Some key
      then status = success \<and> isp_key st r = Some key \<and> st' = st
      else if status = success
      then isp_key st' = (isp_key st)(r \<mapsto> key) \<and> isp_key st r = None \<and>
           isp_size st' = isp_size st + 1 \<and> unat (ref_slot r) = isp_size st'
      else status = io_error \<and> r = 0 \<and> isp_key st' = isp_key st)"

lemma isp_resolve_post:
  assumes ok: "isp_ok strings st"
  obtains status r st' where "isp_resolve strings st parent name kind ai as = Some (status, r, st')"
    "isp_ok strings st'" "resolve_post strings st (parent, name, kind) status r st'"
    "isp_contains st parent \<Longrightarrow> str_contains strings name \<Longrightarrow> kind \<noteq> kind_root \<Longrightarrow> ai \<Longrightarrow> as \<Longrightarrow>
       isp_size st < maximum_slot \<Longrightarrow> status = success"
proof (cases "\<not> isp_contains st parent \<or> \<not> str_contains strings name \<or> kind = kind_root")
  case True
  then show thesis
    using ok by (intro that [of project_configuration_invalid 0 st]) (auto simp: isp_resolve_def resolve_post_def)
next
  case valid: False
  let ?key = "(parent, name, kind)" and ?hash = "hash_key parent name kind"
  let ?found = "find_key st parent name kind ?hash (fingerprint ?hash)"
  have persisted: "(case isp_baseline st of Some v \<Rightarrow> find_identity v parent name kind | None \<Rightarrow> 0) = persisted_find st ?key"
    by simp
  show thesis
  proof (cases "\<exists>q. isp_key st q = Some ?key")
    case True
    then obtain q where q: "isp_key st q = Some ?key" by blast
    have look: "lookup_key st ?key = q" "ref_valid q" using lookup_key_hit [OF ok q] by simp_all
    have "isp_resolve strings st parent name kind ai as = Some (success, q, st)"
    proof (cases "ref_valid ?found")
      case True
      then show ?thesis using valid look(1) by (simp add: isp_resolve_def lookup_key_def Let_def)
    next
      case False
      then have "persisted_find st ?key = q" using look(1) by (simp add: lookup_key_def Let_def)
      moreover have "isp_baseline st \<noteq> None" using calculation look(2) by (cases "isp_baseline st") auto
      ultimately show ?thesis
        using valid False look(2) unfolding isp_resolve_def Let_def persisted by simp
    qed
    then show thesis
      using ok q valid True by (intro that [of success q st]) (auto simp: resolve_post_def)
  next
    case new: False
    have miss: "\<not> ref_valid (lookup_key st ?key)" using lookup_key_miss [OF ok] new by blast
    then have "\<not> ref_valid ?found" and "\<not> ref_valid (persisted_find st ?key)"
      by (auto simp: lookup_key_def Let_def split: if_splits)
    then have start: "isp_resolve strings st parent name kind ai as =
        (case isp_ensure_index_capacity 1 ai st of
               None \<Rightarrow> None
             | Some (prepared, st1) \<Rightarrow>
                 if \<not> succeeded prepared then Some (prepared, 0, st1)
                 else if isp_size st1 \<ge> maximum_slot then Some (io_error, 0, st1)
                 else
                   let r = make_ref (of_nat (isp_size st1 + 1)) kind
                   in if \<not> ref_valid r then Some (io_error, 0, st1)
                      else if \<not> as then Some (io_error, 0, st1)
                      else map_option (\<lambda>target. (success, r, (append_identity st1 ?key)\<lparr>isp_index := target\<rparr>))
                             (isp_insert_index (isp_index st1) r (key_hash ?key) (fingerprint (key_hash ?key))))"
      using valid unfolding isp_resolve_def Let_def persisted
      by (simp add: append_identity_def split: option.splits prod.splits)
    from ok show thesis
    proof (cases rule: isp_ensure_ok [where alloc = ai])
      case (1 t)
      let ?st = "st\<lparr>isp_index := t\<rparr>" and ?r = "make_ref (of_nat (isp_size st + 1)) kind"
      show thesis
      proof (cases "isp_size st < maximum_slot \<and> as")
        case False
        then have "isp_resolve strings st parent name kind ai as = Some (io_error, 0, ?st)"
          unfolding start 1(1) by (auto simp: succeeded_def Let_def)
        then show thesis
          using 1(2) False new valid by (intro that [of io_error 0 ?st]) (auto simp: resolve_post_def)
      next
        case True
        then have small: "isp_size st + 1 \<le> maximum_slot" by simp
        have rv: "ref_valid ?r" "unat (ref_slot ?r) = isp_size st + 1"
          using small_slot [OF small] make_ref_slot make_ref_valid small by simp_all
        obtain u where u: "isp_insert_index (isp_index ?st) (make_ref (of_nat (isp_size ?st + 1)) (snd (snd ?key)))
            (key_hash ?key) (fingerprint (key_hash ?key)) = Some u"
          "isp_ok strings ((append_identity ?st ?key)\<lparr>isp_index := u\<rparr>)"
          by (rule append_identity_insert [OF 1(2), of ?key]) (use 1(3) True valid new in auto)
        let ?st' = "(append_identity ?st ?key)\<lparr>isp_index := u\<rparr>"
        have res: "isp_resolve strings st parent name kind ai as = Some (success, ?r, ?st')"
          unfolding start 1(1) using True u(1) rv(1) by (simp add: succeeded_def Let_def)
        have keys: "isp_key ?st' = (isp_key st)(?r \<mapsto> ?key)"
          using append_identity_keys [OF 1(2), of ?key] True valid new by simp
        have "isp_key st ?r = None"
        proof (rule ccontr)
          assume "isp_key st ?r \<noteq> None"
          then obtain k where "isp_key st ?r = Some k" by auto
          then have "isp_contains st ?r" by (auto simp: isp_key_def isp_record_def split: if_splits)
          then show False using rv(2) isp_contains_slot ok by (fastforce simp: isp_ok_def)
        qed
        moreover have "isp_size ?st' = isp_size st + 1" by (simp add: isp_size_def)
        ultimately show thesis
          using res u(2) keys rv(2) new valid by (intro that [of success ?r ?st']) (auto simp: resolve_post_def)
      qed
    next
      case 2
      then have "isp_resolve strings st parent name kind ai as = Some (io_error, 0, st)"
        unfolding start by (simp add: succeeded_def)
      then show thesis using ok 2(1) new valid by (intro that [of io_error 0 st]) (auto simp: resolve_post_def)
    qed
  qed
qed

section \<open>The interning contract\<close>

definition isp_step :: "string_table \<Rightarrow> identity_space \<Rightarrow> identity_key \<Rightarrow> identity_space \<Rightarrow> identity_ref \<Rightarrow> bool" where
  "isp_step strings st key st' r \<longleftrightarrow>
     (\<exists>ai as. isp_resolve strings st (fst key) (fst (snd key)) (snd (snd key)) ai as = Some (success, r, st'))"

lemma isp_step_post:
  assumes ok: "isp_ok strings st" and step: "isp_step strings st key st' r"
  shows "isp_ok strings st'" "resolve_post strings st key success r st'"
proof -
  obtain ai as where eq: "isp_resolve strings st (fst key) (fst (snd key)) (snd (snd key)) ai as = Some (success, r, st')"
    using step by (auto simp: isp_step_def)
  have "isp_ok strings st' \<and> resolve_post strings st key success r st'"
    by (rule isp_resolve_post [OF ok, of "fst key" "fst (snd key)" "snd (snd key)" ai as]) (use eq in auto)
  then show "isp_ok strings st'" "resolve_post strings st key success r st'" by blast+
qed

interpretation identity_interner: interner "isp_ok strings" "isp_step strings" isp_key for strings
proof
  fix st k st' i
  assume ok: "isp_ok strings st"
  show "isp_ok strings st'" if "isp_step strings st k st' i" by (rule isp_step_post(1) [OF ok that])
  show "isp_key st' i = Some k" if "isp_step strings st k st' i"
    using isp_step_post(2) [OF ok that] by (auto simp: resolve_post_def split: if_splits)
  show "isp_key st' j = Some k'" if "isp_step strings st k st' i" "isp_key st j = Some k'" for j k'
    using isp_step_post(2) [OF ok that(1)] that(2) by (auto simp: resolve_post_def split: if_splits)
  show "i = j" if "isp_key st i = Some k" "isp_key st j = Some k" for j
    using lookup_key_hit(1) [OF ok that(1)] lookup_key_hit(1) [OF ok that(2)] by simp
qed

section \<open>Ancestors\<close>

definition isp_child :: "identity_space \<Rightarrow> identity_ref \<Rightarrow> identity_ref \<Rightarrow> bool" where
  "isp_child st r parent \<longleftrightarrow> (\<exists>name kind. isp_key st r = Some (parent, name, kind))"

lemma isp_contains_key:
  assumes ok: "isp_ok strings st" and r: "isp_contains st r"
  shows "r = isp_root \<or> isp_key st r \<noteq> None"
proof (cases "ref_slot r = 1")
  case True
  then have "ref_kind r = kind_root" using r by (auto simp: isp_contains_def split: if_splits)
  then show ?thesis using True ref_one ref_eqI [of r 1] isp_root_one by simp
next
  case False
  have parts: "isp_baseline_ok strings st" "isp_records_ok strings st" using ok by (simp_all add: isp_ok_def)
  show ?thesis
  proof (cases "unat (ref_slot r) \<le> isp_baseline_count st")
    case True
    then obtain v where v: "isp_baseline st = Some v" "identity_valid v r"
      using r False by (auto simp: isp_contains_def split: if_splits)
    then show ?thesis using isp_key_persisted [OF parts(1) v False] by simp
  next
    case above: False
    then obtain i where "i < length (isp_records st)" "r = local_ref st i"
      using local_ref_cases [OF parts(2) r] by auto
    then show ?thesis using local_ref_record(3) [OF parts(2)] by simp
  qed
qed

lemma isp_ancestors_root:
  assumes ok: "isp_ok strings st" "string_table_ok strings"
  shows "isp_contains st r \<Longrightarrow> (isp_child st)\<^sup>*\<^sup>* r isp_root"
proof (induction "unat (ref_slot r)" arbitrary: r rule: less_induct)
  case less
  show ?case
  proof (cases "r = isp_root")
    case False
    then obtain parent name kind where key: "isp_key st r = Some (parent, name, kind)"
      using isp_contains_key [OF ok(1) less.prems] by auto
    have "(isp_child st)\<^sup>*\<^sup>* parent isp_root"
      using isp_key_parts [OF ok key] by (intro less.hyps)
    moreover have "isp_child st r parent" using key by (auto simp: isp_child_def)
    ultimately show ?thesis by (meson converse_rtranclp_into_rtranclp)
  qed simp
qed

lemma fresh_identity_space_ok: "isp_ok strings fresh_identity_space"
  by (simp add: isp_ok_def isp_baseline_ok_def isp_records_ok_def isp_keys_ok_def isp_index_ok_def
      fresh_identity_space_def isp_size_def maximum_slot_eq)

lemma isp_bind_ok:
  assumes v: "view_valid v" "view_identities_ok v" and strings: "str_baseline strings = Some v"
  shows "isp_bind_baseline strings v fresh_identity_space =
      (success, fresh_identity_space\<lparr>isp_baseline := Some v, isp_baseline_count := identity_count_value v\<rparr>)"
    and "isp_ok strings (fresh_identity_space\<lparr>isp_baseline := Some v, isp_baseline_count := identity_count_value v\<rparr>)"
proof -
  have count: "identity_count_value v \<noteq> 0" "identity_count_value v \<le> maximum_slot" "identity_root v = isp_root"
  proof -
    show root: "identity_root v = isp_root" and "identity_count_value v \<le> maximum_slot"
      using v(2) by (simp_all add: view_identities_ok_def isp_root_one)
    show "identity_count_value v \<noteq> 0"
    proof
      assume z: "identity_count_value v = 0"
      have "ref_slot 1 = 1 AND slot_mask" by (simp add: ref_slot_def)
      then have "identity_from_raw v 1 = 0" unfolding identity_from_raw_def Let_def using z ref_one(1) by simp
      then show False using root by (simp add: identity_root_def isp_root_one)
    qed
  qed
  show "isp_bind_baseline strings v fresh_identity_space =
      (success, fresh_identity_space\<lparr>isp_baseline := Some v, isp_baseline_count := identity_count_value v\<rparr>)"
    using v(1) strings count by (simp add: isp_bind_baseline_def fresh_identity_space_def)
  show "isp_ok strings (fresh_identity_space\<lparr>isp_baseline := Some v, isp_baseline_count := identity_count_value v\<rparr>)"
    using v(2) strings count
    by (simp add: isp_ok_def isp_baseline_ok_def isp_records_ok_def isp_keys_ok_def isp_index_ok_def
        fresh_identity_space_def isp_size_def)
qed

section \<open>Properties\<close>

text \<open>\<^bold>\<open>C18.\<close>
  \<open>resolve\<close> on a well-formed identity space always returns and keeps it well formed. An unknown
  parent or name and the root kind are refused; a known key gets the identity it has; a new key
  gets the next slot and no other key changes; a failure changes no key, and with memory
  available and a slot left there is none.\<close>

theorem resolve_refines_keys:
  assumes "isp_ok strings st"
  shows "\<exists>status r st'. isp_resolve strings st parent name kind ai as = Some (status, r, st') \<and>
    isp_ok strings st' \<and> resolve_post strings st (parent, name, kind) status r st' \<and>
    (isp_contains st parent \<and> str_contains strings name \<and> kind \<noteq> kind_root \<and> ai \<and> as \<and>
       isp_size st < maximum_slot \<longrightarrow> status = success)"
  by (rule isp_resolve_post [OF assms, of parent name kind ai as]) blast

theorem resolve_refines_keys_witness:
  "isp_ok fresh_string_table fresh_identity_space \<and>
   (\<exists>status r st'. isp_resolve fresh_string_table fresh_identity_space 1 1 kind_type True True = Some (status, r, st') \<and>
    isp_ok fresh_string_table st' \<and>
    resolve_post fresh_string_table fresh_identity_space (1, 1, kind_type) status r st' \<and>
    (isp_contains fresh_identity_space 1 \<and> str_contains fresh_string_table 1 \<and> kind_type \<noteq> kind_root \<and> True \<and> True \<and>
       isp_size fresh_identity_space < maximum_slot \<longrightarrow> status = success))"
  using resolve_refines_keys [OF fresh_identity_space_ok] fresh_identity_space_ok by blast

text \<open>Over any sequence of successful \<open>resolve\<close> calls, two calls got the same identity exactly when
  they asked for the same parent, name and kind, and every identity handed out keeps its key.\<close>

theorem identities_canonical:
  assumes "isp_ok strings st" "intern_log (isp_step strings) st calls st'"
    "(key, r) \<in> set calls" "(key', r') \<in> set calls"
  shows "(r = r' \<longleftrightarrow> key = key') \<and> isp_key st' r = Some key"
  using identity_interner.log_canonical [OF assms(2,1,3,4)] identity_interner.log_names [OF assms(2,1,3)]
  by blast

text \<open>A string table that holds one string and the fresh space it names.\<close>

definition one_string :: string_table where
  "one_string = fresh_string_table\<lparr>str_bytes := ''a'',
     str_records := [\<lparr>rec_offset = 0, rec_length = 1, rec_hash = hash_text ''a''\<rparr>]\<rparr>"

lemma one_string_contains: "str_contains one_string 1"
  by (simp add: str_contains_def one_string_def fresh_string_table_def)

lemma fresh_contains_root: "isp_contains fresh_identity_space 1"
  by (simp add: isp_contains_def ref_one)

lemma one_string_resolve:
  obtains r st' where "isp_step one_string fresh_identity_space (1, 1, kind_type) st' r"
proof -
  have size: "isp_size fresh_identity_space < maximum_slot"
    by (simp add: isp_size_def fresh_identity_space_def maximum_slot_eq)
  obtain status r st' where r: "isp_resolve one_string fresh_identity_space 1 1 kind_type True True = Some (status, r, st')"
    "status = success"
    by (rule isp_resolve_post [OF fresh_identity_space_ok, of one_string 1 1 kind_type True True])
      (auto simp: one_string_contains fresh_contains_root size)
  have "isp_step one_string fresh_identity_space (1, 1, kind_type) st' r"
    unfolding isp_step_def using r by auto
  then show thesis by (rule that)
qed

theorem identities_canonical_witness:
  "\<exists>st' r. intern_log (isp_step one_string) fresh_identity_space [((1, 1, kind_type), r)] st' \<and>
     isp_key st' r = Some (1, 1, kind_type)"
proof -
  obtain r st' where "isp_step one_string fresh_identity_space (1, 1, kind_type) st' r"
    by (rule one_string_resolve)
  then have log: "intern_log (isp_step one_string) fresh_identity_space [((1, 1, kind_type), r)] st'"
    by (rule call [OF _ no_call])
  have mem: "((1, 1, kind_type), r) \<in> set [((1, 1, kind_type), r)]" by simp
  show ?thesis
    using identities_canonical [OF fresh_identity_space_ok log mem mem] log by blast
qed

text \<open>
  Look-up is the inverse of the keys: \<open>find\<close> returns a valid identity exactly when that
  identity has the key asked for.\<close>

theorem identity_find_iff:
  assumes "isp_ok strings st" "string_table_ok strings" "ref_valid r"
  shows "isp_find strings st parent name kind = r \<longleftrightarrow> isp_key st r = Some (parent, name, kind)"
proof
  assume found: "isp_find strings st parent name kind = r"
  then have "lookup_key st (parent, name, kind) = r"
    using assms(3) by (auto simp: isp_find_lookup split: if_splits)
  then show "isp_key st r = Some (parent, name, kind)" using lookup_key_sound [OF assms(1)] assms(3) by metis
qed (rule isp_key_find [OF assms(1,2)])

theorem identity_find_iff_witness:
  "ref_valid 1 \<and> (isp_find fresh_string_table fresh_identity_space 1 1 kind_type = 1 \<longleftrightarrow>
     isp_key fresh_identity_space 1 = Some (1, 1, kind_type))"
  using identity_find_iff [OF fresh_identity_space_ok fresh_string_table_ok ref_one(3)] ref_one(3) by blast

text \<open>\<^bold>\<open>C40.\<close>
  The identities form a tree: from every identity of a well-formed space the parents lead to
  the root in finitely many steps.\<close>

theorem ancestors_reach_root:
  assumes "isp_ok strings st" "string_table_ok strings" "isp_contains st r"
  shows "(isp_child st)\<^sup>*\<^sup>* r isp_root"
  by (rule isp_ancestors_root [OF assms])

theorem ancestors_reach_root_witness:
  "isp_contains fresh_identity_space 1 \<and> (isp_child fresh_identity_space)\<^sup>*\<^sup>* 1 isp_root"
  using ancestors_reach_root [OF fresh_identity_space_ok fresh_string_table_ok fresh_contains_root]
    fresh_contains_root by blast

end
