(* ===== verification/Json_Unicode.thy ===== *)
theory Json_Unicode
  imports Prelude
begin

text \<open>
  \<^verbatim>\<open>server_engine/json/json_ascii.hpp\<close> and \<^verbatim>\<open>json_unicode.hpp\<close>: character classes, the UTF-8
  encoder and the strict decoder. Code points are \<^verbatim>\<open>uint32_t\<close> in the code; no operation here
  produces a value of more than 21 bits, so they are natural numbers. A byte is an Isabelle
  character and \<open>byte\<close> its unsigned value. The theory shows that the decoder accepts exactly the
  encodings of the Unicode scalar values, so no other byte sequence decodes.
\<close>

section \<open>ASCII\<close>

abbreviation byte :: "char \<Rightarrow> nat" where
  "byte c \<equiv> of_char c"

definition json_is_space :: "char \<Rightarrow> bool" where
  "json_is_space c \<longleftrightarrow> byte c = 32 \<or> byte c = 9 \<or> byte c = 13 \<or> byte c = 10"

definition json_is_digit :: "char \<Rightarrow> bool" where
  "json_is_digit c \<longleftrightarrow> byte c \<ge> 48 \<and> byte c \<le> 57"

definition json_hex_value :: "char \<Rightarrow> int" where
  "json_hex_value c =
     (if 48 \<le> byte c \<and> byte c \<le> 57 then int (byte c) - 48
      else if 97 \<le> byte c \<and> byte c \<le> 102 then int (byte c) - 97 + 10
      else if 65 \<le> byte c \<and> byte c \<le> 70 then int (byte c) - 65 + 10
      else -1)"

section \<open>UTF-8\<close>

definition json_is_high_surrogate :: "nat \<Rightarrow> bool" where
  "json_is_high_surrogate n \<longleftrightarrow> 0xD800 \<le> n \<and> n \<le> 0xDBFF"

definition json_is_low_surrogate :: "nat \<Rightarrow> bool" where
  "json_is_low_surrogate n \<longleftrightarrow> 0xDC00 \<le> n \<and> n \<le> 0xDFFF"

definition json_is_surrogate :: "nat \<Rightarrow> bool" where
  "json_is_surrogate n \<longleftrightarrow> 0xD800 \<le> n \<and> n \<le> 0xDFFF"

definition json_is_unicode_scalar :: "nat \<Rightarrow> bool" where
  "json_is_unicode_scalar n \<longleftrightarrow> n \<le> 0x10FFFF \<and> \<not> json_is_surrogate n"

definition json_append_utf8 :: "nat \<Rightarrow> string \<Rightarrow> string" where
  "json_append_utf8 cp out =
     (if cp \<le> 0x7F then out @ [char_of cp]
      else if cp \<le> 0x7FF
      then out @ [char_of (0xC0 OR (drop_bit 6 cp AND 0x1F)), char_of (0x80 OR (cp AND 0x3F))]
      else if cp \<le> 0xFFFF
      then out @ [char_of (0xE0 OR (drop_bit 12 cp AND 0x0F)), char_of (0x80 OR (drop_bit 6 cp AND 0x3F)),
                  char_of (0x80 OR (cp AND 0x3F))]
      else out @ [char_of (0xF0 OR (drop_bit 18 cp AND 0x07)), char_of (0x80 OR (drop_bit 12 cp AND 0x3F)),
                  char_of (0x80 OR (drop_bit 6 cp AND 0x3F)), char_of (0x80 OR (cp AND 0x3F))])"

datatype json_utf8_status =
  utf8_ok | utf8_truncated | utf8_invalid_leading_byte | utf8_invalid_continuation_byte
| utf8_overlong_sequence | utf8_invalid_codepoint

record json_utf8_result =
  utf8_status :: json_utf8_status
  utf8_codepoint :: nat
  utf8_length :: nat

definition json_is_utf8_continuation :: "nat \<Rightarrow> bool" where
  "json_is_utf8_continuation b \<longleftrightarrow> b AND 0xC0 = 0x80"

text \<open>The loop over the continuation bytes; \<open>Inl i\<close> is the early return at byte \<open>i\<close>.\<close>

function utf8_continue :: "string \<Rightarrow> nat \<Rightarrow> nat \<Rightarrow> nat \<Rightarrow> nat \<Rightarrow> nat + nat" where
  "utf8_continue text off len i cp =
     (if i < len
      then
        let b = byte (text ! (off + i))
        in if \<not> json_is_utf8_continuation b then Inl i
           else utf8_continue text off len (i + 1) (push_bit 6 cp OR (b AND 0x3F))
      else Inr cp)"
  by pat_completeness auto
termination by (relation "measure (\<lambda>(_, _, len, i, _). len - i)") auto

declare utf8_continue.simps [simp del]

text \<open>The lead byte: length, initial bits and smallest code point, or no lead byte.\<close>

definition utf8_lead :: "nat \<Rightarrow> (nat \<times> nat \<times> nat) option" where
  "utf8_lead first =
     (if first \<ge> 0xC2 \<and> first \<le> 0xDF then Some (2, first AND 0x1F, 0x80)
      else if first \<ge> 0xE0 \<and> first \<le> 0xEF then Some (3, first AND 0x0F, 0x800)
      else if first \<ge> 0xF0 \<and> first \<le> 0xF4 then Some (4, first AND 0x07, 0x10000)
      else None)"

definition json_decode_utf8_one :: "string \<Rightarrow> nat \<Rightarrow> json_utf8_result" where
  "json_decode_utf8_one text off =
     (if off \<ge> length text then \<lparr>utf8_status = utf8_truncated, utf8_codepoint = 0, utf8_length = 0\<rparr>
      else
        let first = byte (text ! off)
        in if first \<le> 0x7F then \<lparr>utf8_status = utf8_ok, utf8_codepoint = first, utf8_length = 1\<rparr>
           else case utf8_lead first of
               None \<Rightarrow> \<lparr>utf8_status = utf8_invalid_leading_byte, utf8_codepoint = 0, utf8_length = 1\<rparr>
             | Some (len, start, minimum) \<Rightarrow>
                 if off + len > length text
                 then \<lparr>utf8_status = utf8_truncated, utf8_codepoint = 0, utf8_length = length text - off\<rparr>
                 else case utf8_continue text off len 1 start of
                     Inl i \<Rightarrow> \<lparr>utf8_status = utf8_invalid_continuation_byte, utf8_codepoint = 0, utf8_length = i\<rparr>
                   | Inr cp \<Rightarrow>
                       if cp < minimum
                       then \<lparr>utf8_status = utf8_overlong_sequence, utf8_codepoint = cp, utf8_length = len\<rparr>
                       else if \<not> json_is_unicode_scalar cp
                       then \<lparr>utf8_status = utf8_invalid_codepoint, utf8_codepoint = cp, utf8_length = len\<rparr>
                       else \<lparr>utf8_status = utf8_ok, utf8_codepoint = cp, utf8_length = len\<rparr>)"

section \<open>Bit fields as arithmetic\<close>

named_theorems utf8_arith \<open>the bit operations of UTF-8 as division and remainder\<close>

lemma or_low_add: "a mod 2 ^ k = 0 \<Longrightarrow> b < 2 ^ k \<Longrightarrow> a OR b = a + (b :: nat)"
proof -
  assume a: "a mod 2 ^ k = 0" and b: "b < 2 ^ k"
  have "\<not> (bit a n \<and> bit b n)" for n
  proof
    assume n: "bit a n \<and> bit b n"
    have "take_bit k a = 0" "take_bit k b = b" using a b by (simp_all add: take_bit_eq_mod)
    then show False using n by (metis bit_0_eq bit_take_bit_iff bot_apply bot_bool_def)
  qed
  then have "a AND b = 0" by (intro bit_eqI) (simp add: bit_and_iff)
  then show ?thesis by (rule disjunctive_add_eq_or [symmetric])
qed

lemma utf8_masks [utf8_arith]:
  "(n :: nat) AND 0x3F = n mod 64" "n AND 0x1F = n mod 32" "n AND 0x0F = n mod 16" "n AND 0x07 = n mod 8"
  using and_mask_mod [of n 6] and_mask_mod [of n 5] and_mask_mod [of n 4] and_mask_mod [of n 3] by simp_all

lemma utf8_ors [utf8_arith]:
  "0xC0 OR (n mod 32 :: nat) = 0xC0 + n mod 32" "0x80 OR (n mod 64 :: nat) = 0x80 + n mod 64"
  "0xE0 OR (n mod 16 :: nat) = 0xE0 + n mod 16" "0xF0 OR (n mod 8 :: nat) = 0xF0 + n mod 8"
  by (rule or_low_add [of _ 5], simp_all)
    (rule or_low_add [of _ 6], simp_all, rule or_low_add [of _ 4], simp_all, rule or_low_add [of _ 3], simp_all)

lemma utf8_shift_or [utf8_arith]: "push_bit 6 c OR (n mod 64 :: nat) = 64 * c + n mod 64"
proof -
  have "push_bit 6 c mod 2 ^ 6 = (0 :: nat)" by (simp add: push_bit_eq_mult)
  then have "push_bit 6 c OR (n mod 64) = push_bit 6 c + n mod 64" by (rule or_low_add) simp
  then show ?thesis by (simp add: push_bit_eq_mult)
qed

lemma utf8_drops [utf8_arith]:
  "drop_bit 6 (n :: nat) = n div 64" "drop_bit 12 n = n div 4096" "drop_bit 18 n = n div 262144"
  by (simp_all add: drop_bit_eq_div)

lemma and_push_bit: "(b :: nat) AND push_bit k m = push_bit k (drop_bit k b AND m)"
  by (rule bit_eqI) (auto simp: bit_simps)

lemma continuation_iff [utf8_arith]: "b < 256 \<Longrightarrow> json_is_utf8_continuation b \<longleftrightarrow> 0x80 \<le> b \<and> b < 0xC0"
proof -
  assume b: "b < 256"
  have "(0xC0 :: nat) = push_bit 6 3" by (simp add: push_bit_eq_mult)
  then have "b AND 0xC0 = push_bit 6 (drop_bit 6 b AND 3)" by (simp only: and_push_bit)
  also have "drop_bit 6 b AND 3 = b div 64 mod 4" using and_mask_mod [of "b div 64" 2] by (simp add: drop_bit_eq_div)
  also have "b div 64 mod 4 = b div 64" using b by simp
  finally have "b AND 0xC0 = 64 * (b div 64)" by (simp add: push_bit_eq_mult)
  then show ?thesis using b unfolding json_is_utf8_continuation_def by auto
qed

section \<open>Decoding inverts encoding\<close>

definition utf8_bytes :: "nat \<Rightarrow> nat list" where
  "utf8_bytes cp =
     (if cp \<le> 0x7F then [cp]
      else if cp \<le> 0x7FF then [0xC0 + cp div 64, 0x80 + cp mod 64]
      else if cp \<le> 0xFFFF then [0xE0 + cp div 4096, 0x80 + cp div 64 mod 64, 0x80 + cp mod 64]
      else [0xF0 + cp div 262144, 0x80 + cp div 4096 mod 64, 0x80 + cp div 64 mod 64, 0x80 + cp mod 64])"

lemma json_append_utf8_bytes:
  assumes "cp \<le> 0x10FFFF"
  shows "json_append_utf8 cp out = out @ map char_of (utf8_bytes cp)"
proof -
  have "cp \<le> 0x7FF \<Longrightarrow> cp div 64 mod 32 = cp div 64" "cp \<le> 0xFFFF \<Longrightarrow> cp div 4096 mod 16 = cp div 4096"
    "cp div 262144 mod 8 = cp div 262144"
    using assms by (simp_all add: mod_less)
  then show ?thesis unfolding json_append_utf8_def utf8_arith by (auto simp: utf8_bytes_def)
qed

lemma utf8_bytes_small: "cp \<le> 0x10FFFF \<Longrightarrow> b \<in> set (utf8_bytes cp) \<Longrightarrow> b < 256"
  by (auto simp: utf8_bytes_def less_mult_imp_div_less split: if_splits)

text \<open>One step of the continuation loop, with the byte read as a number.\<close>

lemma utf8_continue_step:
  assumes "i < len"
  shows "utf8_continue text off len i cp =
    (if 0x80 \<le> byte (text ! (off + i)) \<and> byte (text ! (off + i)) < 0xC0
     then utf8_continue text off len (Suc i) (64 * cp + byte (text ! (off + i)) mod 64) else Inl i)"
proof -
  have "byte (text ! (off + i)) < 256" using of_char_of [of "byte (text ! (off + i))"] by (simp add: of_char_eq_iff)
  then show ?thesis
    using assms by (subst utf8_continue.simps) (simp add: Let_def utf8_arith)
qed

lemma utf8_continue_done: "\<not> i < len \<Longrightarrow> utf8_continue text off len i cp = Inr cp"
  by (subst utf8_continue.simps) simp

lemma continuation_low: "(0x80 + n mod 64) mod 64 = n mod (64 :: nat)"
  using mod_mult_self1 [of "n mod 64" 2 64] by (simp add: add.commute)

lemma div_join: "64 * (n div (64 * k)) + n div k mod 64 = n div (k :: nat)"
proof -
  have "n div (64 * k) = n div k div 64" by (metis div_mult2_eq mult.commute)
  then show ?thesis by (simp add: mult_div_mod_eq)
qed

lemma utf8_join3: "4096 * (n div 4096) + 64 * (n div 64 mod 64) + n mod 64 = (n :: nat)"
proof -
  have "64 * (n div 4096) + n div 64 mod 64 = n div 64" using div_join [of n 64] by simp
  then have "4096 * (n div 4096) + 64 * (n div 64 mod 64) = 64 * (n div 64)" by linarith
  then show ?thesis by simp
qed

lemma utf8_join4:
  "262144 * (n div 262144) + 4096 * (n div 4096 mod 64) + 64 * (n div 64 mod 64) + n mod 64 = (n :: nat)"
proof -
  have "64 * (n div 262144) + n div 4096 mod 64 = n div 4096" using div_join [of n 4096] by simp
  then have "262144 * (n div 262144) + 4096 * (n div 4096 mod 64) = 4096 * (n div 4096)" by linarith
  then show ?thesis using utf8_join3 [of n] by simp
qed

lemmas utf8_join = continuation_low utf8_join3 utf8_join4

lemma decode_encode:
  assumes "json_is_unicode_scalar cp"
  shows "json_decode_utf8_one (pre @ json_append_utf8 cp [] @ post) (length pre) =
    \<lparr>utf8_status = utf8_ok, utf8_codepoint = cp, utf8_length = length (json_append_utf8 cp [])\<rparr>"
proof -
  have max: "cp \<le> 0x10FFFF" using assms by (simp add: json_is_unicode_scalar_def)
  let ?text = "pre @ map char_of (utf8_bytes cp) @ post"
  have at: "byte (?text ! (length pre + i)) = utf8_bytes cp ! i" if "i < length (utf8_bytes cp)" for i
    using utf8_bytes_small [OF max nth_mem [OF that]] that by (simp add: nth_append)
  have at0: "byte (?text ! length pre) = utf8_bytes cp ! 0"
    using at [of 0] by (simp add: utf8_bytes_def split: if_splits)
  consider "cp \<le> 0x7F" | "0x7F < cp" "cp \<le> 0x7FF" | "0x7FF < cp" "cp \<le> 0xFFFF" | "0xFFFF < cp" by linarith
  then have "json_decode_utf8_one ?text (length pre) =
    \<lparr>utf8_status = utf8_ok, utf8_codepoint = cp, utf8_length = length (utf8_bytes cp)\<rparr>"
  proof cases
    case 1
    then show ?thesis using at0 by (simp add: json_decode_utf8_one_def utf8_bytes_def Let_def)
  next
    case 2
    have b: "utf8_bytes cp = [0xC0 + cp div 64, 0x80 + cp mod 64]" using 2 by (simp add: utf8_bytes_def)
    have d: "2 \<le> cp div 64" "cp div 64 < 32" using 2 by auto
    have lead: "utf8_lead (0xC0 + cp div 64) = Some (2, cp div 64, 0x80)"
      using d by (simp add: utf8_lead_def utf8_arith mod_add_eq [symmetric] flip: mod_add_eq)
    have "utf8_continue ?text (length pre) 2 1 (cp div 64) = Inr cp"
      using at [of 1] by (simp add: utf8_continue_step utf8_continue_done b utf8_join)
    then show ?thesis
      using at0 lead d b 2 assms by (simp add: json_decode_utf8_one_def Let_def)
  next
    case 3
    have b: "utf8_bytes cp = [0xE0 + cp div 4096, 0x80 + cp div 64 mod 64, 0x80 + cp mod 64]"
      using 3 by (simp add: utf8_bytes_def)
    have d: "cp div 4096 < 16" using 3 by auto
    have lead: "utf8_lead (0xE0 + cp div 4096) = Some (3, cp div 4096, 0x800)"
      using d by (simp add: utf8_lead_def utf8_arith flip: mod_add_eq)
    have "utf8_continue ?text (length pre) 3 1 (cp div 4096) = Inr cp"
      using at [of 1] at [of 2] by (simp add: utf8_continue_step utf8_continue_done b utf8_join numeral_3_eq_3)
    then show ?thesis
      using at0 lead d b 3 assms by (simp add: json_decode_utf8_one_def Let_def)
  next
    case 4
    have b: "utf8_bytes cp =
        [0xF0 + cp div 262144, 0x80 + cp div 4096 mod 64, 0x80 + cp div 64 mod 64, 0x80 + cp mod 64]"
      using 4 by (simp add: utf8_bytes_def)
    have d: "cp div 262144 \<le> 4" using max by auto
    have lead: "utf8_lead (0xF0 + cp div 262144) = Some (4, cp div 262144, 0x10000)"
      using d by (simp add: utf8_lead_def utf8_arith flip: mod_add_eq)
    have "utf8_continue ?text (length pre) 4 1 (cp div 262144) = Inr cp"
      using at [of "Suc 0"] at [of "Suc (Suc 0)"] at [of "Suc (Suc (Suc 0))"]
      by (simp add: utf8_continue_step utf8_continue_done b utf8_join)
    then show ?thesis
      using at0 lead d b 4 assms by (simp add: json_decode_utf8_one_def Let_def)
  qed
  then show ?thesis by (simp add: json_append_utf8_bytes [OF max])
qed

text \<open>Conversely, what the decoder accepts is an encoding.\<close>

lemma utf8_continue_range: "utf8_continue text off len i cp = Inl j \<Longrightarrow> i \<le> j \<and> j < len"
proof (induction "text" off len i cp rule: utf8_continue.induct)
  case (1 "text" off len i cp)
  then show ?case
    by (subst (asm) (2) utf8_continue.simps) (fastforce simp: Let_def split: if_splits)
qed

lemma low_six:
  assumes "z < 64"
  shows "(64 * a + z) div 64 = a" "(64 * a + z) mod 64 = (z :: nat)"
  using assms by simp_all

lemma utf8_bytes_two:
  assumes "2 \<le> x" "x < 32" "y < 64"
  shows "utf8_bytes (64 * x + y) = [0xC0 + x, 0x80 + y]"
  using assms by (auto simp: utf8_bytes_def)

lemma utf8_bytes_three:
  assumes "x < 16" "y < 64" "z < 64" "0x800 \<le> 64 * (64 * x + y) + z"
  shows "utf8_bytes (64 * (64 * x + y) + z) = [0xE0 + x, 0x80 + y, 0x80 + z]"
proof -
  let ?n = "64 * (64 * x + y) + z"
  have "?n div 64 = 64 * x + y" "?n mod 64 = z" by (rule low_six [OF assms(3)])+
  moreover have "?n div 4096 = ?n div 64 div 64" by (simp only: div_mult2_eq [symmetric]) simp
  moreover have "?n \<le> 0xFFFF" using assms by simp
  moreover have "(64 * x + y) div 64 = x" "(64 * x + y) mod 64 = y" by (rule low_six [OF assms(2)])+
  ultimately show ?thesis using assms(4) unfolding utf8_bytes_def by simp
qed

lemma utf8_bytes_four:
  assumes "x < 8" "y < 64" "z < 64" "w < 64" "0x10000 \<le> 64 * (64 * (64 * x + y) + z) + w"
  shows "utf8_bytes (64 * (64 * (64 * x + y) + z) + w) = [0xF0 + x, 0x80 + y, 0x80 + z, 0x80 + w]"
proof -
  let ?n = "64 * (64 * (64 * x + y) + z) + w"
  have "?n div 64 = 64 * (64 * x + y) + z" "?n mod 64 = w" by (rule low_six [OF assms(4)])+
  moreover have "?n div 4096 = ?n div 64 div 64" "?n div 262144 = ?n div 64 div 64 div 64"
    by (simp_all only: div_mult2_eq [symmetric]) simp_all
  moreover have "(64 * (64 * x + y) + z) div 64 = 64 * x + y" "(64 * (64 * x + y) + z) mod 64 = z"
    "(64 * x + y) div 64 = x" "(64 * x + y) mod 64 = y" by (rule low_six [OF assms(3)] low_six [OF assms(2)])+
  ultimately show ?thesis using assms(5) unfolding utf8_bytes_def by simp
qed

lemma utf8_lead_Some:
  assumes "utf8_lead b = Some (len, start, minimum)" "b < 256"
  obtains "len = 2" "start < 32" "2 \<le> start" "b = 0xC0 + start" "minimum = 0x80"
  | "len = 3" "start < 16" "b = 0xE0 + start" "minimum = 0x800"
  | "len = 4" "start < 8" "b = 0xF0 + start" "minimum = 0x10000"
proof -
  have "b mod 32 = b - 0xC0" if "0xC2 \<le> b" "b \<le> 0xDF" using that mod_mult_self1 [of "b - 0xC0" 6 32] by simp
  moreover have "b mod 16 = b - 0xE0" if "0xE0 \<le> b" "b \<le> 0xEF" using that mod_mult_self1 [of "b - 0xE0" 14 16] by simp
  moreover have "b mod 8 = b - 0xF0" if "0xF0 \<le> b" "b \<le> 0xF4" using that mod_mult_self1 [of "b - 0xF0" 30 8] by simp
  ultimately show thesis
    using assms(1) that by (auto simp: utf8_lead_def utf8_arith split: if_splits)
qed

lemma continuation_value: "0x80 \<le> b \<Longrightarrow> b < 0xC0 \<Longrightarrow> 0x80 + b mod 64 = (b :: nat)"
  using mod_mult_self1 [of "b - 0x80" 2 64] by simp

lemma decode_sound:
  assumes "json_decode_utf8_one text off = \<lparr>utf8_status = utf8_ok, utf8_codepoint = cp, utf8_length = len\<rparr>"
  shows "json_is_unicode_scalar cp \<and> 0 < len \<and> off + len \<le> length text \<and>
    take len (drop off text) = json_append_utf8 cp []"
proof -
  let ?b = "\<lambda>i. byte (text ! (off + i))"
  have off: "off < length text"
    using assms by (auto simp: json_decode_utf8_one_def split: if_splits)
  have chars: "map char_of (map ?b is) = map (\<lambda>i. text ! (off + i)) is" for "is" by simp
  show ?thesis
  proof (cases "?b 0 \<le> 0x7F")
    case True
    then have "cp = ?b 0" "len = 1"
      using assms off by (auto simp: json_decode_utf8_one_def Let_def)
    then show ?thesis
      using True off by (simp add: json_append_utf8_def json_is_unicode_scalar_def json_is_surrogate_def take_Suc
          hd_drop_conv_nth)
  next
    case False
    obtain start minimum where lead: "utf8_lead (?b 0) = Some (len, start, minimum)"
      and bound: "off + len \<le> length text" and loop: "utf8_continue text off len 1 start = Inr cp"
      and cp: "minimum \<le> cp" "json_is_unicode_scalar cp"
      using assms off False
      by (auto simp: json_decode_utf8_one_def Let_def split: if_splits option.splits sum.splits prod.splits)
    have max: "cp \<le> 0x10FFFF" using cp(2) by (simp add: json_is_unicode_scalar_def)
    have "?b 0 < 256" by simp
    with lead have "utf8_bytes cp = map ?b [0..<len] \<and> 0 < len"
    proof (cases rule: utf8_lead_Some)
      case 1
      then have "cp = 64 * start + ?b 1 mod 64" "0x80 \<le> ?b 1" "?b 1 < 0xC0"
        using loop by (simp_all add: utf8_continue_step utf8_continue_done split: if_splits)
      then show ?thesis
        using utf8_bytes_two [OF 1(3,2), of "?b 1 mod 64"] 1 continuation_value [of "?b 1"]
        by (simp add: numeral_2_eq_2)
    next
      case 2
      have l: "cp = 64 * (64 * start + ?b 1 mod 64) + ?b 2 mod 64"
        "0x80 \<le> ?b 1" "?b 1 < 0xC0" "0x80 \<le> ?b 2" "?b 2 < 0xC0"
        using loop 2(1) by (simp_all add: utf8_continue_step utf8_continue_done numeral_2_eq_2 split: if_splits)
      have "utf8_bytes cp = [0xE0 + start, 0x80 + ?b 1 mod 64, 0x80 + ?b 2 mod 64]"
        unfolding l(1) by (rule utf8_bytes_three [OF 2(2)]) (use cp(1) 2(4) l(1) in simp_all)
      then show ?thesis
        using 2 continuation_value [OF l(2,3)] continuation_value [OF l(4,5)] by (simp add: upt_rec)
    next
      case 3
      have l: "cp = 64 * (64 * (64 * start + ?b 1 mod 64) + ?b 2 mod 64) + ?b 3 mod 64"
        "0x80 \<le> ?b 1" "?b 1 < 0xC0" "0x80 \<le> ?b 2" "?b 2 < 0xC0" "0x80 \<le> ?b 3" "?b 3 < 0xC0"
        using loop 3(1) by (simp_all add: utf8_continue_step utf8_continue_done numeral_2_eq_2 numeral_3_eq_3 split: if_splits)
      have "utf8_bytes cp = [0xF0 + start, 0x80 + ?b 1 mod 64, 0x80 + ?b 2 mod 64, 0x80 + ?b 3 mod 64]"
        unfolding l(1) by (rule utf8_bytes_four [OF 3(2)]) (use cp(1) 3(4) l(1) in simp_all)
      then show ?thesis
        using 3 continuation_value [OF l(2,3)] continuation_value [OF l(4,5)] continuation_value [OF l(6,7)]
        by (simp add: upt_rec numeral_3_eq_3)
    qed
    moreover have "take len (drop off text) = map (\<lambda>i. text ! (off + i)) [0..<len]"
      using bound by (simp add: list_eq_iff_nth_eq)
    ultimately show ?thesis
      using cp(2) bound by (simp add: json_append_utf8_bytes [OF max])
  qed
qed

lemma decode_ok_shape:
  assumes "utf8_status (json_decode_utf8_one text off) = utf8_ok"
  obtains cp len where "json_decode_utf8_one text off = \<lparr>utf8_status = utf8_ok, utf8_codepoint = cp, utf8_length = len\<rparr>"
  using assms by (cases "json_decode_utf8_one text off") auto

text \<open>The extent the decoder reports, whatever the outcome, stays inside the text.\<close>

lemma decode_length:
  assumes "off < length text"
  shows "off + max (utf8_length (json_decode_utf8_one text off)) 1 \<le> length text"
proof -
  have lead: "utf8_lead b = Some (len, start, minimum) \<Longrightarrow> 1 \<le> len" for b len start minimum
    by (auto simp: utf8_lead_def split: if_splits)
  show ?thesis
    using assms
    by (auto simp: json_decode_utf8_one_def Let_def max_def dest!: utf8_continue_range lead
        split: option.splits prod.splits sum.splits)
qed

section \<open>Properties\<close>

text \<open>\<^bold>\<open>C21.\<close>
  The UTF-8 decoder accepts exactly the encodings of Unicode scalar values: at a position it
  returns success with a code point and a length if and only if the code point is a scalar value
  and the bytes there are its encoding, of that length. No overlong form, surrogate, truncated
  sequence or stray byte is accepted, and decoding inverts encoding.\<close>

theorem utf8_decode_iff:
  "json_decode_utf8_one text off = \<lparr>utf8_status = utf8_ok, utf8_codepoint = cp, utf8_length = len\<rparr> \<longleftrightarrow>
     json_is_unicode_scalar cp \<and> off + len \<le> length text \<and> len = length (json_append_utf8 cp []) \<and>
     take len (drop off text) = json_append_utf8 cp []"
proof
  assume d: "json_decode_utf8_one text off = \<lparr>utf8_status = utf8_ok, utf8_codepoint = cp, utf8_length = len\<rparr>"
  have "length (take len (drop off text)) = len"
    using decode_sound [OF d, THEN conjunct2, THEN conjunct2, THEN conjunct1] by simp
  then show "json_is_unicode_scalar cp \<and> off + len \<le> length text \<and> len = length (json_append_utf8 cp []) \<and>
     take len (drop off text) = json_append_utf8 cp []"
    using decode_sound [OF d] by metis
next
  assume e: "json_is_unicode_scalar cp \<and> off + len \<le> length text \<and> len = length (json_append_utf8 cp []) \<and>
     take len (drop off text) = json_append_utf8 cp []"
  then have "text = take off text @ json_append_utf8 cp [] @ drop len (drop off text)"
    by (metis append_take_drop_id)
  moreover have "length (take off text) = off" using e by simp
  ultimately show "json_decode_utf8_one text off = \<lparr>utf8_status = utf8_ok, utf8_codepoint = cp, utf8_length = len\<rparr>"
    using decode_encode [of cp "take off text" "drop len (drop off text)"] e by simp
qed

end
