(* ===== verification/Json_Parser.thy ===== *)
theory Json_Parser
  imports Json_Unicode
begin

text \<open>
  The streaming JSON-with-comments parser of \<^verbatim>\<open>server_engine/json/json_parser.cpp\<close>, member function
  by member function. The handler is the list of events it received, so \<open>js_events\<close> only grows;
  \<open>js_position\<close> is the read position. The scanners that emit no event return \<open>Inl\<close> with the
  recorded failure or \<open>Inr\<close> with the new position; the others return the failure, if any, with the
  state reached. The scratch string is a result instead of a member. The three mutually recursive
  parsers take fuel: \<open>None\<close> is "out of fuel", and \<open>json_parse_total\<close> shows that the fuel
  \<open>parse_json\<close> passes, three times the input length plus four, is always enough. Failed
  allocations and throwing handlers, which \<^verbatim>\<open>parse_json\<close> turns into \<^verbatim>\<open>internal_failure\<close>, are
  not modelled.
\<close>

section \<open>Data\<close>

datatype json_error_code =
  json_none | json_unexpected_end | json_unexpected_token | json_invalid_string | json_invalid_escape
| json_invalid_unicode | json_invalid_utf8 | json_invalid_number | json_unterminated_comment
| json_nesting_too_deep | json_internal_failure

record json_parse_result =
  res_code :: json_error_code
  res_offset :: nat
  res_length :: nat

datatype json_value_kind = json_string | json_integer | json_number | json_boolean | json_null_value

record json_value_view =
  jv_kind :: json_value_kind
  jv_text :: string
  jv_boolean :: bool

datatype json_event =
  ev_location nat nat | ev_object_begin | ev_object_end | ev_array_begin | ev_array_end
| ev_key string | ev_value json_value_view

record json_state =
  js_position :: nat
  js_events :: "json_event list"

definition json_max_depth :: nat where "json_max_depth = 64"

abbreviation json_fail :: "json_error_code \<Rightarrow> nat \<Rightarrow> nat \<Rightarrow> json_parse_result" where
  "json_fail code off len \<equiv> \<lparr>res_code = code, res_offset = off, res_length = len\<rparr>"

abbreviation chr :: "nat \<Rightarrow> char" where
  "chr n \<equiv> char_of n"

section \<open>Scanners\<close>

definition json_consume :: "string \<Rightarrow> char \<Rightarrow> nat \<Rightarrow> nat option" where
  "json_consume text c pos = (if pos < length text \<and> text ! pos = c then Some (pos + 1) else None)"

definition json_skip_bom :: "string \<Rightarrow> nat" where
  "json_skip_bom text =
     (if length text \<ge> 3 \<and> byte (text ! 0) = 0xEF \<and> byte (text ! 1) = 0xBB \<and> byte (text ! 2) = 0xBF
      then 3 else 0)"

function json_skip_line :: "string \<Rightarrow> nat \<Rightarrow> nat" where
  "json_skip_line text pos =
     (if pos < length text \<and> byte (text ! pos) \<noteq> 13 \<and> byte (text ! pos) \<noteq> 10
      then json_skip_line text (pos + 1) else pos)"
  by pat_completeness auto
termination by (relation "measure (\<lambda>(t, p). length t - p)") auto

text \<open>\<open>None\<close> is a comment that is not closed.\<close>

function json_close_comment :: "string \<Rightarrow> nat \<Rightarrow> nat option" where
  "json_close_comment text pos =
     (if pos + 1 < length text
      then (if text ! pos = CHR ''*'' \<and> text ! (pos + 1) = CHR ''/'' then Some (pos + 2)
            else json_close_comment text (pos + 1))
      else None)"
  by pat_completeness auto
termination by (relation "measure (\<lambda>(t, p). length t - p)") auto

declare json_skip_line.simps [simp del] json_close_comment.simps [simp del]

lemma json_skip_line_bounds: "pos \<le> json_skip_line text pos"
proof (induction "text" pos rule: json_skip_line.induct)
  case (1 "text" pos)
  then show ?case by (subst json_skip_line.simps) auto
qed

lemma json_close_comment_bounds: "json_close_comment text pos = Some p \<Longrightarrow> pos < p \<and> p \<le> length text"
proof (induction "text" pos rule: json_close_comment.induct)
  case (1 "text" pos)
  then show ?case by (subst (asm) (2) json_close_comment.simps) (fastforce split: if_splits)
qed

function json_skip_trivia :: "string \<Rightarrow> nat \<Rightarrow> json_parse_result + nat" where
  "json_skip_trivia text pos =
     (if pos < length text
      then
        if json_is_space (text ! pos) then json_skip_trivia text (pos + 1)
        else if text ! pos \<noteq> CHR ''/'' \<or> pos + 1 \<ge> length text then Inr pos
        else if text ! (pos + 1) = CHR ''/'' then json_skip_trivia text (json_skip_line text (pos + 2))
        else if text ! (pos + 1) = CHR ''*'' then
          (case json_close_comment text (pos + 2) of
             None \<Rightarrow> Inl (json_fail json_unterminated_comment pos (length text - pos))
           | Some p \<Rightarrow> json_skip_trivia text p)
        else Inr pos
      else Inr pos)"
  by pat_completeness auto
termination
proof (relation "measure (\<lambda>(t, p). length t - p)", goal_cases)
  case (3 "text" pos)
  then show ?case using json_skip_line_bounds [of "pos + 2" "text"] by auto
next
  case (4 "text" pos p)
  then show ?case using json_close_comment_bounds [of "text" "pos + 2" p] by auto
qed auto

declare json_skip_trivia.simps [simp del]

text \<open>\<open>n\<close> hexadecimal digits; the failure is at the offending digit.\<close>

fun json_hex_digits :: "string \<Rightarrow> nat \<Rightarrow> nat \<Rightarrow> nat \<Rightarrow> json_parse_result + nat \<times> nat" where
  "json_hex_digits text 0 pos out = Inr (out, pos)"
| "json_hex_digits text (Suc n) pos out =
     (let digit = json_hex_value (text ! pos)
      in if digit < 0 then Inl (json_fail json_invalid_unicode pos 1)
         else json_hex_digits text n (pos + 1) (push_bit 4 out OR nat digit))"

definition json_parse_hex4 :: "string \<Rightarrow> nat \<Rightarrow> json_parse_result + nat \<times> nat" where
  "json_parse_hex4 text pos =
     (if pos + 4 > length text then Inl (json_fail json_unexpected_end pos (length text - pos))
      else json_hex_digits text 4 pos 0)"

definition json_parse_unicode_escape :: "string \<Rightarrow> nat \<Rightarrow> nat \<Rightarrow> string \<Rightarrow> json_parse_result + nat \<times> string" where
  "json_parse_unicode_escape text escape_offset pos scratch =
     (case json_parse_hex4 text pos of
        Inl e \<Rightarrow> Inl e
      | Inr (first, pos1) \<Rightarrow>
          if json_is_high_surrogate first
          then
            if pos1 + 2 > length text \<or> text ! pos1 \<noteq> chr 92 \<or> text ! (pos1 + 1) \<noteq> CHR ''u''
            then Inl (json_fail json_invalid_unicode escape_offset (pos1 - escape_offset))
            else case json_parse_hex4 text (pos1 + 2) of
                Inl e \<Rightarrow> Inl e
              | Inr (second, pos2) \<Rightarrow>
                  if \<not> json_is_low_surrogate second
                  then Inl (json_fail json_invalid_unicode escape_offset (pos2 - escape_offset))
                  else Inr (pos2, json_append_utf8
                    (0x10000 + push_bit 10 (first - 0xD800) + (second - 0xDC00)) scratch)
          else if json_is_low_surrogate first
          then Inl (json_fail json_invalid_unicode escape_offset (pos1 - escape_offset))
          else Inr (pos1, json_append_utf8 first scratch))"

text \<open>The character a simple escape stands for.\<close>

definition json_simple_escape :: "char \<Rightarrow> char option" where
  "json_simple_escape c =
     (if c = chr 34 then Some (chr 34) else if c = chr 92 then Some (chr 92)
      else if c = CHR ''/'' then Some (CHR ''/'') else if c = CHR ''b'' then Some (chr 8)
      else if c = CHR ''f'' then Some (chr 12) else if c = CHR ''n'' then Some (chr 10)
      else if c = CHR ''r'' then Some (chr 13) else if c = CHR ''t'' then Some (chr 9) else None)"

lemma json_hex_digits_bounds: "json_hex_digits text n pos out = Inr (v, p) \<Longrightarrow> p = pos + n"
  by (induction "text" n pos out rule: json_hex_digits.induct) (auto simp: Let_def split: if_splits)

lemma json_parse_hex4_bounds: "json_parse_hex4 text pos = Inr (v, p) \<Longrightarrow> p = pos + 4 \<and> p \<le> length text"
  by (auto simp: json_parse_hex4_def dest: json_hex_digits_bounds split: if_splits)

lemma json_parse_unicode_escape_bounds:
  "json_parse_unicode_escape text eo pos s = Inr (p, s') \<Longrightarrow> pos < p \<and> p \<le> length text"
  by (auto simp: json_parse_unicode_escape_def dest!: json_parse_hex4_bounds split: sum.splits prod.splits if_splits)

text \<open>The loop of \<^verbatim>\<open>parse_decoded_string\<close> after the opening quote.\<close>

function json_string_loop :: "string \<Rightarrow> nat \<Rightarrow> string \<Rightarrow> json_parse_result + nat \<times> string" where
  "json_string_loop text pos scratch =
     (if pos < length text
      then
        let b = byte (text ! pos)
        in if b = 34 then Inr (pos + 1, scratch)
           else if b < 0x20 then Inl (json_fail json_invalid_string pos 1)
           else if b = 92 then
             if pos + 1 \<ge> length text then Inl (json_fail json_unexpected_end (pos + 1) 0)
             else
               let escape = text ! (pos + 1)
               in case json_simple_escape escape of
                   Some c \<Rightarrow> json_string_loop text (pos + 2) (scratch @ [c])
                 | None \<Rightarrow>
                     if escape = CHR ''u'' then
                       case json_parse_unicode_escape text pos (pos + 2) scratch of
                         Inl e \<Rightarrow> Inl e
                       | Inr (p, scratch') \<Rightarrow> json_string_loop text p scratch'
                     else Inl (json_fail json_invalid_escape pos 2)
           else if b \<le> 0x7F then json_string_loop text (pos + 1) (scratch @ [text ! pos])
           else
             let decoded = json_decode_utf8_one text pos
             in if utf8_status decoded \<noteq> utf8_ok
                then Inl (json_fail json_invalid_utf8 pos (max (utf8_length decoded) 1))
                else json_string_loop text (pos + utf8_length decoded)
                  (scratch @ text_slice text pos (utf8_length decoded))
      else Inl (json_fail json_unexpected_end pos 0))"
  by pat_completeness auto
termination
proof (relation "measure (\<lambda>(t, p, _). length t - p)", goal_cases)
  case (5 "text" pos scratch)
  then show ?case
    using decode_ok_shape [of "text" pos] decode_sound [of "text" pos] by (metis (no_types, lifting)
      case_prod_conv diff_less_mono2 in_measure json_utf8_result.select_convs(3) less_add_same_cancel1)
qed (auto dest!: json_parse_unicode_escape_bounds)

declare json_string_loop.simps [simp del]

definition json_parse_decoded_string :: "string \<Rightarrow> nat \<Rightarrow> json_parse_result + nat \<times> string" where
  "json_parse_decoded_string text pos =
     (case json_consume text (chr 34) pos of
        None \<Rightarrow> Inl (json_fail json_unexpected_token pos (if pos < length text then 1 else 0))
      | Some p \<Rightarrow> json_string_loop text p [])"

function json_skip_digits :: "string \<Rightarrow> nat \<Rightarrow> nat" where
  "json_skip_digits text pos =
     (if pos < length text \<and> json_is_digit (text ! pos) then json_skip_digits text (pos + 1) else pos)"
  by pat_completeness auto
termination by (relation "measure (\<lambda>(t, p). length t - p)") auto

declare json_skip_digits.simps [simp del]

abbreviation at_digit :: "string \<Rightarrow> nat \<Rightarrow> bool" where
  "at_digit text pos \<equiv> pos < length text \<and> json_is_digit (text ! pos)"

text \<open>The number token: sign, integer part, fraction, exponent.\<close>

definition json_number_int :: "string \<Rightarrow> nat \<Rightarrow> nat \<Rightarrow> json_parse_result + nat" where
  "json_number_int text begin_pos pos =
     (case json_consume text (CHR ''0'') pos of
        Some p \<Rightarrow> if at_digit text p then Inl (json_fail json_invalid_number begin_pos (p - begin_pos + 1)) else Inr p
      | None \<Rightarrow>
          if \<not> at_digit text pos then Inl (json_fail json_invalid_number begin_pos (max (pos - begin_pos) 1))
          else Inr (json_skip_digits text pos))"

definition json_number_frac :: "string \<Rightarrow> nat \<Rightarrow> nat \<Rightarrow> json_parse_result + nat \<times> bool" where
  "json_number_frac text begin_pos pos =
     (case json_consume text (CHR ''.'') pos of
        None \<Rightarrow> Inr (pos, True)
      | Some p \<Rightarrow>
          if \<not> at_digit text p then Inl (json_fail json_invalid_number begin_pos (p - begin_pos))
          else Inr (json_skip_digits text p, False))"

definition json_number_exp :: "string \<Rightarrow> nat \<Rightarrow> nat \<Rightarrow> bool \<Rightarrow> json_parse_result + nat \<times> bool" where
  "json_number_exp text begin_pos pos integer =
     (if pos < length text \<and> (text ! pos = CHR ''e'' \<or> text ! pos = CHR ''E'')
      then
        let p = pos + 1;
            q = (if p < length text \<and> (text ! p = CHR ''+'' \<or> text ! p = CHR ''-'') then p + 1 else p)
        in if \<not> at_digit text q then Inl (json_fail json_invalid_number begin_pos (q - begin_pos))
           else Inr (json_skip_digits text q, False)
      else Inr (pos, integer))"

definition json_scan_number :: "string \<Rightarrow> nat \<Rightarrow> json_parse_result + nat \<times> bool" where
  "json_scan_number text begin_pos =
     (let minus = json_consume text (CHR ''-'') begin_pos;
          pos = (case minus of Some p \<Rightarrow> p | None \<Rightarrow> begin_pos)
      in if minus \<noteq> None \<and> pos \<ge> length text
         then Inl (json_fail json_invalid_number begin_pos (pos - begin_pos))
         else case json_number_int text begin_pos pos of
             Inl e \<Rightarrow> Inl e
           | Inr p1 \<Rightarrow>
               (case json_number_frac text begin_pos p1 of
                  Inl e \<Rightarrow> Inl e
                | Inr (p2, integer) \<Rightarrow> json_number_exp text begin_pos p2 integer))"

section \<open>Values\<close>

type_synonym json_step = "json_parse_result option \<times> json_state"

definition json_emit :: "json_state \<Rightarrow> nat \<Rightarrow> json_event list \<Rightarrow> json_state" where
  "json_emit st pos evs = st\<lparr>js_position := pos, js_events := js_events st @ evs\<rparr>"

definition json_parse_string_value :: "string \<Rightarrow> json_state \<Rightarrow> json_step" where
  "json_parse_string_value text st =
     (let begin_pos = js_position st
      in case json_parse_decoded_string text begin_pos of
          Inl e \<Rightarrow> (Some e, st)
        | Inr (p, scratch) \<Rightarrow>
            (None, json_emit st p [ev_location begin_pos (p - begin_pos),
               ev_value \<lparr>jv_kind = json_string, jv_text = scratch, jv_boolean = False\<rparr>]))"

definition json_parse_number :: "string \<Rightarrow> json_state \<Rightarrow> json_step" where
  "json_parse_number text st =
     (let begin_pos = js_position st
      in case json_scan_number text begin_pos of
          Inl e \<Rightarrow> (Some e, st)
        | Inr (p, integer) \<Rightarrow>
            let token = text_slice text begin_pos (p - begin_pos)
            in (None, json_emit st p [ev_location begin_pos (length token),
                 ev_value \<lparr>jv_kind = (if integer then json_integer else json_number),
                           jv_text = token, jv_boolean = False\<rparr>]))"

definition json_parse_literal :: "string \<Rightarrow> string \<Rightarrow> json_value_view \<Rightarrow> json_state \<Rightarrow> json_step" where
  "json_parse_literal text literal v st =
     (let begin_pos = js_position st
      in if text_slice text begin_pos (length literal) \<noteq> literal
         then (Some (json_fail json_unexpected_token begin_pos 1), st)
         else (None, json_emit st (begin_pos + length literal)
                [ev_location begin_pos (length literal), ev_value v]))"

text \<open>\<open>if (!f()) return false;\<close>, and the same for \<open>skip_trivia\<close>.\<close>

definition json_then :: "json_step option \<Rightarrow> (json_state \<Rightarrow> json_step option) \<Rightarrow> json_step option" where
  "json_then r k =
     (case r of
        None \<Rightarrow> None
      | Some (Some e, st) \<Rightarrow> Some (Some e, st)
      | Some (None, st) \<Rightarrow> k st)"

definition json_trivia :: "string \<Rightarrow> json_state \<Rightarrow> json_step option" where
  "json_trivia text st =
     Some (case json_skip_trivia text (js_position st) of
        Inl e \<Rightarrow> (Some e, st)
      | Inr p \<Rightarrow> (None, st\<lparr>js_position := p\<rparr>))"

type_synonym json_parser = "string \<Rightarrow> nat \<Rightarrow> json_state \<Rightarrow> json_step option"

text \<open>
  The bodies of the member functions; the functions they call are their first arguments.
\<close>

definition json_value_body :: "json_parser \<Rightarrow> json_parser \<Rightarrow> json_parser" where
  "json_value_body parse_object parse_array text depth st =
     json_then (json_trivia text st) (\<lambda>st.
       let pos = js_position st
       in if pos \<ge> length text then Some (Some (json_fail json_unexpected_end pos 0), st)
          else
            let c = text ! pos
            in if c = CHR ''{'' then parse_object text depth st
               else if c = CHR ''['' then parse_array text depth st
               else if c = chr 34 then Some (json_parse_string_value text st)
               else if c = CHR ''t'' then Some (json_parse_literal text ''true''
                 \<lparr>jv_kind = json_boolean, jv_text = [], jv_boolean = True\<rparr> st)
               else if c = CHR ''f'' then Some (json_parse_literal text ''false''
                 \<lparr>jv_kind = json_boolean, jv_text = [], jv_boolean = False\<rparr> st)
               else if c = CHR ''n'' then Some (json_parse_literal text ''null''
                 \<lparr>jv_kind = json_null_value, jv_text = [], jv_boolean = False\<rparr> st)
               else if c = CHR ''-'' \<or> json_is_digit c then Some (json_parse_number text st)
               else Some (Some (json_fail json_unexpected_token pos 1), st))"

definition json_object_body :: "json_parser \<Rightarrow> json_parser" where
  "json_object_body parse_members text depth st =
     (let pos = js_position st
      in if depth \<ge> json_max_depth then Some (Some (json_fail json_nesting_too_deep pos 1), st)
         else json_then (json_trivia text (json_emit st (pos + 1) [ev_location pos 1, ev_object_begin])) (\<lambda>st.
           case json_consume text (CHR ''}'') (js_position st) of
             Some p \<Rightarrow> Some (None, json_emit st p [ev_object_end])
           | None \<Rightarrow> parse_members text depth st))"

definition json_members_body :: "json_parser \<Rightarrow> json_parser \<Rightarrow> json_parser" where
  "json_members_body parse_value parse_members text depth st =
     json_then (json_trivia text st) (\<lambda>st.
       let key_begin = js_position st
       in if key_begin \<ge> length text then Some (Some (json_fail json_unexpected_end key_begin 0), st)
          else if text ! key_begin \<noteq> chr 34 then Some (Some (json_fail json_unexpected_token key_begin 1), st)
          else case json_parse_decoded_string text key_begin of
              Inl e \<Rightarrow> Some (Some e, st)
            | Inr (p, scratch) \<Rightarrow>
                json_then (json_trivia text (json_emit st p [ev_location key_begin (p - key_begin), ev_key scratch]))
                  (\<lambda>st.
                    case json_consume text (CHR '':'') (js_position st) of
                      None \<Rightarrow> Some (Some (json_fail json_unexpected_token (js_position st)
                        (if js_position st < length text then 1 else 0)), st)
                    | Some p \<Rightarrow>
                        json_then (parse_value text (depth + 1) (st\<lparr>js_position := p\<rparr>)) (\<lambda>st.
                          json_then (json_trivia text st) (\<lambda>st.
                            case json_consume text (CHR ''}'') (js_position st) of
                              Some p \<Rightarrow> Some (None, json_emit st p [ev_object_end])
                            | None \<Rightarrow>
                                (case json_consume text (CHR '','') (js_position st) of
                                   None \<Rightarrow> Some (Some (json_fail json_unexpected_token (js_position st)
                                     (if js_position st < length text then 1 else 0)), st)
                                 | Some p \<Rightarrow> parse_members text depth (st\<lparr>js_position := p\<rparr>))))))"

definition json_array_body :: "json_parser \<Rightarrow> json_parser" where
  "json_array_body parse_elements text depth st =
     (let pos = js_position st
      in if depth \<ge> json_max_depth then Some (Some (json_fail json_nesting_too_deep pos 1), st)
         else json_then (json_trivia text (json_emit st (pos + 1) [ev_location pos 1, ev_array_begin])) (\<lambda>st.
           case json_consume text (CHR '']'') (js_position st) of
             Some p \<Rightarrow> Some (None, json_emit st p [ev_array_end])
           | None \<Rightarrow> parse_elements text depth st))"

definition json_elements_body :: "json_parser \<Rightarrow> json_parser \<Rightarrow> json_parser" where
  "json_elements_body parse_value parse_elements text depth st =
     json_then (parse_value text (depth + 1) st) (\<lambda>st.
       json_then (json_trivia text st) (\<lambda>st.
         case json_consume text (CHR '']'') (js_position st) of
           Some p \<Rightarrow> Some (None, json_emit st p [ev_array_end])
         | None \<Rightarrow>
             (case json_consume text (CHR '','') (js_position st) of
                None \<Rightarrow> Some (Some (json_fail json_unexpected_token (js_position st)
                  (if js_position st < length text then 1 else 0)), st)
              | Some p \<Rightarrow> parse_elements text depth (st\<lparr>js_position := p\<rparr>))))"

fun json_parse_value :: "nat \<Rightarrow> json_parser"
  and json_parse_object :: "nat \<Rightarrow> json_parser"
  and json_parse_members :: "nat \<Rightarrow> json_parser"
  and json_parse_array :: "nat \<Rightarrow> json_parser"
  and json_parse_elements :: "nat \<Rightarrow> json_parser" where
  "json_parse_value 0 = (\<lambda>text depth st. None)"
| "json_parse_value (Suc fuel) = json_value_body (json_parse_object fuel) (json_parse_array fuel)"
| "json_parse_object 0 = (\<lambda>text depth st. None)"
| "json_parse_object (Suc fuel) = json_object_body (json_parse_members fuel)"
| "json_parse_members 0 = (\<lambda>text depth st. None)"
| "json_parse_members (Suc fuel) = json_members_body (json_parse_value fuel) (json_parse_members fuel)"
| "json_parse_array 0 = (\<lambda>text depth st. None)"
| "json_parse_array (Suc fuel) = json_array_body (json_parse_elements fuel)"
| "json_parse_elements 0 = (\<lambda>text depth st. None)"
| "json_parse_elements (Suc fuel) = json_elements_body (json_parse_value fuel) (json_parse_elements fuel)"

text \<open>The same equations with all their arguments, so that evaluation unfolds a call only when it is made.\<close>

lemmas json_parse_code [code] = json_parse_value.simps [THEN fun_cong, THEN fun_cong, THEN fun_cong]
  json_parse_object.simps [THEN fun_cong, THEN fun_cong, THEN fun_cong]
  json_parse_members.simps [THEN fun_cong, THEN fun_cong, THEN fun_cong]
  json_parse_array.simps [THEN fun_cong, THEN fun_cong, THEN fun_cong]
  json_parse_elements.simps [THEN fun_cong, THEN fun_cong, THEN fun_cong]

definition json_run :: "nat \<Rightarrow> string \<Rightarrow> json_step option" where
  "json_run fuel text =
     json_then (json_trivia text \<lparr>js_position = json_skip_bom text, js_events = []\<rparr>) (\<lambda>st.
       if js_position st \<ge> length text
       then Some (Some (json_fail json_unexpected_end (js_position st) 0), st)
       else json_then (json_parse_value fuel text 0 st) (\<lambda>st.
         json_then (json_trivia text st) (\<lambda>st.
           if js_position st \<noteq> length text
           then Some (Some (json_fail json_unexpected_token (js_position st) 1), st)
           else Some (None, st))))"

definition json_fuel :: "string \<Rightarrow> nat" where
  "json_fuel text = 3 * length text + 4"

definition parse_json :: "string \<Rightarrow> (json_parse_result \<times> json_event list) option" where
  "parse_json text =
     map_option (\<lambda>(failure, st).
         (case failure of None \<Rightarrow> \<lparr>res_code = json_none, res_offset = 0, res_length = 0\<rparr> | Some e \<Rightarrow> e,
          js_events st))
       (json_run (json_fuel text) text)"

section \<open>Termination and error extents\<close>

definition json_error_ok :: "string \<Rightarrow> json_parse_result \<Rightarrow> bool" where
  "json_error_ok text e \<longleftrightarrow> res_code e \<noteq> json_none \<and> res_offset e + res_length e \<le> length text"

text \<open>A step that returns, either at a position of at least \<open>lo\<close> or with an error inside the text.\<close>

definition json_good :: "string \<Rightarrow> nat \<Rightarrow> json_step option \<Rightarrow> bool" where
  "json_good text lo r \<longleftrightarrow>
     (\<exists>f st'. r = Some (f, st') \<and>
        (case f of None \<Rightarrow> lo \<le> js_position st' \<and> js_position st' \<le> length text
         | Some e \<Rightarrow> json_error_ok text e))"

named_theorems json_good_intro \<open>introduction rules for the steps of the parser\<close>

lemma json_good_fail [json_good_intro]:
  "code \<noteq> json_none \<Longrightarrow> off + len \<le> length text \<Longrightarrow> json_good text lo (Some (Some (json_fail code off len), st))"
  by (simp add: json_good_def json_error_ok_def)

lemma json_good_done [json_good_intro]:
  "lo \<le> js_position st \<Longrightarrow> js_position st \<le> length text \<Longrightarrow> json_good text lo (Some (None, st))"
  by (simp add: json_good_def)

lemma json_good_then:
  assumes "json_good text lo1 r"
    "\<And>st'. lo1 \<le> js_position st' \<Longrightarrow> js_position st' \<le> length text \<Longrightarrow> json_good text lo (k st')"
  shows "json_good text lo (json_then r k)"
proof -
  obtain f st' where r: "r = Some (f, st')"
    "case f of None \<Rightarrow> lo1 \<le> js_position st' \<and> js_position st' \<le> length text | Some e \<Rightarrow> json_error_ok text e"
    using assms(1) by (auto simp: json_good_def)
  show ?thesis
  proof (cases f)
    case None
    then show ?thesis using r assms(2) [of st'] by (simp add: json_then_def)
  next
    case (Some e)
    then show ?thesis using r by (simp add: json_then_def json_good_def)
  qed
qed

lemma json_emit_position [simp]: "js_position (json_emit st pos evs) = pos"
  by (simp add: json_emit_def)

lemma json_skip_line_le: "pos \<le> length text \<Longrightarrow> json_skip_line text pos \<le> length text"
proof (induction "text" pos rule: json_skip_line.induct)
  case (1 "text" pos)
  then show ?case by (subst json_skip_line.simps) auto
qed

lemma json_is_space_slash [simp]: "\<not> json_is_space (CHR ''/'')"
  by (simp add: json_is_space_def)

definition json_trivia_ok :: "string \<Rightarrow> nat \<Rightarrow> json_parse_result + nat \<Rightarrow> bool" where
  "json_trivia_ok text lo r =
     (case r of Inl e \<Rightarrow> json_error_ok text e | Inr p \<Rightarrow> lo \<le> p \<and> p \<le> length text)"

lemma json_trivia_ok_mono: "json_trivia_ok text lo r \<Longrightarrow> lo' \<le> lo \<Longrightarrow> json_trivia_ok text lo' r"
  by (auto simp: json_trivia_ok_def split: sum.splits)

lemma json_skip_trivia_cases: "pos \<le> length text \<Longrightarrow> json_trivia_ok text pos (json_skip_trivia text pos)"
proof (induction "text" pos rule: json_skip_trivia.induct)
  case (1 "text" pos)
  let ?slash = "\<not> json_is_space (text ! pos) \<and> text ! pos = CHR ''/'' \<and> pos + 1 < length text"
  consider (space) "pos < length text" "json_is_space (text ! pos)"
    | (line) "pos < length text" ?slash "text ! (pos + 1) = CHR ''/''"
    | (unclosed) "pos < length text" ?slash "text ! (pos + 1) = CHR ''*''" "json_close_comment text (pos + 2) = None"
    | (closed) p where "pos < length text" ?slash "text ! (pos + 1) = CHR ''*''" "json_close_comment text (pos + 2) = Some p"
    | (stop) "json_skip_trivia text pos = Inr pos"
    using json_skip_trivia.simps [of "text" pos]
    by (cases "json_close_comment text (pos + 2)") (auto split: if_splits)
  then show ?case
  proof cases
    case space
    then have "json_trivia_ok text (pos + 1) (json_skip_trivia text (pos + 1))" by (intro "1.IH"(1)) simp_all
    then show ?thesis
      using space json_trivia_ok_mono [of "text" "pos + 1"] by (subst json_skip_trivia.simps) simp
  next
    case line
    let ?p = "json_skip_line text (pos + 2)"
    have "?p \<le> length text" by (rule json_skip_line_le) (use line in simp)
    then have "json_trivia_ok text ?p (json_skip_trivia text ?p)" using line by (intro "1.IH"(2)) simp_all
    then show ?thesis
      using line json_trivia_ok_mono [of "text" ?p] json_skip_line_bounds [of "pos + 2" "text"]
      by (subst json_skip_trivia.simps) simp
  next
    case unclosed
    then show ?thesis
      by (subst json_skip_trivia.simps) (simp add: json_trivia_ok_def json_error_ok_def)
  next
    case (closed p)
    have p: "pos \<le> p" "p \<le> length text" using json_close_comment_bounds [OF closed(4)] by simp_all
    then have "json_trivia_ok text p (json_skip_trivia text p)" using closed by (intro "1.IH"(3)) simp_all
    then show ?thesis
      using closed p json_trivia_ok_mono [of "text" p] by (subst json_skip_trivia.simps) simp
  next
    case stop
    then show ?thesis using "1.prems" by (simp add: json_trivia_ok_def)
  qed
qed

lemma json_trivia_good: "js_position st \<le> length text \<Longrightarrow> json_good text (js_position st) (json_trivia text st)"
  using json_skip_trivia_cases [of "js_position st" "text"]
  by (auto simp: json_trivia_def json_good_def json_trivia_ok_def split: sum.splits)

text \<open>A scanner that returns a position together with something else.\<close>

definition json_scan_ok :: "string \<Rightarrow> nat \<Rightarrow> json_parse_result + nat \<times> 'a \<Rightarrow> bool" where
  "json_scan_ok text lo r =
     (case r of Inl e \<Rightarrow> json_error_ok text e | Inr (p, _) \<Rightarrow> lo \<le> p \<and> p \<le> length text)"

lemma json_scan_ok_mono: "json_scan_ok text lo r \<Longrightarrow> lo' \<le> lo \<Longrightarrow> json_scan_ok text lo' r"
  by (auto simp: json_scan_ok_def split: sum.splits)

lemma json_hex_digits_error:
  "json_hex_digits text n pos out = Inl e \<Longrightarrow> pos + n \<le> length text \<Longrightarrow> json_error_ok text e"
  by (induction "text" n pos out rule: json_hex_digits.induct)
    (auto simp: json_error_ok_def Let_def split: if_splits)

lemma json_parse_hex4_error:
  "json_parse_hex4 text pos = Inl e \<Longrightarrow> pos \<le> length text \<Longrightarrow> json_error_ok text e"
  by (auto simp: json_parse_hex4_def json_error_ok_def dest: json_hex_digits_error split: if_splits)

lemma json_parse_unicode_escape_ok:
  assumes "eo \<le> pos" "pos \<le> length text"
  shows "json_scan_ok text pos (json_parse_unicode_escape text eo pos s)"
proof (cases "json_parse_unicode_escape text eo pos s")
  case (Inl e)
  have "json_error_ok text e"
    using Inl assms
    by (auto simp: json_parse_unicode_escape_def json_error_ok_def
        dest!: json_parse_hex4_bounds json_parse_hex4_error split: sum.splits prod.splits if_splits)
  then show ?thesis using Inl by (simp add: json_scan_ok_def)
next
  case (Inr r)
  then show ?thesis using json_parse_unicode_escape_bounds [of "text" eo pos s]
    by (cases r) (auto simp: json_scan_ok_def)
qed

lemma decode_ok_length:
  assumes "utf8_status (json_decode_utf8_one text pos) = utf8_ok"
  shows "0 < utf8_length (json_decode_utf8_one text pos)"
    "pos + utf8_length (json_decode_utf8_one text pos) \<le> length text"
  using decode_ok_shape [OF assms] decode_sound [of "text" pos] by (metis json_utf8_result.select_convs(3))+

lemma json_append_utf8_append: "json_append_utf8 cp s = s @ json_append_utf8 cp []"
  by (simp add: json_append_utf8_def)

lemma json_hex_value_range: "json_hex_value c < 16"
  by (simp add: json_hex_value_def)

lemma json_hex_digits_value:
  "json_hex_digits text n pos out = Inr (v, p) \<Longrightarrow> v < 16 ^ n * (out + 1)"
proof (induction "text" n pos out rule: json_hex_digits.induct)
  case (2 "text" n pos out)
  let ?d = "nat (json_hex_value (text ! pos))" and ?out = "push_bit 4 out OR nat (json_hex_value (text ! pos))"
  have d: "\<not> json_hex_value (text ! pos) < 0" "json_hex_digits text n (pos + 1) ?out = Inr (v, p)"
    using "2.prems" by (auto simp: Let_def split: if_splits)
  have small: "?d < 2 ^ 4" using json_hex_value_range [of "text ! pos"] by simp
  have "push_bit 4 out mod 2 ^ 4 = (0 :: nat)" by (simp add: push_bit_eq_mult)
  then have "?out = push_bit 4 out + ?d" using small by (rule or_low_add)
  then have "?out + 1 \<le> 16 * (out + 1)" using small by (simp add: push_bit_eq_mult)
  then have "16 ^ n * (?out + 1) \<le> 16 ^ n * (16 * (out + 1))" by (rule mult_le_mono2)
  moreover have "16 ^ Suc n * (out + 1) = 16 ^ n * (16 * (out + 1))" by (simp only: power_Suc ac_simps)
  ultimately show ?case using "2.IH" [OF refl d] by linarith
qed simp

lemma json_parse_hex4_value: "json_parse_hex4 text pos = Inr (v, p) \<Longrightarrow> v \<le> 0xFFFF"
  using json_hex_digits_value [of "text" 4 pos 0 v p] by (auto simp: json_parse_hex4_def split: if_splits)

lemma surrogate_pair_scalar:
  assumes "json_is_high_surrogate first" "json_is_low_surrogate second"
  shows "json_is_unicode_scalar (0x10000 + push_bit 10 (first - 0xD800) + (second - 0xDC00))"
proof -
  have "first - 0xD800 \<le> 1023" "second - 0xDC00 \<le> 1023"
    using assms unfolding json_is_high_surrogate_def json_is_low_surrogate_def by auto
  then show ?thesis by (simp add: json_is_unicode_scalar_def json_is_surrogate_def push_bit_eq_mult)
qed

lemma plain_scalar: "n \<le> 0xFFFF \<Longrightarrow> \<not> json_is_high_surrogate n \<Longrightarrow> \<not> json_is_low_surrogate n \<Longrightarrow> json_is_unicode_scalar n"
  by (auto simp: json_is_high_surrogate_def json_is_low_surrogate_def json_is_unicode_scalar_def json_is_surrogate_def)

lemma json_parse_unicode_escape_scalar:
  assumes "json_parse_unicode_escape text eo pos s = Inr (p, s')"
  obtains cp where "json_is_unicode_scalar cp" "s' = s @ json_append_utf8 cp []"
proof -
  obtain first pos1 where h: "json_parse_hex4 text pos = Inr (first, pos1)"
    using assms by (auto simp: json_parse_unicode_escape_def split: sum.splits)
  show thesis
  proof (cases "json_is_high_surrogate first")
    case True
    then obtain second pos2 where "json_is_low_surrogate second"
      "s' = json_append_utf8 (0x10000 + push_bit 10 (first - 0xD800) + (second - 0xDC00)) s"
      using assms h by (auto simp: json_parse_unicode_escape_def split: sum.splits if_splits prod.splits)
    then show thesis
      using that surrogate_pair_scalar [OF True] json_append_utf8_append by blast
  next
    case False
    then have "\<not> json_is_low_surrogate first" "s' = json_append_utf8 first s"
      using assms h by (auto simp: json_parse_unicode_escape_def split: if_splits)
    then show thesis
      using that plain_scalar [OF json_parse_hex4_value [OF h] False] json_append_utf8_append by blast
  qed
qed

lemma ascii_scalar: "b \<le> 0x7F \<Longrightarrow> json_is_unicode_scalar b"
  by (simp add: json_is_unicode_scalar_def json_is_surrogate_def)

lemma json_simple_escape_ascii: "json_simple_escape c = Some d \<Longrightarrow> byte d \<le> 0x7F"
  by (auto simp: json_simple_escape_def split: if_splits)

lemma ascii_append: "byte c \<le> 0x7F \<Longrightarrow> [c] = json_append_utf8 (byte c) []"
  by (simp add: json_append_utf8_def)

text \<open>
  The ways one round of the string loop can go: a failure, the closing quote, or a step that
  adds the encoding of one scalar value.
\<close>

lemma json_string_loop_cases:
  assumes pos: "pos \<le> length text"
  obtains (failed) e where "json_string_loop text pos s = Inl e" "json_error_ok text e"
  | (closed) "pos < length text" "text ! pos = chr 34" "json_string_loop text pos s = Inr (pos + 1, s)"
  | (more) p cp where "pos < p" "p \<le> length text" "json_is_unicode_scalar cp"
      "json_string_loop text pos s = json_string_loop text p (s @ json_append_utf8 cp [])"
proof -
  let ?b = "byte (text ! pos)" and ?loop = "json_string_loop text pos s" and ?c = "text ! (pos + 1)"
  note step = json_string_loop.simps [of "text" pos s]
  consider (end_of_text) "pos = length text" | (quote) "pos < length text" "?b = 34"
    | (control) "pos < length text" "?b < 0x20"
    | (escape) "pos < length text" "?b = 92"
    | (plain) "pos < length text" "\<not> ?b < 0x20" "?b \<noteq> 34" "?b \<noteq> 92" "?b \<le> 0x7F"
    | (multi) "pos < length text" "\<not> ?b < 0x20" "?b \<noteq> 34" "?b \<noteq> 92" "\<not> ?b \<le> 0x7F"
    using pos by linarith
  then show thesis
  proof cases
    case end_of_text
    then have "?loop = Inl (json_fail json_unexpected_end pos 0)" using step by simp
    then show thesis using failed pos by (simp add: json_error_ok_def)
  next
    case quote
    then have "?loop = Inr (pos + 1, s)" using step by simp
    moreover have "text ! pos = chr 34" using quote(2) by (metis char_of_char)
    ultimately show thesis using closed quote by blast
  next
    case control
    then have "?loop = Inl (json_fail json_invalid_string pos 1)" using step by (simp add: Let_def)
    then show thesis using failed control by (simp add: json_error_ok_def)
  next
    case plain
    then have "?loop = json_string_loop text (pos + 1) (s @ [text ! pos])" using step by (simp add: Let_def)
    then show thesis
      using more [of "pos + 1" ?b] plain ascii_scalar [of ?b] ascii_append [of "text ! pos"] by simp
  next
    case multi
    let ?d = "json_decode_utf8_one text pos"
    show thesis
    proof (cases "utf8_status ?d = utf8_ok")
      case True
      obtain cp len where d: "?d = \<lparr>utf8_status = utf8_ok, utf8_codepoint = cp, utf8_length = len\<rparr>"
        by (rule decode_ok_shape [OF True])
      have "?loop = json_string_loop text (pos + len) (s @ text_slice text pos len)"
        using step multi d by (simp add: Let_def)
      then show thesis using more [of "pos + len" cp] decode_sound [OF d] by (simp add: text_slice_def)
    next
      case False
      then have "?loop = Inl (json_fail json_invalid_utf8 pos (max (utf8_length ?d) 1))"
        using step multi by (simp add: Let_def)
      then show thesis using failed decode_length [OF multi(1)] by (simp add: json_error_ok_def)
    qed
  next
    case escape
    show thesis
    proof (cases "pos + 1 < length text")
      case False
      then have "?loop = Inl (json_fail json_unexpected_end (pos + 1) 0)" using step escape by simp
      then show thesis using failed escape by (simp add: json_error_ok_def)
    next
      case True
      show thesis
      proof (cases "json_simple_escape ?c")
        case (Some d)
        then have "?loop = json_string_loop text (pos + 2) (s @ [d])" using step escape True by simp
        then show thesis
          using more [of "pos + 2" "byte d"] True json_simple_escape_ascii [OF Some] ascii_scalar ascii_append by simp
      next
        case None
        show thesis
        proof (cases "?c = CHR ''u''")
          case u: True
          have ok: "json_scan_ok text (pos + 2) (json_parse_unicode_escape text pos (pos + 2) s)"
            using True by (intro json_parse_unicode_escape_ok) auto
          show thesis
          proof (cases "json_parse_unicode_escape text pos (pos + 2) s")
            case (Inl e)
            then have "?loop = Inl e" using step escape True None u by simp
            then show thesis using failed ok Inl by (simp add: json_scan_ok_def)
          next
            case (Inr r)
            obtain p s' where r: "r = (p, s')" by (cases r)
            have "?loop = json_string_loop text p s'" using step escape True None u Inr r by simp
            moreover obtain cp where "json_is_unicode_scalar cp" "s' = s @ json_append_utf8 cp []"
              using json_parse_unicode_escape_scalar Inr r by blast
            ultimately show thesis using more [of p cp] ok Inr r by (simp add: json_scan_ok_def)
          qed
        next
          case False
          then have "?loop = Inl (json_fail json_invalid_escape pos 2)" using step escape True None by simp
          then show thesis using failed True by (simp add: json_error_ok_def)
        qed
      qed
    qed
  qed
qed

lemma json_string_loop_ok: "pos \<le> length text \<Longrightarrow> json_scan_ok text pos (json_string_loop text pos s)"
proof (induction "length text - pos" arbitrary: pos s rule: less_induct)
  case less
  from less.prems show ?case
  proof (cases rule: json_string_loop_cases [of pos "text" s])
    case (more p cp)
    then have "json_scan_ok text p (json_string_loop text p (s @ json_append_utf8 cp []))"
      by (intro less.hyps) auto
    then show ?thesis unfolding more(4) by (rule json_scan_ok_mono) (use more in simp)
  qed (auto simp: json_scan_ok_def)
qed

lemma json_consume_bounds: "json_consume text c pos = Some p \<Longrightarrow> p = pos + 1 \<and> p \<le> length text \<and> text ! pos = c"
  by (auto simp: json_consume_def split: if_splits)

lemma json_parse_decoded_string_ok:
  assumes "pos < length text" "text ! pos = chr 34"
  shows "json_scan_ok text (pos + 1) (json_parse_decoded_string text pos)"
  using assms json_string_loop_ok [of "pos + 1" "text" "[]"]
  by (simp add: json_parse_decoded_string_def json_consume_def)

lemma json_parse_string_value_good:
  assumes "js_position st < length text" "text ! js_position st = chr 34"
  shows "json_good text (js_position st + 1) (Some (json_parse_string_value text st))"
  using json_parse_decoded_string_ok [OF assms]
  by (auto simp: json_parse_string_value_def json_good_def json_scan_ok_def Let_def split: sum.splits)

lemma json_skip_digits_bounds:
  "pos \<le> length text \<Longrightarrow> pos \<le> json_skip_digits text pos \<and> json_skip_digits text pos \<le> length text"
proof (induction "text" pos rule: json_skip_digits.induct)
  case (1 "text" pos)
  then show ?case by (subst (1 2) json_skip_digits.simps) auto
qed

lemma json_skip_digits_advances: "at_digit text pos \<Longrightarrow> pos < json_skip_digits text pos"
  using json_skip_digits_bounds [of "pos + 1" "text"] by (subst json_skip_digits.simps) auto

lemma json_number_int_ok:
  assumes "begin_pos \<le> pos" "begin_pos < length text" "pos \<le> length text"
  shows "json_trivia_ok text (pos + 1) (json_number_int text begin_pos pos)"
  using assms json_skip_digits_bounds [of pos "text"] json_skip_digits_advances [of pos "text"]
  by (auto simp: json_number_int_def json_trivia_ok_def json_error_ok_def max_def
      dest!: json_consume_bounds split: option.splits)

lemma json_number_frac_ok:
  assumes "begin_pos \<le> pos" "pos \<le> length text"
  shows "json_scan_ok text pos (json_number_frac text begin_pos pos)"
proof (cases "json_consume text (CHR ''.'') pos")
  case None
  then show ?thesis using assms by (simp add: json_number_frac_def json_scan_ok_def)
next
  case (Some p)
  then show ?thesis
    using assms json_consume_bounds [OF Some] json_skip_digits_bounds [of p "text"]
    by (auto simp: json_number_frac_def json_scan_ok_def json_error_ok_def)
qed

lemma json_number_exp_ok:
  assumes "begin_pos \<le> pos" "pos \<le> length text"
  shows "json_scan_ok text pos (json_number_exp text begin_pos pos integer)"
proof -
  let ?p = "pos + 1"
  let ?q = "if ?p < length text \<and> (text ! ?p = CHR ''+'' \<or> text ! ?p = CHR ''-'') then ?p + 1 else ?p"
  show ?thesis
  proof (cases "pos < length text \<and> (text ! pos = CHR ''e'' \<or> text ! pos = CHR ''E'')")
    case True
    then have q: "pos < ?q" "?q \<le> length text" by auto
    show ?thesis
    proof (cases "at_digit text ?q")
      case digit: True
      have "json_number_exp text begin_pos pos integer = Inr (json_skip_digits text ?q, False)"
        unfolding json_number_exp_def Let_def using True digit by (simp only: if_True if_False simp_thms)
      then show ?thesis using json_skip_digits_bounds [OF q(2)] q by (simp add: json_scan_ok_def del: if_split)
    next
      case False
      have "json_number_exp text begin_pos pos integer = Inl (json_fail json_invalid_number begin_pos (?q - begin_pos))"
        unfolding json_number_exp_def Let_def using True False by (simp only: if_True if_False simp_thms)
      then show ?thesis using q assms by (simp add: json_scan_ok_def json_error_ok_def)
    qed
  next
    case False
    then have "json_number_exp text begin_pos pos integer = Inr (pos, integer)"
      unfolding json_number_exp_def by (simp only: if_False)
    then show ?thesis using assms by (simp add: json_scan_ok_def)
  qed
qed

lemma json_scan_number_ok:
  assumes "begin_pos < length text"
  shows "json_scan_ok text (begin_pos + 1) (json_scan_number text begin_pos)"
proof -
  define minus where "minus = json_consume text (CHR ''-'') begin_pos"
  define pos where "pos = (case minus of Some p \<Rightarrow> p | None \<Rightarrow> begin_pos)"
  have pos: "begin_pos \<le> pos" "pos \<le> length text"
    using assms json_consume_bounds [of "text" "CHR ''-''" begin_pos]
    by (auto simp: pos_def minus_def split: option.splits)
  have num: "json_scan_number text begin_pos =
      (if minus \<noteq> None \<and> pos \<ge> length text
         then Inl (json_fail json_invalid_number begin_pos (pos - begin_pos))
         else case json_number_int text begin_pos pos of
             Inl e \<Rightarrow> Inl e
           | Inr p1 \<Rightarrow>
               (case json_number_frac text begin_pos p1 of
                  Inl e \<Rightarrow> Inl e
                | Inr (p2, integer) \<Rightarrow> json_number_exp text begin_pos p2 integer))"
    by (simp only: json_scan_number_def Let_def minus_def pos_def)
  have "json_trivia_ok text (pos + 1) (json_number_int text begin_pos pos)"
    by (rule json_number_int_ok [OF pos(1) assms pos(2)])
  then show ?thesis
  proof (cases "json_number_int text begin_pos pos")
    case (Inl e)
    then show ?thesis
      using \<open>json_trivia_ok _ _ _\<close> pos by (simp add: num json_scan_ok_def json_trivia_ok_def json_error_ok_def)
  next
    case (Inr p1)
    then have p1: "pos + 1 \<le> p1" "p1 \<le> length text" using \<open>json_trivia_ok _ _ _\<close> by (simp_all add: json_trivia_ok_def)
    have "json_scan_ok text p1 (json_number_frac text begin_pos p1)"
      using pos p1 by (intro json_number_frac_ok) auto
    then show ?thesis
    proof (cases "json_number_frac text begin_pos p1")
      case (Inl e)
      then show ?thesis
        using Inr \<open>json_scan_ok _ _ _\<close> pos by (simp add: num json_scan_ok_def json_error_ok_def)
    next
      case frac: (Inr r)
      obtain p2 integer where r: "r = (p2, integer)" by (cases r)
      have p2: "p1 \<le> p2" "p2 \<le> length text" using \<open>json_scan_ok _ _ _\<close> frac r by (simp_all add: json_scan_ok_def)
      have "json_scan_ok text p2 (json_number_exp text begin_pos p2 integer)"
        using pos p1 p2 by (intro json_number_exp_ok) auto
      then have "json_scan_ok text (begin_pos + 1) (json_number_exp text begin_pos p2 integer)"
        by (rule json_scan_ok_mono) (use pos p1 p2 in linarith)
      then show ?thesis
        using Inr frac r pos by (simp add: num) (simp add: json_scan_ok_def json_error_ok_def)
    qed
  qed
qed

lemma json_parse_number_good:
  assumes "js_position st < length text"
  shows "json_good text (js_position st + 1) (Some (json_parse_number text st))"
  using json_scan_number_ok [OF assms]
  by (auto simp: json_parse_number_def json_good_def json_scan_ok_def Let_def split: sum.splits)

lemma json_parse_literal_good:
  assumes "js_position st < length text" "literal \<noteq> []"
  shows "json_good text (js_position st + 1) (Some (json_parse_literal text literal v st))"
proof (cases "text_slice text (js_position st) (length literal) = literal")
  case True
  then have "length (text_slice text (js_position st) (length literal)) = length literal" by simp
  then have "js_position st + length literal \<le> length text" using assms by (auto simp: text_slice_def min_def split: if_splits)
  moreover have "0 < length literal" using assms by simp
  ultimately show ?thesis
    using True by (simp add: json_parse_literal_def json_good_def Let_def Suc_le_eq)
next
  case False
  then show ?thesis using assms by (simp add: json_parse_literal_def json_good_def json_error_ok_def Let_def)
qed

text \<open>
  Enough fuel for each parser, in terms of the number of characters left; every failure is an
  error inside the text, and success moves the position forward.
\<close>

definition json_fuel_ok :: "nat \<Rightarrow> string \<Rightarrow> bool" where
  "json_fuel_ok fuel text \<longleftrightarrow>
     (\<forall>depth st. js_position st \<le> length text \<longrightarrow>
        (3 * (length text - js_position st) + 3 \<le> fuel \<longrightarrow>
           json_good text (js_position st + 1) (json_parse_value fuel text depth st)) \<and>
        (3 * (length text - js_position st) + 1 \<le> fuel \<longrightarrow>
           json_good text (js_position st + 1) (json_parse_members fuel text depth st)) \<and>
        (3 * (length text - js_position st) + 4 \<le> fuel \<longrightarrow>
           json_good text (js_position st + 1) (json_parse_elements fuel text depth st)) \<and>
        (js_position st < length text \<longrightarrow> 3 * (length text - js_position st) + 2 \<le> fuel \<longrightarrow>
           json_good text (js_position st + 1) (json_parse_object fuel text depth st) \<and>
           json_good text (js_position st + 1) (json_parse_array fuel text depth st)))"

lemma json_good_mono:
  assumes "json_good text lo r" "lo' \<le> lo"
  shows "json_good text lo' r"
proof -
  obtain f st' where "r = Some (f, st')"
    "case f of None \<Rightarrow> lo \<le> js_position st' \<and> js_position st' \<le> length text | Some e \<Rightarrow> json_error_ok text e"
    using assms(1) by (auto simp: json_good_def)
  then show ?thesis using assms(2) by (cases f) (auto simp: json_good_def)
qed

lemma json_good_if [json_good_intro]:
  "(c \<Longrightarrow> json_good text lo a) \<Longrightarrow> (\<not> c \<Longrightarrow> json_good text lo b) \<Longrightarrow> json_good text lo (if c then a else b)"
  by simp

lemma json_good_let [json_good_intro]: "json_good text lo (f x) \<Longrightarrow> json_good text lo (let y = x in f y)"
  by simp

lemma json_good_option [json_good_intro]:
  "(x = None \<Longrightarrow> json_good text lo a) \<Longrightarrow> (\<And>y. x = Some y \<Longrightarrow> json_good text lo (f y)) \<Longrightarrow>
     json_good text lo (case x of None \<Rightarrow> a | Some y \<Rightarrow> f y)"
  by (cases x) simp_all

lemma json_good_value:
  assumes pos: "js_position st \<le> length text"
    and obj: "\<And>st'. js_position st \<le> js_position st' \<Longrightarrow> js_position st' < length text \<Longrightarrow>
      json_good text (js_position st' + 1) (object text depth st') \<and> json_good text (js_position st' + 1) (array text depth st')"
  shows "json_good text (js_position st + 1) (json_value_body object array text depth st)"
  unfolding json_value_body_def
proof (rule json_good_then [OF json_trivia_good [OF pos]], goal_cases)
  case (1 st')
  have up: "json_good text (js_position st + 1) r" if "json_good text (js_position st' + 1) r" for r
    by (rule json_good_mono [OF that]) (use 1 in simp)
  show ?case
  proof (rule json_good_let, rule json_good_if)
    assume "\<not> length text \<le> js_position st'"
    then have lt: "js_position st' < length text" by simp
    show "json_good text (js_position st + 1)
        (let c = text ! js_position st'
         in if c = CHR ''{'' then object text depth st'
            else if c = CHR ''['' then array text depth st'
            else if c = chr 34 then Some (json_parse_string_value text st')
            else if c = CHR ''t'' then Some (json_parse_literal text ''true''
                 \<lparr>jv_kind = json_boolean, jv_text = [], jv_boolean = True\<rparr> st')
            else if c = CHR ''f'' then Some (json_parse_literal text ''false''
                 \<lparr>jv_kind = json_boolean, jv_text = [], jv_boolean = False\<rparr> st')
            else if c = CHR ''n'' then Some (json_parse_literal text ''null''
                 \<lparr>jv_kind = json_null_value, jv_text = [], jv_boolean = False\<rparr> st')
            else if c = CHR ''-'' \<or> json_is_digit c then Some (json_parse_number text st')
            else Some (Some (json_fail json_unexpected_token (js_position st') 1), st'))"
      using lt 1 obj [of st']
      by (intro json_good_let json_good_if up json_parse_string_value_good json_parse_literal_good
          json_parse_number_good json_good_fail) simp_all
  qed (use 1 in \<open>simp add: json_good_fail\<close>)
qed

lemma json_good_close:
  assumes pos: "js_position st \<le> length text" "lo \<le> js_position st + 1"
    and more: "\<And>p. p = js_position st + 1 \<Longrightarrow> p \<le> length text \<Longrightarrow> json_good text lo (k (st\<lparr>js_position := p\<rparr>))"
  shows "json_good text lo
    (case json_consume text c (js_position st) of
       Some p \<Rightarrow> Some (None, json_emit st p [ev])
     | None \<Rightarrow>
         (case json_consume text (CHR '','') (js_position st) of
            None \<Rightarrow> Some (Some (json_fail json_unexpected_token (js_position st)
              (if js_position st < length text then 1 else 0)), st)
          | Some p \<Rightarrow> k (st\<lparr>js_position := p\<rparr>)))"
proof (intro json_good_option)
  fix p assume p: "json_consume text c (js_position st) = Some p"
  show "json_good text lo (Some (None, json_emit st p [ev]))"
    using json_consume_bounds [OF p] pos by (intro json_good_done) simp_all
next
  show "json_good text lo (Some (Some (json_fail json_unexpected_token (js_position st)
      (if js_position st < length text then 1 else 0)), st))"
    using pos by (intro json_good_fail) auto
next
  fix p assume p: "json_consume text (CHR '','') (js_position st) = Some p"
  show "json_good text lo (k (st\<lparr>js_position := p\<rparr>))"
    using json_consume_bounds [OF p] by (intro more) simp_all
qed

lemma json_good_members:
  assumes pos: "js_position st \<le> length text"
    and val: "\<And>st'. js_position st + 2 \<le> js_position st' \<Longrightarrow> js_position st' \<le> length text \<Longrightarrow>
      json_good text (js_position st' + 1) (value text (depth + 1) st')"
    and mem: "\<And>st'. js_position st + 2 \<le> js_position st' \<Longrightarrow> js_position st' \<le> length text \<Longrightarrow>
      json_good text (js_position st' + 1) (members text depth st')"
  shows "json_good text (js_position st + 1) (json_members_body value members text depth st)"
  unfolding json_members_body_def
proof (rule json_good_then [OF json_trivia_good [OF pos]], rule json_good_let, rule json_good_if, goal_cases)
  case (2 st1)
  then have lt: "js_position st1 < length text" by simp
  show ?case
  proof (rule json_good_if)
    assume q: "\<not> text ! js_position st1 \<noteq> chr 34"
    then have scan: "json_scan_ok text (js_position st1 + 1) (json_parse_decoded_string text (js_position st1))"
      using lt by (intro json_parse_decoded_string_ok) simp_all
    show "json_good text (js_position st + 1)
      (case json_parse_decoded_string text (js_position st1) of
         Inl e \<Rightarrow> Some (Some e, st1)
       | Inr (p, scratch) \<Rightarrow>
           json_then (json_trivia text (json_emit st1 p [ev_location (js_position st1) (p - js_position st1), ev_key scratch]))
             (\<lambda>st.
               case json_consume text (CHR '':'') (js_position st) of
                 None \<Rightarrow> Some (Some (json_fail json_unexpected_token (js_position st)
                   (if js_position st < length text then 1 else 0)), st)
               | Some p \<Rightarrow>
                   json_then (value text (depth + 1) (st\<lparr>js_position := p\<rparr>)) (\<lambda>st.
                     json_then (json_trivia text st) (\<lambda>st.
                       case json_consume text (CHR ''}'') (js_position st) of
                         Some p \<Rightarrow> Some (None, json_emit st p [ev_object_end])
                       | None \<Rightarrow>
                           (case json_consume text (CHR '','') (js_position st) of
                              None \<Rightarrow> Some (Some (json_fail json_unexpected_token (js_position st)
                                (if js_position st < length text then 1 else 0)), st)
                            | Some p \<Rightarrow> members text depth (st\<lparr>js_position := p\<rparr>))))))"
    proof (cases "json_parse_decoded_string text (js_position st1)")
      case (Inl e)
      then show ?thesis using scan by (simp add: json_scan_ok_def json_good_def)
    next
      case (Inr r)
      obtain p scratch where r: "r = (p, scratch)" by (cases r)
      have p: "js_position st1 + 1 \<le> p" "p \<le> length text" using scan Inr r by (simp_all add: json_scan_ok_def)
      show ?thesis
        unfolding Inr r sum.case prod.case
      proof (rule json_good_then [OF json_trivia_good], goal_cases)
        case (2 st2)
        then have st2: "js_position st + 1 \<le> js_position st2" "js_position st2 \<le> length text"
          using p \<open>js_position st \<le> js_position st1\<close> by simp_all
        show ?case
        proof (rule json_good_option)
          show "json_good text (js_position st + 1) (Some (Some (json_fail json_unexpected_token (js_position st2)
              (if js_position st2 < length text then 1 else 0)), st2))"
            using st2 by (intro json_good_fail) auto
        next
          fix p3 assume "json_consume text (CHR '':'') (js_position st2) = Some p3"
          then have p3: "js_position st + 2 \<le> p3" "p3 \<le> length text"
            using json_consume_bounds st2 by fastforce+
          show "json_good text (js_position st + 1)
              (json_then (value text (depth + 1) (st2\<lparr>js_position := p3\<rparr>)) (\<lambda>st.
                     json_then (json_trivia text st) (\<lambda>st.
                       case json_consume text (CHR ''}'') (js_position st) of
                         Some p \<Rightarrow> Some (None, json_emit st p [ev_object_end])
                       | None \<Rightarrow>
                           (case json_consume text (CHR '','') (js_position st) of
                              None \<Rightarrow> Some (Some (json_fail json_unexpected_token (js_position st)
                                (if js_position st < length text then 1 else 0)), st)
                            | Some p \<Rightarrow> members text depth (st\<lparr>js_position := p\<rparr>)))))"
          proof (rule json_good_then [OF val json_good_then [OF json_trivia_good json_good_close]], goal_cases)
            case (6 st4 st5 p6)
            then show ?case using p3 by (intro json_good_mono [OF mem]) simp_all
          qed (use p3 in simp_all)
        qed
      qed (use p in simp_all)
    qed
  qed (use lt in \<open>simp add: json_good_fail\<close>)
qed (simp add: json_good_fail)

lemma json_good_elements:
  assumes pos: "js_position st \<le> length text"
    and val: "json_good text (js_position st + 1) (value text (depth + 1) st)"
    and elems: "\<And>st'. js_position st + 2 \<le> js_position st' \<Longrightarrow> js_position st' \<le> length text \<Longrightarrow>
      json_good text (js_position st' + 1) (elements text depth st')"
  shows "json_good text (js_position st + 1) (json_elements_body value elements text depth st)"
  unfolding json_elements_body_def
proof (rule json_good_then [OF val json_good_then [OF json_trivia_good json_good_close]], goal_cases)
  case (4 st2 st3 p)
  then show ?case by (intro json_good_mono [OF elems]) simp_all
qed simp_all

lemma json_good_open:
  assumes pos: "js_position st < length text"
    and rest: "\<And>st'. js_position st + 1 \<le> js_position st' \<Longrightarrow> js_position st' \<le> length text \<Longrightarrow>
      json_good text (js_position st' + 1) (rest text depth st')"
  shows "json_good text (js_position st + 1)
    (let pos = js_position st
     in if depth \<ge> json_max_depth then Some (Some (json_fail json_nesting_too_deep pos 1), st)
        else json_then (json_trivia text (json_emit st (pos + 1) (evs pos))) (\<lambda>st.
          case json_consume text c (js_position st) of
            Some p \<Rightarrow> Some (None, json_emit st p [ev])
          | None \<Rightarrow> rest text depth st))"
proof (rule json_good_let, rule json_good_if, goal_cases)
  case 1
  then show ?case using pos by (intro json_good_fail) simp_all
next
  case 2
  show ?case
  proof (rule json_good_then [OF json_trivia_good], goal_cases)
    case (2 st')
    then have st': "js_position st + 1 \<le> js_position st'" "js_position st' \<le> length text" by simp_all
    show ?case
    proof (rule json_good_option)
      fix p assume "json_consume text c (js_position st') = Some p"
      then show "json_good text (js_position st + 1) (Some (None, json_emit st' p [ev]))"
        using json_consume_bounds [of "text" c "js_position st'" p] st' by (intro json_good_done) simp_all
    qed (use st' in \<open>intro json_good_mono [OF rest], simp_all\<close>)
  qed (use pos in simp)
qed

lemma json_good_object:
  assumes "js_position st < length text"
    "\<And>st'. js_position st + 1 \<le> js_position st' \<Longrightarrow> js_position st' \<le> length text \<Longrightarrow>
      json_good text (js_position st' + 1) (members text depth st')"
  shows "json_good text (js_position st + 1) (json_object_body members text depth st)"
  unfolding json_object_body_def by (rule json_good_open [where rest = members, OF assms])

lemma json_good_array:
  assumes "js_position st < length text"
    "\<And>st'. js_position st + 1 \<le> js_position st' \<Longrightarrow> js_position st' \<le> length text \<Longrightarrow>
      json_good text (js_position st' + 1) (elements text depth st')"
  shows "json_good text (js_position st + 1) (json_array_body elements text depth st)"
  unfolding json_array_body_def by (rule json_good_open [where rest = elements, OF assms])

lemma json_fuel_suffices: "json_fuel_ok fuel text"
proof (induction fuel)
  case 0
  show ?case by (simp add: json_fuel_ok_def)
next
  case (Suc fuel)
  note ih = Suc.IH [unfolded json_fuel_ok_def, rule_format]
  show ?case
    unfolding json_fuel_ok_def
  proof (intro allI impI conjI, goal_cases)
    case (1 depth st)
    then show ?case unfolding json_parse_value.simps by (intro json_good_value conjI; use ih in simp)
  next
    case (2 depth st)
    then show ?case unfolding json_parse_members.simps by (intro json_good_members; use ih in simp)
  next
    case (3 depth st)
    then show ?case unfolding json_parse_elements.simps by (intro json_good_elements; use ih in simp)
  next
    case (4 depth st)
    then show ?case unfolding json_parse_object.simps by (intro json_good_object; use ih in simp)
  next
    case (5 depth st)
    then show ?case unfolding json_parse_array.simps by (intro json_good_array; use ih in simp)
  qed
qed

lemma json_skip_bom_le: "json_skip_bom text \<le> length text"
  by (simp add: json_skip_bom_def)

lemma json_run_good: "json_good text 0 (json_run (json_fuel text) text)"
  unfolding json_run_def
proof (rule json_good_then [OF json_trivia_good], goal_cases)
  case (2 st)
  show ?case
  proof (rule json_good_if)
    assume "\<not> length text \<le> js_position st"
    have "json_good text (js_position st + 1) (json_parse_value (json_fuel text) text 0 st)"
      using json_fuel_suffices [of "json_fuel text" "text"] 2
      unfolding json_fuel_ok_def json_fuel_def by simp
    then show "json_good text 0 (json_then (json_parse_value (json_fuel text) text 0 st) (\<lambda>st.
         json_then (json_trivia text st) (\<lambda>st.
           if js_position st \<noteq> length text
           then Some (Some (json_fail json_unexpected_token (js_position st) 1), st)
           else Some (None, st))))"
      by (rule json_good_then)
        (rule json_good_then [OF json_trivia_good], simp, rule json_good_if; simp add: json_good_fail json_good_done)
  qed (use 2 in \<open>simp add: json_good_fail\<close>)
qed (simp add: json_skip_bom_le)

section \<open>Properties\<close>

text \<open>
  \<^bold>\<open>C22.\<close> The parser returns on every input: the recursion never runs out of the fuel that
  \<open>parse_json\<close> passes. The result is either a success at offset 0 with length 0, or an error whose
  code is not \<open>none\<close> and whose extent lies inside the text.
\<close>

theorem json_parse_total:
  "\<exists>res evs. parse_json text = Some (res, evs) \<and>
     (if res_code res = json_none then res_offset res = 0 \<and> res_length res = 0
      else res_offset res + res_length res \<le> length text)"
proof -
  obtain f st where r: "json_run (json_fuel text) text = Some (f, st)"
    "case f of None \<Rightarrow> True | Some e \<Rightarrow> json_error_ok text e"
    using json_run_good [of "text"] by (auto simp: json_good_def split: option.splits)
  then show ?thesis by (cases f) (auto simp: parse_json_def json_error_ok_def)
qed

end
