(* ===== verification/Json_Tree.thy ===== *)
theory Json_Tree
  imports Json_Parser
begin

text \<open>
  What the parser of \<^verbatim>\<open>server_engine/json/json_parser.cpp\<close> promises its handler. A JSON document is a
  tree; \<open>json_events\<close> is the event sequence a tree stands for. The theory gives the grammar of
  number tokens and of string contents as definitions of their own, shows that the scanner accepts
  exactly the number grammar, and that the events of every accepted text are those of one tree
  whose nesting is at most \<open>json_max_depth\<close> and whose strings are UTF-8.
\<close>

section \<open>Documents\<close>

datatype json_tree =
  JString string | JNumber bool string | JBool bool | JNull
| JObject "(string \<times> json_tree) list" | JArray "json_tree list"

abbreviation scalar_event :: "json_value_kind \<Rightarrow> string \<Rightarrow> bool \<Rightarrow> json_event" where
  "scalar_event k s b \<equiv> ev_value \<lparr>jv_kind = k, jv_text = s, jv_boolean = b\<rparr>"

primrec json_events :: "json_tree \<Rightarrow> json_event list" where
  "json_events (JString s) = [scalar_event json_string s False]"
| "json_events (JNumber integer s) = [scalar_event (if integer then json_integer else json_number) s False]"
| "json_events (JBool b) = [scalar_event json_boolean [] b]"
| "json_events JNull = [scalar_event json_null_value [] False]"
| "json_events (JObject ms) =
     ev_object_begin # concat (map (\<lambda>(k, evs). ev_key k # evs) (map (map_prod id json_events) ms)) @ [ev_object_end]"
| "json_events (JArray js) = ev_array_begin # concat (map json_events js) @ [ev_array_end]"

definition member_events :: "string \<times> json_tree \<Rightarrow> json_event list" where
  "member_events m = ev_key (fst m) # json_events (snd m)"

lemma json_events_object [simp]:
  "json_events (JObject ms) = ev_object_begin # concat (map member_events ms) @ [ev_object_end]"
proof -
  have "map (\<lambda>(k, evs). ev_key k # evs) (map (map_prod id json_events) ms) = map member_events ms"
    by (simp add: member_events_def case_prod_unfold)
  then show ?thesis by (simp only: json_events.simps)
qed

declare json_events.simps(5) [simp del]

text \<open>The number of containers around the innermost value.\<close>

primrec json_height :: "json_tree \<Rightarrow> nat" where
  "json_height (JString s) = 0"
| "json_height (JNumber integer s) = 0"
| "json_height (JBool b) = 0"
| "json_height JNull = 0"
| "json_height (JObject ms) = Suc (fold max (map snd (map (map_prod id json_height) ms)) 0)"
| "json_height (JArray js) = Suc (fold max (map json_height js) 0)"

lemma fold_max_le: "fold max xs (a :: nat) \<le> n \<longleftrightarrow> a \<le> n \<and> (\<forall>x \<in> set xs. x \<le> n)"
  by (induction xs arbitrary: a) auto

lemma json_height_object [simp]: "json_height (JObject ms) \<le> n \<longleftrightarrow> 0 < n \<and> (\<forall>m \<in> set ms. json_height (snd m) \<le> n - 1)"
  by (cases n) (auto simp: fold_max_le)

lemma json_height_array [simp]: "json_height (JArray js) \<le> n \<longleftrightarrow> 0 < n \<and> (\<forall>j \<in> set js. json_height j \<le> n - 1)"
  by (cases n) (auto simp: fold_max_le)

declare json_height.simps(5,6) [simp del]

section \<open>Tokens\<close>

definition json_digits :: "string \<Rightarrow> bool" where
  "json_digits s \<longleftrightarrow> s \<noteq> [] \<and> list_all json_is_digit s"

definition json_int :: "string \<Rightarrow> bool" where
  "json_int s \<longleftrightarrow> json_digits s \<and> (hd s = CHR ''0'' \<longrightarrow> tl s = [])"

definition json_frac :: "string \<Rightarrow> bool" where
  "json_frac s \<longleftrightarrow> s = [] \<or> (hd s = CHR ''.'' \<and> json_digits (tl s))"

definition json_unsigned :: "string \<Rightarrow> string" where
  "json_unsigned s = (if s \<noteq> [] \<and> (hd s = CHR ''+'' \<or> hd s = CHR ''-'') then tl s else s)"

definition json_exp :: "string \<Rightarrow> bool" where
  "json_exp s \<longleftrightarrow> s = [] \<or> ((hd s = CHR ''e'' \<or> hd s = CHR ''E'') \<and> json_digits (json_unsigned (tl s)))"

text \<open>A number token; the flag says that it has neither a fraction nor an exponent.\<close>

definition json_number_token :: "bool \<Rightarrow> string \<Rightarrow> bool" where
  "json_number_token integer s \<longleftrightarrow>
     (\<exists>sg ip fp ep. s = sg @ ip @ fp @ ep \<and> (sg = [] \<or> sg = ''-'') \<and> json_int ip \<and> json_frac fp \<and> json_exp ep \<and>
        integer = (fp = [] \<and> ep = []))"

definition utf8_text :: "string \<Rightarrow> bool" where
  "utf8_text s \<longleftrightarrow> (\<exists>cps. (\<forall>cp \<in> set cps. json_is_unicode_scalar cp) \<and> s = concat (map (\<lambda>cp. json_append_utf8 cp []) cps))"

primrec json_tree_ok :: "json_tree \<Rightarrow> bool" where
  "json_tree_ok (JString s) = utf8_text s"
| "json_tree_ok (JNumber integer s) = json_number_token integer s"
| "json_tree_ok (JBool b) = True"
| "json_tree_ok JNull = True"
| "json_tree_ok (JObject ms) =
     (list_all (\<lambda>m. utf8_text (fst m) \<and> snd m) (map (map_prod id json_tree_ok) ms))"
| "json_tree_ok (JArray js) = list_all id (map json_tree_ok js)"

lemma json_tree_ok_object [simp]:
  "json_tree_ok (JObject ms) \<longleftrightarrow> (\<forall>m \<in> set ms. utf8_text (fst m) \<and> json_tree_ok (snd m))"
  by (auto simp: list_all_iff)

lemma json_tree_ok_array [simp]: "json_tree_ok (JArray js) \<longleftrightarrow> (\<forall>j \<in> set js. json_tree_ok j)"
  by (auto simp: list_all_iff)

declare json_tree_ok.simps(5,6) [simp del]

section \<open>The scanner accepts the number grammar\<close>

abbreviation span :: "string \<Rightarrow> nat \<Rightarrow> nat \<Rightarrow> string" where
  "span text p q \<equiv> text_slice text p (q - p)"

lemma span_join: "p \<le> q \<Longrightarrow> q \<le> r \<Longrightarrow> span text p q @ span text q r = span text p r"
  using take_add [of "q - p" "r - q" "drop p text"] by (simp add: text_slice_def add.commute)

lemma span_first: "p < q \<Longrightarrow> p < length text \<Longrightarrow> span text p q = text ! p # span text (p + 1) q"
  by (simp add: text_slice_def Cons_nth_drop_Suc [symmetric] take_Cons')

lemma span_nonempty: "p < q \<Longrightarrow> p < length text \<Longrightarrow> span text p q \<noteq> []"
  by (simp add: span_first)

lemma skip_digits_span: "list_all json_is_digit (span text pos (json_skip_digits text pos))"
proof (induction "text" pos rule: json_skip_digits.induct)
  case (1 "text" pos)
  show ?case
  proof (cases "at_digit text pos")
    case True
    then have "json_skip_digits text pos = json_skip_digits text (pos + 1)" "pos < json_skip_digits text pos"
      using json_skip_digits.simps [of "text" pos] json_skip_digits_advances [of pos "text"] by simp_all
    then show ?thesis using True 1 by (simp add: span_first)
  next
    case False
    then have "json_skip_digits text pos = pos" by (subst json_skip_digits.simps) auto
    then show ?thesis by (simp add: text_slice_def)
  qed
qed

lemma skip_digits_digits: "at_digit text pos \<Longrightarrow> json_digits (span text pos (json_skip_digits text pos))"
  using span_nonempty [OF json_skip_digits_advances, of pos "text"] by (simp add: json_digits_def skip_digits_span)

lemma number_int_sound:
  assumes "json_number_int text b pos = Inr q" "pos \<le> length text"
  shows "json_int (span text pos q) \<and> pos < q"
proof (cases "json_consume text (CHR ''0'') pos")
  case None
  then have d: "at_digit text pos" "q = json_skip_digits text pos" "text ! pos \<noteq> CHR ''0''"
    using assms by (auto simp: json_number_int_def json_consume_def split: if_splits)
  then show ?thesis
    using skip_digits_digits [of pos "text"] json_skip_digits_advances [of pos "text"]
    by (auto simp: json_int_def span_first)
next
  case (Some p)
  then have "q = pos + 1" "pos < length text" "text ! pos = CHR ''0''"
    using assms by (auto simp: json_number_int_def json_consume_def split: if_splits)
  then show ?thesis
    by (simp add: text_slice_def take_Suc hd_drop_conv_nth json_int_def json_digits_def json_is_digit_def)
qed

lemma number_frac_sound:
  assumes "json_number_frac text b pos = Inr (q, i)" "pos \<le> length text"
  shows "json_frac (span text pos q) \<and> pos \<le> q \<and> i = (span text pos q = [])"
proof (cases "json_consume text (CHR ''.'') pos")
  case None
  then show ?thesis using assms by (simp add: json_number_frac_def text_slice_def json_frac_def)
next
  case (Some p)
  then have p: "p = pos + 1" "pos < length text" "text ! pos = CHR ''.''" "at_digit text p"
    "q = json_skip_digits text p" "\<not> i"
    using assms by (auto simp: json_number_frac_def json_consume_def split: if_splits)
  then show ?thesis
    using skip_digits_digits [of p "text"] json_skip_digits_advances [of p "text"]
    by (auto simp: json_frac_def span_first)
qed

lemma number_exp_sound:
  assumes "json_number_exp text b pos i = Inr (q, i')" "pos \<le> length text"
  shows "json_exp (span text pos q) \<and> pos \<le> q \<and> i' = (i \<and> span text pos q = [])"
proof (cases "pos < length text \<and> (text ! pos = CHR ''e'' \<or> text ! pos = CHR ''E'')")
  case False
  then have "q = pos" "i' = i" using assms by (auto simp: json_number_exp_def)
  then show ?thesis by (simp add: text_slice_def json_exp_def)
next
  case True
  define p where "p = pos + 1"
  define r where "r = (if p < length text \<and> (text ! p = CHR ''+'' \<or> text ! p = CHR ''-'') then p + 1 else p)"
  have "json_number_exp text b pos i =
      (if \<not> at_digit text r then Inl (json_fail json_invalid_number b (r - b)) else Inr (json_skip_digits text r, False))"
    unfolding json_number_exp_def Let_def p_def [symmetric] r_def [symmetric] using True by (simp only: simp_thms if_True)
  then have r: "at_digit text r" "q = json_skip_digits text r" "\<not> i'"
    using assms(1) by (auto split: if_splits)
  have q: "r < q" "p \<le> r" using r json_skip_digits_advances by (auto simp: r_def)
  have "span text pos q = text ! pos # span text p q" using True q by (simp add: span_first p_def)
  moreover have "json_unsigned (span text p q) = span text r q"
  proof (cases "p < length text \<and> (text ! p = CHR ''+'' \<or> text ! p = CHR ''-'')")
    case True
    then show ?thesis using q by (simp add: json_unsigned_def span_first r_def)
  next
    case False
    then have "r = p" by (simp add: r_def)
    then show ?thesis using False q r by (auto simp: json_unsigned_def span_first)
  qed
  ultimately show ?thesis using True q r skip_digits_digits [OF r(1)] by (auto simp: json_exp_def p_def)
qed

lemma scan_number_sound:
  assumes "json_scan_number text b = Inr (q, i)" "b < length text"
  shows "json_number_token i (span text b q)"
proof -
  define pos where "pos = (case json_consume text (CHR ''-'') b of Some p \<Rightarrow> p | None \<Rightarrow> b)"
  obtain p1 p2 i1 where s: "json_number_int text b pos = Inr p1" "json_number_frac text b p1 = Inr (p2, i1)"
    "json_number_exp text b p2 i1 = Inr (q, i)"
    using assms by (auto simp: json_scan_number_def Let_def pos_def [symmetric] split: if_splits sum.splits prod.splits)
  have pos: "b \<le> pos" "pos \<le> length text" "span text b pos = [] \<or> span text b pos = ''-''"
    using assms(2) by (auto simp: pos_def json_consume_def text_slice_def take_Suc hd_drop_conv_nth split: option.splits if_splits)
  have p1: "json_int (span text pos p1)" "pos < p1" using number_int_sound [OF s(1) pos(2)] by simp_all
  have l1: "p1 \<le> length text"
    using json_number_int_ok [of b pos "text"] s(1) pos assms(2) by (simp add: json_trivia_ok_def)
  have p2: "json_frac (span text p1 p2)" "p1 \<le> p2" "i1 = (span text p1 p2 = [])"
    using number_frac_sound [OF s(2) l1] by simp_all
  have l2: "p2 \<le> length text"
    using json_number_frac_ok [of b p1 "text"] s(2) pos p1 l1 by (simp add: json_scan_ok_def)
  have q: "json_exp (span text p2 q)" "p2 \<le> q" "i = (i1 \<and> span text p2 q = [])"
    using number_exp_sound [OF s(3) l2] by simp_all
  have "span text b q = span text b pos @ span text pos p1 @ span text p1 p2 @ span text p2 q"
    using pos p1 p2 q by (simp add: span_join)
  then show ?thesis unfolding json_number_token_def using pos p1 p2 q by blast
qed

text \<open>
  Reading at the end of a prefix: the text is \<open>pre @ rest\<close> and the position is the length of
  \<open>pre\<close>.
\<close>

abbreviation starts :: "(char \<Rightarrow> bool) \<Rightarrow> string \<Rightarrow> bool" where
  "starts P s \<equiv> s \<noteq> [] \<and> P (hd s)"

lemma at_prefix [simp]: "(length pre < length (pre @ rest) \<and> P ((pre @ rest) ! length pre)) = starts P rest"
  by (cases rest) auto

lemma consume_at: "json_consume (pre @ rest) c (length pre) = (if starts (\<lambda>x. x = c) rest then Some (length pre + 1) else None)"
  by (cases rest) (auto simp: json_consume_def)

lemma skip_digits_at:
  "list_all json_is_digit ds \<Longrightarrow> \<not> starts json_is_digit post \<Longrightarrow>
     json_skip_digits (pre @ ds @ post) (length pre) = length (pre @ ds)"
proof (induction ds arbitrary: pre)
  case Nil
  then show ?case by (subst json_skip_digits.simps) (cases post, auto)
next
  case (Cons d ds)
  then have "json_skip_digits ((pre @ [d]) @ ds @ post) (length (pre @ [d])) = length ((pre @ [d]) @ ds)"
    by (intro Cons.IH) simp_all
  then show ?case using Cons.prems by (subst json_skip_digits.simps) simp
qed

lemma number_int_complete:
  assumes "json_int ip" "\<not> starts json_is_digit post"
  shows "json_number_int (pre @ ip @ post) b (length pre) = Inr (length (pre @ ip))"
proof (cases "hd ip = CHR ''0''")
  case True
  then have ip: "ip = ''0''" using assms(1) by (cases ip) (auto simp: json_int_def json_digits_def)
  show ?thesis
    using assms(2) at_prefix [of "pre @ ''0''" post json_is_digit]
    by (simp add: json_number_int_def consume_at ip)
next
  case False
  then show ?thesis
    using assms skip_digits_at [of ip post pre]
    by (cases ip) (auto simp: json_number_int_def consume_at json_int_def json_digits_def)
qed

lemma number_frac_complete:
  assumes "json_frac fp" "\<not> starts json_is_digit post" "\<not> starts (\<lambda>c. c = CHR ''.'') post"
  shows "json_number_frac (pre @ fp @ post) b (length pre) = Inr (length (pre @ fp), fp = [])"
proof (cases fp)
  case Nil
  then show ?thesis using assms by (simp add: json_number_frac_def consume_at)
next
  case (Cons c ds)
  then have fp: "fp = CHR ''.'' # ds" "json_digits ds" using assms(1) by (auto simp: json_frac_def)
  have "starts json_is_digit (ds @ post)" using fp(2) by (cases ds) (auto simp: json_digits_def)
  then show ?thesis
    using assms(2) fp skip_digits_at [of ds post "pre @ [CHR ''.'']"] at_prefix [of "pre @ [CHR ''.'']" "ds @ post" json_is_digit]
    by (simp add: json_number_frac_def consume_at json_digits_def)
qed

lemma not_sign_digit: "json_is_digit c \<Longrightarrow> c \<noteq> CHR ''+'' \<and> c \<noteq> CHR ''-''"
  by (auto simp: json_is_digit_def)

text \<open>The exponent after its letter: \<open>sg\<close> is the sign, if any, and \<open>ds\<close> the digits.\<close>

lemma number_exp_digits:
  assumes c: "c = CHR ''e'' \<or> c = CHR ''E''" and sg: "sg = [] \<or> sg = ''+'' \<or> sg = ''-''"
    and ds: "json_digits ds" and post: "\<not> starts json_is_digit post"
  shows "json_number_exp (pre @ c # sg @ ds @ post) b (length pre) i = Inr (length (pre @ c # sg @ ds), False)"
proof -
  let ?text = "pre @ c # sg @ ds @ post"
  define p where "p = length pre + 1"
  define r where "r = length (pre @ c # sg)"
  obtain d ds' where d: "ds = d # ds'" "json_is_digit d" using ds by (cases ds) (auto simp: json_digits_def)
  have q: "(if p < length ?text \<and> (?text ! p = CHR ''+'' \<or> ?text ! p = CHR ''-'') then p + 1 else p) = r"
    using sg d not_sign_digit [OF d(2)] by (auto simp: p_def r_def nth_append)
  have start: "length pre < length ?text \<and> (?text ! length pre = CHR ''e'' \<or> ?text ! length pre = CHR ''E'')"
    using c by simp
  have digit: "at_digit ?text r"
    using at_prefix [of "pre @ c # sg" "ds @ post" json_is_digit] d by (simp add: r_def)
  have skip: "json_skip_digits ?text r = length (pre @ c # sg @ ds)"
    using skip_digits_at [of ds post "pre @ c # sg"] ds post by (simp add: r_def json_digits_def)
  show ?thesis
    unfolding json_number_exp_def Let_def p_def [symmetric] q
    by (simp only: start digit skip simp_thms if_True if_False)
qed

lemma number_exp_complete:
  assumes "json_exp ep" "\<not> starts json_is_digit post" "\<not> starts (\<lambda>c. c = CHR ''e'' \<or> c = CHR ''E'') post"
  shows "json_number_exp (pre @ ep @ post) b (length pre) i = Inr (length (pre @ ep), i \<and> ep = [])"
proof (cases ep)
  case Nil
  have "\<not> (length pre < length (pre @ post) \<and>
      ((pre @ post) ! length pre = CHR ''e'' \<or> (pre @ post) ! length pre = CHR ''E''))"
    using assms(3) at_prefix [of pre post "\<lambda>c. c = CHR ''e'' \<or> c = CHR ''E''"] by blast
  then show ?thesis unfolding json_number_exp_def Nil by (simp only: append_Nil if_False simp_thms append_Nil2)
next
  case (Cons c rest)
  obtain sg ds where r: "rest = sg @ ds" "sg = [] \<or> sg = ''+'' \<or> sg = ''-''" "json_digits ds"
  proof (cases "starts (\<lambda>c. c = CHR ''+'' \<or> c = CHR ''-'') rest")
    case True
    then show ?thesis using that [of "[hd rest]" "tl rest"] assms(1) Cons by (auto simp: json_exp_def json_unsigned_def)
  next
    case False
    then show ?thesis using that [of "[]" rest] assms(1) Cons by (auto simp: json_exp_def json_unsigned_def)
  qed
  have "c = CHR ''e'' \<or> c = CHR ''E''" using assms(1) Cons by (auto simp: json_exp_def)
  then show ?thesis using number_exp_digits [OF _ r(2,3) assms(2), of c pre b i] Cons r(1) by simp
qed

text \<open>The characters that would continue a number.\<close>

definition json_number_char :: "char \<Rightarrow> bool" where
  "json_number_char c \<longleftrightarrow> json_is_digit c \<or> c = CHR ''.'' \<or> c = CHR ''e'' \<or> c = CHR ''E''"

lemma frac_start: "json_frac fp \<Longrightarrow> fp \<noteq> [] \<Longrightarrow> hd fp = CHR ''.''"
  by (simp add: json_frac_def)

lemma exp_start: "json_exp ep \<Longrightarrow> ep \<noteq> [] \<Longrightarrow> hd ep = CHR ''e'' \<or> hd ep = CHR ''E''"
  by (auto simp: json_exp_def)

lemma scan_number_complete:
  assumes tok: "json_number_token i tok" and post: "\<not> starts json_number_char post"
  shows "json_scan_number (pre @ tok @ post) (length pre) = Inr (length (pre @ tok), i)"
proof -
  obtain sg ip fp ep where t: "tok = sg @ ip @ fp @ ep" "sg = [] \<or> sg = ''-''" "json_int ip" "json_frac fp"
    "json_exp ep" "i = (fp = [] \<and> ep = [])"
    using tok by (auto simp: json_number_token_def)
  let ?text = "pre @ tok @ post" and ?b = "length pre"
  have ip: "ip \<noteq> []" "json_is_digit (hd ip)"
    using t(3) by (cases ip, simp_all add: json_int_def json_digits_def)+
  have stop2: "\<not> starts json_is_digit (ep @ post)" "\<not> starts (\<lambda>c. c = CHR ''.'') (ep @ post)"
    using post exp_start [OF t(5)] by (cases ep; auto simp: json_number_char_def json_is_digit_def)+
  have stop1: "\<not> starts json_is_digit (fp @ ep @ post)"
    using stop2 frac_start [OF t(4)] by (cases fp) (auto simp: json_is_digit_def)
  have minus: "(case json_consume ?text (CHR ''-'') ?b of Some p \<Rightarrow> p | None \<Rightarrow> ?b) = length (pre @ sg)"
    using t(1,2) ip not_sign_digit [OF ip(2)] by (auto simp: consume_at)
  have s1: "json_number_int ?text ?b (length (pre @ sg)) = Inr (length (pre @ sg @ ip))"
    using number_int_complete [OF t(3) stop1, of "pre @ sg" ?b] t(1) by simp
  have s2: "json_number_frac ?text ?b (length (pre @ sg @ ip)) = Inr (length (pre @ sg @ ip @ fp), fp = [])"
    using number_frac_complete [OF t(4) stop2, of "pre @ sg @ ip" ?b] t(1) by simp
  have s3: "json_number_exp ?text ?b (length (pre @ sg @ ip @ fp)) (fp = []) = Inr (length (pre @ tok), i)"
    using number_exp_complete [OF t(5), of post "pre @ sg @ ip @ fp" ?b "fp = []"] post t(1,6)
    by (auto simp: json_number_char_def)
  have "\<not> length ?text \<le> length (pre @ sg)" using t(1) ip by (cases ip) simp_all
  then show ?thesis
    unfolding json_scan_number_def Let_def minus by (simp only: s1 s2 s3 simp_thms if_False sum.case prod.case)
qed

section \<open>Accepted texts\<close>

definition json_strip :: "json_event list \<Rightarrow> json_event list" where
  "json_strip evs = filter (\<lambda>e. case e of ev_location off len \<Rightarrow> False | _ \<Rightarrow> True) evs"

abbreviation stripped :: "json_state \<Rightarrow> json_event list" where
  "stripped st \<equiv> json_strip (js_events st)"

lemma json_strip_simps [simp]:
  "json_strip [] = []" "json_strip (xs @ ys) = json_strip xs @ json_strip ys"
  "json_strip (ev_location off len # xs) = json_strip xs"
  "json_strip (ev_object_begin # xs) = ev_object_begin # json_strip xs"
  "json_strip (ev_object_end # xs) = ev_object_end # json_strip xs"
  "json_strip (ev_array_begin # xs) = ev_array_begin # json_strip xs"
  "json_strip (ev_array_end # xs) = ev_array_end # json_strip xs"
  "json_strip (ev_key k # xs) = ev_key k # json_strip xs"
  "json_strip (ev_value v # xs) = ev_value v # json_strip xs"
  by (simp_all add: json_strip_def)

lemma stripped_emit [simp]: "stripped (json_emit st p evs) = stripped st @ json_strip evs"
  by (simp add: json_emit_def)

lemma json_then_ok:
  "json_then r k = Some (None, st') \<longleftrightarrow> (\<exists>st1. r = Some (None, st1) \<and> k st1 = Some (None, st'))"
  by (auto simp: json_then_def split: option.splits)

lemma trivia_ok: "json_trivia text st = Some (None, st') \<Longrightarrow> stripped st' = stripped st"
  by (auto simp: json_trivia_def split: sum.splits)

lemma string_loop_utf8:
  "json_string_loop text pos s = Inr (p, s') \<Longrightarrow> pos \<le> length text \<Longrightarrow> utf8_text s \<Longrightarrow> utf8_text s'"
proof (induction "length text - pos" arbitrary: pos s rule: less_induct)
  case less
  from less.prems(2) show ?case
  proof (cases rule: json_string_loop_cases [of pos "text" s])
    case (more q cp)
    obtain cps where "\<forall>c \<in> set cps. json_is_unicode_scalar c" "s = concat (map (\<lambda>cp. json_append_utf8 cp []) cps)"
      using less.prems(3) by (auto simp: utf8_text_def)
    then have "utf8_text (s @ json_append_utf8 cp [])"
      unfolding utf8_text_def using more(3) by (intro exI [of _ "cps @ [cp]"]) simp
    then show ?thesis using less.hyps [of q] less.prems(1) more by simp
  qed (use less.prems in simp_all)
qed

lemma utf8_text_empty: "utf8_text []"
  unfolding utf8_text_def by (intro exI [of _ "[]"]) simp

lemma decoded_string_utf8: "json_parse_decoded_string text pos = Inr (p, s) \<Longrightarrow> utf8_text s"
  by (auto simp: json_parse_decoded_string_def json_consume_def split: option.splits if_splits
      intro: string_loop_utf8 utf8_text_empty)

text \<open>The events of one value, of the rest of an object and of the rest of an array.\<close>

definition value_events :: "nat \<Rightarrow> json_event list \<Rightarrow> bool" where
  "value_events depth evs \<longleftrightarrow> (\<exists>j. json_tree_ok j \<and> json_height j \<le> json_max_depth - depth \<and> evs = json_events j)"

definition members_events :: "nat \<Rightarrow> json_event list \<Rightarrow> bool" where
  "members_events depth evs \<longleftrightarrow>
     (\<exists>ms. (\<forall>m \<in> set ms. utf8_text (fst m) \<and> json_tree_ok (snd m) \<and> json_height (snd m) \<le> json_max_depth - (depth + 1)) \<and>
        evs = concat (map member_events ms) @ [ev_object_end])"

definition elements_events :: "nat \<Rightarrow> json_event list \<Rightarrow> bool" where
  "elements_events depth evs \<longleftrightarrow>
     (\<exists>js. (\<forall>j \<in> set js. json_tree_ok j \<and> json_height j \<le> json_max_depth - (depth + 1)) \<and>
        evs = concat (map json_events js) @ [ev_array_end])"

definition json_emits :: "(json_event list \<Rightarrow> bool) \<Rightarrow> json_state \<Rightarrow> json_step option \<Rightarrow> bool" where
  "json_emits Q st r \<longleftrightarrow> (\<forall>st'. r = Some (None, st') \<longrightarrow> (\<exists>evs. stripped st' = stripped st @ evs \<and> Q evs))"

lemma value_events_scalar:
  "utf8_text s \<Longrightarrow> value_events depth [scalar_event json_string s False]"
  "json_number_token i s \<Longrightarrow> value_events depth [scalar_event (if i then json_integer else json_number) s False]"
  "value_events depth [scalar_event json_boolean [] b]"
  "value_events depth [scalar_event json_null_value [] False]"
  unfolding value_events_def
  by (rule exI [of _ "JString s"], simp, rule exI [of _ "JNumber i s"], simp, rule exI [of _ "JBool b"], simp,
      rule exI [of _ JNull], simp)

lemma members_events_last: "members_events depth [ev_object_end]"
  unfolding members_events_def by (rule exI [of _ "[]"]) simp

lemma members_events_cons:
  assumes "utf8_text k" "value_events (depth + 1) evs" "members_events depth rest"
  shows "members_events depth (ev_key k # evs @ rest)"
proof -
  obtain j ms where
    j: "json_tree_ok j" "json_height j \<le> json_max_depth - (depth + 1)" "evs = json_events j" and
    ms: "\<forall>m \<in> set ms. utf8_text (fst m) \<and> json_tree_ok (snd m) \<and> json_height (snd m) \<le> json_max_depth - (depth + 1)"
      "rest = concat (map member_events ms) @ [ev_object_end]"
    using assms by (auto simp: value_events_def members_events_def)
  show ?thesis
    unfolding members_events_def
    by (rule exI [of _ "(k, j) # ms"]) (use assms(1) j ms in \<open>auto simp: member_events_def\<close>)
qed

lemma elements_events_last: "elements_events depth [ev_array_end]"
  unfolding elements_events_def by (rule exI [of _ "[]"]) simp

lemma elements_events_cons:
  assumes "value_events (depth + 1) evs" "elements_events depth rest"
  shows "elements_events depth (evs @ rest)"
proof -
  obtain j js where
    j: "json_tree_ok j" "json_height j \<le> json_max_depth - (depth + 1)" "evs = json_events j" and
    js: "\<forall>j \<in> set js. json_tree_ok j \<and> json_height j \<le> json_max_depth - (depth + 1)"
      "rest = concat (map json_events js) @ [ev_array_end]"
    using assms by (auto simp: value_events_def elements_events_def)
  show ?thesis
    unfolding elements_events_def by (rule exI [of _ "j # js"]) (use j js in auto)
qed

lemma value_events_object:
  assumes "depth < json_max_depth" "members_events depth evs"
  shows "value_events depth (ev_object_begin # evs)"
proof -
  obtain ms where "\<forall>m \<in> set ms. utf8_text (fst m) \<and> json_tree_ok (snd m) \<and> json_height (snd m) \<le> json_max_depth - (depth + 1)"
    "evs = concat (map member_events ms) @ [ev_object_end]"
    using assms(2) by (auto simp: members_events_def)
  then show ?thesis
    unfolding value_events_def by (intro exI [of _ "JObject ms"]) (use assms(1) in simp)
qed

lemma value_events_array:
  assumes "depth < json_max_depth" "elements_events depth evs"
  shows "value_events depth (ev_array_begin # evs)"
proof -
  obtain js where "\<forall>j \<in> set js. json_tree_ok j \<and> json_height j \<le> json_max_depth - (depth + 1)"
    "evs = concat (map json_events js) @ [ev_array_end]"
    using assms(2) by (auto simp: elements_events_def)
  then show ?thesis
    unfolding value_events_def by (intro exI [of _ "JArray js"]) (use assms(1) in simp)
qed

lemma emitsD:
  assumes "json_emits Q st r" "r = Some (None, st')"
  obtains evs where "stripped st' = stripped st @ evs" "Q evs"
  using assms by (auto simp: json_emits_def)

lemma string_value_emits: "json_emits (value_events depth) st (Some (json_parse_string_value text st))"
  by (auto simp: json_emits_def json_parse_string_value_def Let_def
      intro: value_events_scalar decoded_string_utf8 split: sum.splits)

lemma number_emits:
  assumes "js_position st < length text"
  shows "json_emits (value_events depth) st (Some (json_parse_number text st))"
proof (cases "json_scan_number text (js_position st)")
  case (Inl e)
  then show ?thesis by (simp add: json_emits_def json_parse_number_def)
next
  case (Inr r)
  obtain q i where r: "r = (q, i)" by (cases r)
  have "value_events depth [scalar_event (if i then json_integer else json_number) (span text (js_position st) q) False]"
    using scan_number_sound Inr r assms by (intro value_events_scalar) blast
  then show ?thesis using Inr r by (simp add: json_emits_def json_parse_number_def Let_def)
qed

lemma literal_emits:
  "value_events depth [ev_value v] \<Longrightarrow> json_emits (value_events depth) st (Some (json_parse_literal text lit v st))"
  by (simp add: json_emits_def json_parse_literal_def Let_def)

lemma value_body_emits:
  assumes obj: "\<And>st. json_emits (value_events depth) st (object text depth st)"
    and arr: "\<And>st. json_emits (value_events depth) st (array text depth st)"
  shows "json_emits (value_events depth) st (json_value_body object array text depth st)"
  unfolding json_emits_def
proof (intro allI impI)
  fix st' assume r: "json_value_body object array text depth st = Some (None, st')"
  then obtain st1 where t: "json_trivia text st = Some (None, st1)"
    by (auto simp: json_value_body_def json_then_ok)
  have e: "stripped st1 = stripped st" by (rule trivia_ok [OF t])
  have lt: "js_position st1 < length text"
    using r t by (auto simp: json_value_body_def json_then_def Let_def split: if_splits)
  let ?c = "text ! js_position st1"
  have "json_emits (value_events depth) st1 (json_value_body object array text depth st)"
    unfolding json_value_body_def t json_then_def option.case prod.case Let_def
    using lt by (simp add: obj arr string_value_emits number_emits literal_emits value_events_scalar)
      (simp add: json_emits_def)
  then show "\<exists>evs. stripped st' = stripped st @ evs \<and> value_events depth evs"
    using r e by (simp add: json_emits_def)
qed

lemma open_body_emits:
  assumes rest: "\<And>st. json_emits Q st (rest text depth st)" and last: "Q (json_strip [close_ev])"
    and Q: "\<And>evs. depth < json_max_depth \<Longrightarrow> Q evs \<Longrightarrow> value_events depth (json_strip [open_ev] @ evs)"
  shows "json_emits (value_events depth) st
    (let pos = js_position st
     in if depth \<ge> json_max_depth then Some (Some (json_fail json_nesting_too_deep pos 1), st)
        else json_then (json_trivia text (json_emit st (pos + 1) [ev_location pos 1, open_ev])) (\<lambda>st.
          case json_consume text c (js_position st) of
            Some p \<Rightarrow> Some (None, json_emit st p [close_ev])
          | None \<Rightarrow> rest text depth st))"
    (is "json_emits _ _ ?r")
  unfolding json_emits_def
proof (intro allI impI)
  fix st' assume r: "?r = Some (None, st')"
  then have d: "depth < json_max_depth" by (auto simp: Let_def split: if_splits)
  let ?st0 = "json_emit st (js_position st + 1) [ev_location (js_position st) 1, open_ev]"
  obtain st1 where t: "json_trivia text ?st0 = Some (None, st1)"
    and k: "(case json_consume text c (js_position st1) of
             Some p \<Rightarrow> Some (None, json_emit st1 p [close_ev]) | None \<Rightarrow> rest text depth st1) = Some (None, st')"
    using r d by (auto simp: Let_def json_then_ok)
  have "\<exists>evs. stripped st' = stripped st1 @ evs \<and> Q evs"
  proof (cases "json_consume text c (js_position st1)")
    case None
    then show ?thesis using k rest [of st1] by (simp add: json_emits_def)
  next
    case (Some p)
    then show ?thesis using k last by auto
  qed
  then show "\<exists>evs. stripped st' = stripped st @ evs \<and> value_events depth evs"
    using trivia_ok [OF t] Q [OF d] by auto
qed

lemma object_body_emits:
  assumes "\<And>st. json_emits (members_events depth) st (members text depth st)"
  shows "json_emits (value_events depth) st (json_object_body members text depth st)"
  unfolding json_object_body_def
  by (rule open_body_emits [where Q = "members_events depth" and rest = members, OF assms])
    (simp_all add: members_events_last value_events_object)

lemma array_body_emits:
  assumes "\<And>st. json_emits (elements_events depth) st (elements text depth st)"
  shows "json_emits (value_events depth) st (json_array_body elements text depth st)"
  unfolding json_array_body_def
  by (rule open_body_emits [where Q = "elements_events depth" and rest = elements, OF assms])
    (simp_all add: elements_events_last value_events_array)

text \<open>After a value: the closing bracket, or a comma and the rest.\<close>

lemma close_emits:
  assumes r: "json_then (json_trivia text st) (\<lambda>st.
       case json_consume text c (js_position st) of
         Some p \<Rightarrow> Some (None, json_emit st p [close_ev])
       | None \<Rightarrow>
           (case json_consume text (CHR '','') (js_position st) of
              None \<Rightarrow> Some (Some (json_fail json_unexpected_token (js_position st)
                (if js_position st < length text then 1 else 0)), st)
            | Some p \<Rightarrow> rest text depth (st\<lparr>js_position := p\<rparr>))) = Some (None, st')"
    and rest: "\<And>st. json_emits Q st (rest text depth st)" and last: "Q (json_strip [close_ev])"
  obtains evs where "stripped st' = stripped st @ evs" "Q evs"
proof -
  obtain st1 where t: "json_trivia text st = Some (None, st1)" and
    k: "(case json_consume text c (js_position st1) of
         Some p \<Rightarrow> Some (None, json_emit st1 p [close_ev])
       | None \<Rightarrow>
           (case json_consume text (CHR '','') (js_position st1) of
              None \<Rightarrow> Some (Some (json_fail json_unexpected_token (js_position st1)
                (if js_position st1 < length text then 1 else 0)), st1)
            | Some p \<Rightarrow> rest text depth (st1\<lparr>js_position := p\<rparr>))) = Some (None, st')"
    using r by (auto simp: json_then_ok)
  show thesis
  proof (cases "json_consume text c (js_position st1)")
    case None
    then obtain p where "rest text depth (st1\<lparr>js_position := p\<rparr>) = Some (None, st')"
      using k by (auto split: option.splits)
    then show thesis using that rest [of "st1\<lparr>js_position := p\<rparr>"] trivia_ok [OF t] by (auto simp: json_emits_def)
  next
    case (Some p)
    then show thesis using k last that [of "json_strip [close_ev]"] trivia_ok [OF t] by auto
  qed
qed

lemma elements_body_emits:
  assumes val: "\<And>st. json_emits (value_events (depth + 1)) st (value text (depth + 1) st)"
    and elems: "\<And>st. json_emits (elements_events depth) st (elements text depth st)"
  shows "json_emits (elements_events depth) st (json_elements_body value elements text depth st)"
  unfolding json_emits_def
proof (intro allI impI)
  fix st' assume r: "json_elements_body value elements text depth st = Some (None, st')"
  then obtain st1 where v: "value text (depth + 1) st = Some (None, st1)"
    by (auto simp: json_elements_body_def json_then_ok)
  note k = r [unfolded json_elements_body_def v json_then_def [of "Some (None, st1)"] option.case prod.case]
  obtain evs where e: "stripped st1 = stripped st @ evs" "value_events (depth + 1) evs" by (rule emitsD [OF val v])
  obtain evs' where e': "stripped st' = stripped st1 @ evs'" "elements_events depth evs'"
    by (rule close_emits [where Q = "elements_events depth" and rest = elements, OF k elems])
      (simp_all add: elements_events_last)
  then show "\<exists>evs. stripped st' = stripped st @ evs \<and> elements_events depth evs"
    using e elements_events_cons by auto
qed

lemma members_body_emits:
  assumes val: "\<And>st. json_emits (value_events (depth + 1)) st (value text (depth + 1) st)"
    and mem: "\<And>st. json_emits (members_events depth) st (members text depth st)"
  shows "json_emits (members_events depth) st (json_members_body value members text depth st)"
  unfolding json_emits_def
proof (intro allI impI)
  fix st' assume r: "json_members_body value members text depth st = Some (None, st')"
  then obtain st1 st2 st3 p s q where
    t1: "json_trivia text st = Some (None, st1)" and
    key: "json_parse_decoded_string text (js_position st1) = Inr (p, s)" and
    t2: "json_trivia text (json_emit st1 p [ev_location (js_position st1) (p - js_position st1), ev_key s]) = Some (None, st2)" and
    v: "value text (depth + 1) (st2\<lparr>js_position := q\<rparr>) = Some (None, st3)" and
    k: "json_then (json_trivia text st3) (\<lambda>st.
       case json_consume text (CHR ''}'') (js_position st) of
         Some p \<Rightarrow> Some (None, json_emit st p [ev_object_end])
       | None \<Rightarrow>
           (case json_consume text (CHR '','') (js_position st) of
              None \<Rightarrow> Some (Some (json_fail json_unexpected_token (js_position st)
                (if js_position st < length text then 1 else 0)), st)
            | Some p \<Rightarrow> members text depth (st\<lparr>js_position := p\<rparr>))) = Some (None, st')"
    unfolding json_members_body_def json_then_ok [of "json_trivia text st"] Let_def
    by (elim exE conjE) (simp add: json_then_ok [of "json_trivia text (json_emit _ _ _)"]
        json_then_ok [of "value text _ _"] split: if_splits sum.splits prod.splits option.splits, elim exE conjE, blast)
  obtain evs where e: "stripped st3 = stripped st2 @ evs" "value_events (depth + 1) evs"
    using emitsD [OF val v] by simp blast
  obtain evs' where e': "stripped st' = stripped st3 @ evs'" "members_events depth evs'"
    by (rule close_emits [where Q = "members_events depth" and rest = members, OF k mem])
      (simp_all add: members_events_last)
  then have "stripped st' = stripped st @ ev_key s # evs @ evs'" using trivia_ok [OF t1] trivia_ok [OF t2] e by simp
  then show "\<exists>evs. stripped st' = stripped st @ evs \<and> members_events depth evs"
    using members_events_cons [OF decoded_string_utf8 [OF key] e(2) e'(2)] by blast
qed

definition json_sound :: "nat \<Rightarrow> bool" where
  "json_sound fuel \<longleftrightarrow>
     (\<forall>text depth st.
        json_emits (value_events depth) st (json_parse_value fuel text depth st) \<and>
        json_emits (value_events depth) st (json_parse_object fuel text depth st) \<and>
        json_emits (value_events depth) st (json_parse_array fuel text depth st) \<and>
        json_emits (members_events depth) st (json_parse_members fuel text depth st) \<and>
        json_emits (elements_events depth) st (json_parse_elements fuel text depth st))"

lemma json_parse_sound: "json_sound fuel"
proof (induction fuel)
  case 0
  show ?case by (simp add: json_sound_def json_emits_def)
next
  case (Suc fuel)
  note ih = Suc.IH [unfolded json_sound_def, rule_format]
  show ?case
    unfolding json_sound_def json_parse_value.simps json_parse_object.simps json_parse_array.simps
      json_parse_members.simps json_parse_elements.simps
    by (intro allI conjI value_body_emits object_body_emits array_body_emits members_body_emits elements_body_emits)
      (simp_all only: ih)
qed

section \<open>Properties\<close>

text \<open>
  \<^bold>\<open>C16.\<close> When the parser accepts a text, the events the handler received, apart from the source
  locations, are the events of exactly one kind of thing: a JSON tree. Begins and ends are matched,
  every key is followed by one value, the nesting is at most \<open>json_max_depth\<close>, every string and key is
  a sequence of encoded Unicode scalar values, and every number token follows the JSON grammar with
  its integer flag set exactly when it has neither fraction nor exponent.
\<close>

theorem json_accepts_trees:
  assumes "parse_json text = Some (res, evs)" "res_code res = json_none"
  shows "\<exists>j. json_tree_ok j \<and> json_height j \<le> json_max_depth \<and> json_strip evs = json_events j"
proof -
  obtain f st where r: "json_run (json_fuel text) text = Some (f, st)" "evs = js_events st"
    "res = (case f of None \<Rightarrow> json_fail json_none 0 0 | Some e \<Rightarrow> e)"
    using assms(1) by (auto simp: parse_json_def)
  have "f = None"
    using json_run_good [of "text"] r assms(2) by (auto simp: json_good_def json_error_ok_def split: option.splits)
  then obtain st0 st1 where
    t0: "json_trivia text \<lparr>js_position = json_skip_bom text, js_events = []\<rparr> = Some (None, st0)" and
    v: "json_parse_value (json_fuel text) text 0 st0 = Some (None, st1)" and
    t1: "stripped st = stripped st1"
    using r(1) by (auto simp: json_run_def json_then_ok dest!: trivia_ok split: if_splits)
  have "json_emits (value_events 0) st0 (json_parse_value (json_fuel text) text 0 st0)"
    using json_parse_sound by (simp add: json_sound_def)
  then obtain e where "stripped st1 = stripped st0 @ e" "value_events 0 e" by (rule emitsD [OF _ v])
  then show ?thesis using trivia_ok [OF t0] t1 r(2) by (auto simp: value_events_def)
qed

theorem json_accepts_trees_witness:
  "\<exists>evs. parse_json ''[1, true]'' = Some (json_fail json_none 0 0, evs) \<and>
     (\<exists>j. json_tree_ok j \<and> json_height j \<le> json_max_depth \<and> json_strip evs = json_events j)"
proof -
  let ?evs = "[ev_location 0 1, ev_array_begin, ev_location 1 1, scalar_event json_integer ''1'' False,
     ev_location 4 4, scalar_event json_boolean [] True, ev_array_end]"
  have p: "parse_json ''[1, true]'' = Some (json_fail json_none 0 0, ?evs)" by code_simp
  show ?thesis using p json_accepts_trees [OF p] by auto
qed

text \<open>
  \<^bold>\<open>C37.\<close> The number scanner accepts exactly the JSON grammar, and all of the token: before a
  character that cannot continue a number, it consumes a text with the integer flag \<open>i\<close> if and only
  if the text is a number token with that flag.
\<close>

theorem scan_number_iff:
  assumes "\<not> starts json_number_char post"
  shows "json_scan_number (pre @ tok @ post) (length pre) = Inr (length (pre @ tok), i) \<longleftrightarrow> json_number_token i tok"
proof
  assume s: "json_scan_number (pre @ tok @ post) (length pre) = Inr (length (pre @ tok), i)"
  have "tok @ post \<noteq> []"
    using s by (auto simp: json_scan_number_def json_number_int_def json_consume_def)
  then show "json_number_token i tok" using scan_number_sound [OF s] by (simp add: text_slice_def)
qed (rule scan_number_complete [OF _ assms])

theorem scan_number_iff_witness: "json_number_token False ''-12.5e3''"
proof -
  have "json_scan_number ([CHR ''[''] @ ''-12.5e3'' @ [CHR '']'']) (length [CHR ''['']) =
      Inr (length ([CHR ''[''] @ ''-12.5e3''), False)"
    by code_simp
  then show ?thesis
    using scan_number_iff [of "[CHR '']'']" "[CHR ''['']" "''-12.5e3''" False]
    by (simp add: json_number_char_def json_is_digit_def)
qed

end
