(* ===== verification/Json_Writer.thy ===== *)
theory Json_Writer
  imports Json_Tree
begin

text \<open>
  The state-checked writer of \<^verbatim>\<open>server_engine/json/json_writer.hpp\<close>, with \<^verbatim>\<open>json_escape.hpp\<close> and
  \<^verbatim>\<open>json_buffer.hpp\<close>. The buffer is a string; the stack of frames is a list whose head is the
  vector's back. Every call returns the flag the code returns, with the new writer.

  The first part shows what a sequence of calls does: the calls of a tree all succeed and leave
  its compact rendering, and every sequence of calls that all succeed and leaves the writer complete
  is the sequence of some tree. The second part parses the rendering back.
\<close>

section \<open>Buffer and escapes\<close>

definition json_hex_upper :: string where
  "json_hex_upper = ''0123456789ABCDEF''"

definition json_write_u00_escape :: "string \<Rightarrow> nat \<Rightarrow> string" where
  "json_write_u00_escape output b =
     output @ [chr 92, CHR ''u'', CHR ''0'', CHR ''0'', json_hex_upper ! (drop_bit 4 b AND 0x0F), json_hex_upper ! (b AND 0x0F)]"

text \<open>One round of the loop of \<^verbatim>\<open>json_write_escaped_string\<close>.\<close>

definition json_write_escaped_char :: "string \<Rightarrow> char \<Rightarrow> string" where
  "json_write_escaped_char output c =
     (let b = byte c
      in if b = 34 then output @ [chr 92, chr 34]
         else if b = 92 then output @ [chr 92, chr 92]
         else if b = 8 then output @ [chr 92, CHR ''b'']
         else if b = 12 then output @ [chr 92, CHR ''f'']
         else if b = 10 then output @ [chr 92, CHR ''n'']
         else if b = 13 then output @ [chr 92, CHR ''r'']
         else if b = 9 then output @ [chr 92, CHR ''t'']
         else if b < 0x20 then json_write_u00_escape output b
         else output @ [c])"

definition json_write_escaped_string :: "string \<Rightarrow> string \<Rightarrow> string" where
  "json_write_escaped_string output s = foldl json_write_escaped_char (output @ [chr 34]) s @ [chr 34]"

text \<open>\<^verbatim>\<open>std::to_chars\<close> on an integer: base ten, no leading zero, a minus sign for negative values.\<close>

fun decimal_digits :: "nat \<Rightarrow> string" where
  "decimal_digits n = (if n < 10 then [char_of (48 + n)] else decimal_digits (n div 10) @ [char_of (48 + n mod 10)])"

declare decimal_digits.simps [simp del]

definition to_chars_int :: "int \<Rightarrow> string" where
  "to_chars_int i = (if i < 0 then CHR ''-'' # decimal_digits (nat (- i)) else decimal_digits (nat i))"

text \<open>\<open>push_integer\<close> writes through a buffer of 32 characters; \<open>None\<close> is the failed conversion.\<close>

definition json_push_integer :: "string \<Rightarrow> int \<Rightarrow> string option" where
  "json_push_integer output i =
     (if length (to_chars_int i) \<le> 32 then Some (output @ to_chars_int i) else None)"

section \<open>Writer\<close>

datatype container_kind = object_container | array_container

record json_frame =
  fr_kind :: container_kind
  fr_has_content :: bool
  fr_expect_key :: bool

record json_writer =
  jw_output :: string
  jw_stack :: "json_frame list"
  jw_root_written :: bool
  jw_valid :: bool

definition jw_clear :: json_writer where
  "jw_clear = \<lparr>jw_output = [], jw_stack = [], jw_root_written = False, jw_valid = True\<rparr>"

definition jw_complete :: "json_writer \<Rightarrow> bool" where
  "jw_complete w \<longleftrightarrow> jw_valid w \<and> jw_root_written w \<and> jw_stack w = []"

definition jw_push :: "string \<Rightarrow> json_writer \<Rightarrow> json_writer" where
  "jw_push s w = w\<lparr>jw_output := jw_output w @ s\<rparr>"

definition jw_invalidate :: "json_writer \<Rightarrow> bool \<times> json_writer" where
  "jw_invalidate w = (False, w\<lparr>jw_valid := False\<rparr>)"

definition jw_begin_value :: "json_writer \<Rightarrow> bool \<times> json_writer" where
  "jw_begin_value w =
     (if \<not> jw_valid w then (False, w)
      else case jw_stack w of
          [] \<Rightarrow> if jw_root_written w then jw_invalidate w else (True, w\<lparr>jw_root_written := True\<rparr>)
        | fr # _ \<Rightarrow>
            if fr_kind fr = object_container
            then if fr_expect_key fr then jw_invalidate w else (True, w)
            else if fr_has_content fr then (True, jw_push '','' w) else (True, w))"

definition jw_finish_value :: "json_writer \<Rightarrow> json_writer" where
  "jw_finish_value w =
     (case jw_stack w of
        [] \<Rightarrow> w
      | fr # rest \<Rightarrow>
          w\<lparr>jw_stack :=
            fr\<lparr>fr_has_content := True,
               fr_expect_key := (if fr_kind fr = object_container then True else fr_expect_key fr)\<rparr> # rest\<rparr>)"

definition jw_begin_object :: "json_writer \<Rightarrow> bool \<times> json_writer" where
  "jw_begin_object w =
     (case jw_begin_value w of
        (False, w) \<Rightarrow> (False, w)
      | (True, w) \<Rightarrow>
          (True, (jw_push ''{'' w)\<lparr>jw_stack :=
             \<lparr>fr_kind = object_container, fr_has_content = False, fr_expect_key = True\<rparr> # jw_stack w\<rparr>))"

definition jw_end_object :: "json_writer \<Rightarrow> bool \<times> json_writer" where
  "jw_end_object w =
     (case jw_stack w of
        [] \<Rightarrow> jw_invalidate w
      | fr # rest \<Rightarrow>
          if fr_kind fr \<noteq> object_container \<or> \<not> fr_expect_key fr then jw_invalidate w
          else (True, jw_finish_value ((jw_push ''}'' w)\<lparr>jw_stack := rest\<rparr>)))"

definition jw_begin_array :: "json_writer \<Rightarrow> bool \<times> json_writer" where
  "jw_begin_array w =
     (case jw_begin_value w of
        (False, w) \<Rightarrow> (False, w)
      | (True, w) \<Rightarrow>
          (True, (jw_push ''['' w)\<lparr>jw_stack :=
             \<lparr>fr_kind = array_container, fr_has_content = False, fr_expect_key = False\<rparr> # jw_stack w\<rparr>))"

definition jw_end_array :: "json_writer \<Rightarrow> bool \<times> json_writer" where
  "jw_end_array w =
     (case jw_stack w of
        [] \<Rightarrow> jw_invalidate w
      | fr # rest \<Rightarrow>
          if fr_kind fr \<noteq> array_container then jw_invalidate w
          else (True, jw_finish_value ((jw_push '']'' w)\<lparr>jw_stack := rest\<rparr>)))"

definition jw_key :: "string \<Rightarrow> json_writer \<Rightarrow> bool \<times> json_writer" where
  "jw_key s w =
     (case jw_stack w of
        [] \<Rightarrow> jw_invalidate w
      | fr # rest \<Rightarrow>
          if fr_kind fr \<noteq> object_container \<or> \<not> fr_expect_key fr then jw_invalidate w
          else
            let w1 = (if fr_has_content fr then jw_push '','' w else w);
                w2 = w1\<lparr>jw_output := json_write_escaped_string (jw_output w1) s\<rparr>
            in (True, (jw_push '':'' w2)\<lparr>jw_stack := fr\<lparr>fr_expect_key := False\<rparr> # rest\<rparr>))"

definition jw_primitive :: "string \<Rightarrow> json_writer \<Rightarrow> bool \<times> json_writer" where
  "jw_primitive s w =
     (case jw_begin_value w of
        (False, w) \<Rightarrow> (False, w)
      | (True, w) \<Rightarrow> (True, jw_finish_value (jw_push s w)))"

definition jw_null :: "json_writer \<Rightarrow> bool \<times> json_writer" where
  "jw_null w = jw_primitive ''null'' w"

definition jw_boolean :: "bool \<Rightarrow> json_writer \<Rightarrow> bool \<times> json_writer" where
  "jw_boolean b w = jw_primitive (if b then ''true'' else ''false'') w"

definition jw_number_int :: "int \<Rightarrow> json_writer \<Rightarrow> bool \<times> json_writer" where
  "jw_number_int i w =
     (case jw_begin_value w of
        (False, w) \<Rightarrow> (False, w)
      | (True, w) \<Rightarrow>
          (case json_push_integer (jw_output w) i of
             None \<Rightarrow> jw_invalidate w
           | Some out \<Rightarrow> (True, jw_finish_value (w\<lparr>jw_output := out\<rparr>))))"

text \<open>
  The overload for \<^verbatim>\<open>double\<close>: the caller passes whether the value is finite and what
  \<^verbatim>\<open>std::to_chars\<close> in the general format makes of it, \<open>None\<close> when it reports an error.
\<close>

definition jw_number_double :: "bool \<Rightarrow> string option \<Rightarrow> json_writer \<Rightarrow> bool \<times> json_writer" where
  "jw_number_double isfinite converted w =
     (if \<not> isfinite then jw_invalidate w
      else case jw_begin_value w of
          (False, w) \<Rightarrow> jw_invalidate w
        | (True, w) \<Rightarrow>
            (case converted of
               None \<Rightarrow> jw_invalidate w
             | Some s \<Rightarrow> (True, jw_finish_value (jw_push s w))))"

definition jw_string :: "string \<Rightarrow> json_writer \<Rightarrow> bool \<times> json_writer" where
  "jw_string s w =
     (case jw_begin_value w of
        (False, w) \<Rightarrow> (False, w)
      | (True, w) \<Rightarrow> (True, jw_finish_value (w\<lparr>jw_output := json_write_escaped_string (jw_output w) s\<rparr>)))"

section \<open>Call sequences\<close>

datatype json_call =
  call_begin_object | call_end_object | call_begin_array | call_end_array | call_key string
| call_null | call_boolean bool | call_int int | call_double bool "string option" | call_string string

primrec jw_call :: "json_call \<Rightarrow> json_writer \<Rightarrow> bool \<times> json_writer" where
  "jw_call call_begin_object = jw_begin_object"
| "jw_call call_end_object = jw_end_object"
| "jw_call call_begin_array = jw_begin_array"
| "jw_call call_end_array = jw_end_array"
| "jw_call (call_key s) = jw_key s"
| "jw_call call_null = jw_null"
| "jw_call (call_boolean b) = jw_boolean b"
| "jw_call (call_int i) = jw_number_int i"
| "jw_call (call_double fin s) = jw_number_double fin s"
| "jw_call (call_string s) = jw_string s"

text \<open>A sequence of calls: whether all of them returned true, and the writer after the last one.\<close>

fun jw_calls :: "json_call list \<Rightarrow> json_writer \<Rightarrow> bool \<times> json_writer" where
  "jw_calls [] w = (True, w)"
| "jw_calls (c # cs) w =
     (let (ok, w1) = jw_call c w; (oks, w2) = jw_calls cs w1 in (ok \<and> oks, w2))"

lemmas jw_defs = jw_begin_object_def jw_end_object_def jw_begin_array_def jw_end_array_def jw_key_def
  jw_null_def jw_boolean_def jw_number_int_def jw_number_double_def jw_string_def jw_primitive_def

lemma jw_invalid_begin: "\<not> jw_valid w \<Longrightarrow> jw_begin_value w = (False, w)"
  by (simp add: jw_begin_value_def)

lemma jw_finish_valid [simp]: "jw_valid (jw_finish_value w) = jw_valid w"
  by (simp add: jw_finish_value_def split: list.splits)

lemma jw_push_valid [simp]: "jw_valid (jw_push s w) = jw_valid w"
  by (simp add: jw_push_def)

lemma jw_invalidate_valid [simp]: "\<not> jw_valid (snd (jw_invalidate w))"
  by (simp add: jw_invalidate_def)

lemma jw_call_invalid: "\<not> jw_valid w \<Longrightarrow> \<not> jw_valid (snd (jw_call c w))"
  by (cases c) (simp_all add: jw_defs jw_invalid_begin Let_def split: list.splits)

lemma jw_calls_invalid: "\<not> jw_valid w \<Longrightarrow> \<not> jw_valid (snd (jw_calls cs w))"
  by (induction cs arbitrary: w) (auto simp: case_prod_unfold Let_def jw_call_invalid)

lemma jw_call_failed: "\<not> fst (jw_call c w) \<Longrightarrow> \<not> jw_valid (snd (jw_call c w))"
  by (cases c)
    (auto simp: jw_defs jw_begin_value_def jw_invalidate_def Let_def split: list.splits option.splits if_splits)

lemma jw_calls_failed: "\<not> fst (jw_calls cs w) \<Longrightarrow> \<not> jw_valid (snd (jw_calls cs w))"
proof (induction cs arbitrary: w)
  case (Cons c cs)
  then show ?case
    using jw_call_failed [of c w] jw_calls_invalid [of "snd (jw_call c w)" cs] by (auto simp: case_prod_unfold Let_def)
qed simp

section \<open>Compact rendering\<close>

fun commas :: "string list \<Rightarrow> string" where
  "commas [] = []"
| "commas [x] = x"
| "commas (x # y # ys) = x @ '','' @ commas (y # ys)"

abbreviation sep :: "'a list \<Rightarrow> string" where
  "sep xs \<equiv> (if xs = [] then [] else '','')"

lemma commas_snoc: "commas (xs @ [x]) = commas xs @ sep xs @ x"
  by (induction xs rule: commas.induct) simp_all

abbreviation json_quote :: "string \<Rightarrow> string" where
  "json_quote s \<equiv> json_write_escaped_string [] s"

lemma json_write_escaped_char_append: "json_write_escaped_char out c = out @ json_write_escaped_char [] c"
  by (simp add: json_write_escaped_char_def json_write_u00_escape_def Let_def)

lemma escape_foldl: "foldl json_write_escaped_char out s = out @ concat (map (json_write_escaped_char []) s)"
proof (induction s arbitrary: out)
  case (Cons c s)
  show ?case using Cons.IH [of "json_write_escaped_char out c"] json_write_escaped_char_append [of out c] by simp
qed simp

lemma json_write_escaped_string_append: "json_write_escaped_string out s = out @ json_quote s"
  by (simp add: json_write_escaped_string_def escape_foldl)

primrec json_render :: "json_tree \<Rightarrow> string" where
  "json_render (JString s) = json_quote s"
| "json_render (JNumber integer s) = s"
| "json_render (JBool b) = (if b then ''true'' else ''false'')"
| "json_render JNull = ''null''"
| "json_render (JObject ms) =
     ''{'' @ commas (map (\<lambda>m. json_quote (fst m) @ '':'' @ snd m) (map (map_prod id json_render) ms)) @ ''}''"
| "json_render (JArray js) = ''['' @ commas (map json_render js) @ '']''"

definition member_text :: "string \<times> json_tree \<Rightarrow> string" where
  "member_text m = json_quote (fst m) @ '':'' @ json_render (snd m)"

lemma json_render_object [simp]: "json_render (JObject ms) = ''{'' @ commas (map member_text ms) @ ''}''"
proof -
  have "map (\<lambda>m. json_quote (fst m) @ '':'' @ snd m) (map (map_prod id json_render) ms) = map member_text ms"
    by (simp add: member_text_def)
  then show ?thesis by (simp only: json_render.simps)
qed

declare json_render.simps(5) [simp del]

section \<open>Specification: a tree with a hole\<close>

text \<open>
  What the writer promises, without text: the finished root, if any, and the open containers,
  innermost first, each with the children written so far and, for an object, the key whose value
  comes next.
\<close>

datatype json_partial = PObject "(string \<times> json_tree) list" "string option" | PArray "json_tree list"

type_synonym json_zipper = "json_tree option \<times> json_partial list"

fun zip_ready :: "json_zipper \<Rightarrow> bool" where
  "zip_ready (r, []) = (r = None)"
| "zip_ready (r, PObject ms k # ps) = (k \<noteq> None)"
| "zip_ready (r, PArray js # ps) = True"

fun zip_plug :: "json_tree \<Rightarrow> json_zipper \<Rightarrow> json_zipper" where
  "zip_plug j (r, []) = (Some j, [])"
| "zip_plug j (r, PObject ms (Some k) # ps) = (r, PObject (ms @ [(k, j)]) None # ps)"
| "zip_plug j (r, PObject ms None # ps) = (r, PObject ms None # ps)"
| "zip_plug j (r, PArray js # ps) = (r, PArray (js @ [j]) # ps)"

definition zip_value :: "json_tree \<Rightarrow> json_zipper \<Rightarrow> json_zipper option" where
  "zip_value j z = (if zip_ready z then Some (zip_plug j z) else None)"

definition zip_open :: "json_partial \<Rightarrow> json_zipper \<Rightarrow> json_zipper option" where
  "zip_open p z = (if zip_ready z then Some (fst z, p # snd z) else None)"

text \<open>A number without fraction and exponent.\<close>

definition json_integer_text :: "string \<Rightarrow> bool" where
  "json_integer_text s \<longleftrightarrow> list_all (\<lambda>c. json_is_digit c \<or> c = CHR ''-'') s"

fun zip_call :: "json_call \<Rightarrow> json_zipper \<Rightarrow> json_zipper option" where
  "zip_call call_begin_object z = zip_open (PObject [] None) z"
| "zip_call call_end_object (r, PObject ms None # ps) = Some (zip_plug (JObject ms) (r, ps))"
| "zip_call call_begin_array z = zip_open (PArray []) z"
| "zip_call call_end_array (r, PArray js # ps) = Some (zip_plug (JArray js) (r, ps))"
| "zip_call (call_key k) (r, PObject ms None # ps) = Some (r, PObject ms (Some k) # ps)"
| "zip_call call_null z = zip_value JNull z"
| "zip_call (call_boolean b) z = zip_value (JBool b) z"
| "zip_call (call_int i) z =
     (if length (to_chars_int i) \<le> 32 then zip_value (JNumber True (to_chars_int i)) z else None)"
| "zip_call (call_double fin s) z =
     (case s of None \<Rightarrow> None | Some s \<Rightarrow> if fin then zip_value (JNumber (json_integer_text s) s) z else None)"
| "zip_call (call_string s) z = zip_value (JString s) z"
| "zip_call _ _ = None"

text \<open>The open containers enclosing another one wait for a value, and there is no finished root.\<close>

definition zip_ok :: "json_zipper \<Rightarrow> bool" where
  "zip_ok z \<longleftrightarrow> (snd z \<noteq> [] \<longrightarrow> fst z = None) \<and> list_all (\<lambda>p. zip_ready (None, [p])) (tl (snd z))"

section \<open>The writer implements the specification\<close>

definition partial_frame :: "json_partial \<Rightarrow> json_frame" where
  "partial_frame p =
     (case p of
        PObject ms k \<Rightarrow> \<lparr>fr_kind = object_container, fr_has_content = (ms \<noteq> []), fr_expect_key = (k = None)\<rparr>
      | PArray js \<Rightarrow> \<lparr>fr_kind = array_container, fr_has_content = (js \<noteq> []), fr_expect_key = False\<rparr>)"

definition partial_text :: "json_partial \<Rightarrow> string" where
  "partial_text p =
     (case p of
        PObject ms k \<Rightarrow> ''{'' @ commas (map member_text ms) @
          (case k of None \<Rightarrow> [] | Some k \<Rightarrow> sep ms @ json_quote k @ '':'')
      | PArray js \<Rightarrow> ''['' @ commas (map json_render js))"

text \<open>The text before a value inside the open containers.\<close>

fun before_value :: "json_partial list \<Rightarrow> string" where
  "before_value [] = []"
| "before_value (p # ps) =
     before_value ps @ partial_text p @ (case p of PObject ms k \<Rightarrow> [] | PArray js \<Rightarrow> sep js)"

fun zip_text :: "json_zipper \<Rightarrow> string" where
  "zip_text (None, []) = []"
| "zip_text (Some j, []) = json_render j"
| "zip_text (r, p # ps) = before_value ps @ partial_text p"

definition zip_writer :: "json_zipper \<Rightarrow> json_writer" where
  "zip_writer z =
     \<lparr>jw_output = zip_text z, jw_stack = map partial_frame (snd z),
      jw_root_written = (z \<noteq> (None, [])), jw_valid = True\<rparr>"

lemma zip_writer_start: "zip_writer (None, []) = jw_clear"
  by (simp add: zip_writer_def jw_clear_def)

text \<open>\<open>begin_value\<close> succeeds exactly where a value may stand, and leaves the text before it.\<close>

definition zip_begun :: "json_zipper \<Rightarrow> json_writer" where
  "zip_begun z =
     \<lparr>jw_output = before_value (snd z), jw_stack = map partial_frame (snd z), jw_root_written = True, jw_valid = True\<rparr>"

lemma begin_value_zip:
  assumes "zip_ok z"
  shows "jw_begin_value (zip_writer z) =
    (if zip_ready z then (True, zip_begun z) else jw_invalidate (zip_writer z))"
proof (cases z rule: zip_ready.cases)
  case (1 r)
  then show ?thesis
    by (cases r) (simp_all add: jw_begin_value_def zip_writer_def zip_begun_def jw_invalidate_def)
next
  case (2 r ms k ps)
  then show ?thesis
    by (simp add: jw_begin_value_def zip_writer_def zip_begun_def partial_frame_def jw_invalidate_def)
next
  case (3 r js ps)
  then show ?thesis
    by (simp add: jw_begin_value_def zip_writer_def zip_begun_def partial_frame_def jw_invalidate_def jw_push_def)
qed

lemma finish_value_zip:
  assumes "zip_ready z" "zip_ok z"
  shows "jw_finish_value (jw_push (json_render j) (zip_begun z)) = zip_writer (zip_plug j z) \<and> zip_ok (zip_plug j z)"
proof (cases z rule: zip_ready.cases)
  case (1 r)
  then show ?thesis by (simp add: jw_finish_value_def jw_push_def zip_begun_def zip_writer_def zip_ok_def)
next
  case (2 r ms k ps)
  then obtain k' where "k = Some k'" using assms(1) by auto
  then show ?thesis
    using 2 assms(2)
    by (simp add: jw_finish_value_def jw_push_def zip_begun_def zip_writer_def zip_ok_def partial_frame_def partial_text_def
        commas_snoc member_text_def)
next
  case (3 r js ps)
  then show ?thesis
    using assms(2)
    by (simp add: jw_finish_value_def jw_push_def zip_begun_def zip_writer_def zip_ok_def partial_frame_def partial_text_def
        commas_snoc)
qed

definition zip_simulates :: "json_call \<Rightarrow> json_zipper \<Rightarrow> bool" where
  "zip_simulates c z \<longleftrightarrow>
     (case zip_call c z of
        Some z' \<Rightarrow> jw_call c (zip_writer z) = (True, zip_writer z') \<and> zip_ok z'
      | None \<Rightarrow> \<not> fst (jw_call c (zip_writer z)))"

lemma jw_invalidate_fst [simp]: "fst (jw_invalidate w) = False"
  by (simp add: jw_invalidate_def)

lemma begin_value_cases:
  assumes "zip_ok z"
  obtains (ready) "zip_ready z" "jw_begin_value (zip_writer z) = (True, zip_begun z)"
  | (refused) w where "\<not> zip_ready z" "jw_begin_value (zip_writer z) = (False, w)"
  using begin_value_zip [OF assms] by (cases "zip_ready z") (auto simp: jw_invalidate_def)

lemma primitive_zip:
  assumes "zip_ok z"
  shows "case zip_value j z of
      Some z' \<Rightarrow> jw_primitive (json_render j) (zip_writer z) = (True, zip_writer z') \<and> zip_ok z'
    | None \<Rightarrow> \<not> fst (jw_primitive (json_render j) (zip_writer z))"
  using finish_value_zip [of z j] assms
  by (cases rule: begin_value_cases [OF assms]) (simp_all add: zip_value_def jw_primitive_def)

lemma jw_string_primitive: "jw_string s w = jw_primitive (json_quote s) w"
proof (cases "jw_begin_value w")
  case (Pair ok w1)
  then show ?thesis
    using json_write_escaped_string_append [of "jw_output w1" s]
    by (simp add: jw_string_def jw_primitive_def jw_push_def split: bool.splits)
qed

lemma jw_number_int_primitive:
  "length (to_chars_int i) \<le> 32 \<Longrightarrow> jw_number_int i w = jw_primitive (to_chars_int i) w"
  by (cases "jw_begin_value w")
    (simp add: jw_number_int_def jw_primitive_def jw_push_def json_push_integer_def split: bool.splits)

lemma open_zip:
  "(jw_push (partial_text p) (zip_begun z))\<lparr>jw_stack := partial_frame p # jw_stack (zip_begun z)\<rparr> =
     zip_writer (fst z, p # snd z)"
  by (simp add: jw_push_def zip_begun_def zip_writer_def)

lemma begin_container_zip:
  assumes ok: "zip_ok z" and c: "c = call_begin_object \<or> c = call_begin_array"
  shows "zip_simulates c z"
  using ok
proof (cases rule: begin_value_cases)
  case ready
  have ok': "zip_ok (fst z, p # snd z)" for p
    using ok ready(1) by (cases z rule: zip_ready.cases) (auto simp: zip_ok_def)
  show ?thesis
    using c ready ok' open_zip [of "PObject [] None" z] open_zip [of "PArray []" z]
    by (auto simp: zip_simulates_def zip_open_def jw_defs partial_text_def partial_frame_def)
next
  case (refused w)
  then show ?thesis using c by (auto simp: zip_simulates_def zip_open_def jw_defs)
qed

lemma close_zip:
  assumes "zip_ok (r, p # ps)" "partial_text p @ cl = json_render j"
  shows "jw_finish_value ((jw_push cl (zip_writer (r, p # ps)))\<lparr>jw_stack := map partial_frame ps\<rparr>) =
      zip_writer (zip_plug j (r, ps)) \<and> zip_ok (zip_plug j (r, ps))"
proof -
  have ready: "zip_ready (r, ps)" "zip_ok (r, ps)"
    using assms(1) by (cases ps; cases "hd ps"; simp add: zip_ok_def list_all_iff; metis list.set_sel(2))+
  have "(jw_push cl (zip_writer (r, p # ps)))\<lparr>jw_stack := map partial_frame ps\<rparr> =
      jw_push (json_render j) (zip_begun (r, ps))"
    using assms(2) by (simp add: jw_push_def zip_writer_def zip_begun_def)
  then show ?thesis using finish_value_zip [OF ready] by simp
qed

lemma end_object_zip:
  assumes "zip_ok z" shows "zip_simulates call_end_object z"
proof (cases "(call_end_object, z)" rule: zip_call.cases)
  case (2 r ms ps)
  then show ?thesis
    using assms close_zip [of r "PObject ms None" ps "''}''" "JObject ms"]
    by (auto simp: zip_simulates_def jw_end_object_def zip_writer_def partial_frame_def partial_text_def)
qed (auto simp: zip_simulates_def jw_end_object_def zip_writer_def partial_frame_def split: json_partial.splits)

lemma end_array_zip:
  assumes "zip_ok z" shows "zip_simulates call_end_array z"
proof (cases "(call_end_array, z)" rule: zip_call.cases)
  case (4 r js ps)
  then show ?thesis
    using assms close_zip [of r "PArray js" ps "'']''" "JArray js"]
    by (auto simp: zip_simulates_def jw_end_array_def zip_writer_def partial_frame_def partial_text_def)
qed (auto simp: zip_simulates_def jw_end_array_def zip_writer_def partial_frame_def split: json_partial.splits)

lemma key_zip:
  assumes "zip_ok z" shows "zip_simulates (call_key k) z"
proof (cases "(call_key k, z)" rule: zip_call.cases)
  case (5 k' r ms ps)
  then show ?thesis
    using assms json_write_escaped_string_append [of "zip_text z" k] json_write_escaped_string_append [of "zip_text z @ '',''" k]
    by (auto simp: zip_simulates_def jw_key_def zip_writer_def partial_frame_def partial_text_def jw_push_def Let_def zip_ok_def)
qed (auto simp: zip_simulates_def jw_key_def zip_writer_def partial_frame_def split: json_partial.splits)

lemma scalar_zip:
  assumes "zip_ok z" and c: "jw_call c (zip_writer z) = jw_primitive (json_render j) (zip_writer z)" "zip_call c z = zip_value j z"
  shows "zip_simulates c z"
  unfolding zip_simulates_def c by (rule primitive_zip [OF assms(1)])

lemma double_zip:
  assumes "zip_ok z" shows "zip_simulates (call_double fin s) z"
proof (cases "fin \<and> s \<noteq> None")
  case True
  then obtain t where t: "s = Some t" "fin" by auto
  have "zip_simulates (call_double fin s) z"
    if "jw_number_double fin s (zip_writer z) = jw_primitive t (zip_writer z)"
    using that t scalar_zip [OF assms, of "call_double fin s" "JNumber (json_integer_text t) t"] by simp
  then show ?thesis
    using begin_value_zip [OF assms] t
    by (cases "zip_ready z") (auto simp: jw_number_double_def jw_primitive_def jw_invalidate_def zip_writer_def)
next
  case False
  then show ?thesis
    using begin_value_zip [OF assms]
    by (auto simp: zip_simulates_def jw_number_double_def jw_invalidate_def split: option.splits)
qed

lemma int_zip:
  assumes "zip_ok z" shows "zip_simulates (call_int i) z"
proof (cases "length (to_chars_int i) \<le> 32")
  case True
  then show ?thesis
    using scalar_zip [OF assms, of "call_int i" "JNumber True (to_chars_int i)"] by (simp add: jw_number_int_primitive)
next
  case False
  then show ?thesis
    using begin_value_zip [OF assms]
    by (auto simp: zip_simulates_def jw_number_int_def jw_invalidate_def json_push_integer_def)
qed

lemma jw_call_zip: "zip_ok z \<Longrightarrow> zip_simulates c z"
proof (cases c)
  case (call_boolean b)
  assume "zip_ok z"
  then show ?thesis
    using call_boolean by (intro scalar_zip [where j = "JBool b"]) (simp_all add: jw_boolean_def)
qed (auto simp: begin_container_zip end_object_zip end_array_zip key_zip double_zip int_zip jw_null_def jw_string_primitive
      intro: scalar_zip [where j = JNull] scalar_zip [where j = "JString _"])

section \<open>Sequences of calls\<close>

fun zip_calls :: "json_call list \<Rightarrow> json_zipper \<Rightarrow> json_zipper option" where
  "zip_calls [] z = Some z"
| "zip_calls (c # cs) z = (case zip_call c z of None \<Rightarrow> None | Some z' \<Rightarrow> zip_calls cs z')"

lemma zip_calls_append: "zip_calls (cs @ ds) z = (case zip_calls cs z of None \<Rightarrow> None | Some z' \<Rightarrow> zip_calls ds z')"
  by (induction cs arbitrary: z) (simp_all split: option.splits)

lemma jw_calls_zip:
  "zip_ok z \<Longrightarrow>
     (case zip_calls cs z of
        Some z' \<Rightarrow> jw_calls cs (zip_writer z) = (True, zip_writer z') \<and> zip_ok z'
      | None \<Rightarrow> \<not> fst (jw_calls cs (zip_writer z)))"
proof (induction cs arbitrary: z)
  case (Cons c cs)
  show ?case
  proof (cases "zip_call c z")
    case None
    then have "\<not> fst (jw_call c (zip_writer z))" using jw_call_zip [OF Cons.prems, of c] by (simp add: zip_simulates_def)
    then show ?thesis using None by (simp add: case_prod_unfold Let_def)
  next
    case (Some z')
    then have "jw_call c (zip_writer z) = (True, zip_writer z')" "zip_ok z'"
      using jw_call_zip [OF Cons.prems, of c] by (simp_all add: zip_simulates_def)
    then show ?thesis using Cons.IH [of z'] Some by (auto simp: case_prod_unfold split: option.splits)
  qed
qed simp

text \<open>The event a call stands for.\<close>

fun call_event :: "json_call \<Rightarrow> json_event" where
  "call_event call_begin_object = ev_object_begin"
| "call_event call_end_object = ev_object_end"
| "call_event call_begin_array = ev_array_begin"
| "call_event call_end_array = ev_array_end"
| "call_event (call_key k) = ev_key k"
| "call_event call_null = scalar_event json_null_value [] False"
| "call_event (call_boolean b) = scalar_event json_boolean [] b"
| "call_event (call_int i) = scalar_event json_integer (to_chars_int i) False"
| "call_event (call_double fin s) =
     (let t = (case s of None \<Rightarrow> [] | Some t \<Rightarrow> t)
      in scalar_event (if json_integer_text t then json_integer else json_number) t False)"
| "call_event (call_string s) = scalar_event json_string s False"

definition partial_events :: "json_partial \<Rightarrow> json_event list" where
  "partial_events p =
     (case p of
        PObject ms k \<Rightarrow> ev_object_begin # concat (map member_events ms) @ (case k of None \<Rightarrow> [] | Some k \<Rightarrow> [ev_key k])
      | PArray js \<Rightarrow> ev_array_begin # concat (map json_events js))"

definition zip_events :: "json_zipper \<Rightarrow> json_event list" where
  "zip_events z = (case fst z of None \<Rightarrow> [] | Some j \<Rightarrow> json_events j) @ concat (map partial_events (rev (snd z)))"

lemma zip_plug_events: "zip_ready z \<Longrightarrow> zip_events (zip_plug j z) = zip_events z @ json_events j"
  by (cases z rule: zip_ready.cases) (auto simp: zip_events_def partial_events_def member_events_def)

lemma zip_value_events: "zip_value j z = Some z' \<Longrightarrow> zip_events z' = zip_events z @ json_events j"
  by (auto simp: zip_value_def zip_plug_events split: if_splits)

lemma zip_ok_below: "zip_ok (r, p # ps) \<Longrightarrow> zip_ready (r, ps)"
  by (cases ps; cases "hd ps") (auto simp: zip_ok_def)

lemma zip_call_events:
  assumes "zip_ok z" "zip_call c z = Some z'"
  shows "zip_events z' = zip_events z @ [call_event c]"
  using assms
proof (cases "(c, z)" rule: zip_call.cases)
  case (2 r ms ps)
  then show ?thesis
    using assms zip_plug_events [OF zip_ok_below, of r _ ps "JObject ms"]
    by (auto simp: zip_events_def partial_events_def)
next
  case (4 r js ps)
  then show ?thesis
    using assms zip_plug_events [OF zip_ok_below, of r _ ps "JArray js"]
    by (auto simp: zip_events_def partial_events_def)
qed (auto simp: zip_open_def zip_events_def partial_events_def dest!: zip_value_events split: if_splits option.splits)

lemma zip_calls_events:
  "zip_ok z \<Longrightarrow> zip_calls cs z = Some z' \<Longrightarrow> zip_events z' = zip_events z @ map call_event cs"
proof (induction cs arbitrary: z)
  case (Cons c cs)
  then obtain z1 where z1: "zip_call c z = Some z1" "zip_calls cs z1 = Some z'" by (auto split: option.splits)
  moreover have "zip_ok z1" using jw_call_zip [OF Cons.prems(1), of c] z1 by (simp add: zip_simulates_def)
  ultimately show ?case using Cons.IH zip_call_events [OF Cons.prems(1)] by simp
qed simp

lemma jw_calls_outcome:
  "case zip_calls cs (None, []) of
     Some z \<Rightarrow> jw_calls cs jw_clear = (True, zip_writer z) \<and> zip_ok z \<and> zip_events z = map call_event cs
   | None \<Rightarrow> \<not> jw_valid (snd (jw_calls cs jw_clear))"
proof -
  have ok: "zip_ok (None, [])" by (simp add: zip_ok_def)
  show ?thesis
    using jw_calls_zip [OF ok, of cs] zip_calls_events [OF ok, of cs] jw_calls_failed [of cs jw_clear]
    by (auto simp: zip_writer_start zip_events_def split: option.splits)
qed

lemma jw_complete_tree:
  assumes "jw_complete (snd (jw_calls cs jw_clear))"
  obtains j where "fst (jw_calls cs jw_clear)" "jw_output (snd (jw_calls cs jw_clear)) = json_render j"
    "map call_event cs = json_events j"
proof -
  obtain z where z: "jw_calls cs jw_clear = (True, zip_writer z)" "zip_events z = map call_event cs"
    using jw_calls_outcome [of cs] assms by (auto simp: jw_complete_def split: option.splits)
  have "jw_complete (zip_writer z)" using assms z by simp
  then obtain j where "z = (Some j, [])"
    by (cases z; cases "fst z") (auto simp: jw_complete_def zip_writer_def)
  then show thesis using that [of j] z by (auto simp: zip_writer_def zip_events_def)
qed

text \<open>The calls that write a tree.\<close>

primrec tree_calls :: "json_tree \<Rightarrow> json_call list" where
  "tree_calls (JString s) = [call_string s]"
| "tree_calls (JNumber integer s) = [call_double True (Some s)]"
| "tree_calls (JBool b) = [call_boolean b]"
| "tree_calls JNull = [call_null]"
| "tree_calls (JObject ms) =
     call_begin_object # concat (map (\<lambda>m. call_key (fst m) # snd m) (map (map_prod id tree_calls) ms)) @ [call_end_object]"
| "tree_calls (JArray js) = call_begin_array # concat (map tree_calls js) @ [call_end_array]"

definition member_calls :: "string \<times> json_tree \<Rightarrow> json_call list" where
  "member_calls m = call_key (fst m) # tree_calls (snd m)"

lemma tree_calls_object [simp]:
  "tree_calls (JObject ms) = call_begin_object # concat (map member_calls ms) @ [call_end_object]"
proof -
  have "map (\<lambda>m. call_key (fst m) # snd m) (map (map_prod id tree_calls) ms) = map member_calls ms"
    by (simp add: member_calls_def)
  then show ?thesis by (simp only: tree_calls.simps)
qed

declare tree_calls.simps(5) [simp del]

text \<open>Numbers whose integer flag says what their text says.\<close>

primrec json_flags_ok :: "json_tree \<Rightarrow> bool" where
  "json_flags_ok (JString s) = True"
| "json_flags_ok (JNumber integer s) = (integer = json_integer_text s)"
| "json_flags_ok (JBool b) = True"
| "json_flags_ok JNull = True"
| "json_flags_ok (JObject ms) = list_all snd (map (map_prod id json_flags_ok) ms)"
| "json_flags_ok (JArray js) = list_all id (map json_flags_ok js)"

lemma zip_calls_tree:
  "json_flags_ok j \<Longrightarrow> zip_ready z \<Longrightarrow> zip_calls (tree_calls j @ cs) z = zip_calls cs (zip_plug j z)"
proof (induction j arbitrary: z cs)
  case (JObject ms)
  have mem: "zip_calls (concat (map member_calls ns) @ ds) (r, PObject ms' None # ps) = zip_calls ds (r, PObject (ms' @ ns) None # ps)"
    if "set ns \<subseteq> set ms" for ns ms' r ps ds
    using that
  proof (induction ns arbitrary: ms')
    case (Cons n ns)
    have "zip_calls (tree_calls (snd n) @ concat (map member_calls ns) @ ds) (r, PObject ms' (Some (fst n)) # ps) =
        zip_calls (concat (map member_calls ns) @ ds) (r, PObject (ms' @ [n]) None # ps)"
      using JObject.IH [of n "snd n"] JObject.prems(1) Cons.prems by (auto simp: list_all_iff snds.simps)
    then show ?case using Cons.IH [of "ms' @ [n]"] Cons.prems by (simp add: member_calls_def [of n])
  qed simp
  show ?case
    using JObject.prems(2) mem [of ms "call_end_object # cs" "fst z" "[]" "snd z"] by (simp add: zip_open_def)
next
  case (JArray js)
  have el: "zip_calls (concat (map tree_calls ns) @ ds) (r, PArray js' # ps) = zip_calls ds (r, PArray (js' @ ns) # ps)"
    if "set ns \<subseteq> set js" for ns js' r ps ds
    using that
  proof (induction ns arbitrary: js')
    case (Cons n ns)
    have "zip_calls (tree_calls n @ concat (map tree_calls ns) @ ds) (r, PArray js' # ps) =
        zip_calls (concat (map tree_calls ns) @ ds) (r, PArray (js' @ [n]) # ps)"
      using JArray.IH [of n] JArray.prems(1) Cons.prems by (simp add: list_all_iff)
    then show ?case using Cons.IH [of "js' @ [n]"] Cons.prems by simp
  qed simp
  show ?case
    using JArray.prems(2) el [of js "call_end_array # cs" "fst z" "[]" "snd z"] by (simp add: zip_open_def)
qed (simp_all add: zip_value_def)

section \<open>Properties\<close>

text \<open>
  \<^bold>\<open>C17.\<close> \<open>complete()\<close> certifies the output. After any sequence of calls on a fresh writer, in any
  order and with any arguments, if the writer reports completeness then every call returned true,
  the output is the compact rendering of one JSON tree, and the calls are those of that tree, so no
  structurally invalid text is ever reported complete.
\<close>

theorem writer_complete_renders:
  assumes "jw_complete (snd (jw_calls cs jw_clear))"
  shows "fst (jw_calls cs jw_clear) \<and>
    (\<exists>j. jw_output (snd (jw_calls cs jw_clear)) = json_render j \<and> map call_event cs = json_events j)"
  using jw_complete_tree [OF assms] by metis

theorem writer_complete_renders_witness:
  "\<exists>j. jw_output (snd (jw_calls [call_begin_array, call_int (-7), call_string ''a'', call_end_array] jw_clear)) = json_render j"
proof -
  have "jw_complete (snd (jw_calls [call_begin_array, call_int (-7), call_string ''a'', call_end_array] jw_clear))"
    by code_simp
  then show ?thesis using writer_complete_renders by blast
qed

text \<open>
  Every document can be written: the calls of a tree all return true, leave the writer
  complete and leave the compact rendering of the tree in the buffer.
\<close>

theorem writer_writes_tree:
  assumes "json_flags_ok j"
  shows "\<exists>w. jw_calls (tree_calls j) jw_clear = (True, w) \<and> jw_complete w \<and> jw_output w = json_render j"
proof -
  have "zip_calls (tree_calls j) (None, []) = Some (Some j, [])"
    using zip_calls_tree [OF assms, of "(None, [])" "[]"] by simp
  then have "jw_calls (tree_calls j) jw_clear = (True, zip_writer (Some j, []))"
    using jw_calls_outcome [of "tree_calls j"] by simp
  then show ?thesis by (simp add: zip_writer_def jw_complete_def)
qed

theorem writer_writes_tree_witness:
  "\<exists>w. jw_calls (tree_calls (JObject [(''a'', JArray [JNull, JBool True])])) jw_clear = (True, w) \<and>
     jw_complete w \<and> jw_output w = json_render (JObject [(''a'', JArray [JNull, JBool True])])"
  by (rule writer_writes_tree) simp

text \<open>
  \<^bold>\<open>C39.\<close> The writer fails closed: once a call has returned false the writer is invalid, and no
  later sequence of calls makes it valid or complete again; only \<open>clear()\<close> does.
\<close>

theorem writer_fails_closed:
  assumes "\<not> fst (jw_calls cs w)"
  shows "\<not> jw_valid (snd (jw_calls (cs @ ds) w)) \<and> \<not> jw_complete (snd (jw_calls (cs @ ds) w))"
proof -
  have "snd (jw_calls (cs @ ds) w) = snd (jw_calls ds (snd (jw_calls cs w)))" for ds
    by (induction cs arbitrary: w) (simp_all add: case_prod_unfold Let_def)
  then show ?thesis using jw_calls_invalid [OF jw_calls_failed [OF assms]] by (simp add: jw_complete_def)
qed

theorem writer_fails_closed_witness:
  "\<not> jw_complete (snd (jw_calls ([call_begin_array, call_key ''k''] @ [call_end_array]) jw_clear))"
proof -
  have "\<not> fst (jw_calls [call_begin_array, call_key ''k''] jw_clear)" by code_simp
  then show ?thesis using writer_fails_closed by blast
qed

end
