(* ===== verification/Json_Roundtrip.thy ===== *)
theory Json_Roundtrip
  imports Json_Writer
begin

text \<open>
  The parser reads what the writer writes: the compact rendering of every document whose strings
  are UTF-8 and whose nesting the parser allows is accepted, with the events of the document. The
  text is always \<open>pre @ rest\<close>, read at the end of \<open>pre\<close>.
\<close>

section \<open>Strings\<close>

lemma loop_simple_escape:
  assumes "json_simple_escape e = Some c"
  shows "json_string_loop (pre @ [chr 92, e] @ rest) (length pre) acc =
    json_string_loop (pre @ [chr 92, e] @ rest) (length (pre @ [chr 92, e])) (acc @ [c])"
  using assms by (subst json_string_loop.simps) (simp add: Let_def nth_append)

lemma hex_upper_value: "n < 16 \<Longrightarrow> json_hex_value (json_hex_upper ! n) = int n"
proof -
  assume "n < 16"
  then have "n \<in> set [0..<16]" by simp
  moreover have "\<forall>n \<in> set [0..<16]. json_hex_value (json_hex_upper ! n) = int n" by code_simp
  ultimately show ?thesis by blast
qed

lemma control_nibbles: "b < 0x20 \<Longrightarrow> push_bit 4 (drop_bit 4 b AND 0x0F) OR (b AND 0x0F) = (b :: nat)"
proof -
  assume "b < 0x20"
  then have "b \<in> set [0..<0x20]" by simp
  moreover have "\<forall>b \<in> set [0..<0x20]. push_bit 4 (drop_bit 4 b AND 0x0F) OR (b AND 0x0F) = (b :: nat)" by code_simp
  ultimately show ?thesis by blast
qed

lemma hex4_at:
  assumes "\<forall>c \<in> {a, b, c, d}. 0 \<le> json_hex_value c"
  shows "json_parse_hex4 (pre @ [a, b, c, d] @ rest) (length pre) =
    Inr (push_bit 4 (push_bit 4 (push_bit 4 (push_bit 4 0 OR nat (json_hex_value a)) OR nat (json_hex_value b)) OR
      nat (json_hex_value c)) OR nat (json_hex_value d), length pre + 4)"
proof -
  have four: "(4 :: nat) = Suc (Suc (Suc (Suc 0)))" by simp
  show ?thesis
    using assms unfolding json_parse_hex4_def four by (simp add: nth_append Let_def push_bit_eq_mult)
qed

lemma loop_control:
  assumes "b < 0x20"
  shows "json_string_loop (pre @ json_write_u00_escape [] b @ rest) (length pre) acc =
    json_string_loop (pre @ json_write_u00_escape [] b @ rest) (length (pre @ json_write_u00_escape [] b)) (acc @ [chr b])"
proof -
  let ?x = "json_hex_upper ! (drop_bit 4 b AND 0x0F)" and ?y = "json_hex_upper ! (b AND 0x0F)"
  let ?text = "pre @ json_write_u00_escape [] b @ rest" and ?pre = "pre @ [chr 92, CHR ''u'']"
  have nib: "drop_bit 4 b AND 0x0F < 16" "b AND 0x0F < (16 :: nat)"
    using and_mask_mod [of _ 4] by simp_all
  have shape: "?text = ?pre @ [CHR ''0'', CHR ''0'', ?x, ?y] @ rest" by (simp add: json_write_u00_escape_def)
  have "json_parse_hex4 ?text (length ?pre) = Inr (b, length ?pre + 4)"
    unfolding shape using hex4_at [of "CHR ''0''" "CHR ''0''" ?x ?y ?pre rest] nib hex_upper_value control_nibbles [OF assms]
    by (simp add: json_hex_value_def [of "CHR ''0''"])
  moreover have "\<not> json_is_high_surrogate b" "\<not> json_is_low_surrogate b"
    using assms by (simp_all add: json_is_high_surrogate_def json_is_low_surrogate_def)
  ultimately have "json_parse_unicode_escape ?text (length pre) (length ?pre) acc =
      Inr (length (pre @ json_write_u00_escape [] b), acc @ [chr b])"
    using assms by (simp add: json_parse_unicode_escape_def json_append_utf8_def json_write_u00_escape_def)
  moreover have "json_simple_escape (CHR ''u'') = None" by code_simp
  ultimately show ?thesis
    by (subst json_string_loop.simps) (simp add: json_write_u00_escape_def nth_append Let_def)
qed

lemma loop_plain:
  assumes "0x20 \<le> byte c" "byte c \<le> 0x7F" "byte c \<noteq> 34" "byte c \<noteq> 92"
  shows "json_string_loop (pre @ [c] @ rest) (length pre) acc =
    json_string_loop (pre @ [c] @ rest) (length (pre @ [c])) (acc @ [c])"
  using assms by (subst json_string_loop.simps) (simp add: Let_def)

lemma loop_escaped_ascii:
  assumes "byte c \<le> 0x7F"
  shows "json_string_loop (pre @ json_write_escaped_char [] c @ rest) (length pre) acc =
    json_string_loop (pre @ json_write_escaped_char [] c @ rest) (length (pre @ json_write_escaped_char [] c)) (acc @ [c])"
proof -
  have c: "c = chr (byte c)" by simp
  have esc: "json_simple_escape (chr 34) = Some (chr 34)" "json_simple_escape (chr 92) = Some (chr 92)"
    "json_simple_escape (CHR ''b'') = Some (chr 8)" "json_simple_escape (CHR ''f'') = Some (chr 12)"
    "json_simple_escape (CHR ''n'') = Some (chr 10)" "json_simple_escape (CHR ''r'') = Some (chr 13)"
    "json_simple_escape (CHR ''t'') = Some (chr 9)"
    by code_simp+
  note steps = esc [THEN loop_simple_escape, of pre rest acc]
  consider (simple) "byte c \<in> {34, 92, 8, 12, 10, 13, 9}"
    | (control) "byte c \<notin> {34, 92, 8, 12, 10, 13, 9}" "byte c < 0x20"
    | (plain) "byte c \<notin> {34, 92, 8, 12, 10, 13, 9}" "0x20 \<le> byte c" by fastforce
  then show ?thesis
  proof cases
    case simple
    then show ?thesis
      using steps c by (elim insertE) (simp_all add: json_write_escaped_char_def Let_def)
  next
    case control
    then have "json_write_escaped_char [] c = json_write_u00_escape [] (byte c)"
      by (simp add: json_write_escaped_char_def Let_def)
    then show ?thesis using loop_control [OF control(2), of pre rest acc] c by simp
  next
    case plain
    then have "json_write_escaped_char [] c = [c]" by (simp add: json_write_escaped_char_def Let_def)
    then show ?thesis using loop_plain [of c pre rest acc] plain assms by simp
  qed
qed

lemma high_byte_plain: "0x80 \<le> byte c \<Longrightarrow> json_write_escaped_char [] c = [c]"
  by (simp add: json_write_escaped_char_def Let_def)

lemma utf8_bytes_high: "0x7F < cp \<Longrightarrow> b \<in> set (utf8_bytes cp) \<Longrightarrow> 0x80 \<le> b"
  by (auto simp: utf8_bytes_def split: if_splits)

abbreviation json_escape :: "string \<Rightarrow> string" where
  "json_escape s \<equiv> concat (map (json_write_escaped_char []) s)"

lemma utf8_high:
  assumes "json_is_unicode_scalar cp" "0x7F < cp"
  shows "\<forall>c \<in> set (json_append_utf8 cp []). 0x80 \<le> byte c"
proof -
  have max: "cp \<le> 0x10FFFF" using assms(1) by (simp add: json_is_unicode_scalar_def)
  show ?thesis
    unfolding json_append_utf8_bytes [OF max]
    using utf8_bytes_small [OF max] utf8_bytes_high [OF assms(2)] by fastforce
qed

lemma escape_high: "\<forall>c \<in> set s. 0x80 \<le> byte c \<Longrightarrow> json_escape s = s"
  by (induction s) (simp_all add: high_byte_plain)

lemma json_append_utf8_nonempty: "json_append_utf8 cp [] \<noteq> []"
  by (simp add: json_append_utf8_def)

lemma loop_escaped_scalar:
  assumes "json_is_unicode_scalar cp"
  shows "json_string_loop (pre @ json_escape (json_append_utf8 cp []) @ rest) (length pre) acc =
    json_string_loop (pre @ json_escape (json_append_utf8 cp []) @ rest)
      (length (pre @ json_escape (json_append_utf8 cp []))) (acc @ json_append_utf8 cp [])"
proof (cases "cp \<le> 0x7F")
  case True
  then have "json_append_utf8 cp [] = [chr cp]" "byte (chr cp) \<le> 0x7F" by (simp_all add: json_append_utf8_def)
  then show ?thesis using loop_escaped_ascii [of "chr cp" pre rest acc] by simp
next
  case False
  let ?enc = "json_append_utf8 cp []"
  have high: "\<forall>c \<in> set ?enc. 0x80 \<le> byte c" using utf8_high assms False by simp
  obtain e es where e: "?enc = e # es" using json_append_utf8_nonempty by (cases ?enc) auto
  have at: "length pre < length (pre @ ?enc @ rest)" "(pre @ ?enc @ rest) ! length pre = e" using e by simp_all
  have b: "\<not> byte e < 0x20" "byte e \<noteq> 34" "byte e \<noteq> 92" "\<not> byte e \<le> 0x7F" using high e by auto
  have slice: "text_slice (pre @ ?enc @ rest) (length pre) (length ?enc) = ?enc" by (rule text_slice_append_mid)
  show ?thesis
    unfolding escape_high [OF high]
    by (subst json_string_loop.simps)
      (simp only: at(1) [unfolded length_append] at(2) b if_True if_False simp_thms Let_def decode_encode [OF assms] json_utf8_result.select_convs slice length_append)
qed

lemma string_loop_reads:
  assumes "\<forall>cp \<in> set cps. json_is_unicode_scalar cp"
  shows "json_string_loop (pre @ json_escape (concat (map (\<lambda>cp. json_append_utf8 cp []) cps)) @ chr 34 # rest) (length pre) acc =
    Inr (length (pre @ json_escape (concat (map (\<lambda>cp. json_append_utf8 cp []) cps))) + 1,
      acc @ concat (map (\<lambda>cp. json_append_utf8 cp []) cps))"
  using assms
proof (induction cps arbitrary: pre acc)
  case Nil
  show ?case by (subst json_string_loop.simps) (simp add: Let_def)
next
  case (Cons cp cps)
  let ?e = "json_escape (json_append_utf8 cp [])" and ?s = "concat (map (\<lambda>cp. json_append_utf8 cp []) cps)"
  have "json_string_loop (pre @ ?e @ json_escape ?s @ chr 34 # rest) (length pre) acc =
      json_string_loop ((pre @ ?e) @ json_escape ?s @ chr 34 # rest) (length (pre @ ?e)) (acc @ json_append_utf8 cp [])"
    using loop_escaped_scalar [of cp pre "json_escape ?s @ chr 34 # rest" acc] Cons.prems by simp
  also have "\<dots> = Inr (length ((pre @ ?e) @ json_escape ?s) + 1, (acc @ json_append_utf8 cp []) @ ?s)"
    by (rule Cons.IH) (use Cons.prems in simp)
  finally show ?case by simp
qed

lemma decoded_string_reads:
  assumes "utf8_text s"
  shows "json_parse_decoded_string (pre @ json_quote s @ rest) (length pre) = Inr (length (pre @ json_quote s), s)"
proof -
  obtain cps where cps: "\<forall>cp \<in> set cps. json_is_unicode_scalar cp" "s = concat (map (\<lambda>cp. json_append_utf8 cp []) cps)"
    using assms by (auto simp: utf8_text_def)
  have q: "json_quote s = chr 34 # json_escape s @ [chr 34]" by (simp add: json_write_escaped_string_def escape_foldl)
  show ?thesis
    using string_loop_reads [OF cps(1), of "pre @ [chr 34]" rest "[]", folded cps(2)] q
    by (simp add: json_parse_decoded_string_def consume_at)
qed

section \<open>Values\<close>

lemma chr_quote [simp]: "char_of (34 :: nat) = CHR 0x22"
  by code_simp

lemma json_then_next [simp]: "json_then (Some (None, st)) k = k st"
  by (simp add: json_then_def)

text \<open>A text that does not start with white space or a comment.\<close>

definition json_solid :: "string \<Rightarrow> bool" where
  "json_solid s \<longleftrightarrow> \<not> starts (\<lambda>c. json_is_space c \<or> c = CHR ''/'') s"

lemma trivia_at:
  assumes "json_solid rest" "js_position st = length pre"
  shows "json_trivia (pre @ rest) st = Some (None, st)"
proof -
  have "json_skip_trivia (pre @ rest) (length pre) = Inr (length pre)"
    using assms(1) by (subst json_skip_trivia.simps) (cases rest; auto simp: json_solid_def)
  then show ?thesis using assms(2) by (simp add: json_trivia_def)
qed

lemma json_solid_simps [simp]:
  "json_solid []" "json_solid (CHR '','' # s)" "json_solid (CHR '']'' # s)" "json_solid (CHR ''}'' # s)"
  "json_solid (CHR '':'' # s)" "json_solid (CHR 0x22 # s)"
  by (simp_all add: json_solid_def json_is_space_def)

lemma json_quote_shape: "json_quote s = chr 34 # json_escape s @ [chr 34]"
  by (simp add: json_write_escaped_string_def escape_foldl)

definition value_reads :: "json_tree \<Rightarrow> bool" where
  "value_reads j \<longleftrightarrow>
     (\<forall>pre post depth st fuel.
        js_position st = length pre \<longrightarrow> \<not> starts json_number_char post \<longrightarrow> depth + json_height j \<le> json_max_depth \<longrightarrow>
        3 * (length (json_render j) + length post) + 3 \<le> fuel \<longrightarrow>
        (\<exists>st'. json_parse_value fuel (pre @ json_render j @ post) depth st = Some (None, st') \<and>
           js_position st' = length (pre @ json_render j) \<and> stripped st' = stripped st @ json_events j))"

lemma value_readsD:
  assumes "value_reads j" "text = pre @ json_render j @ post" "js_position st = length pre" "\<not> starts json_number_char post"
    "depth + json_height j \<le> json_max_depth" "3 * (length (json_render j) + length post) + 3 \<le> fuel"
  obtains st' where "json_parse_value fuel text depth st = Some (None, st')"
    "js_position st' = length (pre @ json_render j)" "stripped st' = stripped st @ json_events j"
  using assms unfolding value_reads_def by metis

text \<open>How a value starts decides the branch \<open>parse_value\<close> takes.\<close>

lemma value_at:
  assumes "rest = c # cs" "json_solid rest" "js_position st = length pre"
  shows "json_value_body object array (pre @ rest) depth st =
    (if c = CHR ''{'' then object (pre @ rest) depth st
     else if c = CHR ''['' then array (pre @ rest) depth st
     else if c = chr 34 then Some (json_parse_string_value (pre @ rest) st)
     else if c = CHR ''t'' then Some (json_parse_literal (pre @ rest) ''true''
       \<lparr>jv_kind = json_boolean, jv_text = [], jv_boolean = True\<rparr> st)
     else if c = CHR ''f'' then Some (json_parse_literal (pre @ rest) ''false''
       \<lparr>jv_kind = json_boolean, jv_text = [], jv_boolean = False\<rparr> st)
     else if c = CHR ''n'' then Some (json_parse_literal (pre @ rest) ''null''
       \<lparr>jv_kind = json_null_value, jv_text = [], jv_boolean = False\<rparr> st)
     else if c = CHR ''-'' \<or> json_is_digit c then Some (json_parse_number (pre @ rest) st)
     else Some (Some (json_fail json_unexpected_token (length pre) 1), st))"
proof -
  have "(pre @ rest) ! length pre = c" "\<not> length (pre @ rest) \<le> length pre" using assms(1) by simp_all
  then show ?thesis
    unfolding json_value_body_def trivia_at [OF assms(2,3)] json_then_next Let_def assms(3) by (simp only: if_False)
qed

lemma fuel_Suc: "3 * n + 3 \<le> fuel \<Longrightarrow> \<exists>f. fuel = Suc f"
  by (cases fuel) auto

lemma string_reads:
  assumes "utf8_text s" shows "value_reads (JString s)"
  unfolding value_reads_def
proof (intro allI impI, goal_cases)
  case (1 pre post depth st fuel)
  then obtain f where f: "fuel = Suc f" by (cases fuel) auto
  have v: "json_parse_value fuel (pre @ json_quote s @ post) depth st = Some (json_parse_string_value (pre @ json_quote s @ post) st)"
    using 1 value_at [of "json_quote s @ post" "chr 34" "json_escape s @ [chr 34] @ post" st pre] json_quote_shape [of s]
    by (simp add: f)
  show ?case
    using 1 decoded_string_reads [OF assms, of pre post] v by (simp add: json_parse_string_value_def Let_def)
qed

lemma literal_reads:
  "value_reads (JBool b)" "value_reads JNull"
proof -
  have lit: "\<exists>st'. json_parse_literal (pre @ lit @ post) lit v st = (None, st') \<and>
      js_position st' = length (pre @ lit) \<and> stripped st' = stripped st @ [ev_value v]"
    if "js_position st = length pre" for pre lit post v st
    using that by (simp add: json_parse_literal_def text_slice_append_mid Let_def)
  show "value_reads (JBool b)"
    unfolding value_reads_def
  proof (intro allI impI, goal_cases)
    case (1 pre post depth st fuel)
    then obtain f where f: "fuel = Suc f" by (cases fuel) auto
    show ?case
      using 1 lit [of st pre "json_render (JBool b)" post "\<lparr>jv_kind = json_boolean, jv_text = [], jv_boolean = b\<rparr>"]
        value_at [of "json_render (JBool b) @ post" _ _ st pre]
      by (cases b) (simp_all add: f json_solid_def json_is_space_def)
  qed
  show "value_reads JNull"
    unfolding value_reads_def
  proof (intro allI impI, goal_cases)
    case (1 pre post depth st fuel)
    then obtain f where f: "fuel = Suc f" by (cases fuel) auto
    show ?case
      using 1 lit [of st pre "''null''" post "\<lparr>jv_kind = json_null_value, jv_text = [], jv_boolean = False\<rparr>"]
        value_at [of "''null'' @ post" _ _ st pre]
      by (simp add: f json_solid_def json_is_space_def)
  qed
qed

lemma number_token_start:
  assumes "json_number_token i s"
  obtains c cs where "s = c # cs" "c = CHR ''-'' \<or> json_is_digit c"
proof -
  obtain sg ip fp ep where t: "s = sg @ ip @ fp @ ep" "sg = [] \<or> sg = ''-''" "json_int ip"
    using assms by (auto simp: json_number_token_def)
  obtain d ds where "ip = d # ds" "json_is_digit d" using t(3) by (cases ip) (auto simp: json_int_def json_digits_def)
  then show thesis using that t by auto
qed

lemma number_reads:
  assumes tok: "json_number_token i s" shows "value_reads (JNumber i s)"
  unfolding value_reads_def
proof (intro allI impI, goal_cases)
  case (1 pre post depth st fuel)
  then obtain f where f: "fuel = Suc f" by (cases fuel) auto
  obtain c cs where c: "s = c # cs" "c = CHR ''-'' \<or> json_is_digit c" by (rule number_token_start [OF tok])
  have "c \<noteq> CHR ''{'' \<and> c \<noteq> CHR ''['' \<and> c \<noteq> chr 34 \<and> c \<noteq> CHR ''t'' \<and> c \<noteq> CHR ''f'' \<and> c \<noteq> CHR ''n''"
    using c(2) by (auto simp: json_is_digit_def)
  moreover have "json_solid (s @ post)" using c by (auto simp: json_solid_def json_is_space_def json_is_digit_def)
  ultimately have "json_parse_value fuel (pre @ s @ post) depth st = Some (json_parse_number (pre @ s @ post) st)"
    using 1 c value_at [of "s @ post" c "cs @ post" st pre] by (simp add: f)
  then show ?case
    using 1 scan_number_complete [OF tok, of post pre] by (simp add: json_parse_number_def text_slice_append_mid Let_def)
qed

lemma number_char_bracket [simp]:
  "\<not> json_number_char (CHR '','')" "\<not> json_number_char (CHR '']'')" "\<not> json_number_char (CHR ''}'')"
  by (simp_all add: json_number_char_def json_is_digit_def)

text \<open>Just after an element or a member: its separator or the closing bracket.\<close>

lemma after_element:
  assumes "text = pre @ c # rest" "c = CHR '','' \<or> c = close" "close = CHR '']'' \<or> close = CHR ''}''" "js_position st = length pre"
  shows "json_then (json_trivia text st) (\<lambda>st.
       case json_consume text close (js_position st) of
         Some p \<Rightarrow> Some (None, json_emit st p [ev])
       | None \<Rightarrow>
           (case json_consume text (CHR '','') (js_position st) of
              None \<Rightarrow> Some (Some (json_fail json_unexpected_token (js_position st)
                (if js_position st < length text then 1 else 0)), st)
            | Some p \<Rightarrow> k (st\<lparr>js_position := p\<rparr>))) =
    (if c = close then Some (None, json_emit st (length pre + 1) [ev]) else k (st\<lparr>js_position := length pre + 1\<rparr>))"
proof -
  have "json_trivia text st = Some (None, st)"
    unfolding assms(1) by (rule trivia_at [OF _ assms(4)]) (use assms(2,3) in auto)
  then show ?thesis
    using assms(2,3) unfolding assms(1) by (auto simp: assms(4) consume_at)
qed

lemma commas_induct [case_names empty single more]:
  "P [] \<Longrightarrow> (\<And>x. P [x]) \<Longrightarrow> (\<And>x y xs. P (y # xs) \<Longrightarrow> P (x # y # xs)) \<Longrightarrow> P (xs :: 'a list)"
  by (induction_schema, pat_completeness, lexicographic_order)

lemma element_read:
  assumes "value_reads j" "depth + 1 + json_height j \<le> json_max_depth"
    "js_position st = length pre" "text = pre @ json_render j @ c # rest" "c = CHR '','' \<or> c = CHR '']''"
    "3 * (length (json_render j) + 1 + length rest) + 3 \<le> f"
  shows "\<exists>st1. stripped st1 = stripped st @ json_events j \<and> js_position st1 = length (pre @ json_render j) + 1 \<and>
    json_parse_elements (Suc f) text depth st =
      (if c = CHR '']'' then Some (None, st1\<lparr>js_events := js_events st1 @ [ev_array_end]\<rparr>)
       else json_parse_elements f text depth st1)"
proof -
  obtain st1 where st1: "json_parse_value f text (depth + 1) st = Some (None, st1)"
    "js_position st1 = length (pre @ json_render j)" "stripped st1 = stripped st @ json_events j"
    by (rule value_readsD [OF assms(1,4,3), of "depth + 1" f]) (use assms in auto)
  show ?thesis
    using st1 assms(4,5) after_element [of "text" "pre @ json_render j" c rest "CHR '']''" st1
        "json_parse_elements f text depth" ev_array_end]
    by (intro exI [of _ "st1\<lparr>js_position := length (pre @ json_render j) + 1\<rparr>"])
      (auto simp: json_elements_body_def json_emit_def)
qed

lemma elements_read:
  assumes "\<forall>j \<in> set js. value_reads j \<and> depth + 1 + json_height j \<le> json_max_depth" "js \<noteq> []"
    "js_position st = length pre" "3 * (length (commas (map json_render js)) + 1 + length post) + 4 \<le> fuel"
  shows "\<exists>st'. json_parse_elements fuel (pre @ commas (map json_render js) @ CHR '']'' # post) depth st = Some (None, st') \<and>
    js_position st' = length (pre @ commas (map json_render js)) + 1 \<and>
    stripped st' = stripped st @ concat (map json_events js) @ [ev_array_end]"
  using assms
proof (induction js arbitrary: pre st fuel rule: commas_induct)
  case (single j)
  then obtain f where f: "fuel = Suc f" by (cases fuel) auto
  show ?case
    using single.prems f element_read [of j depth st pre "pre @ json_render j @ CHR '']'' # post" "CHR '']''" post f] by auto
next
  case (more j j' js)
  let ?rest = "commas (map json_render (j' # js))"
  let ?pre = "pre @ json_render j @ '',''"
  let ?text = "?pre @ ?rest @ CHR '']'' # post"
  obtain f where f: "fuel = Suc f" using more.prems(4) by (cases fuel) auto
  obtain st1 where st1: "stripped st1 = stripped st @ json_events j" "js_position st1 = length ?pre"
    "json_parse_elements fuel ?text depth st = json_parse_elements f ?text depth st1"
    using more.prems f element_read [of j depth st pre ?text "CHR '',''" "?rest @ CHR '']'' # post" f] by auto
  have "\<exists>st'. json_parse_elements f ?text depth st1 = Some (None, st') \<and>
      js_position st' = length (?pre @ ?rest) + 1 \<and>
      stripped st' = stripped st1 @ concat (map json_events (j' # js)) @ [ev_array_end]"
    by (rule more.IH) (use more.prems f st1 in simp_all)
  then show ?case using st1 by simp
qed simp

text \<open>A member up to its value.\<close>

lemma member_at:
  assumes "utf8_text key" "js_position st = length pre" "text = pre @ json_quote key @ CHR '':'' # rest"
  shows "\<exists>st1. js_position st1 = length (pre @ json_quote key @ '':'') \<and> stripped st1 = stripped st @ [ev_key key] \<and>
    json_members_body value members text depth st =
      json_then (value text (depth + 1) st1) (\<lambda>st.
        json_then (json_trivia text st) (\<lambda>st.
          case json_consume text (CHR ''}'') (js_position st) of
            Some p \<Rightarrow> Some (None, json_emit st p [ev_object_end])
          | None \<Rightarrow>
              (case json_consume text (CHR '','') (js_position st) of
                 None \<Rightarrow> Some (Some (json_fail json_unexpected_token (js_position st)
                   (if js_position st < length text then 1 else 0)), st)
               | Some p \<Rightarrow> members text depth (st\<lparr>js_position := p\<rparr>))))"
proof -
  let ?q = "length (pre @ json_quote key)"
  let ?st0 = "json_emit st ?q [ev_location (length pre) (?q - length pre), ev_key key]"
  have t1: "json_trivia text st = Some (None, st)"
    unfolding assms(3) by (rule trivia_at [OF _ assms(2)]) (simp add: json_quote_shape)
  have quote: "length pre < length text" "text ! length pre = chr 34" by (simp_all add: assms(3) json_quote_shape)
  have s: "json_parse_decoded_string text (length pre) = Inr (?q, key)"
    unfolding assms(3) by (rule decoded_string_reads [OF assms(1)])
  have t2: "json_trivia text ?st0 = Some (None, ?st0)"
    using trivia_at [of "CHR '':'' # rest" ?st0 "pre @ json_quote key"] by (simp add: assms(3))
  have colon: "json_consume text (CHR '':'') ?q = Some (?q + 1)"
    using consume_at [of "pre @ json_quote key" "CHR '':'' # rest" "CHR '':''"] by (simp add: assms(3))
  show ?thesis
    unfolding json_members_body_def t1 json_then_next Let_def
    by (rule exI [of _ "?st0\<lparr>js_position := ?q + 1\<rparr>"])
      (use quote s t2 colon assms(2) in \<open>simp add: json_emit_def\<close>)
qed

lemma member_read:
  assumes "utf8_text (fst m)" "value_reads (snd m)" "depth + 1 + json_height (snd m) \<le> json_max_depth"
    "js_position st = length pre" "text = pre @ member_text m @ c # rest" "c = CHR '','' \<or> c = CHR ''}''"
    "3 * (length (member_text m) + length rest) + 1 \<le> f"
  shows "\<exists>st1. stripped st1 = stripped st @ member_events m \<and> js_position st1 = length (pre @ member_text m) + 1 \<and>
    json_parse_members (Suc f) text depth st =
      (if c = CHR ''}'' then Some (None, st1\<lparr>js_events := js_events st1 @ [ev_object_end]\<rparr>)
       else json_parse_members f text depth st1)"
proof -
  let ?pre = "pre @ json_quote (fst m) @ '':''"
  have shape: "text = ?pre @ json_render (snd m) @ c # rest" by (simp add: assms(5) member_text_def)
  obtain st0 where st0: "js_position st0 = length ?pre" "stripped st0 = stripped st @ [ev_key (fst m)]"
    and body: "json_parse_members (Suc f) text depth st = json_then (json_parse_value f text (depth + 1) st0) (\<lambda>st.
        json_then (json_trivia text st) (\<lambda>st.
          case json_consume text (CHR ''}'') (js_position st) of
            Some p \<Rightarrow> Some (None, json_emit st p [ev_object_end])
          | None \<Rightarrow>
              (case json_consume text (CHR '','') (js_position st) of
                 None \<Rightarrow> Some (Some (json_fail json_unexpected_token (js_position st)
                   (if js_position st < length text then 1 else 0)), st)
               | Some p \<Rightarrow> json_parse_members f text depth (st\<lparr>js_position := p\<rparr>))))"
    using member_at [of "fst m" st pre "text" "json_render (snd m) @ c # rest" "json_parse_value f" "json_parse_members f" depth]
      assms(1,4) shape by auto
  obtain st1 where st1: "json_parse_value f text (depth + 1) st0 = Some (None, st1)"
    "js_position st1 = length (?pre @ json_render (snd m))" "stripped st1 = stripped st0 @ json_events (snd m)"
    by (rule value_readsD [OF assms(2) shape st0(1), of "depth + 1" f])
      (use assms in \<open>auto simp: member_text_def json_quote_shape\<close>)
  show ?thesis
    using body st0 st1 assms(6) shape after_element [of "text" "?pre @ json_render (snd m)" c rest "CHR ''}''" st1
        "json_parse_members f text depth" ev_object_end]
    by (intro exI [of _ "st1\<lparr>js_position := length (pre @ member_text m) + 1\<rparr>"])
      (auto simp: member_text_def member_events_def json_emit_def)
qed

lemma members_read:
  assumes "\<forall>m \<in> set ms. utf8_text (fst m) \<and> value_reads (snd m) \<and> depth + 1 + json_height (snd m) \<le> json_max_depth" "ms \<noteq> []"
    "js_position st = length pre" "3 * (length (commas (map member_text ms)) + 1 + length post) + 1 \<le> fuel"
  shows "\<exists>st'. json_parse_members fuel (pre @ commas (map member_text ms) @ CHR ''}'' # post) depth st = Some (None, st') \<and>
    js_position st' = length (pre @ commas (map member_text ms)) + 1 \<and>
    stripped st' = stripped st @ concat (map member_events ms) @ [ev_object_end]"
  using assms
proof (induction ms arbitrary: pre st fuel rule: commas_induct)
  case (single m)
  then obtain f where f: "fuel = Suc f" by (cases fuel) auto
  show ?case
    using single.prems f member_read [of m depth st pre "pre @ member_text m @ CHR ''}'' # post" "CHR ''}''" post f] by auto
next
  case (more m m' ms)
  let ?rest = "commas (map member_text (m' # ms))"
  let ?pre = "pre @ member_text m @ '',''"
  let ?text = "?pre @ ?rest @ CHR ''}'' # post"
  obtain f where f: "fuel = Suc f" using more.prems(4) by (cases fuel) auto
  obtain st1 where st1: "stripped st1 = stripped st @ member_events m" "js_position st1 = length ?pre"
    "json_parse_members fuel ?text depth st = json_parse_members f ?text depth st1"
    using more.prems f member_read [of m depth st pre ?text "CHR '',''" "?rest @ CHR ''}'' # post" f] by auto
  have "\<exists>st'. json_parse_members f ?text depth st1 = Some (None, st') \<and>
      js_position st' = length (?pre @ ?rest) + 1 \<and>
      stripped st' = stripped st1 @ concat (map member_events (m' # ms)) @ [ev_object_end]"
    by (rule more.IH) (use more.prems f st1 in simp_all)
  then show ?case using st1 by simp
qed simp

section \<open>Documents\<close>

lemma render_start:
  assumes "json_tree_ok j"
  obtains c cs where "json_render j = c # cs" "\<not> json_is_space c" "c \<noteq> CHR ''/''" "c \<noteq> CHR ''}''" "c \<noteq> CHR '']''"
    "byte c \<noteq> 0xEF"
proof (cases j)
  case (JNumber i s)
  then have "json_number_token i s" using assms by simp
  then obtain c cs where c: "s = c # cs" "c = CHR ''-'' \<or> json_is_digit c" by (rule number_token_start)
  have "\<not> json_is_space c \<and> c \<noteq> CHR ''/'' \<and> c \<noteq> CHR ''}'' \<and> c \<noteq> CHR '']'' \<and> byte c \<noteq> 0xEF"
    using c(2) by (auto simp: json_is_digit_def json_is_space_def)
  then show thesis using that c JNumber by simp
next
  case (JBool b)
  then show thesis using that by (cases b) (auto simp: json_is_space_def)
qed (use that in \<open>auto simp: json_quote_shape json_is_space_def\<close>)

text \<open>An opened container: empty, or its elements follow.\<close>

lemma open_at:
  assumes "js_position st = length pre" "text = pre @ c # body" "depth < json_max_depth" "body = d # ds" "json_solid body"
  shows "(let pos = js_position st
     in if depth \<ge> json_max_depth then Some (Some (json_fail json_nesting_too_deep pos 1), st)
        else json_then (json_trivia text (json_emit st (pos + 1) [ev_location pos 1, ev])) (\<lambda>st.
          case json_consume text close (js_position st) of
            Some p \<Rightarrow> Some (None, json_emit st p [ev'])
          | None \<Rightarrow> rest text depth st)) =
    (let st1 = json_emit st (length pre + 1) [ev_location (length pre) 1, ev]
     in if d = close then Some (None, json_emit st1 (length pre + 2) [ev']) else rest text depth st1)"
proof -
  let ?st = "json_emit st (length pre + 1) [ev_location (length pre) 1, ev]"
  have "json_trivia text ?st = Some (None, ?st)"
    using trivia_at [of body ?st "pre @ [c]"] assms by simp
  moreover have "json_consume text close (length pre + 1) = (if d = close then Some (length pre + 2) else None)"
    using consume_at [of "pre @ [c]" body close] assms by simp
  ultimately show ?thesis using assms(1,3) by (simp add: Let_def)
qed

lemma fuel_two: "3 * n + 6 \<le> fuel \<Longrightarrow> \<exists>f. fuel = Suc (Suc f) \<and> 3 * n + 4 \<le> f"
  by (rule exI [of _ "fuel - 2"]) auto

lemma commas_nonempty: "xs \<noteq> [] \<Longrightarrow> \<forall>x \<in> set xs. x \<noteq> [] \<Longrightarrow> commas xs \<noteq> [] \<and> hd (commas xs) = hd (hd xs)"
  by (induction xs rule: commas.induct) auto

lemma array_depth:
  "depth + json_height (JArray js) \<le> n \<longleftrightarrow> depth < n \<and> (\<forall>j \<in> set js. depth + 1 + json_height j \<le> n)"
proof -
  have "depth + json_height (JArray js) \<le> n \<longleftrightarrow> depth \<le> n \<and> json_height (JArray js) \<le> n - depth" by linarith
  then show ?thesis by (force simp only: json_height_array)
qed

lemma object_depth:
  "depth + json_height (JObject ms) \<le> n \<longleftrightarrow> depth < n \<and> (\<forall>m \<in> set ms. depth + 1 + json_height (snd m) \<le> n)"
proof -
  have "depth + json_height (JObject ms) \<le> n \<longleftrightarrow> depth \<le> n \<and> json_height (JObject ms) \<le> n - depth" by linarith
  then show ?thesis by (force simp only: json_height_object)
qed

lemma array_reads:
  assumes "\<forall>j \<in> set js. json_tree_ok j \<and> value_reads j"
  shows "value_reads (JArray js)"
  unfolding value_reads_def
proof (intro allI impI, goal_cases)
  case (1 pre post depth st fuel)
  let ?body = "commas (map json_render js) @ CHR '']'' # post"
  let ?text = "pre @ CHR ''['' # ?body" and ?st = "json_emit st (length pre + 1) [ev_location (length pre) 1, ev_array_begin]"
  have h: "depth < json_max_depth" "\<forall>j \<in> set js. depth + 1 + json_height j \<le> json_max_depth"
    using 1(3) array_depth by simp_all
  obtain f where f: "fuel = Suc (Suc f)" "3 * (length (commas (map json_render js)) + 1 + length post) + 4 \<le> f"
    using 1(4) fuel_two [of "length (commas (map json_render js)) + 1 + length post" fuel] by auto
  have cons: "?body = hd ?body # tl ?body" by (rule list.collapse [symmetric]) simp
  have start: "json_solid ?body \<and> (hd ?body = CHR '']'' \<longleftrightarrow> js = [])"
  proof (cases js)
    case (Cons j js')
    have ne: "\<forall>x \<in> set (map json_render js). x \<noteq> []" using assms render_start by (metis imageE list.distinct(1) set_map)
    have j: "json_tree_ok j" using assms Cons by simp
    have hd: "hd ?body = hd (json_render j)" using commas_nonempty [OF _ ne] Cons by simp
    obtain c cs where "json_render j = c # cs" "\<not> json_is_space c" "c \<noteq> CHR ''/''" "c \<noteq> CHR '']''"
      by (rule render_start [OF j])
    then show ?thesis using hd Cons by (simp add: json_solid_def)
  qed simp
  have "json_parse_value fuel ?text depth st = json_parse_array (Suc f) ?text depth st"
    unfolding f json_parse_value.simps using value_at [of "CHR ''['' # ?body" "CHR ''[''" ?body st pre] 1(1)
    by (simp add: json_solid_def json_is_space_def)
  also have "\<dots> = (if js = [] then Some (None, json_emit ?st (length pre + 2) [ev_array_end])
      else json_parse_elements f ?text depth ?st)"
    using open_at [where ev = ev_array_begin and close = "CHR '']''" and ev' = ev_array_end and rest = "json_parse_elements f", OF 1(1) refl h(1) cons] start
    by (simp add: json_array_body_def Let_def)
  finally have run: "json_parse_value fuel ?text depth st = \<dots>" .
  show ?case
    using run elements_read [of js depth ?st "pre @ ''[''" post f] assms h f by (cases "js = []") auto
qed

lemma object_reads:
  assumes "\<forall>m \<in> set ms. utf8_text (fst m) \<and> value_reads (snd m)"
  shows "value_reads (JObject ms)"
  unfolding value_reads_def
proof (intro allI impI, goal_cases)
  case (1 pre post depth st fuel)
  let ?body = "commas (map member_text ms) @ CHR ''}'' # post"
  let ?text = "pre @ CHR ''{'' # ?body" and ?st = "json_emit st (length pre + 1) [ev_location (length pre) 1, ev_object_begin]"
  have h: "depth < json_max_depth" "\<forall>m \<in> set ms. depth + 1 + json_height (snd m) \<le> json_max_depth"
    using 1(3) object_depth by simp_all
  obtain f where f: "fuel = Suc (Suc f)" "3 * (length (commas (map member_text ms)) + 1 + length post) + 4 \<le> f"
    using 1(4) fuel_two [of "length (commas (map member_text ms)) + 1 + length post" fuel] by auto
  have cons: "?body = hd ?body # tl ?body" by (rule list.collapse [symmetric]) simp
  have start: "json_solid ?body \<and> (hd ?body = CHR ''}'' \<longleftrightarrow> ms = [])"
  proof (cases ms)
    case (Cons m ms')
    have ne: "\<forall>x \<in> set (map member_text ms). x \<noteq> []" by (simp add: member_text_def)
    have "hd ?body = CHR 0x22" using commas_nonempty [OF _ ne] Cons by (simp add: member_text_def json_quote_shape)
    then show ?thesis using Cons by (simp add: json_solid_def json_is_space_def)
  qed simp
  have "json_parse_value fuel ?text depth st = json_parse_object (Suc f) ?text depth st"
    unfolding f json_parse_value.simps using value_at [of "CHR ''{'' # ?body" "CHR ''{''" ?body st pre] 1(1)
    by (simp add: json_solid_def json_is_space_def)
  also have "\<dots> = (if ms = [] then Some (None, json_emit ?st (length pre + 2) [ev_object_end])
      else json_parse_members f ?text depth ?st)"
    using open_at [where ev = ev_object_begin and close = "CHR ''}''" and ev' = ev_object_end and rest = "json_parse_members f", OF 1(1) refl h(1) cons] start
    by (simp add: json_object_body_def Let_def)
  finally have run: "json_parse_value fuel ?text depth st = \<dots>" .
  show ?case
    using run members_read [of ms depth ?st "pre @ ''{''" post f] assms h f by (cases "ms = []") auto
qed

lemma tree_reads: "json_tree_ok j \<Longrightarrow> value_reads j"
proof (induction j)
  case (JObject ms)
  then show ?case by (intro object_reads) (auto simp: snds.simps)
next
  case (JArray js)
  then show ?case by (intro array_reads) auto
qed (simp_all add: string_reads number_reads literal_reads)

lemma parse_render:
  assumes "json_tree_ok j" "json_height j \<le> json_max_depth"
  obtains evs where "parse_json (json_render j) = Some (json_fail json_none 0 0, evs)" "json_strip evs = json_events j"
proof -
  let ?text = "json_render j" and ?st = "\<lparr>js_position = 0, js_events = []\<rparr>"
  obtain c cs where c: "?text = c # cs" "\<not> json_is_space c" "c \<noteq> CHR ''/''" "byte c \<noteq> 0xEF"
    by (rule render_start [OF assms(1)])
  have nonempty: "json_render j \<noteq> []" using c(1) by simp
  have bom: "json_skip_bom ?text = 0" using c by (simp add: json_skip_bom_def)
  have t0: "json_trivia ?text ?st = Some (None, ?st)"
    using trivia_at [of ?text ?st "[]"] c by (simp add: json_solid_def)
  obtain st1 where st1: "json_parse_value (json_fuel ?text) ?text 0 ?st = Some (None, st1)"
    "js_position st1 = length ?text" "stripped st1 = json_events j"
    by (rule value_readsD [OF tree_reads [OF assms(1)], of ?text "[]" "[]" ?st 0 "json_fuel ?text"])
      (use assms(2) in \<open>auto simp: json_fuel_def\<close>)
  have t1: "json_trivia ?text st1 = Some (None, st1)"
    using trivia_at [of "[]" st1 ?text] st1(2) by simp
  have "json_run (json_fuel ?text) ?text = Some (None, st1)"
    using st1 by (simp add: json_run_def bom t0 t1 nonempty)
  then show thesis using that [of "js_events st1"] st1 by (simp add: parse_json_def)
qed

section \<open>Calls\<close>

text \<open>What the parser accepts can be read off the events: legal strings and numbers, and the nesting.\<close>

definition event_ok :: "json_event \<Rightarrow> bool" where
  "event_ok ev =
     (case ev of
        ev_key k \<Rightarrow> utf8_text k
      | ev_value v \<Rightarrow>
          (case jv_kind v of
             json_string \<Rightarrow> utf8_text (jv_text v)
           | json_integer \<Rightarrow> json_number_token True (jv_text v)
           | json_number \<Rightarrow> json_number_token False (jv_text v)
           | _ \<Rightarrow> True)
      | _ \<Rightarrow> True)"

lemma tree_ok_events: "(\<forall>ev \<in> set (json_events j). event_ok ev) \<longleftrightarrow> json_tree_ok j"
proof (induction j)
  case (JObject ms)
  then have "(\<forall>ev \<in> set (json_events (snd m)). event_ok ev) \<longleftrightarrow> json_tree_ok (snd m)" if "m \<in> set ms" for m
    using that by (auto simp: snds.simps)
  then show ?case by (auto simp: event_ok_def [of "ev_key _"] event_ok_def [of ev_object_begin] event_ok_def [of ev_object_end] member_events_def)
next
  case (JArray js)
  then show ?case by (auto simp: event_ok_def [of ev_array_begin] event_ok_def [of ev_array_end])
next
  case (JNumber i s)
  show ?case by (cases i) (simp_all add: event_ok_def)
qed (simp_all add: event_ok_def)

fun json_nests :: "nat \<Rightarrow> json_event list \<Rightarrow> bool" where
  "json_nests d [] = True"
| "json_nests d (ev # evs) =
     (case ev of
        ev_object_begin \<Rightarrow> d < json_max_depth \<and> json_nests (d + 1) evs
      | ev_array_begin \<Rightarrow> d < json_max_depth \<and> json_nests (d + 1) evs
      | ev_object_end \<Rightarrow> json_nests (d - 1) evs
      | ev_array_end \<Rightarrow> json_nests (d - 1) evs
      | _ \<Rightarrow> json_nests d evs)"

lemma json_nests_concat:
  assumes "\<And>x rest. x \<in> set xs \<Longrightarrow> json_nests d (f x @ rest) \<longleftrightarrow> P x \<and> json_nests d rest"
  shows "json_nests d (concat (map f xs) @ rest) \<longleftrightarrow> (\<forall>x \<in> set xs. P x) \<and> json_nests d rest"
  using assms by (induction xs) auto

lemma json_nests_tree: "d \<le> json_max_depth \<Longrightarrow> json_nests d (json_events j @ rest) \<longleftrightarrow> d + json_height j \<le> json_max_depth \<and> json_nests d rest"
proof (induction j arbitrary: d rest)
  case (JObject ms)
  have "json_nests (d + 1) (member_events m @ rest) \<longleftrightarrow> d + 1 + json_height (snd m) \<le> json_max_depth \<and> json_nests (d + 1) rest"
    if "m \<in> set ms" "d < json_max_depth" for m rest
    using JObject.IH [of m "snd m" "d + 1" rest] that by (simp add: member_events_def snds.simps)
  then show ?case
    using JObject.prems json_nests_concat [of ms "d + 1" member_events "\<lambda>m. d + 1 + json_height (snd m) \<le> json_max_depth"]
    unfolding object_depth by (cases "d < json_max_depth") auto
next
  case (JArray js)
  have "json_nests (d + 1) (json_events j @ rest) \<longleftrightarrow> d + 1 + json_height j \<le> json_max_depth \<and> json_nests (d + 1) rest"
    if "j \<in> set js" "d < json_max_depth" for j rest
    using JArray.IH [of j "d + 1" rest] that by simp
  then show ?case
    using JArray.prems json_nests_concat [of js "d + 1" json_events "\<lambda>j. d + 1 + json_height j \<le> json_max_depth"]
    unfolding array_depth by (cases "d < json_max_depth") auto
qed simp_all

lemma decimal_digits_int: "json_digits (decimal_digits n) \<and> (0 < n \<longrightarrow> hd (decimal_digits n) \<noteq> CHR ''0'')"
proof (induction n rule: decimal_digits.induct)
  case (1 n)
  have d: "json_is_digit (char_of (48 + m))" if "m < 10" for m :: nat
    using that by (simp add: json_is_digit_def)
  have z: "char_of (48 + m) \<noteq> CHR ''0''" if "0 < m" "m < 10" for m :: nat
  proof
    assume "char_of (48 + m) = CHR ''0''"
    then have "byte (char_of (48 + m)) = byte (CHR ''0'')" by simp
    then show False using that by simp
  qed
  show ?case
  proof (cases "n < 10")
    case True
    then show ?thesis using d [of n] z [of n] by (subst (1 2) decimal_digits.simps) (simp add: json_digits_def)
  next
    case False
    then show ?thesis using 1 d [of "n mod 10"] by (subst (1 2) decimal_digits.simps) (simp add: json_digits_def)
  qed
qed

lemma to_chars_int_token: "json_number_token True (to_chars_int i)"
proof -
  have int: "json_int (decimal_digits n)" for n
  proof (cases "n = 0")
    case True
    then show ?thesis by (subst decimal_digits.simps) (simp add: json_int_def json_digits_def json_is_digit_def)
  next
    case False
    then show ?thesis using decimal_digits_int [of n] by (simp add: json_int_def)
  qed
  have shape: "to_chars_int i = (if i < 0 then ''-'' else []) @ decimal_digits (nat \<bar>i\<bar>)" by (simp add: to_chars_int_def)
  show ?thesis
    unfolding json_number_token_def
    by (rule exI [of _ "if i < 0 then ''-'' else []"], rule exI [of _ "decimal_digits (nat \<bar>i\<bar>)"],
        rule exI [of _ "[]"], rule exI [of _ "[]"])
      (use int in \<open>simp add: shape json_exp_def json_frac_def\<close>)
qed

lemma number_token_integer_text: "json_number_token i s \<Longrightarrow> json_integer_text s = i"
proof -
  assume "json_number_token i s"
  then obtain sg ip fp ep where t: "s = sg @ ip @ fp @ ep" "sg = [] \<or> sg = ''-''" "json_int ip" "json_frac fp" "json_exp ep"
    "i = (fp = [] \<and> ep = [])"
    by (auto simp: json_number_token_def)
  have ip: "list_all (\<lambda>c. json_is_digit c \<or> c = CHR ''-'') ip" using t(3) by (auto simp: json_int_def json_digits_def list_all_iff)
  have fp: "list_all (\<lambda>c. json_is_digit c \<or> c = CHR ''-'') fp = (fp = [])"
    using frac_start [OF t(4)] by (cases fp) (auto simp: json_is_digit_def)
  have ep: "list_all (\<lambda>c. json_is_digit c \<or> c = CHR ''-'') ep = (ep = [])"
    using exp_start [OF t(5)] by (cases ep) (auto simp: json_is_digit_def)
  show ?thesis using t(1,2,6) ip fp ep by (auto simp: json_integer_text_def)
qed

text \<open>
  What a call needs for its text to be legal JSON: UTF-8 in strings and keys, and for a \<^verbatim>\<open>double\<close> that
  \<^verbatim>\<open>std::to_chars\<close> produced a decimal number.
\<close>

fun call_ok :: "json_call \<Rightarrow> bool" where
  "call_ok (call_key k) = utf8_text k"
| "call_ok (call_string s) = utf8_text s"
| "call_ok (call_double fin s) = (\<exists>t i. s = Some t \<and> json_number_token i t)"
| "call_ok _ = True"

lemma call_ok_event: "call_ok c \<Longrightarrow> event_ok (call_event c)"
proof (induction c rule: call_ok.induct)
  case (3 fin s)
  then obtain t i where "s = Some t" "json_number_token i t" by auto
  then show ?case using number_token_integer_text by (cases i) (auto simp: event_ok_def Let_def)
qed (simp_all add: event_ok_def to_chars_int_token)

section \<open>Properties\<close>

text \<open>
  \<^bold>\<open>C38.\<close> The parser accepts the compact rendering of every document whose strings are UTF-8, whose
  numbers follow the grammar and whose nesting is at most \<open>json_max_depth\<close>, and delivers exactly the
  document's events.
\<close>

theorem parse_render_roundtrip:
  assumes "json_tree_ok j" "json_height j \<le> json_max_depth"
  shows "\<exists>evs. parse_json (json_render j) = Some (json_fail json_none 0 0, evs) \<and> json_strip evs = json_events j"
  using parse_render [OF assms] by metis

theorem parse_render_roundtrip_witness:
  "\<exists>evs. parse_json (json_render (JObject [([], JArray [JNull, JBool True])])) = Some (json_fail json_none 0 0, evs) \<and>
     json_strip evs = json_events (JObject [([], JArray [JNull, JBool True])])"
  by (rule parse_render_roundtrip) (simp_all add: utf8_text_empty json_max_depth_def)

text \<open>
  \<^bold>\<open>C15.\<close> Writing and reading are inverse: whatever sequence of calls brought a fresh writer to
  completeness, with legal arguments and no more than \<open>json_max_depth\<close> containers open at once, the
  parser accepts the output and hands its handler exactly the events of those calls, in order.
\<close>

theorem write_parse_roundtrip:
  assumes "jw_complete (snd (jw_calls cs jw_clear))" "\<forall>c \<in> set cs. call_ok c" "json_nests 0 (map call_event cs)"
  shows "\<exists>evs. parse_json (jw_output (snd (jw_calls cs jw_clear))) = Some (json_fail json_none 0 0, evs) \<and>
    json_strip evs = map call_event cs"
proof -
  obtain j where j: "jw_output (snd (jw_calls cs jw_clear)) = json_render j" "map call_event cs = json_events j"
    by (rule jw_complete_tree [OF assms(1)])
  have "\<forall>ev \<in> set (json_events j). event_ok ev" using assms(2) call_ok_event unfolding j(2) [symmetric] by auto
  then have "json_tree_ok j" using tree_ok_events by blast
  moreover have "json_height j \<le> json_max_depth"
    using assms(3) json_nests_tree [of 0 j "[]"] j(2) by simp
  ultimately show ?thesis unfolding j using parse_render by metis
qed

theorem write_parse_roundtrip_witness:
  "\<exists>evs. parse_json (jw_output (snd (jw_calls [call_begin_array, call_int (-7), call_string [], call_end_array] jw_clear))) =
      Some (json_fail json_none 0 0, evs) \<and>
    json_strip evs = map call_event [call_begin_array, call_int (-7), call_string [], call_end_array]"
proof (rule write_parse_roundtrip)
  show "jw_complete (snd (jw_calls [call_begin_array, call_int (- 7), call_string [], call_end_array] jw_clear))" by code_simp
qed (simp_all add: utf8_text_empty json_max_depth_def)

end
