(* ===== verification/Message_Queue.thy ===== *)
theory Message_Queue
  imports Prelude "HOL-Library.Sublist"
begin

text \<open>
  The contract that the request queue of the control thread and the outbound channel of a
  connection share: messages leave in the order they were accepted, a stopped queue is empty and
  stays stopped. The queue types implement it in the theory \<open>Channels\<close>.
\<close>

datatype 'm queue_call = Put 'm | Take | Stop

text \<open>What a sequence of calls accepted and delivered.\<close>

fun queue_run ::
  "('m \<Rightarrow> 'q \<Rightarrow> bool \<times> 'q) \<Rightarrow> ('q \<Rightarrow> ('d \<times> 'q) option) \<Rightarrow> ('q \<Rightarrow> 'q) \<Rightarrow> 'm queue_call list \<Rightarrow> 'q \<Rightarrow>
   'm list \<times> 'd list \<times> 'q" where
  "queue_run put take_next stop [] q = ([], [], q)"
| "queue_run put take_next stop (Put m # calls) q =
     (case put m q of
        (ok, q') \<Rightarrow> (case queue_run put take_next stop calls q' of
           (accepted, taken, q'') \<Rightarrow> (if ok then m # accepted else accepted, taken, q'')))"
| "queue_run put take_next stop (Take # calls) q =
     (case take_next q of
        None \<Rightarrow> queue_run put take_next stop calls q
      | Some (d, q') \<Rightarrow> (case queue_run put take_next stop calls q' of
           (accepted, taken, q'') \<Rightarrow> (accepted, d # taken, q'')))"
| "queue_run put take_next stop (Stop # calls) q = queue_run put take_next stop calls (stop q)"

locale message_queue =
  fixes ok :: "'q \<Rightarrow> bool"
    and put :: "'m \<Rightarrow> 'q \<Rightarrow> bool \<times> 'q"
    and take_next :: "'q \<Rightarrow> ('d \<times> 'q) option"
    and stop :: "'q \<Rightarrow> 'q"
    and contents :: "'q \<Rightarrow> 'm list"
    and stopped :: "'q \<Rightarrow> bool"
    and message :: "'d \<Rightarrow> 'm"
  assumes put_ok: "ok q \<Longrightarrow> ok (snd (put m q))"
    and take_ok: "ok q \<Longrightarrow> take_next q = Some (d, q') \<Longrightarrow> ok q'"
    and stop_ok: "ok q \<Longrightarrow> ok (stop q)"
    and put_accepts: "ok q \<Longrightarrow> put m q = (True, q') \<Longrightarrow>
      \<not> stopped q \<and> \<not> stopped q' \<and> contents q' = contents q @ [m]"
    and put_rejects: "ok q \<Longrightarrow> put m q = (False, q') \<Longrightarrow> stopped q'"
    and take_head: "ok q \<Longrightarrow> take_next q = Some (d, q') \<Longrightarrow>
      contents q = message d # contents q' \<and> stopped q' = stopped q"
    and stop_stops: "ok q \<Longrightarrow> stopped (stop q)"
    and stopped_empty: "ok q \<Longrightarrow> stopped q \<Longrightarrow> contents q = []"
begin

lemma stopped_put: "ok q \<Longrightarrow> stopped q \<Longrightarrow> \<not> fst (put m q) \<and> stopped (snd (put m q))"
  using put_accepts [of q m "snd (put m q)"] put_rejects [of q m "snd (put m q)"]
  by (cases "put m q") (cases "fst (put m q)", auto)

lemma stopped_take: "ok q \<Longrightarrow> stopped q \<Longrightarrow> take_next q = None"
  using take_head stopped_empty by (cases "take_next q") fastforce+

lemma run_ok: "ok q \<Longrightarrow> queue_run put take_next stop calls q = (accepted, taken, q') \<Longrightarrow> ok q'"
proof (induction calls arbitrary: q accepted taken)
  case (Cons c calls)
  show ?case
  proof (cases c)
    case (Put m)
    then show ?thesis
      using Cons.prems Cons.IH [of "snd (put m q)"] put_ok [of q m] by (auto split: prod.splits)
  next
    case Take
    then show ?thesis
      using Cons.prems Cons.IH take_ok [of q] by (auto split: prod.splits option.splits)
  next
    case Stop
    then show ?thesis using Cons.prems Cons.IH [of "stop q"] stop_ok [of q] by simp
  qed
qed simp

lemma run_stopped:
  "ok q \<Longrightarrow> stopped q \<Longrightarrow> queue_run put take_next stop calls q = (accepted, taken, q') \<Longrightarrow>
     accepted = [] \<and> taken = [] \<and> stopped q'"
proof (induction calls arbitrary: q accepted taken)
  case (Cons c calls)
  show ?case
  proof (cases c)
    case (Put m)
    obtain q1 where "put m q = (False, q1)" "stopped q1" "ok q1"
      using stopped_put [OF Cons.prems(1,2), of m] put_ok [OF Cons.prems(1), of m] by (cases "put m q") auto
    then show ?thesis using Cons.IH [of q1] Cons.prems Put by (auto split: prod.splits)
  next
    case Take
    then show ?thesis using Cons.IH [of q] Cons.prems stopped_take by simp
  next
    case Stop
    then show ?thesis using Cons.IH [of "stop q"] Cons.prems stop_ok stop_stops by simp
  qed
qed simp

text \<open>First in, first out: what was taken is a prefix of what was there and what was accepted.\<close>

lemma run_fifo:
  "ok q \<Longrightarrow> queue_run put take_next stop calls q = (accepted, taken, q') \<Longrightarrow>
     prefix (map message taken) (contents q @ accepted) \<and>
     (\<not> stopped q' \<longrightarrow> contents q @ accepted = map message taken @ contents q')"
proof (induction calls arbitrary: q accepted taken)
  case (Cons c calls)
  show ?case
  proof (cases c)
    case (Put m)
    obtain r q1 where p: "put m q = (r, q1)" by (cases "put m q")
    have ok1: "ok q1" using put_ok [OF Cons.prems(1), of m] p by simp
    obtain acc where run: "queue_run put take_next stop calls q1 = (acc, taken, q')"
      "accepted = (if r then m # acc else acc)"
      using Cons.prems(2) Put p by (auto split: prod.splits)
    show ?thesis
    proof (cases r)
      case True
      then show ?thesis using Cons.IH [OF ok1 run(1)] put_accepts [OF Cons.prems(1)] p run(2) by auto
    next
      case False
      then have "stopped q1" using put_rejects [OF Cons.prems(1)] p by simp
      then show ?thesis using run_stopped [OF ok1 _ run(1)] run(2) False by auto
    qed
  next
    case Take
    then show ?thesis
      using Cons.prems Cons.IH take_ok take_head
      by (cases "take_next q") (fastforce split: prod.splits)+
  next
    case Stop
    then show ?thesis
      using Cons.prems run_stopped [OF stop_ok [of q] stop_stops [of q], of calls accepted taken q'] by simp
  qed
qed simp

end

end
