(* ===== verification/Channels.thy ===== *)
theory Channels
  imports Message_Queue
begin

text \<open>
  The two queues of \<^verbatim>\<open>server_engine/communication\<close>: the request queue between the endpoint
  threads and the control thread (\<^verbatim>\<open>request_queue.cpp\<close>) and the bounded outbound channel of one
  connection (\<^verbatim>\<open>connection/outbound_channel.cpp\<close>). Every member function of both holds the object's
  mutex for its whole effect, so one call is one step on the state. A wait that would block
  is \<open>None\<close>: the call has no effect until another thread has changed the state.
  Both implement the contract of \<open>Message_Queue\<close>.
\<close>

section \<open>Request queue\<close>

record 'm request_queue =
  rq_queue :: "'m list"
  rq_accepting :: bool

definition fresh_request_queue :: "'m request_queue" where
  "fresh_request_queue = \<lparr>rq_queue = [], rq_accepting = True\<rparr>"

definition rq_push :: "'m \<Rightarrow> 'm request_queue \<Rightarrow> bool \<times> 'm request_queue" where
  "rq_push request q =
     (if \<not> rq_accepting q then (False, q) else (True, q\<lparr>rq_queue := rq_queue q @ [request]\<rparr>))"

definition stop_accepting_and_discard :: "'m request_queue \<Rightarrow> 'm request_queue" where
  "stop_accepting_and_discard q = q\<lparr>rq_accepting := False, rq_queue := []\<rparr>"

text \<open>The part after the wait: \<open>None\<close> as the first component is a call that returned false.\<close>

definition rq_pop :: "'m request_queue \<Rightarrow> 'm option \<times> 'm request_queue" where
  "rq_pop q =
     (case rq_queue q of
        [] \<Rightarrow> (None, q)
      | m # rest \<Rightarrow> (Some m, q\<lparr>rq_queue := rest\<rparr>))"

definition rq_wait_pop :: "'m request_queue \<Rightarrow> ('m option \<times> 'm request_queue) option" where
  "rq_wait_pop q = (if rq_queue q \<noteq> [] \<or> \<not> rq_accepting q then Some (rq_pop q) else None)"

definition rq_wait_pop_until :: "bool \<Rightarrow> 'm request_queue \<Rightarrow> ('m option \<times> 'm request_queue) option" where
  "rq_wait_pop_until expired q =
     (if rq_queue q \<noteq> [] \<or> \<not> rq_accepting q then Some (rq_pop q)
      else if expired then Some (None, q) else None)"

section \<open>Outbound channel\<close>

record 'p outbound_message =
  om_estimated_bytes :: nat
  om_payload :: 'p

record 'p outbound_write =
  ow_connection_sequence :: u64
  ow_message :: "'p outbound_message"

record 'p outbound_channel =
  oc_limit :: nat
  oc_queue :: "'p outbound_message list"
  oc_bytes :: nat
  oc_closing :: bool
  oc_next_sequence :: u64
  oc_last_written :: u64

definition make_outbound_channel :: "nat \<Rightarrow> 'p outbound_channel" where
  "make_outbound_channel byte_limit =
     \<lparr>oc_limit = byte_limit, oc_queue = [], oc_bytes = 0, oc_closing = False,
      oc_next_sequence = 1, oc_last_written = 0\<rparr>"

definition oc_enqueue :: "'p outbound_message \<Rightarrow> 'p outbound_channel \<Rightarrow> bool \<times> 'p outbound_channel" where
  "oc_enqueue m ch =
     (if oc_closing ch then (False, ch)
      else if om_estimated_bytes m > oc_limit ch \<or> oc_bytes ch > oc_limit ch - om_estimated_bytes m
      then (False, ch\<lparr>oc_closing := True, oc_queue := [], oc_bytes := 0\<rparr>)
      else (True, ch\<lparr>oc_bytes := oc_bytes ch + om_estimated_bytes m, oc_queue := oc_queue ch @ [m]\<rparr>))"

definition oc_try_next :: "'p outbound_channel \<Rightarrow> ('p outbound_write \<times> 'p outbound_channel) option" where
  "oc_try_next ch =
     (if oc_closing ch then None
      else case oc_queue ch of
          [] \<Rightarrow> None
        | m # rest \<Rightarrow>
            Some (\<lparr>ow_connection_sequence = oc_next_sequence ch, ow_message = m\<rparr>,
              ch\<lparr>oc_next_sequence := oc_next_sequence ch + 1,
                 oc_bytes := oc_bytes ch - om_estimated_bytes m, oc_queue := rest\<rparr>))"

text \<open>\<open>None\<close> blocks; \<open>Some None\<close> is the return of false.\<close>

definition oc_wait_next :: "'p outbound_channel \<Rightarrow> ('p outbound_write \<times> 'p outbound_channel) option option" where
  "oc_wait_next ch =
     (if oc_closing ch then Some None
      else case oc_queue ch of
          [] \<Rightarrow> None
        | m # rest \<Rightarrow>
            Some (Some (\<lparr>ow_connection_sequence = oc_next_sequence ch, ow_message = m\<rparr>,
              ch\<lparr>oc_next_sequence := oc_next_sequence ch + 1,
                 oc_bytes := oc_bytes ch - om_estimated_bytes m, oc_queue := rest\<rparr>)))"

definition oc_mark_written :: "u64 \<Rightarrow> 'p outbound_channel \<Rightarrow> 'p outbound_channel" where
  "oc_mark_written sequence ch =
     (if sequence > oc_last_written ch then ch\<lparr>oc_last_written := sequence\<rparr> else ch)"

definition oc_wait_until_written :: "u64 \<Rightarrow> bool \<Rightarrow> 'p outbound_channel \<Rightarrow> bool option" where
  "oc_wait_until_written sequence expired ch =
     (if oc_last_written ch \<ge> sequence \<or> oc_closing ch \<or> expired
      then Some (oc_last_written ch \<ge> sequence) else None)"

definition oc_close :: "'p outbound_channel \<Rightarrow> bool \<times> 'p outbound_channel" where
  "oc_close ch =
     (if oc_closing ch then (False, ch)
      else (True, ch\<lparr>oc_closing := True, oc_queue := [], oc_bytes := 0\<rparr>))"

section \<open>The contract\<close>

text \<open>A stopped queue is empty; the byte count is the sum of the queued estimates, within the limit.\<close>

definition rq_ok :: "'m request_queue \<Rightarrow> bool" where
  "rq_ok q \<longleftrightarrow> (\<not> rq_accepting q \<longrightarrow> rq_queue q = [])"

definition oc_ok :: "'p outbound_channel \<Rightarrow> bool" where
  "oc_ok ch \<longleftrightarrow>
     oc_bytes ch = sum_list (map om_estimated_bytes (oc_queue ch)) \<and> oc_bytes ch \<le> oc_limit ch \<and>
     (oc_closing ch \<longrightarrow> oc_queue ch = [])"

abbreviation rq_take :: "'m request_queue \<Rightarrow> ('m \<times> 'm request_queue) option" where
  "rq_take q \<equiv>
     (case rq_wait_pop q of Some (Some m, q') \<Rightarrow> Some (m, q') | _ \<Rightarrow> None)"

abbreviation oc_stop :: "'p outbound_channel \<Rightarrow> 'p outbound_channel" where
  "oc_stop ch \<equiv> snd (oc_close ch)"

lemmas rq_defs = rq_push_def stop_accepting_and_discard_def rq_pop_def rq_wait_pop_def rq_ok_def
lemmas oc_defs = oc_enqueue_def oc_try_next_def oc_wait_next_def oc_close_def oc_ok_def

lemma rq_take_eq: "rq_take q = (case rq_queue q of [] \<Rightarrow> None | m # rest \<Rightarrow> Some (m, q\<lparr>rq_queue := rest\<rparr>))"
  by (cases "rq_queue q") (simp_all add: rq_wait_pop_def rq_pop_def)

interpretation rq: message_queue rq_ok rq_push rq_take stop_accepting_and_discard rq_queue "\<lambda>q. \<not> rq_accepting q" id
  by unfold_locales (auto simp: rq_push_def stop_accepting_and_discard_def rq_ok_def rq_take_eq split: if_splits list.splits)

interpretation oc: message_queue oc_ok oc_enqueue oc_try_next oc_stop oc_queue oc_closing ow_message
proof (unfold_locales, goal_cases)
  case (1 q m)
  then show ?case by (auto simp: oc_defs)
next
  case (2 q d q')
  then show ?case by (auto simp: oc_defs split: if_splits list.splits)
qed (auto simp: oc_defs split: if_splits list.splits)

text \<open>The writer numbers its messages consecutively.\<close>

lemma oc_run_sequences:
  "queue_run oc_enqueue oc_try_next oc_stop calls ch = (accepted, taken, ch') \<Longrightarrow>
     map ow_connection_sequence taken = map (\<lambda>i. oc_next_sequence ch + of_nat i) [0..<length taken]"
proof (induction calls arbitrary: ch accepted taken)
  case (Cons c calls)
  show ?case
  proof (cases c)
    case (Put m)
    have "oc_next_sequence (snd (oc_enqueue m ch)) = oc_next_sequence ch" by (simp add: oc_enqueue_def)
    then show ?thesis using Cons.prems Cons.IH [of "snd (oc_enqueue m ch)"] Put by (auto split: prod.splits)
  next
    case Take
    show ?thesis
    proof (cases "oc_try_next ch")
      case None
      then show ?thesis using Cons Take by simp
    next
      case (Some r)
      obtain d ch1 where r: "oc_try_next ch = Some (d, ch1)" using Some by (cases r) auto
      have d: "ow_connection_sequence d = oc_next_sequence ch" "oc_next_sequence ch1 = oc_next_sequence ch + 1"
        using r by (auto simp: oc_try_next_def split: if_splits list.splits)
      obtain tak where run: "queue_run oc_enqueue oc_try_next oc_stop calls ch1 = (accepted, tak, ch')" "taken = d # tak"
        using Cons.prems Take r by (auto split: prod.splits)
      show ?thesis
        using Cons.IH [OF run(1)] d run(2)
        by (simp add: upt_conv_Cons map_Suc_upt [symmetric] add.assoc del: upt_Suc)
    qed
  next
    case Stop
    have "oc_next_sequence (oc_stop ch) = oc_next_sequence ch" by (simp add: oc_close_def)
    then show ?thesis using Cons Stop by simp
  qed
qed simp

section \<open>Properties\<close>

text \<open>
  \<^bold>\<open>C31.\<close> The request queue is first in, first out for any interleaving of producers, the consumer
  and shutdown: what the control thread received is a prefix of what was accepted, in order; while
  the queue accepts, nothing accepted is lost; and after \<open>stop_accepting_and_discard\<close> no call is
  accepted, nothing is delivered and no consumer blocks.
\<close>

theorem request_queue_fifo:
  assumes "queue_run rq_push rq_take stop_accepting_and_discard calls fresh_request_queue = (accepted, taken, q)"
  shows "prefix taken accepted \<and> (rq_accepting q \<longrightarrow> accepted = taken @ rq_queue q) \<and>
    (\<not> rq_accepting q \<longrightarrow> rq_wait_pop q = Some (None, q) \<and> (\<forall>m. \<not> fst (rq_push m q)))"
proof -
  have ok: "rq_ok fresh_request_queue" by (simp add: rq_ok_def fresh_request_queue_def)
  have "rq_ok q" by (rule rq.run_ok [OF ok assms])
  then show ?thesis
    using rq.run_fifo [OF ok assms] by (auto simp: fresh_request_queue_def rq_defs)
qed

theorem request_queue_fifo_witness:
  "\<exists>accepted taken q. queue_run rq_push rq_take stop_accepting_and_discard
      [Put (1 :: nat), Put 2, Take, Stop, Put 3] fresh_request_queue = (accepted, taken, q) \<and>
    accepted = [1, 2] \<and> taken = [1] \<and> prefix taken accepted"
proof -
  have run: "queue_run rq_push rq_take stop_accepting_and_discard
      [Put (1 :: nat), Put 2, Take, Stop, Put 3] fresh_request_queue = ([1, 2], [1], \<lparr>rq_queue = [], rq_accepting = False\<rparr>)"
    by (simp add: fresh_request_queue_def rq_defs)
  then show ?thesis using request_queue_fifo [OF run] by blast
qed

text \<open>
  \<^bold>\<open>C27.\<close> The outbound channel delivers in order and stays within its limit. For any interleaving
  of producers, the writer and \<open>close\<close>: the written messages are a prefix of the accepted ones, they
  carry the connection sequences 1, 2, 3 and so on, while the channel is open nothing accepted is
  lost, the byte count is the sum of the queued estimates and never exceeds the limit, and a closed
  channel is empty.
\<close>

theorem outbound_channel_fifo:
  assumes "queue_run oc_enqueue oc_try_next oc_stop calls (make_outbound_channel limit) = (accepted, taken, ch)"
  shows "prefix (map ow_message taken) accepted \<and>
    map ow_connection_sequence taken = map of_nat [1..<length taken + 1] \<and>
    (\<not> oc_closing ch \<longrightarrow> accepted = map ow_message taken @ oc_queue ch) \<and>
    oc_bytes ch = sum_list (map om_estimated_bytes (oc_queue ch)) \<and> oc_bytes ch \<le> oc_limit ch \<and>
    (oc_closing ch \<longrightarrow> oc_queue ch = [])"
proof -
  have ok: "oc_ok (make_outbound_channel limit)" by (simp add: oc_ok_def make_outbound_channel_def)
  have "oc_ok ch" by (rule oc.run_ok [OF ok assms])
  moreover have "map ow_connection_sequence taken = map of_nat [1..<length taken + 1]"
    using oc_run_sequences [OF assms] by (simp add: make_outbound_channel_def map_Suc_upt [symmetric] del: upt_Suc)
  ultimately show ?thesis
    using oc.run_fifo [OF ok assms] by (simp add: oc_ok_def make_outbound_channel_def)
qed

theorem outbound_channel_fifo_witness:
  "\<exists>accepted taken ch. queue_run oc_enqueue oc_try_next oc_stop
      [Put \<lparr>om_estimated_bytes = 3, om_payload = ()\<rparr>, Take, Put \<lparr>om_estimated_bytes = 9, om_payload = ()\<rparr>]
      (make_outbound_channel 8) = (accepted, taken, ch) \<and> length taken = 1 \<and> oc_closing ch \<and>
    prefix (map ow_message taken) accepted"
proof -
  let ?m = "\<lparr>om_estimated_bytes = 3, om_payload = ()\<rparr>"
  let ?ch = "\<lparr>oc_limit = 8, oc_queue = [], oc_bytes = 0, oc_closing = True, oc_next_sequence = 2, oc_last_written = 0\<rparr>"
  have run: "queue_run oc_enqueue oc_try_next oc_stop
      [Put ?m, Take, Put \<lparr>om_estimated_bytes = 9, om_payload = ()\<rparr>] (make_outbound_channel 8) =
      ([?m], [\<lparr>ow_connection_sequence = 1, ow_message = ?m\<rparr>], ?ch)"
    by (simp add: make_outbound_channel_def oc_defs)
  then show ?thesis using outbound_channel_fifo [OF run] by auto
qed

end
