(* ===== verification/Connection.thy ===== *)
theory Connection
  imports Channels "HOL-Library.Multiset"
begin

text \<open>
  One connection of \<^verbatim>\<open>server_engine/communication\<close>: the session of \<^verbatim>\<open>session/client_session.cpp\<close>, the
  move-only holders of \<^verbatim>\<open>connection/connection_lifetime.hpp\<close> and
  \<^verbatim>\<open>connection/subscription_registration.cpp\<close>, and the operations of
  \<^verbatim>\<open>connection/communication_connection.cpp\<close>; then the registry and the routing of
  \<^verbatim>\<open>communication.cpp\<close>.

  Callbacks are a log: \<open>fx_notify\<close> for the transport, \<open>fx_unregister\<close> for a publisher registration
  and \<open>fx_delete\<close> for \<^verbatim>\<open>delete this\<close>. Each critical section and each atomic access is one step of
  \<open>conn_step\<close>; an operation with several of them is a composition of steps, so that what is shown
  for \<open>conn_steps\<close> holds for every interleaving of the threads that use the connection. Identifiers are
  \<^verbatim>\<open>uint64_t\<close>; zero is the invalid one.
\<close>

section \<open>Session\<close>

datatype client_session_login_result = login_success | login_already_logged_in | login_invalid_request

record client_session =
  cs_id :: u64
  cs_logged_in :: bool
  cs_name :: string

definition session_max_name_size :: nat where "session_max_name_size = 128"

definition make_client_session :: "u64 \<Rightarrow> client_session" where
  "make_client_session i = \<lparr>cs_id = i, cs_logged_in = False, cs_name = []\<rparr>"

definition session_login :: "string \<Rightarrow> client_session \<Rightarrow> client_session_login_result \<times> client_session" where
  "session_login name s =
     (if cs_logged_in s then (login_already_logged_in, s)
      else if cs_id s = 0 \<or> name = [] \<or> length name > session_max_name_size then (login_invalid_request, s)
      else (login_success, s\<lparr>cs_name := name, cs_logged_in := True\<rparr>))"

datatype request_origin_kind = origin_internal | origin_console | origin_tcp

definition session_make_request_identity :: "client_session \<Rightarrow> (request_origin_kind \<times> string) option" where
  "session_make_request_identity s = (if \<not> cs_logged_in s then None else Some (origin_tcp, cs_name s))"

section \<open>Messages\<close>

datatype project_state = state_unloaded | state_loaded | state_run | state_freeze

text \<open>A response; of its diagnostics only the texts matter here, the other fields are \<open>'r\<close>.\<close>

record 'r server_response =
  resp_diagnostics :: "(string \<times> string) list"
  resp_rest :: 'r

record client_action =
  ca_from :: string
  ca_arg :: string
  ca_parameters :: "u8 list"

record subscription_data =
  sd_subscription :: u64
  sd_sequence :: u64
  sd_payload :: "u8 list"

datatype 'r outbound_payload =
  protocol_response u64 "'r server_response" bool
| server_state_action project_state project_state
| client_action_payload client_action
| subscription_payload subscription_data

definition diagnostic_bytes :: "(string \<times> string) list \<Rightarrow> nat" where
  "diagnostic_bytes records = sum_list (map (\<lambda>(detail, message). length detail + length message + 64) records)"

definition estimate_response_bytes :: "'r server_response \<Rightarrow> nat" where
  "estimate_response_bytes result = 96 + diagnostic_bytes (resp_diagnostics result)"

section \<open>Connection\<close>

datatype conn_effect = fx_notify | fx_unregister nat | fx_delete

text \<open>A publisher registration is the context of its callback, or nothing when it was moved from.\<close>

type_synonym registration = "nat option"

record 'r connection =
  cn_references :: nat
  cn_session :: client_session
  cn_login_committed :: bool
  cn_close_started :: bool
  cn_notify :: bool
  cn_outbound :: "'r outbound_payload outbound_channel"
  cn_awaited_request :: u64
  cn_awaited_written :: bool
  cn_outstanding :: "u64 set"
  cn_subscriptions :: "(u64 \<times> registration) list"
  cn_effects :: "conn_effect list"

definition make_connection :: "u64 \<Rightarrow> nat \<Rightarrow> bool \<Rightarrow> 'r connection" where
  "make_connection i byte_limit notify =
     \<lparr>cn_references = 1, cn_session = make_client_session i, cn_login_committed = False,
      cn_close_started = False, cn_notify = notify, cn_outbound = make_outbound_channel byte_limit,
      cn_awaited_request = 0, cn_awaited_written = False, cn_outstanding = {}, cn_subscriptions = [],
      cn_effects = []\<rparr>"

definition conn_emit :: "conn_effect list \<Rightarrow> 'r connection \<Rightarrow> 'r connection" where
  "conn_emit fx c = c\<lparr>cn_effects := cn_effects c @ fx\<rparr>"

definition registration_reset :: "registration \<Rightarrow> conn_effect list" where
  "registration_reset r = (case r of None \<Rightarrow> [] | Some ctx \<Rightarrow> [fx_unregister ctx])"

definition conn_make_request_identity :: "'r connection \<Rightarrow> (request_origin_kind \<times> string) option" where
  "conn_make_request_identity c =
     (if \<not> cn_login_committed c then None else session_make_request_identity (cn_session c))"

definition conn_commit_login :: "string \<Rightarrow> 'r connection \<Rightarrow> client_session_login_result \<times> 'r connection" where
  "conn_commit_login name c =
     (if cn_close_started c then (login_invalid_request, c)
      else case session_login name (cn_session c) of
          (result, s) \<Rightarrow>
            (result, c\<lparr>cn_session := s,
               cn_login_committed := (if result = login_success then True else cn_login_committed c)\<rparr>))"

definition conn_reserve_request :: "u64 \<Rightarrow> 'r connection \<Rightarrow> bool \<times> 'r connection" where
  "conn_reserve_request request c =
     (if request = 0 \<or> cn_close_started c then (False, c)
      else if request \<in> cn_outstanding c then (False, c)
      else (True, c\<lparr>cn_outstanding := insert request (cn_outstanding c)\<rparr>))"

definition conn_release_request :: "u64 \<Rightarrow> 'r connection \<Rightarrow> 'r connection" where
  "conn_release_request request c =
     (if request = 0 then c else c\<lparr>cn_outstanding := cn_outstanding c - {request}\<rparr>)"

definition conn_request_outstanding :: "u64 \<Rightarrow> 'r connection \<Rightarrow> bool" where
  "conn_request_outstanding request c \<longleftrightarrow> request \<noteq> 0 \<and> request \<in> cn_outstanding c"

definition conn_notify_transport :: "'r connection \<Rightarrow> 'r connection" where
  "conn_notify_transport c = (if cn_notify c then conn_emit [fx_notify] c else c)"

text \<open>The two shared writes of \<open>begin_close\<close>.\<close>

definition conn_start_close :: "'r connection \<Rightarrow> bool \<times> 'r connection" where
  "conn_start_close c = (\<not> cn_close_started c, c\<lparr>cn_close_started := True\<rparr>)"

definition conn_close_outbound :: "'r connection \<Rightarrow> 'r connection" where
  "conn_close_outbound c = c\<lparr>cn_outbound := snd (oc_close (cn_outbound c))\<rparr>"

definition conn_begin_close :: "'r connection \<Rightarrow> bool \<times> 'r connection" where
  "conn_begin_close c =
     (let (first, c1) = conn_start_close c
      in (first, conn_notify_transport (conn_close_outbound c1)))"

definition conn_put :: "'r outbound_payload outbound_message \<Rightarrow> 'r connection \<Rightarrow> bool \<times> 'r connection" where
  "conn_put m c = (let (ok, ch) = oc_enqueue m (cn_outbound c) in (ok, c\<lparr>cn_outbound := ch\<rparr>))"

text \<open>The common tail of the four \<open>enqueue\<close> functions.\<close>

definition conn_enqueue :: "nat \<Rightarrow> 'r outbound_payload \<Rightarrow> 'r connection \<Rightarrow> bool \<times> 'r connection" where
  "conn_enqueue estimated payload c =
     (let (ok, c1) = conn_put \<lparr>om_estimated_bytes = estimated, om_payload = payload\<rparr> c
      in if \<not> ok then (False, snd (conn_begin_close c1)) else (True, conn_notify_transport c1))"

definition conn_enqueue_response :: "u64 \<Rightarrow> 'r server_response \<Rightarrow> bool \<Rightarrow> 'r connection \<Rightarrow> bool \<times> 'r connection" where
  "conn_enqueue_response request result release c =
     conn_enqueue (estimate_response_bytes result) (protocol_response request result release) c"

definition conn_enqueue_server_state :: "project_state \<Rightarrow> project_state \<Rightarrow> 'r connection \<Rightarrow> bool \<times> 'r connection" where
  "conn_enqueue_server_state old_state new_state c =
     (if \<not> cn_login_committed c then (False, c)
      else conn_enqueue 64 (server_state_action old_state new_state) c)"

definition conn_enqueue_client_action :: "client_action \<Rightarrow> 'r connection \<Rightarrow> bool \<times> 'r connection" where
  "conn_enqueue_client_action action c =
     (if \<not> cn_login_committed c then (False, c)
      else conn_enqueue (64 + length (ca_from action) + length (ca_arg action) + length (ca_parameters action))
        (client_action_payload action) c)"

definition conn_enqueue_subscription_data :: "subscription_data \<Rightarrow> 'r connection \<Rightarrow> bool \<times> 'r connection" where
  "conn_enqueue_subscription_data data c =
     (if \<not> cn_login_committed c then (False, c)
      else conn_enqueue (64 + length (sd_payload data)) (subscription_payload data) c)"

text \<open>What the writer does with a dequeued message before it hands it out.\<close>

definition conn_release_response :: "'r outbound_payload outbound_write \<Rightarrow> 'r connection \<Rightarrow> 'r connection" where
  "conn_release_response w c =
     (case om_payload (ow_message w) of
        protocol_response request result release \<Rightarrow> if release then conn_release_request request c else c
      | _ \<Rightarrow> c)"

definition conn_try_next :: "'r connection \<Rightarrow> ('r outbound_payload outbound_write \<times> 'r connection) option" where
  "conn_try_next c =
     (case oc_try_next (cn_outbound c) of
        None \<Rightarrow> None
      | Some (w, ch) \<Rightarrow> Some (w, conn_release_response w (c\<lparr>cn_outbound := ch\<rparr>)))"

definition conn_wait_next :: "'r connection \<Rightarrow> ('r outbound_payload outbound_write \<times> 'r connection) option option" where
  "conn_wait_next c =
     (case oc_wait_next (cn_outbound c) of
        None \<Rightarrow> None
      | Some None \<Rightarrow> Some None
      | Some (Some (w, ch)) \<Rightarrow> Some (Some (w, conn_release_response w (c\<lparr>cn_outbound := ch\<rparr>))))"

definition conn_mark_sequence :: "u64 \<Rightarrow> 'r connection \<Rightarrow> 'r connection" where
  "conn_mark_sequence sequence c = c\<lparr>cn_outbound := oc_mark_written sequence (cn_outbound c)\<rparr>"

definition conn_mark_response :: "'r outbound_payload outbound_write \<Rightarrow> 'r connection \<Rightarrow> 'r connection" where
  "conn_mark_response w c =
     (case om_payload (ow_message w) of
        protocol_response request result release \<Rightarrow>
          if cn_awaited_request c = request then c\<lparr>cn_awaited_written := True\<rparr> else c
      | _ \<Rightarrow> c)"

definition conn_mark_written :: "'r outbound_payload outbound_write \<Rightarrow> 'r connection \<Rightarrow> 'r connection" where
  "conn_mark_written w c = conn_mark_response w (conn_mark_sequence (ow_connection_sequence w) c)"

definition conn_arm_response_write_wait :: "u64 \<Rightarrow> 'r connection \<Rightarrow> 'r connection" where
  "conn_arm_response_write_wait request c = c\<lparr>cn_awaited_request := request, cn_awaited_written := False\<rparr>"

text \<open>\<open>None\<close> blocks; \<open>expired\<close> is the timeout.\<close>

definition conn_wait_response_written :: "u64 \<Rightarrow> bool \<Rightarrow> 'r connection \<Rightarrow> (bool \<times> 'r connection) option" where
  "conn_wait_response_written request expired c =
     (let completed = (cn_awaited_request c = request \<and> cn_awaited_written c)
      in if completed \<or> cn_close_started c \<or> expired
         then Some (completed,
           if cn_awaited_request c = request then c\<lparr>cn_awaited_request := 0, cn_awaited_written := False\<rparr> else c)
         else None)"

definition conn_add_subscription :: "u64 \<Rightarrow> registration \<Rightarrow> 'r connection \<Rightarrow> bool \<times> 'r connection" where
  "conn_add_subscription sub reg c =
     (if sub = 0 \<or> cn_close_started c \<or> sub \<in> set (map fst (cn_subscriptions c))
      then (False, conn_emit (registration_reset reg) c)
      else (True, c\<lparr>cn_subscriptions := cn_subscriptions c @ [(sub, reg)]\<rparr>))"

text \<open>\<open>find_if\<close> followed by \<open>erase\<close>: the first entry with the identifier.\<close>

fun erase_subscription :: "u64 \<Rightarrow> (u64 \<times> registration) list \<Rightarrow> (registration \<times> (u64 \<times> registration) list) option" where
  "erase_subscription sub [] = None"
| "erase_subscription sub ((i, reg) # rest) =
     (if i = sub then Some (reg, rest)
      else case erase_subscription sub rest of
          None \<Rightarrow> None
        | Some (reg', rest') \<Rightarrow> Some (reg', (i, reg) # rest'))"

definition conn_remove_subscription :: "u64 \<Rightarrow> 'r connection \<Rightarrow> bool \<times> 'r connection" where
  "conn_remove_subscription sub c =
     (case erase_subscription sub (cn_subscriptions c) of
        None \<Rightarrow> (False, c)
      | Some (reg, rest) \<Rightarrow> (True, conn_emit (registration_reset reg) (c\<lparr>cn_subscriptions := rest\<rparr>)))"

definition conn_teardown_subscriptions :: "'r connection \<Rightarrow> 'r connection" where
  "conn_teardown_subscriptions c =
     conn_emit (concat (map (registration_reset \<circ> snd) (cn_subscriptions c))) (c\<lparr>cn_subscriptions := []\<rparr>)"

definition conn_retain :: "'r connection \<Rightarrow> 'r connection" where
  "conn_retain c = c\<lparr>cn_references := cn_references c + 1\<rparr>"

text \<open>The destructor of the connection destroys the subscriptions it still has.\<close>

definition conn_release :: "'r connection \<Rightarrow> 'r connection" where
  "conn_release c =
     (let c1 = c\<lparr>cn_references := cn_references c - 1\<rparr>
      in if cn_references c = 1 then conn_emit [fx_delete] (conn_teardown_subscriptions c1) else c1)"

section \<open>Interleavings\<close>

text \<open>
  One step of any thread that uses the connection; the reference count changes only through the
  holders below. The list is the contexts of the registrations handed to the connection in
  the step.
\<close>

inductive conn_step :: "'r connection \<Rightarrow> nat list \<Rightarrow> 'r connection \<Rightarrow> bool" where
  step_login: "conn_step c [] (snd (conn_commit_login name c))"
| step_reserve: "conn_step c [] (snd (conn_reserve_request request c))"
| step_release_request: "conn_step c [] (conn_release_request request c)"
| step_notify: "conn_step c [] (conn_notify_transport c)"
| step_start_close: "conn_step c [] (snd (conn_start_close c))"
| step_close_outbound: "conn_step c [] (conn_close_outbound c)"
| step_put: "conn_step c [] (snd (conn_put m c))"
| step_take: "oc_try_next (cn_outbound c) = Some (w, ch) \<Longrightarrow> conn_step c [] (c\<lparr>cn_outbound := ch\<rparr>)"
| step_mark_sequence: "conn_step c [] (conn_mark_sequence sequence c)"
| step_mark_response: "conn_step c [] (conn_mark_response w c)"
| step_arm: "conn_step c [] (conn_arm_response_write_wait request c)"
| step_wait: "conn_wait_response_written request expired c = Some (r, c') \<Longrightarrow> conn_step c [] c'"
| step_subscribe: "conn_step c (case reg of None \<Rightarrow> [] | Some ctx \<Rightarrow> [ctx]) (snd (conn_add_subscription sub reg c))"
| step_unsubscribe: "conn_step c [] (snd (conn_remove_subscription sub c))"
| step_teardown: "conn_step c [] (conn_teardown_subscriptions c)"

inductive conn_steps :: "'r connection \<Rightarrow> nat list \<Rightarrow> 'r connection \<Rightarrow> bool" where
  steps_none: "conn_steps c [] c"
| steps_more: "conn_step c regs c1 \<Longrightarrow> conn_steps c1 regs' c2 \<Longrightarrow> conn_steps c (regs @ regs') c2"

lemma steps_one: "conn_step c [] c1 \<Longrightarrow> conn_steps c1 regs c2 \<Longrightarrow> conn_steps c regs c2"
  using steps_more [of c "[]" c1 regs c2] by simp

lemma steps_single: "conn_step c [] c1 \<Longrightarrow> conn_steps c [] c1"
  by (rule steps_one [OF _ steps_none])

lemma conn_steps_trans: "conn_steps c regs c1 \<Longrightarrow> conn_steps c1 regs' c2 \<Longrightarrow> conn_steps c (regs @ regs') c2"
proof (induction rule: conn_steps.induct)
  case (steps_more c regs1 c1 regs2 c3)
  show ?case using conn_steps.steps_more [OF steps_more.hyps(1) steps_more.IH [OF steps_more.prems]] by simp
qed simp

text \<open>The operations with several critical sections are compositions of steps.\<close>

lemma begin_close_steps: "conn_steps c [] (snd (conn_begin_close c))"
proof -
  have "snd (conn_begin_close c) = conn_notify_transport (conn_close_outbound (snd (conn_start_close c)))"
    by (simp add: conn_begin_close_def case_prod_unfold Let_def)
  then show ?thesis
    by (auto intro: steps_one [OF step_start_close] steps_one [OF step_close_outbound] steps_single [OF step_notify])
qed

lemma enqueue_steps: "conn_steps c [] (snd (conn_enqueue estimated payload c))"
proof -
  let ?m = "\<lparr>om_estimated_bytes = estimated, om_payload = payload\<rparr>"
  have "conn_steps c [] (snd (conn_begin_close (snd (conn_put ?m c))))"
    by (rule steps_one [OF step_put begin_close_steps])
  moreover have "conn_steps c [] (conn_notify_transport (snd (conn_put ?m c)))"
    by (rule steps_one [OF step_put steps_single [OF step_notify]])
  ultimately show ?thesis by (simp add: conn_enqueue_def case_prod_unfold Let_def)
qed

lemma try_next_steps: "conn_try_next c = Some (w, c') \<Longrightarrow> conn_steps c [] c'"
  by (auto simp: conn_try_next_def conn_release_response_def split: option.splits outbound_payload.splits
      intro: steps_single [OF step_take] steps_one [OF step_take steps_single [OF step_release_request]])

lemma mark_written_steps: "conn_steps c [] (conn_mark_written w c)"
  unfolding conn_mark_written_def
  by (rule steps_one [OF step_mark_sequence steps_single [OF step_mark_response]])

section \<open>Invariant\<close>

definition conn_ok :: "'r connection \<Rightarrow> bool" where
  "conn_ok c \<longleftrightarrow>
     oc_ok (cn_outbound c) \<and>
     cn_login_committed c = cs_logged_in (cn_session c) \<and>
     (cs_logged_in (cn_session c) \<longrightarrow>
        cs_id (cn_session c) \<noteq> 0 \<and> cs_name (cn_session c) \<noteq> [] \<and> length (cs_name (cn_session c)) \<le> session_max_name_size) \<and>
     distinct (map fst (cn_subscriptions c)) \<and> 0 \<notin> set (map fst (cn_subscriptions c)) \<and>
     0 \<notin> cn_outstanding c"

text \<open>The registrations the connection holds, and those it has unregistered.\<close>

definition held :: "'r connection \<Rightarrow> nat multiset" where
  "held c = mset (concat (map (\<lambda>(sub, reg). case reg of None \<Rightarrow> [] | Some ctx \<Rightarrow> [ctx]) (cn_subscriptions c)))"

definition unregistered :: "'r connection \<Rightarrow> nat multiset" where
  "unregistered c = mset (concat (map (\<lambda>fx. case fx of fx_unregister ctx \<Rightarrow> [ctx] | _ \<Rightarrow> []) (cn_effects c)))"

lemma unregistered_emit:
  "unregistered (conn_emit fxs c) =
     unregistered c + mset (concat (map (\<lambda>fx. case fx of fx_unregister ctx \<Rightarrow> [ctx] | _ \<Rightarrow> []) fxs))"
  by (simp add: unregistered_def conn_emit_def)

lemma reset_unregisters:
  "concat (map (\<lambda>fx. case fx of fx_unregister ctx \<Rightarrow> [ctx] | _ \<Rightarrow> []) (registration_reset reg)) =
     (case reg of None \<Rightarrow> [] | Some ctx \<Rightarrow> [ctx])"
  by (simp add: registration_reset_def split: option.splits)

lemma resets_unregister:
  "concat (map (\<lambda>fx. case fx of fx_unregister ctx \<Rightarrow> [ctx] | _ \<Rightarrow> []) (concat (map (registration_reset \<circ> snd) subs))) =
     concat (map (\<lambda>(sub, reg). case reg of None \<Rightarrow> [] | Some ctx \<Rightarrow> [ctx]) subs)"
  by (induction subs) (auto simp: reset_unregisters case_prod_unfold)

lemma erase_subscription_Some:
  "erase_subscription sub subs = Some (reg, rest) \<Longrightarrow> \<exists>pre post. subs = pre @ (sub, reg) # post \<and> rest = pre @ post"
proof (induction subs arbitrary: reg rest)
  case (Cons p subs)
  obtain i r where p: "p = (i, r)" by (cases p)
  show ?case
  proof (cases "i = sub")
    case True
    then show ?thesis using Cons.prems p by (intro exI [of _ "[]"] exI [of _ rest]) simp
  next
    case False
    then obtain rest' where "erase_subscription sub subs = Some (reg, rest')" "rest = p # rest'"
      using Cons.prems p by (auto split: option.splits)
    then obtain pre post where "subs = pre @ (sub, reg) # post" "rest = p # pre @ post" using Cons.IH by auto
    then show ?thesis by (intro exI [of _ "p # pre"] exI [of _ post]) simp
  qed
qed simp

lemmas conn_defs = conn_commit_login_def session_login_def conn_reserve_request_def conn_release_request_def
  conn_notify_transport_def conn_start_close_def conn_close_outbound_def conn_put_def conn_mark_sequence_def
  conn_mark_response_def conn_arm_response_write_wait_def conn_wait_response_written_def conn_add_subscription_def
  conn_remove_subscription_def conn_teardown_subscriptions_def conn_retain_def conn_release_def conn_emit_def

lemma oc_mark_written_ok: "oc_ok ch \<Longrightarrow> oc_ok (oc_mark_written sequence ch)"
  by (simp add: oc_ok_def oc_mark_written_def)

lemma conn_step_ok: "conn_step c regs c' \<Longrightarrow> conn_ok c \<Longrightarrow> conn_ok c'"
proof (induction rule: conn_step.induct)
  case (step_put c m)
  then show ?case using oc.put_ok [of "cn_outbound c" m] by (simp add: conn_ok_def conn_put_def case_prod_unfold Let_def)
next
  case (step_take c w ch)
  then show ?case using oc.take_ok [of "cn_outbound c" w ch] by (simp add: conn_ok_def)
next
  case (step_close_outbound c)
  then show ?case using oc.stop_ok [of "cn_outbound c"] by (simp add: conn_ok_def conn_close_outbound_def)
next
  case (step_unsubscribe c sub)
  then show ?case
    by (auto simp: conn_ok_def conn_remove_subscription_def conn_emit_def dest!: erase_subscription_Some split: option.splits)
qed (auto simp: conn_ok_def conn_defs oc_mark_written_ok Let_def split: if_splits outbound_payload.splits)

lemma held_append: "held (c\<lparr>cn_subscriptions := xs @ ys\<rparr>) = held (c\<lparr>cn_subscriptions := xs\<rparr>) + held (c\<lparr>cn_subscriptions := ys\<rparr>)"
  by (simp add: held_def)

lemma teardown_accounts: "held (conn_teardown_subscriptions c) + unregistered (conn_teardown_subscriptions c) = held c + unregistered c"
  unfolding conn_teardown_subscriptions_def unregistered_emit resets_unregister
  by (simp add: held_def unregistered_def conn_emit_def add.commute)

lemma held_cong: "cn_subscriptions c = cn_subscriptions d \<Longrightarrow> held c = held d"
  by (simp add: held_def)

lemma unregistered_cong: "cn_effects c = cn_effects d \<Longrightarrow> unregistered c = unregistered d"
  by (simp add: unregistered_def)

lemma conn_step_accounts:
  "conn_step c regs c' \<Longrightarrow> held c' + unregistered c' = held c + unregistered c + mset regs"
proof (induction rule: conn_step.induct)
  case (step_subscribe c reg sub)
  show ?case
    by (cases reg) (auto simp: conn_add_subscription_def unregistered_emit reset_unregisters held_def unregistered_def conn_emit_def registration_reset_def)
next
  case (step_unsubscribe c sub)
  show ?case
  proof (cases "erase_subscription sub (cn_subscriptions c)")
    case (Some r)
    obtain reg rest where r: "r = (reg, rest)" by (cases r)
    obtain pre post where "cn_subscriptions c = pre @ (sub, reg) # post" "rest = pre @ post"
      using erase_subscription_Some Some r by blast
    then show ?thesis
      using Some r by (simp add: conn_remove_subscription_def unregistered_emit reset_unregisters)
        (simp add: held_def unregistered_def conn_emit_def)
  qed (simp add: conn_remove_subscription_def)
next
  case (step_teardown c)
  then show ?case by (simp add: teardown_accounts)
qed (auto simp: conn_defs held_def unregistered_def Let_def case_prod_unfold split: if_splits outbound_payload.splits)

lemma conn_steps_ok: "conn_steps c regs c' \<Longrightarrow> conn_ok c \<Longrightarrow> conn_ok c'"
  by (induction rule: conn_steps.induct) (auto dest: conn_step_ok)

lemma conn_steps_account: "conn_steps c regs c' \<Longrightarrow> held c' + unregistered c' = held c + unregistered c + mset regs"
  by (induction rule: conn_steps.induct) (auto dest: conn_step_accounts)

lemma make_connection_ok: "conn_ok (make_connection i limit notify)"
  by (simp add: conn_ok_def make_connection_def make_client_session_def oc_ok_def make_outbound_channel_def)

text \<open>A session that is logged in never changes again.\<close>

lemma conn_step_session: "conn_step c regs c' \<Longrightarrow> cs_logged_in (cn_session c) \<Longrightarrow> cn_session c' = cn_session c"
  by (induction rule: conn_step.induct)
    (auto simp: conn_defs Let_def case_prod_unfold split: if_splits outbound_payload.splits option.splits)

lemma conn_steps_session: "conn_steps c regs c' \<Longrightarrow> cs_logged_in (cn_session c) \<Longrightarrow> cn_session c' = cn_session c"
  by (induction rule: conn_steps.induct) (auto dest: conn_step_session)

text \<open>A connection whose close has completed stays closed.\<close>

definition conn_closed :: "'r connection \<Rightarrow> bool" where
  "conn_closed c \<longleftrightarrow> cn_close_started c \<and> oc_closing (cn_outbound c)"

lemma begin_close_closes: "conn_closed (snd (conn_begin_close c))"
  by (simp add: conn_begin_close_def conn_closed_def conn_defs oc_close_def Let_def)

lemma conn_step_closed: "conn_step c regs c' \<Longrightarrow> conn_closed c \<Longrightarrow> conn_closed c'"
proof (induction rule: conn_step.induct)
  case (step_put c m)
  then show ?case by (simp add: conn_closed_def conn_put_def oc_enqueue_def)
next
  case (step_take c w ch)
  then show ?case by (simp add: conn_closed_def oc_try_next_def)
qed (auto simp: conn_closed_def conn_defs oc_close_def oc_mark_written_def Let_def case_prod_unfold
    split: if_splits outbound_payload.splits option.splits)

lemma conn_steps_closed: "conn_steps c regs c' \<Longrightarrow> conn_closed c \<Longrightarrow> conn_closed c'"
  by (induction rule: conn_steps.induct) (auto dest: conn_step_closed)

lemma closed_refuses:
  assumes "conn_closed c"
  shows "conn_try_next c = None" "conn_wait_next c = Some None" "\<not> fst (conn_enqueue estimated payload c)"
    "\<not> fst (conn_reserve_request request c)" "\<not> fst (conn_add_subscription sub reg c)"
    "fst (conn_commit_login name c) = login_invalid_request"
  using assms
  by (simp_all add: conn_closed_def conn_try_next_def conn_wait_next_def oc_try_next_def oc_wait_next_def conn_enqueue_def
      conn_put_def oc_enqueue_def conn_reserve_request_def conn_add_subscription_def conn_commit_login_def)

section \<open>Holders\<close>

text \<open>
  The holders of a connection: its owner and the lifetime tokens, numbered; \<open>True\<close> is a holder
  that has not been moved from or reset. A move transfers the hold, a reset or a destructor
  releases it once.
\<close>

record 'r held_connection =
  hc_connection :: "'r connection"
  hc_holders :: "nat \<Rightarrow> bool"

definition hc_create :: "u64 \<Rightarrow> nat \<Rightarrow> bool \<Rightarrow> 'r held_connection" where
  "hc_create i byte_limit notify =
     \<lparr>hc_connection = make_connection i byte_limit notify, hc_holders = (\<lambda>t. t = 0)\<rparr>"

definition hc_reset :: "nat \<Rightarrow> 'r held_connection \<Rightarrow> 'r held_connection" where
  "hc_reset t h =
     (if hc_holders h t
      then h\<lparr>hc_holders := (hc_holders h)(t := False), hc_connection := conn_release (hc_connection h)\<rparr>
      else h)"

text \<open>\<open>hold()\<close> returns a new token, which has not been used before.\<close>

definition hc_hold :: "nat \<Rightarrow> 'r held_connection \<Rightarrow> 'r held_connection" where
  "hc_hold t h = h\<lparr>hc_holders := (hc_holders h)(t := True), hc_connection := conn_retain (hc_connection h)\<rparr>"

text \<open>Move assignment (move construction is the case of a target that holds nothing).\<close>

definition hc_move :: "nat \<Rightarrow> nat \<Rightarrow> 'r held_connection \<Rightarrow> 'r held_connection" where
  "hc_move source target h =
     (if source = target then h
      else
        let h1 = hc_reset target h
        in h1\<lparr>hc_holders := (hc_holders h1)(target := hc_holders h1 source, source := False)\<rparr>)"

text \<open>\<open>hold()\<close> and every other use of the connection go through a live holder.\<close>

inductive hc_step :: "'r held_connection \<Rightarrow> nat list \<Rightarrow> 'r held_connection \<Rightarrow> bool" where
  hc_step_hold: "hc_holders h s \<Longrightarrow> \<not> hc_holders h t \<Longrightarrow> hc_step h [] (hc_hold t h)"
| hc_step_reset: "hc_step h [] (hc_reset t h)"
| hc_step_move: "hc_step h [] (hc_move s t h)"
| hc_step_use: "hc_holders h s \<Longrightarrow> conn_step (hc_connection h) regs c \<Longrightarrow> hc_step h regs (h\<lparr>hc_connection := c\<rparr>)"

inductive hc_reach :: "'r held_connection \<Rightarrow> nat list \<Rightarrow> 'r held_connection \<Rightarrow> bool" for start :: "'r held_connection" where
  hc_start: "hc_reach start [] start"
| hc_more: "hc_reach start regs h \<Longrightarrow> hc_step h regs' h' \<Longrightarrow> hc_reach start (regs @ regs') h'"

definition deletions :: "'r connection \<Rightarrow> nat" where
  "deletions c = count_list (cn_effects c) fx_delete"

abbreviation holders :: "'r held_connection \<Rightarrow> nat set" where
  "holders h \<equiv> {t. hc_holders h t}"

text \<open>
  The reference count is the number of holders; the connection is deleted when the last one goes,
  and then it holds no registration.
\<close>

definition hc_ok :: "'r held_connection \<Rightarrow> bool" where
  "hc_ok h \<longleftrightarrow>
     finite (holders h) \<and> cn_references (hc_connection h) = card (holders h) \<and>
     (if holders h = {} then deletions (hc_connection h) = 1 \<and> cn_subscriptions (hc_connection h) = []
      else deletions (hc_connection h) = 0)"

lemma count_list_registration_reset: "count_list (registration_reset reg) fx_delete = 0"
  by (simp add: registration_reset_def split: option.splits)

lemma count_delete_resets: "count_list (concat (map (registration_reset \<circ> snd) subs)) fx_delete = 0"
  by (induction subs) (simp_all add: count_list_registration_reset)

lemma conn_step_deletions: "conn_step c regs c' \<Longrightarrow> deletions c' = deletions c \<and> cn_references c' = cn_references c"
  by (induction rule: conn_step.induct)
    (auto simp: conn_defs deletions_def count_list_registration_reset count_delete_resets Let_def case_prod_unfold
      split: if_splits outbound_payload.splits option.splits)

lemma conn_release_last:
  "cn_references c = 1 \<Longrightarrow>
     cn_references (conn_release c) = 0 \<and> deletions (conn_release c) = deletions c + 1 \<and> cn_subscriptions (conn_release c) = []"
  by (simp add: conn_release_def conn_teardown_subscriptions_def conn_emit_def deletions_def count_delete_resets)

lemma conn_release_more:
  "cn_references c \<noteq> 1 \<Longrightarrow>
     cn_references (conn_release c) = cn_references c - 1 \<and> deletions (conn_release c) = deletions c"
  by (simp add: conn_release_def deletions_def)

lemma hc_reset_ok:
  assumes "hc_ok h" shows "hc_ok (hc_reset t h)"
proof (cases "hc_holders h t")
  case True
  have rest: "holders (hc_reset t h) = holders h - {t}" using True by (auto simp: hc_reset_def)
  have fin: "finite (holders h)" and refs: "cn_references (hc_connection h) = card (holders h)"
    and del: "deletions (hc_connection h) = 0"
    using assms True by (auto simp: hc_ok_def split: if_splits)
  have card: "card (holders h - {t}) = card (holders h) - 1" using True by simp
  show ?thesis
  proof (cases "card (holders h) = 1")
    case True
    then have "holders h - {t} = {}" using card fin by (metis card_0_eq diff_self_eq_0 finite_Diff)
    then show ?thesis
      using conn_release_last [of "hc_connection h"] True refs del rest fin \<open>hc_holders h t\<close> by (simp add: hc_ok_def hc_reset_def)
  next
    case False
    moreover have "0 < card (holders h)" using \<open>hc_holders h t\<close> fin by (auto simp: card_gt_0_iff)
    ultimately have "card (holders h - {t}) \<noteq> 0" using card by linarith
    then have "holders h - {t} \<noteq> {}" by (metis card.empty)
    then show ?thesis
      using conn_release_more [of "hc_connection h"] False refs del rest card fin \<open>hc_holders h t\<close>
      by (simp add: hc_ok_def hc_reset_def)
  qed
qed (use assms in \<open>simp add: hc_reset_def\<close>)

lemma hc_hold_ok:
  assumes "hc_ok h" "hc_holders h s" "\<not> hc_holders h t" shows "hc_ok (hc_hold t h)"
proof -
  have "holders (hc_hold t h) = insert t (holders h)" by (auto simp: hc_hold_def)
  then show ?thesis
    using assms by (auto simp: hc_ok_def hc_hold_def conn_retain_def deletions_def split: if_splits)
qed

lemma hc_move_ok:
  assumes "hc_ok h" shows "hc_ok (hc_move s t h)"
proof (cases "s = t \<or> \<not> hc_holders (hc_reset t h) s")
  case True
  have "\<not> hc_holders (hc_reset t h) t" by (simp add: hc_reset_def)
  then have "(hc_holders (hc_reset t h))(t := hc_holders (hc_reset t h) s, s := False) = hc_holders (hc_reset t h)" if "s \<noteq> t"
    using True that by (auto simp: fun_eq_iff)
  then show ?thesis using hc_reset_ok [OF assms, of t] assms by (cases "s = t") (simp_all add: hc_move_def Let_def)
next
  case False
  let ?h = "hc_reset t h"
  have t: "\<not> hc_holders ?h t" by (simp add: hc_reset_def)
  have new: "holders (hc_move s t h) = insert t (holders ?h - {s})" using False by (auto simp: hc_move_def Let_def)
  have ok: "hc_ok ?h" by (rule hc_reset_ok [OF assms])
  have "card (insert t (holders ?h - {s})) = card (holders ?h)"
    using False t ok card_Suc_Diff1 [of "holders ?h" s] by (simp add: hc_ok_def)
  then show ?thesis
    using ok False new by (auto simp: hc_ok_def hc_move_def Let_def split: if_splits)
qed

lemma hc_step_ok: "hc_step h regs h' \<Longrightarrow> hc_ok h \<Longrightarrow> hc_ok h'"
proof (induction rule: hc_step.induct)
  case (hc_step_use h s regs c)
  then show ?case using conn_step_deletions [of "hc_connection h" regs c] by (auto simp: hc_ok_def split: if_splits)
qed (simp_all add: hc_hold_ok hc_reset_ok hc_move_ok)

lemma release_accounts: "held (conn_release c) + unregistered (conn_release c) = held c + unregistered c"
proof -
  let ?c = "c\<lparr>cn_references := cn_references c - 1\<rparr>"
  have "held ?c = held c" "unregistered ?c = unregistered c" by (simp_all add: held_def unregistered_def)
  moreover have "held (conn_emit [fx_delete] d) = held d" "unregistered (conn_emit [fx_delete] d) = unregistered d" for d :: "'a connection"
    by (simp_all add: held_def unregistered_def conn_emit_def)
  ultimately show ?thesis using teardown_accounts [of ?c] by (cases "cn_references c = 1") (simp_all add: conn_release_def Let_def)
qed

lemma hc_reset_accounts:
  "held (hc_connection (hc_reset t h)) + unregistered (hc_connection (hc_reset t h)) =
     held (hc_connection h) + unregistered (hc_connection h)"
  by (simp add: hc_reset_def release_accounts)

lemma hc_step_accounts:
  "hc_step h regs h' \<Longrightarrow>
     held (hc_connection h') + unregistered (hc_connection h') = held (hc_connection h) + unregistered (hc_connection h) + mset regs"
proof (induction rule: hc_step.induct)
  case (hc_step_use h s regs c)
  then show ?case using conn_step_accounts by simp
next
  case (hc_step_move h s t)
  then show ?case using hc_reset_accounts [of t h] by (simp add: hc_move_def Let_def)
qed (simp_all add: hc_reset_accounts, simp add: hc_hold_def conn_retain_def held_def unregistered_def)

lemma hc_create_ok: "hc_ok (hc_create i limit notify)"
  by (simp add: hc_ok_def hc_create_def make_connection_def deletions_def)

lemma hc_reach_ok: "hc_reach start regs h \<Longrightarrow> hc_ok start \<Longrightarrow> hc_ok h"
  by (induction rule: hc_reach.induct) (auto dest: hc_step_ok)

lemma hc_reach_accounts:
  "hc_reach start regs h \<Longrightarrow>
     held (hc_connection h) + unregistered (hc_connection h) =
     held (hc_connection start) + unregistered (hc_connection start) + mset regs"
  by (induction rule: hc_reach.induct) (auto dest: hc_step_accounts)

section \<open>Registry and routing\<close>

text \<open>The logged-in connections of \<open>communication\<close>, in registration order.\<close>

definition register_connection :: "'r connection \<Rightarrow> 'r connection list \<Rightarrow> bool \<times> 'r connection list" where
  "register_connection c registry =
     (if list_ex (\<lambda>d. cs_id (cn_session d) = cs_id (cn_session c)) registry then (False, registry)
      else (True, registry @ [c]))"

text \<open>The connection torn down, if one has the identifier, and the remaining registry.\<close>

fun unregister_connection :: "u64 \<Rightarrow> 'r connection list \<Rightarrow> 'r connection option \<times> 'r connection list" where
  "unregister_connection i [] = (None, [])"
| "unregister_connection i (c # registry) =
     (if cs_id (cn_session c) = i then (Some (conn_teardown_subscriptions c), registry)
      else case unregister_connection i registry of (torn, rest) \<Rightarrow> (torn, c # rest))"

definition publish_server_state :: "project_state \<Rightarrow> project_state \<Rightarrow> 'r connection list \<Rightarrow> 'r connection list" where
  "publish_server_state old_state new_state registry =
     (if old_state = new_state then registry
      else map (\<lambda>c. if cn_login_committed c then snd (conn_enqueue_server_state old_state new_state c) else c) registry)"

record client_message =
  cm_login :: string
  cm_arg :: string
  cm_parameters :: "u8 list"

text \<open>The loop of \<open>route_client\<close>: the number routed and the connections afterwards.\<close>

fun route_loop :: "string \<Rightarrow> client_message \<Rightarrow> 'r connection list \<Rightarrow> nat \<times> 'r connection list" where
  "route_loop from msg [] = (0, [])"
| "route_loop from msg (c # registry) =
     (if \<not> cn_login_committed c \<or> cn_close_started c \<or> (cm_login msg \<noteq> [] \<and> cs_name (cn_session c) \<noteq> cm_login msg)
      then (case route_loop from msg registry of (routed, cs) \<Rightarrow> (routed, c # cs))
      else
        let (ok, c1) = conn_enqueue_client_action
          \<lparr>ca_from = from, ca_arg = cm_arg msg, ca_parameters = cm_parameters msg\<rparr> c
        in case route_loop from msg registry of
            (routed, cs) \<Rightarrow> (if ok then routed + 1 else routed, c1 # cs))"

definition route_client :: "'r connection \<Rightarrow> client_message \<Rightarrow> 'r connection list \<Rightarrow> nat \<times> 'r connection list" where
  "route_client sender msg registry =
     (if \<not> cn_login_committed sender \<or> cn_close_started sender then (0, registry)
      else route_loop (cs_name (cn_session sender)) msg registry)"

definition route_target :: "client_message \<Rightarrow> 'r connection \<Rightarrow> bool" where
  "route_target msg c \<longleftrightarrow>
     cn_login_committed c \<and> \<not> cn_close_started c \<and> (cm_login msg = [] \<or> cs_name (cn_session c) = cm_login msg)"

lemma route_loop_each:
  "route_loop from msg registry = (routed, cs) \<Longrightarrow>
     cs = map (\<lambda>c. if route_target msg c
       then snd (conn_enqueue_client_action \<lparr>ca_from = from, ca_arg = cm_arg msg, ca_parameters = cm_parameters msg\<rparr> c)
       else c) registry \<and>
     routed = length (filter (\<lambda>c. route_target msg c \<and>
       fst (conn_enqueue_client_action \<lparr>ca_from = from, ca_arg = cm_arg msg, ca_parameters = cm_parameters msg\<rparr> c)) registry)"
proof (induction registry arbitrary: routed cs)
  case (Cons c registry)
  obtain n ds where rest: "route_loop from msg registry = (n, ds)" by (cases "route_loop from msg registry")
  show ?case
    using Cons.prems Cons.IH [OF rest] rest
    by (cases "conn_enqueue_client_action \<lparr>ca_from = from, ca_arg = cm_arg msg, ca_parameters = cm_parameters msg\<rparr> c")
      (auto simp: route_target_def split: if_splits)
qed simp

section \<open>Properties\<close>





text \<open>
  \<^bold>\<open>C30.\<close> The reference count is the number of live holders: while one of them lives the connection
  is not deleted, when the last one goes it is deleted, exactly once, and then every
  registration ever handed to it has been unregistered exactly once.
\<close>

theorem connection_lifetime:
  assumes "hc_reach (hc_create i limit notify) regs h"
  shows "cn_references (hc_connection h) = card (holders h) \<and>
    deletions (hc_connection h) = (if holders h = {} then 1 else 0) \<and>
    (holders h = {} \<longrightarrow> unregistered (hc_connection h) = mset regs)"
proof -
  have "hc_ok h" by (rule hc_reach_ok [OF assms hc_create_ok])
  moreover have "held (hc_connection h) + unregistered (hc_connection h) = mset regs"
    using hc_reach_accounts [OF assms] by (simp add: held_def unregistered_def hc_create_def make_connection_def)
  ultimately show ?thesis by (auto simp: hc_ok_def held_def split: if_splits)
qed

theorem connection_lifetime_witness:
  "\<exists>h. hc_reach (hc_create 1 100 True :: unit held_connection) [] h \<and> deletions (hc_connection h) = 1"
proof -
  let ?h = "hc_reset 0 (hc_create 1 100 True :: unit held_connection)"
  have run: "hc_reach (hc_create 1 100 True :: unit held_connection) [] ?h"
    using hc_more [OF hc_start hc_step_reset] by fastforce
  have "holders ?h = {}" by (auto simp: hc_reset_def hc_create_def)
  then show ?thesis using connection_lifetime [OF run] run by auto
qed

text \<open>
  \<^bold>\<open>C32.\<close> Routing reaches exactly the addressed sessions: every registered connection that is
  logged in, open and, unless the message is a broadcast, carries the addressed name, gets one
  client action from the sender's name; every other one is untouched; and the count returned is the
  number of connections that accepted it.
\<close>

theorem route_client_targets:
  assumes "route_client sender msg registry = (routed, cs)" "cn_login_committed sender" "\<not> cn_close_started sender"
  shows "let deliver = conn_enqueue_client_action
      \<lparr>ca_from = cs_name (cn_session sender), ca_arg = cm_arg msg, ca_parameters = cm_parameters msg\<rparr>
    in cs = map (\<lambda>c. if route_target msg c then snd (deliver c) else c) registry \<and>
       routed = length (filter (\<lambda>c. route_target msg c \<and> fst (deliver c)) registry)"
  using route_loop_each assms by (simp add: route_client_def Let_def)

theorem route_client_targets_witness:
  "\<exists>c :: unit connection. cn_login_committed c \<and>
     fst (route_client c \<lparr>cm_login = [], cm_arg = ''x'', cm_parameters = []\<rparr> [c]) = 1"
proof -
  let ?c = "snd (conn_commit_login ''a'' (make_connection 1 100 True)) :: unit connection"
  let ?msg = "\<lparr>cm_login = [], cm_arg = ''x'', cm_parameters = []\<rparr>"
  let ?action = "\<lparr>ca_from = ''a'', ca_arg = ''x'', ca_parameters = []\<rparr>"
  have c: "cn_login_committed ?c" "\<not> cn_close_started ?c" "cs_name (cn_session ?c) = ''a''"
    by (simp_all add: make_connection_def make_client_session_def conn_commit_login_def session_login_def session_max_name_size_def)
  have "fst (conn_enqueue_client_action ?action ?c)"
    by (simp add: make_connection_def make_client_session_def conn_commit_login_def session_login_def session_max_name_size_def
        conn_enqueue_client_action_def conn_enqueue_def conn_put_def oc_enqueue_def make_outbound_channel_def)
  then have "fst (route_client ?c ?msg [?c]) = 1"
    using route_client_targets [of ?c ?msg "[?c]" "fst (route_client ?c ?msg [?c])" "snd (route_client ?c ?msg [?c])"] c
    by (simp add: route_target_def Let_def)
  then show ?thesis using c by blast
qed

end
