(* ===== verification/Assign_Input.thy ===== *)
theory Assign_Input
  imports Prelude
begin

text \<open>
  The assign domain of a project, \<^verbatim>\<open>server_engine/project/assign\<close>: the table of source and target
  texts over one byte arena (\<^verbatim>\<open>assign_table.cpp\<close>) and the line parser that fills it
  (\<^verbatim>\<open>assign_input.cpp\<close>). Offsets and lengths are \<^verbatim>\<open>uint32_t\<close>; \<open>add\<close> guards them, the line
  extents of a failure are truncated to 32 bits as in the code. \<open>alloc\<close> says whether the
  allocations of a call succeed. The theory shows that the table is the list of pairs added to it,
  and that the parser adds exactly the pairs of the lines of the text, in order, or
  stops at the first bad line.
\<close>

section \<open>Table\<close>

record assign_record =
  ar_source_offset :: u32
  ar_source_length :: u32
  ar_target_offset :: u32
  ar_target_length :: u32

record assign_table =
  at_entries :: "assign_record list"
  at_bytes :: string

definition assign_clear :: "assign_table" where
  "assign_clear = \<lparr>at_entries = [], at_bytes = []\<rparr>"

definition assign_add :: "bool \<Rightarrow> string \<Rightarrow> string \<Rightarrow> assign_table \<Rightarrow> server_status \<times> assign_table" where
  "assign_add alloc source target t =
     (if source = [] \<or> target = [] then (project_configuration_invalid, t)
      else if length source > uint32_max \<or> length target > uint32_max \<or>
          length (at_bytes t) > uint32_max - length source \<or>
          length (at_bytes t) + length source > uint32_max - length target
      then (project_configuration_invalid, t)
      else if \<not> alloc then (io_error, t)
      else (success, t\<lparr>at_bytes := at_bytes t @ source @ target,
        at_entries := at_entries t @
          [\<lparr>ar_source_offset = of_nat (length (at_bytes t)), ar_source_length = of_nat (length source),
            ar_target_offset = of_nat (length (at_bytes t) + length source),
            ar_target_length = of_nat (length target)\<rparr>]\<rparr>))"

definition assign_text :: "assign_table \<Rightarrow> u32 \<Rightarrow> u32 \<Rightarrow> string" where
  "assign_text t off len =
     (if unat off > length (at_bytes t) \<or> unat len > length (at_bytes t) - unat off then []
      else text_slice (at_bytes t) (unat off) (unat len))"

definition assign_source :: "assign_table \<Rightarrow> assign_record \<Rightarrow> string" where
  "assign_source t r = assign_text t (ar_source_offset r) (ar_source_length r)"

definition assign_target :: "assign_table \<Rightarrow> assign_record \<Rightarrow> string" where
  "assign_target t r = assign_text t (ar_target_offset r) (ar_target_length r)"

section \<open>Lines\<close>

text \<open>\<^verbatim>\<open>string_view::find\<close> of a character.\<close>

function str_find :: "char \<Rightarrow> string \<Rightarrow> nat \<Rightarrow> nat option" where
  "str_find c s pos =
     (if pos < length s then if s ! pos = c then Some pos else str_find c s (pos + 1) else None)"
  by pat_completeness auto
termination by (relation "measure (\<lambda>(c, s, pos). length s - pos)") auto

declare str_find.simps [simp del]

lemma str_find_range: "str_find c s pos = Some i \<Longrightarrow> pos \<le> i \<and> i < length s"
proof (induction c s pos rule: str_find.induct)
  case (1 c s pos)
  then show ?case by (subst (asm) (2) str_find.simps) (fastforce split: if_splits)
qed

abbreviation is_blank :: "char \<Rightarrow> bool" where
  "is_blank c \<equiv> c = CHR '' '' \<or> c = CHR 0x09"

fun trim_front :: "string \<Rightarrow> string" where
  "trim_front [] = []"
| "trim_front (c # s) = (if is_blank c then trim_front s else c # s)"

function trim_back :: "string \<Rightarrow> string" where
  "trim_back s = (if s \<noteq> [] \<and> is_blank (last s) then trim_back (butlast s) else s)"
  by pat_completeness auto
termination by (relation "measure length") auto

declare trim_back.simps [simp del]

definition trim_assign_text :: "string \<Rightarrow> string" where
  "trim_assign_text s = trim_back (trim_front s)"

datatype assign_detail = detail_separator | detail_empty

record assign_parse_failure =
  af_file :: nat
  af_offset :: u32
  af_length :: u32
  af_detail :: assign_detail

text \<open>A line after trimming: the source and the target, or what is wrong with it.\<close>

definition parse_assign_line :: "string \<Rightarrow> assign_detail + string \<times> string" where
  "parse_assign_line line =
     (let equal = str_find (CHR ''='') line 0; tab = str_find (CHR 0x09) line 0
      in case equal of
          Some e \<Rightarrow>
            if tab \<noteq> None \<or> str_find (CHR ''='') line (e + 1) \<noteq> None then Inl detail_separator
            else
              let target = trim_assign_text (take e line); source = trim_assign_text (drop (e + 1) line)
              in if source = [] \<or> target = [] then Inl detail_empty else Inr (source, target)
        | None \<Rightarrow>
            (case tab of
               None \<Rightarrow> Inl detail_separator
             | Some t \<Rightarrow>
                 if str_find (CHR 0x09) line (t + 1) \<noteq> None then Inl detail_separator
                 else
                   let source = trim_assign_text (take t line); target = trim_assign_text (drop (t + 1) line)
                   in if source = [] \<or> target = [] then Inl detail_empty else Inr (source, target)))"

text \<open>One round of the line loop, up to the newline at \<open>newline\<close> or the end of the content.\<close>

definition parse_assign_step ::
  "(nat \<Rightarrow> bool) \<Rightarrow> nat \<Rightarrow> string \<Rightarrow> nat \<Rightarrow> nat option \<Rightarrow> assign_table \<Rightarrow>
   (assign_parse_failure option \<times> server_status \<times> assign_table) + assign_table" where
  "parse_assign_step alloc file content line_begin newline t =
     (let line_end = (case newline of None \<Rightarrow> length content | Some n \<Rightarrow> n);
          physical_end = (if line_end > line_begin \<and> content ! (line_end - 1) = CHR 0x0D then line_end - 1 else line_end);
          line = trim_assign_text (text_slice content line_begin (physical_end - line_begin))
      in if line = [] then Inr t
         else case parse_assign_line line of
             Inl detail \<Rightarrow>
               Inl (Some \<lparr>af_file = file, af_offset = of_nat line_begin,
                 af_length = of_nat (physical_end - line_begin), af_detail = detail\<rparr>,
                 project_configuration_invalid, t)
           | Inr (source, target) \<Rightarrow>
               (case assign_add (alloc line_begin) source target t of
                  (status, t') \<Rightarrow> if succeeded status then Inr t' else Inl (None, status, t')))"

text \<open>The line loop; the first component is the failure recorded for the caller.\<close>

function parse_assign_loop ::
  "(nat \<Rightarrow> bool) \<Rightarrow> nat \<Rightarrow> string \<Rightarrow> nat \<Rightarrow> assign_table \<Rightarrow> assign_parse_failure option \<times> server_status \<times> assign_table" where
  "parse_assign_loop alloc file content line_begin t =
     (if line_begin \<le> length content
      then
        case parse_assign_step alloc file content line_begin (str_find (CHR 0x0A) content line_begin) t of
          Inl r \<Rightarrow> r
        | Inr t' \<Rightarrow>
            (case str_find (CHR 0x0A) content line_begin of
               None \<Rightarrow> (None, success, t')
             | Some n \<Rightarrow> parse_assign_loop alloc file content (n + 1) t')
      else (None, success, t))"
  by pat_completeness auto
termination
  by (relation "measure (\<lambda>(alloc, file, content, b, t). Suc (length content) - b)") (auto dest!: str_find_range)

declare parse_assign_loop.simps [simp del]

definition parse_assign_file ::
  "(nat \<Rightarrow> bool) \<Rightarrow> nat \<Rightarrow> string \<Rightarrow> assign_table \<Rightarrow> assign_parse_failure option \<times> server_status \<times> assign_table" where
  "parse_assign_file alloc file content t = parse_assign_loop alloc file content 0 t"

text \<open>
  The files of the project as \<open>parse_assign_inputs\<close> sees them: whether the kind is
  \<^verbatim>\<open>file_kind::assign\<close>, and the content when it is available.
\<close>

fun parse_assign_files ::
  "(nat \<Rightarrow> nat \<Rightarrow> bool) \<Rightarrow> nat \<Rightarrow> (bool \<times> string option) list \<Rightarrow> assign_table \<Rightarrow>
   assign_parse_failure option \<times> server_status \<times> assign_table" where
  "parse_assign_files alloc file [] t = (None, success, t)"
| "parse_assign_files alloc file ((is_assign, content) # files) t =
     (if \<not> is_assign then parse_assign_files alloc (file + 1) files t
      else case content of
          None \<Rightarrow> (None, project_artifact_invalid, t)
        | Some s \<Rightarrow>
            (case parse_assign_file (alloc file) file s t of
               (failure, status, t') \<Rightarrow>
                 if \<not> succeeded status then (failure, status, t')
                 else parse_assign_files alloc (file + 1) files t'))"

definition parse_assign_inputs ::
  "(nat \<Rightarrow> nat \<Rightarrow> bool) \<Rightarrow> (bool \<times> string option) list \<Rightarrow> assign_parse_failure option \<times> server_status \<times> assign_table" where
  "parse_assign_inputs alloc files = parse_assign_files alloc 1 files assign_clear"

section \<open>The table is a list of pairs\<close>

definition assign_pairs :: "assign_table \<Rightarrow> (string \<times> string) list" where
  "assign_pairs t = map (\<lambda>r. (assign_source t r, assign_target t r)) (at_entries t)"

definition assign_ok :: "assign_table \<Rightarrow> bool" where
  "assign_ok t \<longleftrightarrow> length (at_bytes t) \<le> uint32_max \<and>
     (\<forall>r \<in> set (at_entries t).
        unat (ar_source_offset r) + unat (ar_source_length r) \<le> length (at_bytes t) \<and>
        unat (ar_target_offset r) + unat (ar_target_length r) \<le> length (at_bytes t))"

lemma assign_text_grows:
  "unat off + unat len \<le> length (at_bytes t) \<Longrightarrow> assign_text (t\<lparr>at_bytes := at_bytes t @ added, at_entries := es\<rparr>) off len = assign_text t off len"
  by (simp add: assign_text_def text_slice_append_left)

lemma assign_add_ok:
  assumes "assign_ok t" "assign_add alloc source target t = (status, t')"
  shows "assign_ok t' \<and>
    (if status = success then assign_pairs t' = assign_pairs t @ [(source, target)] else t' = t)"
proof (cases "status = success")
  case False
  then show ?thesis using assms by (auto simp: assign_add_def split: if_splits)
next
  case True
  let ?r = "\<lparr>ar_source_offset = of_nat (length (at_bytes t)), ar_source_length = of_nat (length source),
    ar_target_offset = of_nat (length (at_bytes t) + length source), ar_target_length = of_nat (length target)\<rparr> :: assign_record"
  have t': "t' = t\<lparr>at_bytes := at_bytes t @ source @ target, at_entries := at_entries t @ [?r]\<rparr>"
    and len: "length (at_bytes t) + length source + length target \<le> uint32_max"
    using assms(2) True by (auto simp: assign_add_def split: if_splits)
  have fields: "unat (ar_source_offset ?r) = length (at_bytes t)" "unat (ar_source_length ?r) = length source"
    "unat (ar_target_offset ?r) = length (at_bytes t) + length source" "unat (ar_target_length ?r) = length target"
    using len by (simp_all add: unat_of_nat_u32 del: of_nat_add)
  have old: "assign_source t' r = assign_source t r" "assign_target t' r = assign_target t r" if "r \<in> set (at_entries t)" for r
    using assms(1) that assign_text_grows by (auto simp: t' assign_ok_def assign_source_def assign_target_def)
  have new: "assign_source t' ?r = source" "assign_target t' ?r = target"
    using fields by (simp_all add: assign_source_def assign_target_def assign_text_def t' text_slice_def)
  have "assign_pairs t' = assign_pairs t @ [(source, target)]"
    using old new by (simp add: assign_pairs_def) (simp add: t')
  moreover have "assign_ok t'"
    using assms(1) fields len by (fastforce simp: assign_ok_def t')
  ultimately show ?thesis using True by simp
qed

section \<open>The lines of a text\<close>

function split_lines :: "string \<Rightarrow> string list" where
  "split_lines s =
     (case dropWhile (\<lambda>c. c \<noteq> CHR 0x0A) s of
        [] \<Rightarrow> [s]
      | nl # rest \<Rightarrow> takeWhile (\<lambda>c. c \<noteq> CHR 0x0A) s # split_lines rest)"
  by pat_completeness auto
termination
proof (relation "measure length", goal_cases)
  case (2 s nl rest)
  then show ?case using length_dropWhile_le [of "\<lambda>c. c \<noteq> CHR 0x0A" s] by simp
qed simp

declare split_lines.simps [simp del]

definition strip_cr :: "string \<Rightarrow> string" where
  "strip_cr l = (if l \<noteq> [] \<and> last l = CHR 0x0D then butlast l else l)"

definition trim_blanks :: "string \<Rightarrow> string" where
  "trim_blanks s = rev (dropWhile is_blank (rev (dropWhile is_blank s)))"

definition occurrences :: "char \<Rightarrow> string \<Rightarrow> nat" where
  "occurrences c s = length (filter (\<lambda>d. d = c) s)"

definition before :: "char \<Rightarrow> string \<Rightarrow> string" where
  "before c s = takeWhile (\<lambda>d. d \<noteq> c) s"

definition after :: "char \<Rightarrow> string \<Rightarrow> string" where
  "after c s = tl (dropWhile (\<lambda>d. d \<noteq> c) s)"

text \<open>What a trimmed line means: \<open>target = source\<close> or \<open>source TAB target\<close>, with one separator.\<close>

definition line_meaning :: "string \<Rightarrow> assign_detail + string \<times> string" where
  "line_meaning l =
     (let sides = (if occurrences (CHR ''='') l = 1 \<and> occurrences (CHR 0x09) l = 0
            then Some (trim_blanks (after (CHR ''='') l), trim_blanks (before (CHR ''='') l))
            else if occurrences (CHR ''='') l = 0 \<and> occurrences (CHR 0x09) l = 1
            then Some (trim_blanks (before (CHR 0x09) l), trim_blanks (after (CHR 0x09) l))
            else None)
      in case sides of
          None \<Rightarrow> Inl detail_separator
        | Some (source, target) \<Rightarrow> if source = [] \<or> target = [] then Inl detail_empty else Inr (source, target))"

text \<open>The pairs of a list of lines up to the first bad one, and what is wrong with that one, where.\<close>

fun assign_spec :: "nat \<Rightarrow> string list \<Rightarrow> (assign_detail \<times> nat \<times> nat) option \<times> (string \<times> string) list" where
  "assign_spec off [] = (None, [])"
| "assign_spec off (l # ls) =
     (let line = trim_blanks (strip_cr l)
      in if line = [] then assign_spec (off + length l + 1) ls
         else case line_meaning line of
             Inl d \<Rightarrow> (Some (d, off, length (strip_cr l)), [])
           | Inr p \<Rightarrow> (case assign_spec (off + length l + 1) ls of (e, ps) \<Rightarrow> (e, p # ps)))"

lemma trim_front_drop: "trim_front s = dropWhile is_blank s"
  by (induction s) simp_all

lemma trim_back_rev: "trim_back s = rev (dropWhile is_blank (rev s))"
proof (induction s rule: trim_back.induct)
  case (1 s)
  show ?case
  proof (cases s rule: rev_cases)
    case Nil
    then show ?thesis by (subst trim_back.simps) simp
  next
    case (snoc xs x)
    then show ?thesis using 1 by (subst trim_back.simps) auto
  qed
qed

lemma trim_assign_text_blanks: "trim_assign_text s = trim_blanks s"
  by (simp add: trim_assign_text_def trim_blanks_def trim_front_drop trim_back_rev)

lemma str_find_drop:
  "str_find c s pos =
     (if c \<in> set (drop pos s) then Some (pos + length (takeWhile (\<lambda>d. d \<noteq> c) (drop pos s))) else None)"
proof (induction c s pos rule: str_find.induct)
  case (1 c s pos)
  show ?case
  proof (cases "pos < length s")
    case True
    then have "drop pos s = s ! pos # drop (pos + 1) s" by (simp add: Cons_nth_drop_Suc)
    then show ?thesis using 1 True by (subst str_find.simps) auto
  next
    case False
    then show ?thesis by (subst str_find.simps) simp
  qed
qed

lemma occurrences_zero: "occurrences c s = 0 \<longleftrightarrow> c \<notin> set s"
  by (auto simp: occurrences_def filter_empty_conv)

lemma find_first:
  assumes "str_find c s 0 = Some i"
  shows "take i s = before c s" "drop (i + 1) s = after c s"
    "str_find c s (i + 1) = None \<longleftrightarrow> occurrences c s = 1"
proof -
  have i: "c \<in> set s" "i = length (takeWhile (\<lambda>d. d \<noteq> c) s)" using assms by (auto simp: str_find_drop split: if_splits)
  obtain rest where rest: "dropWhile (\<lambda>d. d \<noteq> c) s = c # rest"
    using i(1) hd_dropWhile [of "\<lambda>d. d \<noteq> c" s] by (cases "dropWhile (\<lambda>d. d \<noteq> c) s") (auto simp: dropWhile_eq_Nil_conv)
  have s: "s = takeWhile (\<lambda>d. d \<noteq> c) s @ c # rest" using takeWhile_dropWhile_id [of "\<lambda>d. d \<noteq> c" s] rest by simp
  have "drop i s = c # rest" using rest i(2) by (simp add: dropWhile_eq_drop)
  then have tl: "drop (i + 1) s = rest" by (metis drop_drop drop_Suc_Cons drop0 add.commute One_nat_def)
  show "take i s = before c s" using i(2) by (simp add: before_def takeWhile_eq_take [symmetric])
  show "drop (i + 1) s = after c s" using tl rest by (simp add: after_def)
  have "filter (\<lambda>d. d = c) (takeWhile (\<lambda>d. d \<noteq> c) s) = []" by (auto simp: filter_empty_conv dest: set_takeWhileD)
  then have "occurrences c s = 1 + occurrences c rest" unfolding occurrences_def by (subst s) simp
  then show "str_find c s (i + 1) = None \<longleftrightarrow> occurrences c s = 1"
    using tl occurrences_zero [of c rest] by (simp add: str_find_drop)
qed

lemma find_none: "str_find c s 0 = None \<longleftrightarrow> occurrences c s = 0"
  by (simp add: str_find_drop occurrences_zero)

lemma parse_assign_line_meaning: "parse_assign_line line = line_meaning line"
proof (cases "str_find (CHR ''='') line 0")
  case None
  then have eq: "occurrences (CHR ''='') line = 0" by (simp add: find_none)
  show ?thesis
  proof (cases "str_find (CHR 0x09) line 0")
    case None
    then have "occurrences (CHR 0x09) line = 0" by (simp add: find_none)
    then show ?thesis using None \<open>str_find (CHR ''='') line 0 = None\<close> eq
      by (simp add: parse_assign_line_def line_meaning_def)
  next
    case (Some t)
    then show ?thesis
      using \<open>str_find (CHR ''='') line 0 = None\<close> eq find_first [OF Some]
      by (simp add: parse_assign_line_def line_meaning_def trim_assign_text_blanks Let_def)
  qed
next
  case (Some e)
  have "occurrences (CHR ''='') line \<noteq> 0" using Some find_none [of "CHR ''=''" line] by auto
  then show ?thesis
    using Some find_first [OF Some] find_none [of "CHR 0x09" line]
    by (auto simp: parse_assign_line_def line_meaning_def trim_assign_text_blanks Let_def)
qed

section \<open>The loop follows the lines\<close>

lemma lines_last: "str_find (CHR 0x0A) content b = None \<Longrightarrow> split_lines (drop b content) = [drop b content]"
proof -
  assume "str_find (CHR 0x0A) content b = None"
  then have d: "dropWhile (\<lambda>c. c \<noteq> CHR 0x0A) (drop b content) = []"
    by (auto simp: str_find_drop dropWhile_eq_Nil_conv split: if_splits)
  show ?thesis by (subst split_lines.simps) (simp only: d list.case)
qed

lemma lines_next:
  assumes "str_find (CHR 0x0A) content b = Some n"
  shows "split_lines (drop b content) = text_slice content b (n - b) # split_lines (drop (n + 1) content)"
    "length (text_slice content b (n - b)) = n - b" "b \<le> n" "n < length content"
proof -
  let ?rest = "drop b content" and ?P = "\<lambda>c. c \<noteq> CHR 0x0A"
  have n: "n = b + length (takeWhile ?P ?rest)" "CHR 0x0A \<in> set ?rest" using assms by (auto simp: str_find_drop split: if_splits)
  show range: "b \<le> n" "n < length content" using str_find_range [OF assms] by simp_all
  have line: "text_slice content b (n - b) = takeWhile ?P ?rest"
    using n by (simp add: text_slice_def takeWhile_eq_take [symmetric])
  have "dropWhile ?P ?rest \<noteq> []" using n(2) by (auto simp: dropWhile_eq_Nil_conv)
  then obtain c tail where tail: "dropWhile ?P ?rest = c # tail" by (cases "dropWhile ?P ?rest") auto
  have "drop n content = c # tail" using tail n(1) by (simp add: dropWhile_eq_drop add.commute)
  then have "drop (n + 1) content = tail" by (metis drop_drop drop_Suc_Cons drop0 add.commute One_nat_def)
  then show "split_lines ?rest = text_slice content b (n - b) # split_lines (drop (n + 1) content)"
    using tail line by (subst split_lines.simps) simp
  show "length (text_slice content b (n - b)) = n - b" using line n(1) by simp
qed

lemma strip_cr_slice:
  assumes "b \<le> e" "e \<le> length content" "l = text_slice content b (e - b)"
    "p = (if e > b \<and> content ! (e - 1) = CHR 0x0D then e - 1 else e)"
  shows "text_slice content b (p - b) = strip_cr l \<and> length (strip_cr l) = p - b"
proof (cases "e > b")
  case True
  have len: "length l = e - b" using assms by (simp add: text_slice_def)
  then have ne: "l \<noteq> []" using True by auto
  have "last l = l ! (e - b - 1)" using len last_conv_nth [OF ne] by simp
  moreover have "l ! (e - b - 1) = content ! (e - 1)" using assms(1-3) True by (simp add: text_slice_def)
  ultimately have "last l = content ! (e - 1)" "l \<noteq> []" using ne by simp_all
  moreover have "butlast l = text_slice content b (e - 1 - b)"
    using assms True by (simp add: text_slice_def butlast_take diff_right_commute)
  moreover have "length l = e - b" using assms by (simp add: text_slice_def)
  ultimately show ?thesis using assms True by (auto simp: strip_cr_def text_slice_length)
next
  case False
  then show ?thesis using assms by (auto simp: strip_cr_def text_slice_def)
qed

text \<open>
  How a run relates to the meaning of the lines: complete, stopped at the first bad line, or stopped
  because the table refused a pair.
\<close>

definition assign_outcome ::
  "nat \<Rightarrow> (assign_detail \<times> nat \<times> nat) option \<times> (string \<times> string) list \<Rightarrow> (string \<times> string) list \<Rightarrow>
   assign_parse_failure option \<times> server_status \<times> assign_table \<Rightarrow> bool" where
  "assign_outcome file spec old result \<longleftrightarrow>
     (case (spec, result) of ((e, ps), (failure, status, t)) \<Rightarrow>
        assign_ok t \<and>
        (if status = success then e = None \<and> failure = None \<and> assign_pairs t = old @ ps
         else case failure of
             Some f \<Rightarrow>
               status = project_configuration_invalid \<and> assign_pairs t = old @ ps \<and>
               (\<exists>d off len. e = Some (d, off, len) \<and>
                  f = \<lparr>af_file = file, af_offset = of_nat off, af_length = of_nat len, af_detail = d\<rparr>)
           | None \<Rightarrow> \<exists>qs p rest. ps = qs @ p # rest \<and> assign_pairs t = old @ qs))"

lemma outcome_cons:
  assumes "assign_outcome file (e, ps) (old @ [p]) result"
  shows "assign_outcome file (e, p # ps) old result"
proof -
  obtain failure status t where r: "result = (failure, status, t)" by (cases result)
  show ?thesis
    using assms unfolding assign_outcome_def r
    by (auto split: option.splits if_splits)
qed

lemma parse_assign_step_line:
  assumes "b \<le> e" "e \<le> length content" "l = text_slice content b (e - b)" "e = (case newline of None \<Rightarrow> length content | Some n \<Rightarrow> n)"
  shows "parse_assign_step alloc file content b newline t =
     (let line = trim_blanks (strip_cr l)
      in if line = [] then Inr t
         else case line_meaning line of
             Inl detail \<Rightarrow>
               Inl (Some \<lparr>af_file = file, af_offset = of_nat b, af_length = of_nat (length (strip_cr l)), af_detail = detail\<rparr>,
                 project_configuration_invalid, t)
           | Inr (source, target) \<Rightarrow>
               (case assign_add (alloc b) source target t of
                  (status, t') \<Rightarrow> if succeeded status then Inr t' else Inl (None, status, t')))"
proof -
  define p where "p = (if e > b \<and> content ! (e - 1) = CHR 0x0D then e - 1 else e)"
  have len: "p - b = length (strip_cr l)" and slice: "text_slice content b (length (strip_cr l)) = strip_cr l"
    using strip_cr_slice [OF assms(1-3) p_def] by simp_all
  show ?thesis
    unfolding parse_assign_step_def assms(4) [symmetric] Let_def parse_assign_line_meaning trim_assign_text_blanks
      p_def [symmetric] len slice by (rule refl)
qed

lemma parse_assign_step_outcome:
  assumes "b \<le> e" "e \<le> length content" "l = text_slice content b (e - b)" "length l = e - b"
    "e = (case newline of None \<Rightarrow> length content | Some n \<Rightarrow> n)"
    and ok: "assign_ok t"
  shows "case parse_assign_step alloc file content b newline t of
      Inl r \<Rightarrow> assign_outcome file (assign_spec b (l # ls)) (assign_pairs t) r
    | Inr t' \<Rightarrow> assign_ok t' \<and>
        (\<forall>r. assign_outcome file (assign_spec (e + 1) ls) (assign_pairs t') r \<longrightarrow>
           assign_outcome file (assign_spec b (l # ls)) (assign_pairs t) r)"
proof -
  let ?line = "trim_blanks (strip_cr l)"
  have off: "b + length l + 1 = e + 1" using assms(1,4) by simp
  show ?thesis
  proof (cases "?line = []")
    case True
    then show ?thesis using parse_assign_step_line [OF assms(1-3,5)] ok off by simp
  next
    case False
    show ?thesis
    proof (cases "line_meaning ?line")
      case (Inl d)
      then show ?thesis
        using parse_assign_step_line [OF assms(1-3,5)] False ok by (simp add: assign_outcome_def Let_def)
    next
      case (Inr p)
      obtain src tgt where p: "p = (src, tgt)" by (cases p)
      obtain status t' where a: "assign_add (alloc b) src tgt t = (status, t')" by (cases "assign_add (alloc b) src tgt t")
      obtain e' ps where spec: "assign_spec (e + 1) ls = (e', ps)" by (cases "assign_spec (e + 1) ls")
      have full: "assign_spec b (l # ls) = (e', p # ps)"
        using False Inr spec off by (simp add: Let_def)
      note t' = assign_add_ok [OF ok a]
      show ?thesis
      proof (cases "status = success")
        case True
        then show ?thesis
          unfolding full spec using parse_assign_step_line [OF assms(1-3,5)] False Inr p a t' outcome_cons
          by (simp add: succeeded_def Let_def)
      next
        case no: False
        then show ?thesis
          unfolding full using parse_assign_step_line [OF assms(1-3,5)] False Inr p a t'
          by (auto simp: succeeded_def Let_def assign_outcome_def intro!: exI [of _ "[]"])
      qed
    qed
  qed
qed

lemma parse_assign_loop_outcome:
  "b \<le> length content \<Longrightarrow> assign_ok t \<Longrightarrow>
     assign_outcome file (assign_spec b (split_lines (drop b content))) (assign_pairs t) (parse_assign_loop alloc file content b t)"
proof (induction alloc "file" content b t rule: parse_assign_loop.induct)
  case (1 alloc "file" content b t)
  show ?case
  proof (cases "str_find (CHR 0x0A) content b")
    case None
    have "case parse_assign_step alloc file content b None t of
        Inl r \<Rightarrow> assign_outcome file (assign_spec b [drop b content]) (assign_pairs t) r
      | Inr t' \<Rightarrow> assign_ok t' \<and>
          (\<forall>r. assign_outcome file (assign_spec (length content + 1) []) (assign_pairs t') r \<longrightarrow>
             assign_outcome file (assign_spec b [drop b content]) (assign_pairs t) r)"
      by (rule parse_assign_step_outcome) (use 1 in \<open>simp_all add: text_slice_def\<close>)
    moreover have "assign_outcome file (assign_spec (length content + 1) []) (assign_pairs t') (None, success, t')"
      if "assign_ok t'" for t'
      using that by (simp add: assign_outcome_def)
    ultimately show ?thesis
      using 1(2) None lines_last [OF None]
      by (subst parse_assign_loop.simps) (cases "parse_assign_step alloc file content b None t", simp_all del: assign_spec.simps)
  next
    case (Some n)
    note nl = lines_next [OF Some]
    have step: "case parse_assign_step alloc file content b (Some n) t of
        Inl r \<Rightarrow> assign_outcome file (assign_spec b (split_lines (drop b content))) (assign_pairs t) r
      | Inr t' \<Rightarrow> assign_ok t' \<and>
          (\<forall>r. assign_outcome file (assign_spec (n + 1) (split_lines (drop (n + 1) content))) (assign_pairs t') r \<longrightarrow>
             assign_outcome file (assign_spec b (split_lines (drop b content))) (assign_pairs t) r)"
      unfolding nl(1) by (rule parse_assign_step_outcome) (use 1 nl in \<open>simp_all\<close>)
    show ?thesis
    proof (cases "parse_assign_step alloc file content b (Some n) t")
      case (Inl r)
      then show ?thesis using step Some 1(2) by (subst parse_assign_loop.simps) simp
    next
      case (Inr t')
      have "assign_outcome file (assign_spec (n + 1) (split_lines (drop (n + 1) content))) (assign_pairs t')
          (parse_assign_loop alloc file content (n + 1) t')"
        by (rule "1.IH") (use 1(2) Some Inr step nl in simp_all)
      then show ?thesis using step Some Inr 1(2) by (subst parse_assign_loop.simps) (simp del: split_paired_All)
    qed
  qed
qed

text \<open>The meaning of a raw line, blank lines included, and the pairs of the lines before the first bad one.\<close>

definition raw_meaning :: "string \<Rightarrow> assign_detail + (string \<times> string) list" where
  "raw_meaning l =
     (let line = trim_blanks (strip_cr l)
      in if line = [] then Inr []
         else case line_meaning line of Inl d \<Rightarrow> Inl d | Inr p \<Rightarrow> Inr [p])"

definition lines_pairs :: "string list \<Rightarrow> (string \<times> string) list" where
  "lines_pairs ls = concat (map (\<lambda>l. case raw_meaning l of Inl d \<Rightarrow> [] | Inr ps \<Rightarrow> ps) ls)"

definition line_offset :: "string list \<Rightarrow> nat \<Rightarrow> nat" where
  "line_offset ls i = sum_list (map (\<lambda>l. length l + 1) (take i ls))"

lemma assign_spec_raw:
  "assign_spec off (l # ls) =
     (case raw_meaning l of
        Inl d \<Rightarrow> (Some (d, off, length (strip_cr l)), [])
      | Inr ps \<Rightarrow> (case assign_spec (off + length l + 1) ls of (e, qs) \<Rightarrow> (e, ps @ qs)))"
  by (auto simp: raw_meaning_def Let_def split: sum.splits prod.splits)

declare assign_spec.simps(2) [simp del]

lemma assign_spec_none:
  "assign_spec off ls = (None, ps) \<Longrightarrow> ps = lines_pairs ls \<and> (\<forall>l \<in> set ls. \<not> isl (raw_meaning l))"
  by (induction ls arbitrary: off ps) (auto simp: assign_spec_raw lines_pairs_def split: sum.splits prod.splits)

lemma assign_spec_some:
  "assign_spec off ls = (Some (d, b, n), ps) \<Longrightarrow>
     \<exists>i < length ls. b = off + line_offset ls i \<and> n = length (strip_cr (ls ! i)) \<and> raw_meaning (ls ! i) = Inl d \<and>
       ps = lines_pairs (take i ls) \<and> (\<forall>k < i. \<not> isl (raw_meaning (ls ! k)))"
proof (induction ls arbitrary: off ps)
  case (Cons l ls)
  show ?case
  proof (cases "raw_meaning l")
    case (Inl d')
    then show ?thesis using Cons.prems by (intro exI [of _ 0]) (simp add: assign_spec_raw line_offset_def lines_pairs_def)
  next
    case (Inr qs)
    obtain rs where rs: "assign_spec (off + length l + 1) ls = (Some (d, b, n), rs)" "ps = qs @ rs"
      using Cons.prems Inr by (auto simp: assign_spec_raw split: prod.splits)
    obtain i where i: "i < length ls" "b = off + length l + 1 + line_offset ls i" "n = length (strip_cr (ls ! i))"
      "raw_meaning (ls ! i) = Inl d" "rs = lines_pairs (take i ls)" "\<forall>k < i. \<not> isl (raw_meaning (ls ! k))"
      using Cons.IH [OF rs(1)] by blast
    have good: "\<forall>k < Suc i. \<not> isl (raw_meaning ((l # ls) ! k))"
      using i(6) Inr by (auto simp: less_Suc_eq_0_disj)
    have pairs: "lines_pairs (take (Suc i) (l # ls)) = qs @ rs"
      using i(5) Inr by (simp add: lines_pairs_def)
    show ?thesis
      by (intro exI [of _ "Suc i"]) (use i rs good pairs in \<open>auto simp: line_offset_def\<close>)
  qed
qed simp

lemma split_lines_at:
  "i < length (split_lines s) \<Longrightarrow>
     line_offset (split_lines s) i + length (split_lines s ! i) \<le> length s \<and>
     text_slice s (line_offset (split_lines s) i) (length (split_lines s ! i)) = split_lines s ! i"
proof (induction s arbitrary: i rule: split_lines.induct)
  case (1 s)
  let ?P = "\<lambda>c. c \<noteq> CHR 0x0A"
  show ?case
  proof (cases "dropWhile ?P s")
    case Nil
    have "split_lines s = [s]" by (subst split_lines.simps) (simp only: Nil list.case)
    then show ?thesis using "1.prems" by (simp add: line_offset_def text_slice_def)
  next
    case (Cons nl rest)
    have lines: "split_lines s = takeWhile ?P s # split_lines rest"
      by (subst split_lines.simps) (simp only: Cons list.case)
    have s: "s = takeWhile ?P s @ nl # rest" using takeWhile_dropWhile_id [of ?P s] Cons by simp
    show ?thesis
    proof (cases i)
      case 0
      have "text_slice s 0 (length (takeWhile ?P s)) = takeWhile ?P s"
        by (simp add: text_slice_def takeWhile_eq_take [symmetric])
      then show ?thesis using 0 lines length_takeWhile_le [of ?P s] by (simp add: line_offset_def)
    next
      case (Suc k)
      have k: "k < length (split_lines rest)" using "1.prems" Suc lines by simp
      have off: "line_offset (split_lines s) i = length (takeWhile ?P s @ [nl]) + line_offset (split_lines rest) k"
        using Suc lines by (simp add: line_offset_def)
      have at: "split_lines s ! i = split_lines rest ! k" using Suc lines by simp
      have "text_slice s (length (takeWhile ?P s @ [nl]) + o') n = text_slice rest o' n" for o' n
        by (subst s) (simp add: text_slice_def)
      moreover have "length s = length (takeWhile ?P s @ [nl]) + length rest" by (subst s) simp
      ultimately show ?thesis using "1.IH" [OF Cons k] off at by (simp del: length_append)
    qed
  qed
qed

lemma strip_cr_prefix: "text_slice s b (length l) = l \<Longrightarrow> text_slice s b (length (strip_cr l)) = strip_cr l"
proof -
  assume a: "text_slice s b (length l) = l"
  have p: "strip_cr l = take (length (strip_cr l)) l" by (auto simp: strip_cr_def butlast_conv_take)
  have len: "length (strip_cr l) \<le> length l" by (simp add: strip_cr_def)
  have "text_slice s b (length (strip_cr l)) = take (length (strip_cr l)) (text_slice s b (length l))"
    using len by (simp add: text_slice_def min_def)
  then show ?thesis using a p by simp
qed

section \<open>Properties\<close>

text \<open>
  The table is the list of the pairs added to it: on a well-formed table \<open>add\<close> either
  succeeds, keeps it well formed and appends exactly the given source and target, every earlier
  record reading back unchanged, or refuses and changes nothing; it refuses only empty texts, an arena
  beyond 32 bits or a failed allocation.
\<close>

theorem assign_add_refines_pairs:
  assumes "assign_ok t" "assign_add alloc source target t = (status, t')"
  shows "assign_ok t' \<and>
    (if status = success then assign_pairs t' = assign_pairs t @ [(source, target)] else t' = t) \<and>
    (status = success \<longleftrightarrow> source \<noteq> [] \<and> target \<noteq> [] \<and> alloc \<and>
       length (at_bytes t) + length source + length target \<le> uint32_max)"
proof -
  have "status = success \<longleftrightarrow> source \<noteq> [] \<and> target \<noteq> [] \<and> alloc \<and>
       length (at_bytes t) + length source + length target \<le> uint32_max"
    using assms(2) by (auto simp: assign_add_def split: if_splits)
  then show ?thesis using assign_add_ok [OF assms] by simp
qed

lemma assign_clear_ok: "assign_ok assign_clear"
  by (simp add: assign_ok_def assign_clear_def)

theorem assign_add_refines_pairs_witness:
  "\<exists>t'. assign_add True ''src'' ''dst'' assign_clear = (success, t') \<and> assign_pairs t' = [(''src'', ''dst'')]"
proof -
  obtain status t' where a: "assign_add True ''src'' ''dst'' assign_clear = (status, t')"
    by (cases "assign_add True ''src'' ''dst'' assign_clear")
  then show ?thesis
    using assign_add_refines_pairs [OF assign_clear_ok a]
    by (auto simp: assign_clear_def assign_pairs_def split: if_splits)
qed

lemma parse_assign_files_pairs:
  assumes "parse_assign_files alloc file files t = (failure, success, t')" "assign_ok t"
  shows "assign_ok t' \<and> failure = None \<and> (\<forall>f \<in> set files. fst f \<longrightarrow> snd f \<noteq> None) \<and>
    assign_pairs t' = assign_pairs t @ concat (map (lines_pairs \<circ> split_lines \<circ> the \<circ> snd) (filter fst files))"
  using assms
proof (induction files arbitrary: "file" t)
  case (Cons fl files)
  obtain is_assign content where fl: "fl = (is_assign, content)" by (cases fl)
  show ?case
  proof (cases "is_assign \<and> content \<noteq> None")
    case True
    then obtain s where s: "content = Some s" by auto
    obtain f1 st1 t1 where p: "parse_assign_file (alloc file) file s t = (f1, st1, t1)"
      by (cases "parse_assign_file (alloc file) file s t")
    have ok: "st1 = success" and rest: "parse_assign_files alloc (file + 1) files t1 = (failure, success, t')"
      using Cons.prems(1) True s p fl by (auto simp: succeeded_def split: if_splits)
    have "assign_outcome file (assign_spec 0 (split_lines s)) (assign_pairs t) (f1, st1, t1)"
      using parse_assign_loop_outcome [of 0 s t "file" "alloc file"] Cons.prems(2) p by (simp add: parse_assign_file_def)
    then have t1: "assign_ok t1" "assign_pairs t1 = assign_pairs t @ lines_pairs (split_lines s)"
      using ok assign_spec_none by (auto simp: assign_outcome_def split: prod.splits)
    show ?thesis using Cons.IH [OF rest t1(1)] True t1(2) s fl by simp
  next
    case False
    then have "\<not> is_assign" "parse_assign_files alloc (file + 1) files t = (failure, success, t')"
      using Cons.prems(1) fl by (auto split: if_splits)
    then show ?thesis using Cons.IH Cons.prems(2) fl by simp
  qed
qed simp



text \<open>
  \<^bold>\<open>C34.\<close> A recorded parse failure points at the first bad line: the extent is that line without
  its line end, the detail is what is wrong with it, every line before it is good, and the table
  holds exactly the pairs of those lines.
\<close>

theorem parse_assign_failure_line:
  assumes "parse_assign_file alloc file content t = (Some f, status, t')" "assign_ok t" "length content \<le> uint32_max"
  shows "status = project_configuration_invalid \<and> af_file f = file \<and>
    (\<exists>i < length (split_lines content).
       text_slice content (unat (af_offset f)) (unat (af_length f)) = strip_cr (split_lines content ! i) \<and>
       raw_meaning (split_lines content ! i) = Inl (af_detail f) \<and>
       (\<forall>k < i. \<not> isl (raw_meaning (split_lines content ! k))) \<and>
       assign_pairs t' = assign_pairs t @ lines_pairs (take i (split_lines content)))"
proof -
  let ?ls = "split_lines content"
  have "assign_outcome file (assign_spec 0 ?ls) (assign_pairs t) (Some f, status, t')"
    using parse_assign_loop_outcome [of 0 content t "file" alloc] assms(1,2) by (simp add: parse_assign_file_def)
  then obtain d b n ps where o: "assign_spec 0 ?ls = (Some (d, b, n), ps)" "status = project_configuration_invalid"
    "f = \<lparr>af_file = file, af_offset = of_nat b, af_length = of_nat n, af_detail = d\<rparr>" "assign_pairs t' = assign_pairs t @ ps"
    by (auto simp: assign_outcome_def split: prod.splits if_splits)
  obtain i where i: "i < length ?ls" "b = line_offset ?ls i" "n = length (strip_cr (?ls ! i))" "raw_meaning (?ls ! i) = Inl d"
    "ps = lines_pairs (take i ?ls)" "\<forall>k < i. \<not> isl (raw_meaning (?ls ! k))"
    using assign_spec_some [OF o(1)] by auto
  have at: "b + length (?ls ! i) \<le> length content" "text_slice content b (length (?ls ! i)) = ?ls ! i"
    using split_lines_at [OF i(1)] i(2) by simp_all
  have "n \<le> length (?ls ! i)" using i(3) by (simp add: strip_cr_def)
  then have "unat (af_offset f) = b" "unat (af_length f) = n"
    using o(3) at(1) assms(3) by (simp_all add: unat_of_nat_u32)
  then show ?thesis using o i strip_cr_prefix [OF at(2)] by auto
qed

theorem parse_assign_failure_line_witness:
  "\<exists>f t'. parse_assign_file (\<lambda>l. True) 1 ''a=b=c'' assign_clear = (Some f, project_configuration_invalid, t') \<and> af_file f = 1"
proof -
  obtain failure status t' where r: "parse_assign_file (\<lambda>l. True) 1 ''a=b=c'' assign_clear = (failure, status, t')"
    by (cases "parse_assign_file (\<lambda>l. True) 1 ''a=b=c'' assign_clear")
  have "fst (parse_assign_file (\<lambda>l. True) 1 ''a=b=c'' assign_clear) \<noteq> None"
    by (simp add: parse_assign_file_def parse_assign_loop.simps parse_assign_step_def str_find.simps
        trim_assign_text_def trim_back.simps parse_assign_line_def text_slice_def)
  then obtain f where f: "failure = Some f" using r by auto
  show ?thesis using parse_assign_failure_line [OF r [unfolded f] assign_clear_ok] r f by auto
qed

end
