(* ===== verification/Graph_View.thy ===== *)
theory Graph_View
  imports Compiled_View
begin

text \<open>
  The graph queries of \<^verbatim>\<open>compiled_project_view\<close>
  (\<^verbatim>\<open>server_engine/project/persistence/compiled_project.cpp\<close>) on the bytes of the graph sections:
  types, bases, members, derived types, objects, endpoint paths, links and assigns, with the
  value types of \<^verbatim>\<open>server_engine/project/graph\<close> they return. A query that returns false is
  \<open>None\<close>; enumerations read from bytes keep the byte, since the image may hold any value. The three
  hashed look-ups are sound on every image.
\<close>

type_synonym u16 = "16 word"
type_synonym type_ref = u32
type_synonym type_handle = u32
type_synonym object_handle = u32
type_synonym link_handle = u32
type_synonym member_index = u32
type_synonym endpoint_ref = u32

section \<open>Graph values\<close>

datatype type_ref_kind = type_ref_invalid | type_ref_intrinsic | type_ref_named | type_ref_derived

datatype intrinsic_type =
    none | void_type | bool_type | char_type | signed_char | unsigned_char | wchar_type | char8_type
  | char16_type | char32_type | signed_short | unsigned_short | signed_int | unsigned_int | signed_long
  | unsigned_long | signed_long_long | unsigned_long_long | float_type | double_type
  | long_double_type | nullptr_type

text \<open>The enumerators in the order of their values.\<close>

definition intrinsic_types :: "intrinsic_type list" where
  "intrinsic_types =
     [none, void_type, bool_type, char_type, signed_char, unsigned_char, wchar_type, char8_type,
      char16_type, char32_type, signed_short, unsigned_short, signed_int, unsigned_int, signed_long,
      unsigned_long, signed_long_long, unsigned_long_long, float_type, double_type,
      long_double_type, nullptr_type]"

definition intrinsic_of :: "nat \<Rightarrow> intrinsic_type" where
  "intrinsic_of n = intrinsic_types ! n"

definition maximum_payload :: u32 where "maximum_payload = 0x3fffffff"

definition type_ref_kind_of :: "u32 \<Rightarrow> type_ref_kind" where
  "type_ref_kind_of raw =
     (if raw = 1 then type_ref_intrinsic else if raw = 2 then type_ref_named
      else if raw = 3 then type_ref_derived else type_ref_invalid)"

definition tr_kind :: "type_ref \<Rightarrow> type_ref_kind" where
  "tr_kind t = type_ref_kind_of (drop_bit 30 t)"

definition tr_payload :: "type_ref \<Rightarrow> u32" where
  "tr_payload t = t AND maximum_payload"

definition tr_valid :: "type_ref \<Rightarrow> bool" where
  "tr_valid t \<longleftrightarrow> tr_kind t \<noteq> type_ref_invalid \<and> tr_payload t \<noteq> 0"

definition tr_make :: "u32 \<Rightarrow> u32 \<Rightarrow> type_ref" where
  "tr_make kind payload =
     (if kind \<noteq> 0 \<and> payload \<noteq> 0 \<and> payload \<le> maximum_payload then push_bit 30 kind OR payload else 0)"

record graph_range =
  gr_begin :: u32
  gr_count :: u32

record type_entry =
  te_members :: graph_range
  te_bases :: graph_range
  te_kind :: u8
  te_record_kind :: u8
  te_flags :: u16

definition graph_type_kind_record :: u8 where "graph_type_kind_record = 1"
definition struct_type :: u8 where "struct_type = 1"
definition class_type :: u8 where "class_type = 2"
definition union_type :: u8 where "union_type = 3"

definition te_defined :: "type_entry \<Rightarrow> bool" where
  "te_defined t \<longleftrightarrow> te_flags t AND 1 \<noteq> 0"

definition te_polymorphic :: "type_entry \<Rightarrow> bool" where
  "te_polymorphic t \<longleftrightarrow> te_flags t AND 2 \<noteq> 0"

record base_record =
  br_type :: type_handle
  br_access :: u8
  br_flags :: u8
  br_reserved :: u16

definition br_virtual_base :: "base_record \<Rightarrow> bool" where
  "br_virtual_base b \<longleftrightarrow> br_flags b AND 1 \<noteq> 0"

record member_record =
  mr_name :: u32
  mr_type :: type_ref
  mr_access :: u8

record derived_type_record =
  dr_payload :: u64
  dr_child :: type_ref
  dr_kind :: u8

record object_entry =
  oe_type :: type_ref
  oe_state :: u32

definition oe_non_default_initializer :: "object_entry \<Rightarrow> bool" where
  "oe_non_default_initializer e \<longleftrightarrow> oe_state e AND 0x40000000 \<noteq> 0"

definition oe_internal_static :: "object_entry \<Rightarrow> bool" where
  "oe_internal_static e \<longleftrightarrow> oe_state e AND 0x80000000 \<noteq> 0"

definition oe_construction_slot :: "object_entry \<Rightarrow> u32" where
  "oe_construction_slot e = oe_state e AND 0x3fffffff"

record construction_value =
  cv_low :: u32
  cv_high :: u32
  cv_operand :: u32
  cv_kind :: u32

definition cv_bits :: "construction_value \<Rightarrow> u64" where
  "cv_bits c = ucast (cv_low c) OR push_bit 32 (ucast (cv_high c))"

text \<open>The kinds, in the order of the enumeration: zero, signed integer, unsigned integer, real, member
  binding, object binding, unsupported.\<close>

definition valid_construction :: "construction_value \<Rightarrow> bool" where
  "valid_construction c \<longleftrightarrow>
     (if cv_kind c = 0 \<or> cv_kind c = 6 then cv_bits c = 0 \<and> cv_operand c = 0
      else if cv_kind c = 4 \<or> cv_kind c = 5 then cv_bits c = 0 \<and> cv_operand c \<noteq> 0
      else if cv_kind c = 1 \<or> cv_kind c = 2 \<or> cv_kind c = 3 then cv_operand c = 0
      else False)"

definition empty_construction :: construction_value where
  "empty_construction = \<lparr>cv_low = 0, cv_high = 0, cv_operand = 0, cv_kind = 0\<rparr>"

record endpoint_path_step =
  eps_value :: u64
  eps_kind :: u8

record endpoint_path_record =
  epr_steps :: graph_range
  epr_root_type :: type_ref
  epr_value_type :: type_ref

definition er_is_member :: "endpoint_ref \<Rightarrow> bool" where
  "er_is_member r \<longleftrightarrow> r AND 0xc0000000 = 0"

definition er_is_path :: "endpoint_ref \<Rightarrow> bool" where
  "er_is_path r \<longleftrightarrow> r AND 0xc0000000 = 0x40000000 \<and> r AND 0x3fffffff \<noteq> 0"

definition er_valid :: "endpoint_ref \<Rightarrow> bool" where
  "er_valid r \<longleftrightarrow> er_is_member r \<or> er_is_path r"

definition er_from_raw :: "u32 \<Rightarrow> endpoint_ref" where
  "er_from_raw raw = (if er_valid raw then raw else 0xffffffff)"

definition er_path :: "endpoint_ref \<Rightarrow> u32" where
  "er_path r = (if er_is_path r then r AND 0x3fffffff else 0)"

text \<open>The converting constructor from a member index.\<close>

definition er_of_member :: "member_index \<Rightarrow> endpoint_ref" where
  "er_of_member m = (if m \<noteq> 0xffffffff \<and> m \<le> 0x3fffffff then m else 0xffffffff)"

record object_endpoint =
  ep_object :: object_handle
  ep_member :: endpoint_ref

record link_record =
  lr_source :: object_endpoint
  lr_target :: object_endpoint

section \<open>Reads, hashes and raw handles\<close>

definition type_record_size :: nat where "type_record_size = 20"
definition type_identity_size :: nat where "type_identity_size = 4"
definition base_record_size :: nat where "base_record_size = 8"
definition member_record_size :: nat where "member_record_size = 12"
definition construction_record_size :: nat where "construction_record_size = 16"
definition derived_record_size :: nat where "derived_record_size = 16"
definition object_record_size :: nat where "object_record_size = 8"
definition object_identity_size :: nat where "object_identity_size = 4"
definition link_record_size :: nat where "link_record_size = 16"
definition endpoint_path_record_size :: nat where "endpoint_path_record_size = 16"
definition endpoint_path_step_record_size :: nat where "endpoint_path_step_record_size = 16"
definition graph_identity_record_size :: nat where "graph_identity_record_size = 4"
definition assign_record_size :: nat where "assign_record_size = 16"

lemmas record_sizes = type_record_size_def type_identity_size_def base_record_size_def
  member_record_size_def construction_record_size_def derived_record_size_def object_record_size_def
  object_identity_size_def link_record_size_def endpoint_path_record_size_def
  endpoint_path_step_record_size_def graph_identity_record_size_def assign_record_size_def

definition read_u16 :: "u8 list \<Rightarrow> nat \<Rightarrow> u16" where
  "read_u16 source off = ucast (source ! off) OR push_bit 8 (ucast (source ! (off + 1)))"

definition read_u64 :: "u8 list \<Rightarrow> nat \<Rightarrow> u64" where
  "read_u64 source off =
     foldl (\<lambda>value i. value OR push_bit (i * 8) (ucast (source ! (off + i)))) 0 [0..<8]"

definition zero_bytes :: "u8 list \<Rightarrow> nat \<Rightarrow> nat \<Rightarrow> bool" where
  "zero_bytes data off n \<longleftrightarrow> (\<forall>i\<in>set [0..<n]. data ! (off + i) = 0)"

definition member_hash :: "type_handle \<Rightarrow> u32 \<Rightarrow> u64" where
  "member_hash t name = mix64 (push_bit 32 (ucast t) OR ucast name)"

definition fnv64_mix :: "u64 \<Rightarrow> u64 \<Rightarrow> u64" where
  "fnv64_mix hash v =
     fst (foldl (\<lambda>(hash, v) i. ((hash XOR (v AND 0xff)) * 1099511628211, drop_bit 8 v)) (hash, v) [0..<8::nat])"

definition derived_hash :: "type_ref \<Rightarrow> u8 \<Rightarrow> u64 \<Rightarrow> u64" where
  "derived_hash child kind payload =
     (let hash = fnv64_mix (fnv64_mix (fnv64_mix 1469598103934665603 (ucast child)) (ucast kind)) payload
      in if hash = 0 then 1 else hash)"

definition link_target_hash :: "object_endpoint \<Rightarrow> u64" where
  "link_target_hash target =
     mix64 (push_bit 32 (ucast (ep_object target)) OR (ucast (ep_member target) + 1))"

definition valid_member_access :: "u8 \<Rightarrow> bool" where
  "valid_member_access access \<longleftrightarrow> access = 1 \<or> access = 2 \<or> access = 3"

definition valid_derived_kind :: "u8 \<Rightarrow> bool" where
  "valid_derived_kind kind \<longleftrightarrow> kind \<le> 6"

definition graph_location_kind :: "u32 \<Rightarrow> u32" where
  "graph_location_kind raw = drop_bit 30 raw"

definition graph_location_slot :: "u32 \<Rightarrow> u32" where
  "graph_location_slot raw = raw AND maximum_payload"

definition type_from_raw :: "compiled_project_view \<Rightarrow> u32 \<Rightarrow> type_handle" where
  "type_from_raw v raw = (if raw \<noteq> 0 \<and> unat raw \<le> type_count_value v then raw else 0)"

definition object_from_raw :: "compiled_project_view \<Rightarrow> u32 \<Rightarrow> object_handle" where
  "object_from_raw v raw = (if raw \<noteq> 0 \<and> unat raw \<le> object_count_value v then raw else 0)"

definition link_from_raw :: "compiled_project_view \<Rightarrow> u32 \<Rightarrow> link_handle" where
  "link_from_raw v raw = (if raw \<noteq> 0 \<and> unat raw \<le> link_count_value v then raw else 0)"

definition type_ref_from_raw :: "compiled_project_view \<Rightarrow> u32 \<Rightarrow> type_ref" where
  "type_ref_from_raw v raw =
     (let payload = raw AND maximum_payload
      in if payload = 0 then 0
         else case type_ref_kind_of (drop_bit 30 raw) of
             type_ref_intrinsic \<Rightarrow> if payload > 21 then 0 else raw
           | type_ref_named \<Rightarrow> if unat payload > type_count_value v then 0 else raw
           | type_ref_derived \<Rightarrow> if unat payload > sec_count (derived_types_section v) then 0 else raw
           | type_ref_invalid \<Rightarrow> 0)"

section \<open>Types, bases and members\<close>

definition view_type_at :: "compiled_project_view \<Rightarrow> nat \<Rightarrow> type_handle" where
  "view_type_at v index = (if index < type_count_value v then of_nat (index + 1) else 0)"

definition view_type :: "compiled_project_view \<Rightarrow> type_handle \<Rightarrow> type_entry option" where
  "view_type v handle =
     (if handle = 0 \<or> unat handle > type_count_value v then None
      else
        let data = sec_data (types_section v); record = unat (handle - 1) * type_record_size
        in Some \<lparr>te_members = \<lparr>gr_begin = read_u32 data record, gr_count = read_u32 data (record + 4)\<rparr>,
                 te_bases = \<lparr>gr_begin = read_u32 data (record + 8), gr_count = read_u32 data (record + 12)\<rparr>,
                 te_kind = data ! (record + 16), te_record_kind = data ! (record + 17),
                 te_flags = read_u16 data (record + 18)\<rparr>)"

definition view_type_identity :: "compiled_project_view \<Rightarrow> type_handle \<Rightarrow> identity_ref" where
  "view_type_identity v handle =
     (if handle = 0 \<or> unat handle > type_count_value v then 0
      else identity_from_raw v
        (read_u32 (sec_data (type_identities_section v)) (unat (handle - 1) * type_identity_size)))"

definition view_base_at :: "compiled_project_view \<Rightarrow> nat \<Rightarrow> base_record option" where
  "view_base_at v index =
     (if index \<ge> sec_count (bases_section v) then None
      else
        let data = sec_data (bases_section v); record = index * base_record_size;
            base = \<lparr>br_type = type_from_raw v (read_u32 data record), br_access = data ! (record + 4),
                    br_flags = data ! (record + 5), br_reserved = read_u16 data (record + 6)\<rparr>
        in if br_type base \<noteq> 0 \<and> valid_member_access (br_access base) \<and>
              br_flags base AND NOT 1 = 0 \<and> br_reserved base = 0
           then Some base else None)"

definition view_graph_location :: "compiled_project_view \<Rightarrow> identity_ref \<Rightarrow> u32" where
  "view_graph_location v r =
     read_u32 (sec_data (graph_identity_index_section v)) (unat (ref_slot r) * graph_identity_record_size)"

definition view_find_type :: "compiled_project_view \<Rightarrow> identity_ref \<Rightarrow> type_handle" where
  "view_find_type v r =
     (if \<not> identity_valid v r \<or> unat (ref_slot r) > identity_count_value v then 0
      else if graph_location_kind (view_graph_location v r) \<noteq> 1 then 0
      else type_from_raw v (graph_location_slot (view_graph_location v r)))"

definition view_member_record :: "compiled_project_view \<Rightarrow> nat \<Rightarrow> member_record" where
  "view_member_record v index =
     (let data = sec_data (members_section v); record = index * member_record_size
      in \<lparr>mr_name = string_from_raw v (read_u32 data record),
          mr_type = type_ref_from_raw v (read_u32 data (record + 4)), mr_access = data ! (record + 8)\<rparr>)"

definition view_member :: "compiled_project_view \<Rightarrow> type_handle \<Rightarrow> member_index \<Rightarrow> member_record option" where
  "view_member v t m =
     (case view_type v t of
        None \<Rightarrow> None
      | Some entry \<Rightarrow>
          if \<not> te_defined entry \<or> m = 0xffffffff \<or> m \<ge> gr_count (te_members entry) then None
          else
            let global = unat (gr_begin (te_members entry)) + unat m
            in if global \<ge> sec_count (members_section v) then None
               else
                 let member = view_member_record v global
                 in if mr_name member \<noteq> 0 \<and> tr_valid (mr_type member) \<and>
                       zero_bytes (sec_data (members_section v)) (global * member_record_size + 9) 3
                    then Some member else None)"

definition view_member_at :: "compiled_project_view \<Rightarrow> nat \<Rightarrow> member_record option" where
  "view_member_at v index =
     (if index \<ge> sec_count (members_section v) then None
      else
        let member = view_member_record v index
        in if mr_name member \<noteq> 0 \<and> tr_valid (mr_type member) \<and> valid_member_access (mr_access member) \<and>
              zero_bytes (sec_data (members_section v)) (index * member_record_size + 9) 3
           then Some member else None)"

definition read_construction :: "u8 list \<Rightarrow> nat \<Rightarrow> construction_value" where
  "read_construction data record =
     \<lparr>cv_low = read_u32 data record, cv_high = read_u32 data (record + 4),
      cv_operand = read_u32 data (record + 8), cv_kind = read_u32 data (record + 12)\<rparr>"

definition view_construction_at :: "compiled_project_view \<Rightarrow> nat \<Rightarrow> construction_value option" where
  "view_construction_at v index =
     (if index \<ge> sec_count (member_construction_section v) then None
      else
        let c = read_construction (sec_data (member_construction_section v)) (index * construction_record_size)
        in if valid_construction c then Some c else None)"

definition view_member_construction ::
    "compiled_project_view \<Rightarrow> type_handle \<Rightarrow> member_index \<Rightarrow> construction_value option" where
  "view_member_construction v t m =
     (case view_type v t of
        None \<Rightarrow> None
      | Some entry \<Rightarrow>
          if \<not> te_defined entry \<or> m = 0xffffffff \<or> m \<ge> gr_count (te_members entry) then None
          else view_construction_at v (unat (gr_begin (te_members entry)) + unat m))"

definition view_find_member :: "compiled_project_view \<Rightarrow> type_handle \<Rightarrow> u32 \<Rightarrow> member_index" where
  "view_find_member v t name =
     (if string_from_raw v name = 0 then 0xffffffff
      else case view_type v t of
          None \<Rightarrow> 0xffffffff
        | Some entry \<Rightarrow>
            if \<not> te_defined entry then 0xffffffff
            else
              let index = member_name_index_section v; count = sec_count index
              in if count = 0 \<or> count AND (count - 1) \<noteq> 0 then 0xffffffff
                 else
                   let hash = member_hash t name;
                       first = unat (gr_begin (te_members entry));
                       last = first + unat (gr_count (te_members entry));
                       raw = (\<lambda>p. read_u32 (sec_data index) (p * index_record_size + 4))
                   in case probe_find (\<lambda>p. raw p \<noteq> 0)
                        (\<lambda>p. read_u32 (sec_data index) (p * index_record_size) = identity_fingerprint hash \<and>
                           first \<le> unat (raw p - 1) \<and> unat (raw p - 1) < last \<and>
                           (case view_member_at v (unat (raw p - 1)) of
                              None \<Rightarrow> False | Some member \<Rightarrow> mr_name member = name))
                        (count - 1) (unat hash AND (count - 1)) count of
                      None \<Rightarrow> 0xffffffff
                    | Some p \<Rightarrow> of_nat (unat (raw p - 1) - first))"

section \<open>Derived types and objects\<close>

definition view_derived :: "compiled_project_view \<Rightarrow> type_ref \<Rightarrow> derived_type_record option" where
  "view_derived v t =
     (if \<not> tr_valid t \<or> tr_kind t \<noteq> type_ref_derived then None
      else if tr_payload t = 0 \<or> unat (tr_payload t) > sec_count (derived_types_section v) then None
      else
        let data = sec_data (derived_types_section v);
            record = unat (tr_payload t - 1) * derived_record_size;
            derived = \<lparr>dr_payload = read_u64 data record,
                       dr_child = type_ref_from_raw v (read_u32 data (record + 8)),
                       dr_kind = data ! (record + 12)\<rparr>
        in if tr_valid (dr_child derived) \<and> valid_derived_kind (dr_kind derived) \<and>
              zero_bytes data (record + 13) 3
           then Some derived else None)"

definition view_find_derived :: "compiled_project_view \<Rightarrow> type_ref \<Rightarrow> u8 \<Rightarrow> u64 \<Rightarrow> type_ref" where
  "view_find_derived v child kind payload =
     (if \<not> tr_valid (type_ref_from_raw v child) \<or> \<not> valid_derived_kind kind then 0
      else
        let index = derived_index_section v; count = sec_count index
        in if count = 0 \<or> count AND (count - 1) \<noteq> 0 then 0
           else
             let hash = derived_hash child kind payload;
                 raw = (\<lambda>p. read_u32 (sec_data index) (p * index_record_size + 4))
             in case probe_find (\<lambda>p. raw p \<noteq> 0)
                  (\<lambda>p. read_u32 (sec_data index) (p * index_record_size) = identity_fingerprint hash \<and>
                     (let candidate = type_ref_from_raw v (raw p)
                      in tr_kind candidate = type_ref_derived \<and>
                         (case view_derived v candidate of
                            None \<Rightarrow> False
                          | Some d \<Rightarrow> dr_child d = child \<and> dr_kind d = kind \<and> dr_payload d = payload)))
                  (count - 1) (unat hash AND (count - 1)) count of
                None \<Rightarrow> 0
              | Some p \<Rightarrow> type_ref_from_raw v (raw p))"

definition view_object_at :: "compiled_project_view \<Rightarrow> nat \<Rightarrow> object_handle" where
  "view_object_at v index = (if index < object_count_value v then of_nat (index + 1) else 0)"

definition view_object :: "compiled_project_view \<Rightarrow> object_handle \<Rightarrow> object_entry option" where
  "view_object v handle =
     (if handle = 0 \<or> unat handle > object_count_value v then None
      else
        let data = sec_data (objects_section v); record = unat (handle - 1) * object_record_size;
            entry = \<lparr>oe_type = type_ref_from_raw v (read_u32 data record), oe_state = read_u32 data (record + 4)\<rparr>
        in if tr_valid (oe_type entry) then Some entry else None)"

definition view_object_identity :: "compiled_project_view \<Rightarrow> object_handle \<Rightarrow> identity_ref" where
  "view_object_identity v handle =
     (if handle = 0 \<or> unat handle > object_count_value v then 0
      else identity_from_raw v
        (read_u32 (sec_data (object_identities_section v)) (unat (handle - 1) * object_identity_size)))"

definition view_find_object :: "compiled_project_view \<Rightarrow> identity_ref \<Rightarrow> object_handle" where
  "view_find_object v r =
     (if \<not> identity_valid v r \<or> unat (ref_slot r) > identity_count_value v then 0
      else if graph_location_kind (view_graph_location v r) \<noteq> 2 then 0
      else object_from_raw v (graph_location_slot (view_graph_location v r)))"

definition view_object_construction :: "compiled_project_view \<Rightarrow> object_handle \<Rightarrow> construction_value option" where
  "view_object_construction v handle =
     (case view_object v handle of
        None \<Rightarrow> None
      | Some entry \<Rightarrow>
          if \<not> oe_non_default_initializer entry
          then if oe_construction_slot entry = 0 then Some empty_construction else None
          else
            let slot = oe_construction_slot entry
            in if slot = 0 \<or> unat slot > sec_count (object_construction_section v) then None
               else
                 let c = read_construction (sec_data (object_construction_section v))
                           (unat (slot - 1) * construction_record_size)
                 in if valid_construction c then Some c else None)"

section \<open>Endpoint paths, links and assigns\<close>

definition view_endpoint_path :: "compiled_project_view \<Rightarrow> u32 \<Rightarrow> endpoint_path_record option" where
  "view_endpoint_path v path =
     (if path = 0 \<or> path > maximum_payload then None
      else if unat path > sec_count (endpoint_paths_section v) then None
      else
        let data = sec_data (endpoint_paths_section v);
            record = unat (path - 1) * endpoint_path_record_size;
            steps = \<lparr>gr_begin = read_u32 data record, gr_count = read_u32 data (record + 4)\<rparr>;
            root = type_ref_from_raw v (read_u32 data (record + 8));
            result = type_ref_from_raw v (read_u32 data (record + 12));
            step_count = sec_count (endpoint_path_steps_section v)
        in if gr_count steps \<noteq> 0 \<and> unat (gr_begin steps) \<le> step_count \<and>
              unat (gr_count steps) \<le> step_count - unat (gr_begin steps) \<and> tr_valid root \<and> tr_valid result
           then Some \<lparr>epr_steps = steps, epr_root_type = root, epr_value_type = result\<rparr> else None)"

definition view_endpoint_path_step_at :: "compiled_project_view \<Rightarrow> nat \<Rightarrow> endpoint_path_step option" where
  "view_endpoint_path_step_at v index =
     (if index \<ge> sec_count (endpoint_path_steps_section v) then None
      else
        let data = sec_data (endpoint_path_steps_section v);
            record = index * endpoint_path_step_record_size; kind = data ! (record + 8)
        in if \<not> (kind = 1 \<or> kind = 2) \<or> \<not> zero_bytes data (record + 9) 7 then None
           else Some \<lparr>eps_value = read_u64 data record, eps_kind = kind\<rparr>)"

definition view_link_at :: "compiled_project_view \<Rightarrow> nat \<Rightarrow> link_handle" where
  "view_link_at v index = (if index < link_count_value v then link_from_raw v (of_nat (index + 1)) else 0)"

definition view_link :: "compiled_project_view \<Rightarrow> link_handle \<Rightarrow> link_record option" where
  "view_link v handle =
     (if handle = 0 \<or> unat handle > link_count_value v then None
      else
        let data = sec_data (links_section v); record = unat (handle - 1) * link_record_size;
            source_object = object_from_raw v (read_u32 data record);
            source_endpoint = read_u32 data (record + 4);
            target_object = object_from_raw v (read_u32 data (record + 8));
            target_endpoint = read_u32 data (record + 12)
        in if source_object = 0 \<or> target_object = 0 then None
           else if source_endpoint OR target_endpoint \<le> maximum_payload
           then Some \<lparr>lr_source = \<lparr>ep_object = source_object, ep_member = source_endpoint\<rparr>,
                      lr_target = \<lparr>ep_object = target_object, ep_member = target_endpoint\<rparr>\<rparr>
           else
             let source = er_from_raw source_endpoint; target = er_from_raw target_endpoint;
                 path_count = sec_count (endpoint_paths_section v)
             in if \<not> er_valid source \<or> \<not> er_valid target then None
                else if er_is_path source \<and> unat (er_path source) > path_count \<or>
                        er_is_path target \<and> unat (er_path target) > path_count then None
                else Some \<lparr>lr_source = \<lparr>ep_object = source_object, ep_member = source\<rparr>,
                           lr_target = \<lparr>ep_object = target_object, ep_member = target\<rparr>\<rparr>)"

definition view_find_link_target :: "compiled_project_view \<Rightarrow> object_endpoint \<Rightarrow> link_handle" where
  "view_find_link_target v target =
     (if ep_object target = 0 \<or> \<not> er_valid (ep_member target) \<or>
         unat (ep_object target) > object_count_value v then 0
      else
        let index = link_target_index_section v; count = sec_count index
        in if count = 0 \<or> count AND (count - 1) \<noteq> 0 then 0
           else
             let hash = link_target_hash target;
                 raw = (\<lambda>p. read_u32 (sec_data index) (p * index_record_size + 4))
             in case probe_find (\<lambda>p. raw p \<noteq> 0)
                  (\<lambda>p. read_u32 (sec_data index) (p * index_record_size) = identity_fingerprint hash \<and>
                     (let candidate = link_from_raw v (raw p)
                      in candidate \<noteq> 0 \<and>
                         (case view_link v candidate of None \<Rightarrow> False | Some l \<Rightarrow> lr_target l = target)))
                  (count - 1) (unat hash AND (count - 1)) count of
                None \<Rightarrow> 0
              | Some p \<Rightarrow> link_from_raw v (raw p))"

definition view_find_member_link :: "compiled_project_view \<Rightarrow> object_handle \<Rightarrow> u32 \<Rightarrow> link_handle" where
  "view_find_member_link v obj local_member =
     (if obj = 0 then 0
      else view_find_link_target v \<lparr>ep_object = obj, ep_member = er_of_member local_member\<rparr>)"

definition view_assign :: "compiled_project_view \<Rightarrow> nat \<Rightarrow> (string \<times> string) option" where
  "view_assign v index =
     (if index \<ge> assign_count_value v then None
      else
        let data = sec_data (assign_records_section v); bytes = assign_bytes_section v;
            record = index * assign_record_size;
            source_offset = unat (read_u32 data record); source_length = unat (read_u32 data (record + 4));
            target_offset = unat (read_u32 data (record + 8)); target_length = unat (read_u32 data (record + 12))
        in if source_length = 0 \<or> target_length = 0 \<or>
              source_offset > sec_count bytes \<or> source_length > sec_count bytes - source_offset \<or>
              target_offset > sec_count bytes \<or> target_length > sec_count bytes - target_offset
           then None
           else Some (map byte_char (text_slice (sec_data bytes) source_offset source_length),
                      map byte_char (text_slice (sec_data bytes) target_offset target_length)))"

section \<open>The parts of records\<close>

text \<open>The parts of a record: \<open>Inl\<close> a base slot, \<open>Inr\<close> a member slot of the image.\<close>

definition type_members :: "compiled_project_view \<Rightarrow> type_handle \<Rightarrow> nat set" where
  "type_members v h =
     (case view_type v h of None \<Rightarrow> {}
      | Some e \<Rightarrow> {unat (gr_begin (te_members e)) ..< unat (gr_begin (te_members e)) + unat (gr_count (te_members e))})"

definition type_bases :: "compiled_project_view \<Rightarrow> type_handle \<Rightarrow> nat set" where
  "type_bases v h =
     (case view_type v h of None \<Rightarrow> {}
      | Some e \<Rightarrow> {unat (gr_begin (te_bases e)) ..< unat (gr_begin (te_bases e)) + unat (gr_count (te_bases e))})"

definition type_parts :: "compiled_project_view \<Rightarrow> type_handle \<Rightarrow> (nat + nat) set" where
  "type_parts v h = Inl ` type_bases v h \<union> Inr ` type_members v h"

text \<open>No other type of the image claims a base or member slot of this one.\<close>

definition exclusive_parts :: "compiled_project_view \<Rightarrow> type_handle \<Rightarrow> bool" where
  "exclusive_parts v h \<longleftrightarrow> (\<forall>h'. h' \<noteq> h \<longrightarrow> type_parts v h \<inter> type_parts v h' = {})"

section \<open>The hashed look-ups are sound\<close>

lemma view_member_at_record:
  "view_member_at v i = Some m \<Longrightarrow>
     i < sec_count (members_section v) \<and> m = view_member_record v i \<and> mr_name m \<noteq> 0 \<and> tr_valid (mr_type m) \<and>
     zero_bytes (sec_data (members_section v)) (i * member_record_size + 9) 3"
  by (auto simp: view_member_at_def Let_def split: if_splits)

lemma view_find_member_sound:
  assumes "view_find_member v t name = m" "m \<noteq> 0xffffffff"
  shows "\<exists>member. view_member v t m = Some member \<and> mr_name member = name"
proof -
  let ?n = "sec_count (member_name_index_section v)"
  let ?g = "\<lambda>p. unat (read_u32 (sec_data (member_name_index_section v)) (p * index_record_size + 4) - 1)"
  obtain entry where entry: "view_type v t = Some entry" "te_defined entry"
    using assms by (auto simp: view_find_member_def split: if_splits option.splits)
  let ?first = "unat (gr_begin (te_members entry))"
  obtain occ hit msk pos p where p: "probe_find occ hit msk pos ?n = Some p" "m = of_nat (?g p - ?first)"
    and hit: "\<And>q. hit q \<Longrightarrow> ?first \<le> ?g q \<and> ?g q < ?first + unat (gr_count (te_members entry)) \<and>
      (case view_member_at v (?g q) of None \<Rightarrow> False | Some member \<Rightarrow> mr_name member = name)"
    using assms entry by (simp add: view_find_member_def Let_def split: if_splits option.splits)
  have g: "?first \<le> ?g p" "?g p < ?first + unat (gr_count (te_members entry))"
    and "case view_member_at v (?g p) of None \<Rightarrow> False | Some member \<Rightarrow> mr_name member = name"
    using hit [of p] probe_find_holds [OF p(1)] by auto
  then obtain member where member: "view_member_at v (?g p) = Some member" "mr_name member = name"
    by (auto split: option.splits)
  have "?g p - ?first < unat (gr_count (te_members entry))" using g by linarith
  then have m: "unat m = ?g p - ?first" "unat m < unat (gr_count (te_members entry))"
    using unsigned_less [of "gr_count (te_members entry)", where 'a = nat] unfolding p(2) by (auto simp: unat_of_nat)
  then have "?first + unat m = ?g p" "\<not> m \<ge> gr_count (te_members entry)"
    using g(1) by (simp_all add: word_le_nat_alt)
  then have "view_member v t m = Some member"
    using entry assms(2) view_member_at_record [OF member(1)] by (auto simp: view_member_def Let_def)
  then show ?thesis using member(2) by blast
qed

lemma view_find_derived_sound:
  assumes "view_find_derived v child kind payload = t" "t \<noteq> 0"
  shows "view_derived v t = Some \<lparr>dr_payload = payload, dr_child = child, dr_kind = kind\<rparr>"
proof -
  let ?n = "sec_count (derived_index_section v)"
  let ?raw = "\<lambda>p. read_u32 (sec_data (derived_index_section v)) (p * index_record_size + 4)"
  obtain occ hit msk pos p where p: "probe_find occ hit msk pos ?n = Some p" "t = type_ref_from_raw v (?raw p)"
    and hit: "\<And>q. hit q \<Longrightarrow> (case view_derived v (type_ref_from_raw v (?raw q)) of None \<Rightarrow> False
      | Some d \<Rightarrow> dr_child d = child \<and> dr_kind d = kind \<and> dr_payload d = payload)"
    using assms by (simp add: view_find_derived_def Let_def split: if_splits option.splits)
  show ?thesis using hit [of p] probe_find_holds [OF p(1)] p(2)
    by (auto split: option.splits)
qed

lemma view_find_link_target_sound:
  assumes "view_find_link_target v target = l" "l \<noteq> 0"
  shows "\<exists>link. view_link v l = Some link \<and> lr_target link = target"
proof -
  let ?n = "sec_count (link_target_index_section v)"
  let ?raw = "\<lambda>p. read_u32 (sec_data (link_target_index_section v)) (p * index_record_size + 4)"
  obtain occ hit msk pos p where p: "probe_find occ hit msk pos ?n = Some p" "l = link_from_raw v (?raw p)"
    and hit: "\<And>q. hit q \<Longrightarrow> (case view_link v (link_from_raw v (?raw q)) of None \<Rightarrow> False
      | Some l \<Rightarrow> lr_target l = target)"
    using assms by (simp add: view_find_link_target_def Let_def split: if_splits option.splits)
  show ?thesis using hit [of p] probe_find_holds [OF p(1)] p(2)
    by (auto split: option.splits)
qed

end
