(* ===== verification/Runtime_Layout.thy ===== *)
theory Runtime_Layout
  imports Graph_View
begin

text \<open>
  The native layout of a project (\<^verbatim>\<open>server_engine/project/runtime/runtime_layout.cpp\<close> and
  \<^verbatim>\<open>server_engine/project/abi/abi_layout.cpp\<close>): \<^verbatim>\<open>prepare_runtime_layout\<close> walks the types of a
  compiled image depth first, gives every reachable record and derived type a size and an alignment
  under the configured ABI, every base and member an offset in its record, and every object and every
  \<open>unconnected\<close> reference target an offset in the runtime image.

  The builder's methods are functions on the state \<open>layout_builder\<close>, in a monad whose results are
  \<open>Inl\<close> of an error or \<open>Inr\<close> of a value, together with the state left behind. The recursion of
  \<^verbatim>\<open>resolve\<close>, \<^verbatim>\<open>resolve_record\<close> and \<^verbatim>\<open>resolve_derived\<close> and the growing work list have
  fuel; \<open>None\<close> is a computation that did not return. The argument \<open>alloc\<close> says which allocations,
  numbered in the order of their attempts, succeed.
\<close>

section \<open>ABI properties\<close>

datatype abi_target = windows_x64 | posix_x64 | windows_x86

record server_abi_configuration =
  abi_target_of :: abi_target
  abi_pack :: u32

record abi_properties =
  pointer_size :: u32
  pointer_alignment :: u32
  reference_size :: u32
  reference_alignment :: u32

record abi_layout_key =
  key_target :: abi_target
  key_pack :: u32

definition make_abi_layout_key :: "server_abi_configuration \<Rightarrow> abi_layout_key" where
  "make_abi_layout_key configuration =
     \<lparr>key_target = abi_target_of configuration, key_pack = abi_pack configuration\<rparr>"

definition abi_layout_properties :: "abi_target \<Rightarrow> abi_properties option" where
  "abi_layout_properties target =
     (case target of
        windows_x86 \<Rightarrow> Some \<lparr>pointer_size = 4, pointer_alignment = 4, reference_size = 4, reference_alignment = 4\<rparr>
      | windows_x64 \<Rightarrow> Some \<lparr>pointer_size = 8, pointer_alignment = 8, reference_size = 8, reference_alignment = 8\<rparr>
      | posix_x64 \<Rightarrow> Some \<lparr>pointer_size = 8, pointer_alignment = 8, reference_size = 8, reference_alignment = 8\<rparr>)"

definition valid_abi_layout_key :: "abi_layout_key \<Rightarrow> bool" where
  "valid_abi_layout_key key \<longleftrightarrow>
     abi_layout_properties (key_target key) \<noteq> None \<and>
     (key_pack key = 1 \<or> key_pack key = 2 \<or> key_pack key = 4 \<or> key_pack key = 8 \<or> key_pack key = 16)"

definition abi_layout_compatible :: "abi_layout_key \<Rightarrow> server_abi_configuration \<Rightarrow> bool" where
  "abi_layout_compatible key configuration \<longleftrightarrow>
     valid_abi_layout_key key \<and> key = make_abi_layout_key configuration"

section \<open>Checked arithmetic and intrinsic types\<close>

datatype runtime_layout_result =
  layout_success | layout_invalid_input | layout_unsupported_type | layout_overflow | layout_failed

definition invalid_offset :: u64 where "invalid_offset = -1"
definition pending_offset :: u64 where "pending_offset = invalid_offset - 1"
definition invalid_record_offset :: u32 where "invalid_record_offset = -1"

definition add_u64 :: "u64 \<Rightarrow> u64 \<Rightarrow> u64 option" where
  "add_u64 left right = (if left > -1 - right then None else Some (left + right))"

definition multiply_u64 :: "u64 \<Rightarrow> u64 \<Rightarrow> u64 option" where
  "multiply_u64 left right = (if left \<noteq> 0 \<and> right > (-1) div left then None else Some (left * right))"

definition align_up :: "u64 \<Rightarrow> u32 \<Rightarrow> u64 option" where
  "align_up value alignment =
     (if alignment = 0 \<or> alignment AND (alignment - 1) \<noteq> 0 then None
      else
        let mask = ucast (alignment - 1)
        in if value > -1 - mask then None else Some ((value + mask) AND NOT mask))"

record runtime_value_layout =
  vl_size :: u64
  vl_alignment :: u32

abbreviation value_layout :: "u64 \<Rightarrow> u32 \<Rightarrow> runtime_value_layout" where
  "value_layout bytes alignment \<equiv> \<lparr>vl_size = bytes, vl_alignment = alignment\<rparr>"

definition intrinsic_slot_count :: nat where
  "intrinsic_slot_count = 22"

definition intrinsic_layout :: "intrinsic_type \<Rightarrow> abi_target \<Rightarrow> runtime_layout_result + runtime_value_layout" where
  "intrinsic_layout type target =
     (case abi_layout_properties target of
        None \<Rightarrow> Inl layout_invalid_input
      | Some properties \<Rightarrow>
          let windows = (target = windows_x86 \<or> target = windows_x64)
          in if type \<in> {bool_type, char_type, signed_char, unsigned_char, char8_type}
             then Inr (value_layout 1 1)
             else if type = wchar_type then Inr (if windows then value_layout 2 2 else value_layout 4 4)
             else if type \<in> {char16_type, signed_short, unsigned_short} then Inr (value_layout 2 2)
             else if type \<in> {char32_type, signed_int, unsigned_int, float_type} then Inr (value_layout 4 4)
             else if type \<in> {signed_long, unsigned_long}
             then Inr (if windows then value_layout 4 4 else value_layout 8 8)
             else if type \<in> {signed_long_long, unsigned_long_long, double_type} then Inr (value_layout 8 8)
             else if type = nullptr_type
             then Inr (value_layout (ucast (pointer_size properties)) (pointer_alignment properties))
             else if type = long_double_type
             then Inr (if windows then value_layout 8 8 else value_layout 16 16)
             else if type = void_type then Inl layout_unsupported_type
             else Inl layout_invalid_input)"

section \<open>State of the builder\<close>

datatype slot_state = slot_empty | slot_visiting | slot_ready

record layout_slot =
  ls_size :: u64
  ls_alignment :: u32
  ls_state :: slot_state
  ls_empty_record :: bool

definition blank_layout_slot :: layout_slot where
  "blank_layout_slot = \<lparr>ls_size = 0, ls_alignment = 0, ls_state = slot_empty, ls_empty_record = False\<rparr>"

record runtime_layout =
  rl_type_slots :: "layout_slot list"
  rl_derived_slots :: "layout_slot list"
  rl_member_offsets :: "u32 list"
  rl_base_offsets :: "u32 list"
  rl_object_offsets :: "u64 list"
  rl_unconnected_intrinsic_offsets :: "u64 list"
  rl_unconnected_type_offsets :: "u64 list"
  rl_unconnected_derived_offsets :: "u64 list"
  rl_unconnected_types :: "type_ref list"
  rl_target :: abi_target
  rl_size :: u64
  rl_alignment :: u32
  rl_prepared :: bool

text \<open>The builder writes into its output layout, which is the first part of its state.\<close>

record layout_builder = runtime_layout +
  lb_base_marks :: "u32 list"
  lb_base_mark_generation :: u32
  lb_allocations :: nat

definition fresh_runtime_layout :: runtime_layout where
  "fresh_runtime_layout =
     \<lparr>rl_type_slots = [], rl_derived_slots = [], rl_member_offsets = [], rl_base_offsets = [],
      rl_object_offsets = [], rl_unconnected_intrinsic_offsets = replicate intrinsic_slot_count invalid_offset,
      rl_unconnected_type_offsets = [], rl_unconnected_derived_offsets = [], rl_unconnected_types = [],
      rl_target = windows_x64, rl_size = 0, rl_alignment = 1, rl_prepared = False\<rparr>"

section \<open>The monad of the builder's methods\<close>

type_synonym 'a layout_m = "layout_builder \<Rightarrow> ((runtime_layout_result + 'a) \<times> layout_builder) option"

definition lm_return :: "'a \<Rightarrow> 'a layout_m" where
  "lm_return x b = Some (Inr x, b)"

definition lm_fail :: "runtime_layout_result \<Rightarrow> 'a layout_m" where
  "lm_fail e b = Some (Inl e, b)"

definition lm_bind :: "'a layout_m \<Rightarrow> ('a \<Rightarrow> 'b layout_m) \<Rightarrow> 'b layout_m" where
  "lm_bind m f b =
     (case m b of None \<Rightarrow> None | Some (Inl e, b') \<Rightarrow> Some (Inl e, b') | Some (Inr x, b') \<Rightarrow> f x b')"

definition lm_get :: "(layout_builder \<Rightarrow> 'a layout_m) \<Rightarrow> 'a layout_m" where
  "lm_get f b = f b b"

definition lm_update :: "(layout_builder \<Rightarrow> layout_builder) \<Rightarrow> unit layout_m" where
  "lm_update f b = Some (Inr (), f b)"

definition lm_require :: "bool \<Rightarrow> runtime_layout_result \<Rightarrow> unit layout_m" where
  "lm_require ok e = (if ok then lm_return () else lm_fail e)"

definition lm_option :: "runtime_layout_result \<Rightarrow> 'a option \<Rightarrow> 'a layout_m" where
  "lm_option e r = (case r of None \<Rightarrow> lm_fail e | Some x \<Rightarrow> lm_return x)"

definition lm_sum :: "runtime_layout_result + 'a \<Rightarrow> 'a layout_m" where
  "lm_sum r = (case r of Inl e \<Rightarrow> lm_fail e | Inr x \<Rightarrow> lm_return x)"

text \<open>What the method does to the state before it returns an error.\<close>

definition lm_on_failure :: "(layout_builder \<Rightarrow> layout_builder) \<Rightarrow> 'a layout_m \<Rightarrow> 'a layout_m" where
  "lm_on_failure g m b =
     (case m b of None \<Rightarrow> None | Some (Inl e, b') \<Rightarrow> Some (Inl e, g b') | Some (Inr x, b') \<Rightarrow> Some (Inr x, b'))"

text \<open>A counted loop that carries local variables.\<close>

fun lm_for :: "('i \<Rightarrow> 'a \<Rightarrow> 'a layout_m) \<Rightarrow> 'i list \<Rightarrow> 'a \<Rightarrow> 'a layout_m" where
  "lm_for body [] acc = lm_return acc"
| "lm_for body (i # rest) acc = lm_bind (body i acc) (\<lambda>acc'. lm_for body rest acc')"

text \<open>An allocation: the next entry of \<open>alloc\<close> decides.\<close>

definition lm_allocate :: "(nat \<Rightarrow> bool) \<Rightarrow> bool layout_m" where
  "lm_allocate alloc b =
     Some (Inr (alloc (lb_allocations b)), b\<lparr>lb_allocations := lb_allocations b + 1\<rparr>)"

section \<open>Unconnected reference targets\<close>

text \<open>The entry of the three offset tables that a type reference addresses.\<close>

definition unconnected_slot :: "'b runtime_layout_scheme \<Rightarrow> type_ref \<Rightarrow> u64 option" where
  "unconnected_slot b t =
     (case tr_kind t of
        type_ref_intrinsic \<Rightarrow>
          if unat (tr_payload t) \<ge> length (rl_unconnected_intrinsic_offsets b) then None
          else Some (rl_unconnected_intrinsic_offsets b ! unat (tr_payload t))
      | type_ref_named \<Rightarrow>
          if tr_payload t = 0 \<or> unat (tr_payload t) > length (rl_unconnected_type_offsets b) then None
          else Some (rl_unconnected_type_offsets b ! unat (tr_payload t - 1))
      | type_ref_derived \<Rightarrow>
          if tr_payload t = 0 \<or> unat (tr_payload t) > length (rl_unconnected_derived_offsets b) then None
          else Some (rl_unconnected_derived_offsets b ! unat (tr_payload t - 1))
      | type_ref_invalid \<Rightarrow> None)"

definition set_unconnected_slot :: "type_ref \<Rightarrow> u64 \<Rightarrow> layout_builder \<Rightarrow> layout_builder" where
  "set_unconnected_slot t off b =
     (case tr_kind t of
        type_ref_intrinsic \<Rightarrow> b\<lparr>rl_unconnected_intrinsic_offsets :=
          (rl_unconnected_intrinsic_offsets b)[unat (tr_payload t) := off]\<rparr>
      | type_ref_named \<Rightarrow> b\<lparr>rl_unconnected_type_offsets :=
          (rl_unconnected_type_offsets b)[unat (tr_payload t - 1) := off]\<rparr>
      | type_ref_derived \<Rightarrow> b\<lparr>rl_unconnected_derived_offsets :=
          (rl_unconnected_derived_offsets b)[unat (tr_payload t - 1) := off]\<rparr>
      | type_ref_invalid \<Rightarrow> b)"

definition require_unconnected :: "(nat \<Rightarrow> bool) \<Rightarrow> type_ref \<Rightarrow> unit layout_m" where
  "require_unconnected alloc t =
     lm_bind (lm_require (tr_valid t) layout_invalid_input) (\<lambda>_.
     lm_get (\<lambda>b. lm_bind (lm_option layout_invalid_input (unconnected_slot b t)) (\<lambda>off.
       if off \<noteq> invalid_offset then lm_return ()
       else lm_bind (lm_update (set_unconnected_slot t pending_offset)) (\<lambda>_.
         lm_bind (lm_allocate alloc) (\<lambda>ok.
           if ok then lm_update (\<lambda>b. b\<lparr>rl_unconnected_types := rl_unconnected_types b @ [t]\<rparr>)
           else lm_bind (lm_update (set_unconnected_slot t invalid_offset)) (\<lambda>_. lm_fail layout_failed))))))"

definition store_unconnected_offset :: "type_ref \<Rightarrow> u64 \<Rightarrow> unit layout_m" where
  "store_unconnected_offset t off =
     lm_get (\<lambda>b. lm_bind (lm_option layout_invalid_input (unconnected_slot b t)) (\<lambda>current.
       lm_bind (lm_require (current = pending_offset \<and> off < pending_offset) layout_invalid_input) (\<lambda>_.
       lm_update (set_unconnected_slot t off))))"

section \<open>Records with bases or virtual functions\<close>

definition set_type_slot :: "nat \<Rightarrow> layout_slot \<Rightarrow> layout_builder \<Rightarrow> layout_builder" where
  "set_type_slot i slot b = b\<lparr>rl_type_slots := (rl_type_slots b)[i := slot]\<rparr>"

definition next_base_mark :: "layout_builder \<Rightarrow> layout_builder" where
  "next_base_mark b =
     (let generation = lb_base_mark_generation b + 1
      in if generation = 0
         then b\<lparr>lb_base_marks := replicate (length (lb_base_marks b)) 0, lb_base_mark_generation := 1\<rparr>
         else b\<lparr>lb_base_mark_generation := generation\<rparr>)"

definition mark_base :: "compiled_project_view \<Rightarrow> nat \<Rightarrow> nat \<Rightarrow> unit \<Rightarrow> unit layout_m" where
  "mark_base v base_begin local _ =
     lm_get (\<lambda>b. lm_bind (lm_option layout_invalid_input (view_base_at v (base_begin + local))) (\<lambda>base.
       lm_bind (lm_require (br_type base \<noteq> 0 \<and> unat (br_type base) \<le> length (rl_type_slots b)) layout_invalid_input) (\<lambda>_.
       lm_bind (lm_require (\<not> br_virtual_base base) layout_unsupported_type) (\<lambda>_.
       lm_bind (lm_require (lb_base_marks b ! unat (br_type base - 1) \<noteq> lb_base_mark_generation b)
         layout_invalid_input) (\<lambda>_.
       lm_update (\<lambda>b. b\<lparr>lb_base_marks :=
         (lb_base_marks b)[unat (br_type base - 1) := lb_base_mark_generation b]\<rparr>))))))"

definition mark_bases :: "compiled_project_view \<Rightarrow> (nat \<Rightarrow> bool) \<Rightarrow> type_entry \<Rightarrow> unit layout_m" where
  "mark_bases v alloc entry =
     (if gr_count (te_bases entry) > 1
      then lm_bind (lm_get (\<lambda>b.
             if length (lb_base_marks b) \<noteq> length (rl_type_slots b)
             then lm_bind (lm_allocate alloc) (\<lambda>ok.
               if ok then lm_update (\<lambda>b. b\<lparr>lb_base_marks := replicate (length (rl_type_slots b)) 0,
                                          lb_base_mark_generation := 0\<rparr>)
               else lm_fail layout_failed)
             else lm_return ())) (\<lambda>_.
           lm_bind (lm_update next_base_mark) (\<lambda>_.
           lm_for (mark_base v (unat (gr_begin (te_bases entry)))) [0..<unat (gr_count (te_bases entry))] ()))
      else lm_return ())"

text \<open>The first pass over the bases: the primary base, the first polymorphic one, and the alignment.\<close>

definition scan_base ::
    "compiled_project_view \<Rightarrow> server_abi_configuration \<Rightarrow> (type_handle \<Rightarrow> runtime_value_layout layout_m) \<Rightarrow>
       type_entry \<Rightarrow> nat \<Rightarrow> nat option \<times> u32 \<Rightarrow> (nat option \<times> u32) layout_m" where
  "scan_base v abi resolve_record entry local acc =
     (let global = unat (gr_begin (te_bases entry)) + local
      in lm_get (\<lambda>b.
         lm_bind (lm_require (rl_base_offsets b ! global = invalid_record_offset) layout_invalid_input) (\<lambda>_.
         lm_bind (lm_option layout_invalid_input (view_base_at v global)) (\<lambda>base.
         lm_bind (lm_require (\<not> br_virtual_base base) layout_unsupported_type) (\<lambda>_.
         lm_bind (lm_require (br_type base \<noteq> 0 \<and> unat (br_type base) \<le> length (rl_type_slots b)) layout_invalid_input) (\<lambda>_.
         lm_bind (resolve_record (br_type base)) (\<lambda>base_layout.
         lm_get (\<lambda>b.
         lm_bind (lm_require (br_type base \<noteq> 0 \<and> unat (br_type base) \<le> length (rl_type_slots b) \<and>
             \<not> ls_empty_record (rl_type_slots b ! unat (br_type base - 1))) layout_unsupported_type) (\<lambda>_.
         let effective_alignment = min (vl_alignment base_layout) (abi_pack abi)
         in lm_bind (lm_require (effective_alignment \<noteq> 0) layout_invalid_input) (\<lambda>_.
         lm_bind (lm_option layout_invalid_input (view_type v (br_type base))) (\<lambda>base_type.
         lm_bind (lm_require (te_defined base_type \<and> te_kind base_type = graph_type_kind_record \<and>
             te_record_kind base_type \<noteq> union_type) layout_invalid_input) (\<lambda>_.
         lm_return (if te_polymorphic base_type \<and> fst acc = None then Some local else fst acc,
                    max (snd acc) effective_alignment)))))))))))))"

definition scan_member ::
    "compiled_project_view \<Rightarrow> server_abi_configuration \<Rightarrow> (type_ref \<Rightarrow> runtime_value_layout layout_m) \<Rightarrow>
       type_entry \<Rightarrow> nat \<Rightarrow> u32 \<Rightarrow> u32 layout_m" where
  "scan_member v abi resolve entry local record_alignment =
     (let global = unat (gr_begin (te_members entry)) + local
      in lm_get (\<lambda>b.
         lm_bind (lm_require (global < length (rl_member_offsets b) \<and>
             rl_member_offsets b ! global = invalid_record_offset) layout_invalid_input) (\<lambda>_.
         lm_bind (lm_option layout_invalid_input (view_member_at v global)) (\<lambda>member.
         lm_bind (resolve (mr_type member)) (\<lambda>member_layout.
         let effective_alignment = min (vl_alignment member_layout) (abi_pack abi)
         in lm_bind (lm_require (effective_alignment \<noteq> 0) layout_invalid_input) (\<lambda>_.
         lm_return (max record_alignment effective_alignment)))))))"

text \<open>The second pass places one sub-object at the next aligned offset and moves the cursor past it.\<close>

definition place_base ::
    "compiled_project_view \<Rightarrow> server_abi_configuration \<Rightarrow> (type_handle \<Rightarrow> runtime_value_layout layout_m) \<Rightarrow>
       type_entry \<Rightarrow> nat \<Rightarrow> u64 \<Rightarrow> u64 layout_m" where
  "place_base v abi resolve_record entry local cursor =
     (let global = unat (gr_begin (te_bases entry)) + local
      in lm_bind (lm_require (local < unat (gr_count (te_bases entry))) layout_invalid_input) (\<lambda>_.
         lm_get (\<lambda>b.
         lm_bind (lm_require (rl_base_offsets b ! global = invalid_record_offset) layout_invalid_input) (\<lambda>_.
         lm_bind (lm_option layout_invalid_input (view_base_at v global)) (\<lambda>base.
         lm_bind (lm_require (\<not> br_virtual_base base) layout_unsupported_type) (\<lambda>_.
         lm_bind (resolve_record (br_type base)) (\<lambda>base_layout.
         lm_bind (lm_option layout_overflow
           (align_up cursor (min (vl_alignment base_layout) (abi_pack abi)))) (\<lambda>aligned.
         lm_bind (lm_require (aligned < ucast invalid_record_offset) layout_overflow) (\<lambda>_.
         lm_bind (lm_update (\<lambda>b. b\<lparr>rl_base_offsets := (rl_base_offsets b)[global := ucast aligned]\<rparr>)) (\<lambda>_.
         lm_option layout_overflow (add_u64 aligned (vl_size base_layout))))))))))))"

definition place_member ::
    "compiled_project_view \<Rightarrow> server_abi_configuration \<Rightarrow> (type_ref \<Rightarrow> runtime_value_layout layout_m) \<Rightarrow>
       type_entry \<Rightarrow> nat \<Rightarrow> u64 \<Rightarrow> u64 layout_m" where
  "place_member v abi resolve entry local cursor =
     (let global = unat (gr_begin (te_members entry)) + local
      in lm_bind (lm_option layout_invalid_input (view_member_at v global)) (\<lambda>member.
         lm_bind (resolve (mr_type member)) (\<lambda>member_layout.
         lm_bind (lm_option layout_overflow
           (align_up cursor (min (vl_alignment member_layout) (abi_pack abi)))) (\<lambda>aligned.
         lm_bind (lm_require (aligned < ucast invalid_record_offset) layout_overflow) (\<lambda>_.
         lm_bind (lm_update (\<lambda>b. b\<lparr>rl_member_offsets := (rl_member_offsets b)[global := ucast aligned]\<rparr>)) (\<lambda>_.
         lm_option layout_overflow (add_u64 aligned (vl_size member_layout))))))))"

definition place_primary ::
    "compiled_project_view \<Rightarrow> (type_handle \<Rightarrow> runtime_value_layout layout_m) \<Rightarrow>
       type_entry \<Rightarrow> nat \<Rightarrow> u64 layout_m" where
  "place_primary v resolve_record entry primary_local =
     (let global = unat (gr_begin (te_bases entry)) + primary_local
      in lm_bind (lm_option layout_invalid_input (view_base_at v global)) (\<lambda>primary.
         lm_bind (lm_require (\<not> br_virtual_base primary) layout_unsupported_type) (\<lambda>_.
         lm_bind (resolve_record (br_type primary)) (\<lambda>primary_layout.
         lm_get (\<lambda>b.
         lm_bind (lm_require (rl_base_offsets b ! global = invalid_record_offset) layout_invalid_input) (\<lambda>_.
         lm_bind (lm_update (\<lambda>b. b\<lparr>rl_base_offsets := (rl_base_offsets b)[global := 0]\<rparr>)) (\<lambda>_.
         lm_return (vl_size primary_layout))))))))"

text \<open>One round over the bases other than the primary: those that are polymorphic, or those that are not.
  In the second round the primary base is skipped because it is polymorphic.\<close>

definition place_other ::
    "compiled_project_view \<Rightarrow> server_abi_configuration \<Rightarrow> (type_handle \<Rightarrow> runtime_value_layout layout_m) \<Rightarrow>
       type_entry \<Rightarrow> nat option \<Rightarrow> bool \<Rightarrow> nat \<Rightarrow> u64 \<Rightarrow> u64 layout_m" where
  "place_other v abi resolve_record entry skip polymorphic local cursor =
     (if skip = Some local then lm_return cursor
      else
        lm_bind (lm_option layout_invalid_input
          (view_base_at v (unat (gr_begin (te_bases entry)) + local))) (\<lambda>base.
        lm_bind (lm_option layout_invalid_input (view_type v (br_type base))) (\<lambda>base_type.
        lm_bind (lm_require (te_defined base_type) layout_invalid_input) (\<lambda>_.
        if te_polymorphic base_type \<noteq> polymorphic then lm_return cursor
        else place_base v abi resolve_record entry local cursor))))"

definition finish_record :: "nat \<Rightarrow> u64 \<Rightarrow> u32 \<Rightarrow> bool \<Rightarrow> runtime_value_layout layout_m" where
  "finish_record i raw_size record_alignment empty_record =
     lm_bind (lm_option layout_overflow (align_up raw_size record_alignment)) (\<lambda>final_size.
     lm_bind (lm_require (final_size \<le> ucast (-1 :: u32)) layout_overflow) (\<lambda>_.
     lm_bind (lm_update (set_type_slot i
        \<lparr>ls_size = final_size, ls_alignment = record_alignment, ls_state = slot_ready,
         ls_empty_record = empty_record\<rparr>)) (\<lambda>_.
     lm_return (value_layout final_size record_alignment))))"

definition place_bases ::
    "compiled_project_view \<Rightarrow> server_abi_configuration \<Rightarrow> (type_handle \<Rightarrow> runtime_value_layout layout_m) \<Rightarrow>
       type_entry \<Rightarrow> nat option \<Rightarrow> u64 \<Rightarrow> u64 layout_m" where
  "place_bases v abi resolve_record entry primary cursor =
     (let locals = [0..<unat (gr_count (te_bases entry))]
      in case primary of
          Some primary_local \<Rightarrow>
            lm_bind (place_primary v resolve_record entry primary_local) (\<lambda>cursor.
            lm_bind (lm_for (place_other v abi resolve_record entry (Some primary_local) True) locals cursor) (\<lambda>cursor.
            lm_for (place_other v abi resolve_record entry None False) locals cursor))
        | None \<Rightarrow> lm_for (place_base v abi resolve_record entry) locals cursor)"

definition resolve_windows_class_record ::
    "compiled_project_view \<Rightarrow> server_abi_configuration \<Rightarrow> (nat \<Rightarrow> bool) \<Rightarrow>
       (type_ref \<Rightarrow> runtime_value_layout layout_m) \<Rightarrow> (type_handle \<Rightarrow> runtime_value_layout layout_m) \<Rightarrow>
       type_entry \<Rightarrow> nat \<Rightarrow> runtime_value_layout layout_m" where
  "resolve_windows_class_record v abi alloc resolve resolve_record entry i =
     lm_bind (lm_require (abi_target_of abi = windows_x86 \<or> abi_target_of abi = windows_x64)
       layout_unsupported_type) (\<lambda>_.
     lm_bind (lm_option layout_invalid_input (abi_layout_properties (abi_target_of abi))) (\<lambda>properties.
     lm_bind (lm_get (\<lambda>b. lm_require
       (unat (gr_begin (te_bases entry)) \<le> length (rl_base_offsets b) \<and>
        unat (gr_count (te_bases entry)) \<le> length (rl_base_offsets b) - unat (gr_begin (te_bases entry)))
       layout_invalid_input)) (\<lambda>_.
     lm_bind (mark_bases v alloc entry) (\<lambda>_.
     lm_bind (lm_for (scan_base v abi resolve_record entry)
       [0..<unat (gr_count (te_bases entry))] (None, 1)) (\<lambda>(primary, base_alignment).
     lm_bind (lm_for (scan_member v abi resolve entry)
       [0..<unat (gr_count (te_members entry))] base_alignment) (\<lambda>record_alignment.
     lm_bind (lm_require (primary \<noteq> None \<longrightarrow> te_polymorphic entry) layout_invalid_input) (\<lambda>_.
     let own_vfptr = (te_polymorphic entry \<and> primary = None);
         vfptr_alignment = min (pointer_alignment properties) (abi_pack abi)
     in lm_bind (lm_require (own_vfptr \<longrightarrow> vfptr_alignment \<noteq> 0) layout_invalid_input) (\<lambda>_.
     let record_alignment = (if own_vfptr then max record_alignment vfptr_alignment else record_alignment)
     in lm_bind (if own_vfptr
         then lm_option layout_overflow (align_up (ucast (pointer_size properties)) record_alignment)
         else lm_return 0) (\<lambda>start.
     lm_bind (place_bases v abi resolve_record entry primary start) (\<lambda>cursor.
     lm_bind (lm_for (place_member v abi resolve entry)
       [0..<unat (gr_count (te_members entry))] cursor) (\<lambda>cursor.
     finish_record i (if cursor = 0 then 1 else cursor) record_alignment False)))))))))))"

section \<open>Resolving types\<close>

text \<open>One member of a record without bases and virtual functions; the local variables are the cursor, the
  size of the union and the alignment.\<close>

definition layout_member ::
    "compiled_project_view \<Rightarrow> server_abi_configuration \<Rightarrow> (type_ref \<Rightarrow> runtime_value_layout layout_m) \<Rightarrow>
       type_entry \<Rightarrow> bool \<Rightarrow> nat \<Rightarrow> u64 \<times> u64 \<times> u32 \<Rightarrow> (u64 \<times> u64 \<times> u32) layout_m" where
  "layout_member v abi resolve entry is_union local = (\<lambda>(cursor, union_size, record_alignment).
     let global = unat (gr_begin (te_members entry)) + local
     in lm_bind (lm_get (\<lambda>b. lm_require (global < length (rl_member_offsets b) \<and>
            rl_member_offsets b ! global = invalid_record_offset) layout_invalid_input)) (\<lambda>_.
        lm_bind (lm_option layout_invalid_input (view_member_at v global)) (\<lambda>member.
        lm_bind (resolve (mr_type member)) (\<lambda>member_layout.
        let effective_alignment = min (vl_alignment member_layout) (abi_pack abi);
            record_alignment = max record_alignment effective_alignment
        in lm_bind (lm_require (effective_alignment \<noteq> 0) layout_invalid_input) (\<lambda>_.
           if is_union
           then lm_bind (lm_update (\<lambda>b. b\<lparr>rl_member_offsets := (rl_member_offsets b)[global := 0]\<rparr>)) (\<lambda>_.
             lm_return (cursor, max union_size (vl_size member_layout), record_alignment))
           else
             lm_bind (lm_option layout_overflow (align_up cursor effective_alignment)) (\<lambda>aligned.
             lm_bind (lm_require (aligned < ucast invalid_record_offset) layout_overflow) (\<lambda>_.
             lm_bind (lm_update (\<lambda>b. b\<lparr>rl_member_offsets := (rl_member_offsets b)[global := ucast aligned]\<rparr>)) (\<lambda>_.
             lm_bind (lm_option layout_overflow (add_u64 aligned (vl_size member_layout))) (\<lambda>cursor.
             lm_return (cursor, union_size, record_alignment))))))))))"

definition resolve_plain_record ::
    "compiled_project_view \<Rightarrow> server_abi_configuration \<Rightarrow> (type_ref \<Rightarrow> runtime_value_layout layout_m) \<Rightarrow>
       type_entry \<Rightarrow> nat \<Rightarrow> runtime_value_layout layout_m" where
  "resolve_plain_record v abi resolve entry i =
     (let is_union = (te_record_kind entry = union_type)
      in lm_bind (lm_for (layout_member v abi resolve entry is_union)
           [0..<unat (gr_count (te_members entry))] (0, 0, 1)) (\<lambda>(cursor, union_size, record_alignment).
         let raw_size = (if is_union then union_size else cursor)
         in finish_record i (if raw_size = 0 then 1 else raw_size) record_alignment
              (\<not> is_union \<and> gr_count (te_members entry) = 0)))"

definition resolve_record_body ::
    "compiled_project_view \<Rightarrow> server_abi_configuration \<Rightarrow> (nat \<Rightarrow> bool) \<Rightarrow>
       (type_ref \<Rightarrow> runtime_value_layout layout_m) \<Rightarrow> (type_handle \<Rightarrow> runtime_value_layout layout_m) \<Rightarrow>
       type_handle \<Rightarrow> runtime_value_layout layout_m" where
  "resolve_record_body v abi alloc resolve resolve_record handle = lm_get (\<lambda>b.
     if handle = 0 \<or> unat handle > length (rl_type_slots b) then lm_fail layout_invalid_input
     else
       let i = unat (handle - 1); slot = rl_type_slots b ! i
       in case ls_state slot of
            slot_ready \<Rightarrow> lm_return (value_layout (ls_size slot) (ls_alignment slot))
          | slot_visiting \<Rightarrow> lm_fail layout_invalid_input
          | slot_empty \<Rightarrow>
              lm_bind (lm_option layout_invalid_input (view_type v handle)) (\<lambda>entry.
              lm_bind (lm_require (te_kind entry = graph_type_kind_record) layout_invalid_input) (\<lambda>_.
              lm_bind (lm_require (te_defined entry) layout_unsupported_type) (\<lambda>_.
              let is_union = (te_record_kind entry = union_type)
              in lm_bind (lm_require (is_union \<or> te_record_kind entry = struct_type \<or>
                    te_record_kind entry = class_type) layout_invalid_input) (\<lambda>_.
                 lm_bind (lm_require (\<not> (is_union \<and> (gr_count (te_bases entry) \<noteq> 0 \<or> te_polymorphic entry)))
                    layout_invalid_input) (\<lambda>_.
                 lm_bind (lm_update (set_type_slot i (slot\<lparr>ls_state := slot_visiting\<rparr>))) (\<lambda>_.
                 lm_on_failure (set_type_slot i blank_layout_slot)
                   (if gr_count (te_bases entry) \<noteq> 0 \<or> te_polymorphic entry
                    then resolve_windows_class_record v abi alloc resolve resolve_record entry i
                    else resolve_plain_record v abi resolve entry i))))))))"

definition set_derived_slot :: "nat \<Rightarrow> layout_slot \<Rightarrow> layout_builder \<Rightarrow> layout_builder" where
  "set_derived_slot i slot b = b\<lparr>rl_derived_slots := (rl_derived_slots b)[i := slot]\<rparr>"

text \<open>The kinds, in the order of the enumeration: const, volatile, pointer, lvalue reference, rvalue
  reference, bounded array, unbounded array.\<close>

definition resolve_derived_kind ::
    "server_abi_configuration \<Rightarrow> (nat \<Rightarrow> bool) \<Rightarrow> (type_ref \<Rightarrow> runtime_value_layout layout_m) \<Rightarrow>
       derived_type_record \<Rightarrow> runtime_value_layout layout_m" where
  "resolve_derived_kind abi alloc resolve derived =
     (if dr_kind derived = 0 \<or> dr_kind derived = 1 then resolve (dr_child derived)
      else if dr_kind derived = 2
      then lm_bind (lm_option layout_invalid_input (abi_layout_properties (abi_target_of abi))) (\<lambda>properties.
        lm_return (value_layout (ucast (pointer_size properties)) (pointer_alignment properties)))
      else if dr_kind derived = 3 \<or> dr_kind derived = 4
      then lm_bind (require_unconnected alloc (dr_child derived)) (\<lambda>_.
        lm_bind (lm_option layout_invalid_input (abi_layout_properties (abi_target_of abi))) (\<lambda>properties.
        lm_return (value_layout (ucast (reference_size properties)) (reference_alignment properties))))
      else if dr_kind derived = 5
      then lm_bind (lm_require (dr_payload derived \<noteq> 0) layout_invalid_input) (\<lambda>_.
        lm_bind (resolve (dr_child derived)) (\<lambda>child.
        lm_bind (lm_option layout_overflow (multiply_u64 (vl_size child) (dr_payload derived))) (\<lambda>bytes.
        lm_return (value_layout bytes (vl_alignment child)))))
      else if dr_kind derived = 6 then lm_fail layout_unsupported_type
      else lm_fail layout_invalid_input)"

definition resolve_derived_body ::
    "compiled_project_view \<Rightarrow> server_abi_configuration \<Rightarrow> (nat \<Rightarrow> bool) \<Rightarrow>
       (type_ref \<Rightarrow> runtime_value_layout layout_m) \<Rightarrow> type_ref \<Rightarrow> runtime_value_layout layout_m" where
  "resolve_derived_body v abi alloc resolve t = lm_get (\<lambda>b.
     if tr_kind t \<noteq> type_ref_derived \<or> tr_payload t = 0 \<or> unat (tr_payload t) > length (rl_derived_slots b)
     then lm_fail layout_invalid_input
     else
       let i = unat (tr_payload t - 1); slot = rl_derived_slots b ! i
       in case ls_state slot of
            slot_ready \<Rightarrow> lm_return (value_layout (ls_size slot) (ls_alignment slot))
          | slot_visiting \<Rightarrow> lm_fail layout_invalid_input
          | slot_empty \<Rightarrow>
              lm_bind (lm_option layout_invalid_input (view_derived v t)) (\<lambda>derived.
              lm_bind (lm_update (set_derived_slot i (slot\<lparr>ls_state := slot_visiting\<rparr>))) (\<lambda>_.
              lm_on_failure (set_derived_slot i (slot\<lparr>ls_state := slot_empty\<rparr>))
                (lm_bind (resolve_derived_kind abi alloc resolve derived) (\<lambda>resolved.
                 lm_bind (lm_require (vl_size resolved \<le> ucast (-1 :: u32)) layout_overflow) (\<lambda>_.
                 lm_bind (lm_update (set_derived_slot i
                   (slot\<lparr>ls_size := vl_size resolved, ls_alignment := vl_alignment resolved, ls_state := slot_ready\<rparr>))) (\<lambda>_.
                 lm_return resolved)))))))"

definition resolve_body ::
    "compiled_project_view \<Rightarrow> server_abi_configuration \<Rightarrow> (type_handle \<Rightarrow> runtime_value_layout layout_m) \<Rightarrow>
       (type_ref \<Rightarrow> runtime_value_layout layout_m) \<Rightarrow> type_ref \<Rightarrow> runtime_value_layout layout_m" where
  "resolve_body v abi resolve_record resolve_derived t =
     (if \<not> tr_valid t then lm_fail layout_invalid_input
      else case tr_kind t of
          type_ref_intrinsic \<Rightarrow>
            if tr_payload t > 21 then lm_fail layout_invalid_input
            else lm_sum (intrinsic_layout (intrinsic_of (unat (tr_payload t))) (abi_target_of abi))
        | type_ref_named \<Rightarrow>
            if tr_payload t = 0 \<or> unat (tr_payload t) > type_count_value v then lm_fail layout_invalid_input
            else resolve_record (view_type_at v (unat (tr_payload t - 1)))
        | type_ref_derived \<Rightarrow> resolve_derived t
        | type_ref_invalid \<Rightarrow> lm_fail layout_invalid_input)"

fun layout_resolve :: "compiled_project_view \<Rightarrow> server_abi_configuration \<Rightarrow> (nat \<Rightarrow> bool) \<Rightarrow> nat \<Rightarrow>
      type_ref \<Rightarrow> runtime_value_layout layout_m"
  and layout_resolve_record :: "compiled_project_view \<Rightarrow> server_abi_configuration \<Rightarrow> (nat \<Rightarrow> bool) \<Rightarrow> nat \<Rightarrow>
      type_handle \<Rightarrow> runtime_value_layout layout_m"
  and layout_resolve_derived :: "compiled_project_view \<Rightarrow> server_abi_configuration \<Rightarrow> (nat \<Rightarrow> bool) \<Rightarrow> nat \<Rightarrow>
      type_ref \<Rightarrow> runtime_value_layout layout_m" where
  "layout_resolve v abi alloc 0 t b = None"
| "layout_resolve v abi alloc (Suc fuel) t b =
     resolve_body v abi (layout_resolve_record v abi alloc fuel) (layout_resolve_derived v abi alloc fuel) t b"
| "layout_resolve_record v abi alloc 0 handle b = None"
| "layout_resolve_record v abi alloc (Suc fuel) handle b =
     resolve_record_body v abi alloc (layout_resolve v abi alloc fuel)
       (layout_resolve_record v abi alloc fuel) handle b"
| "layout_resolve_derived v abi alloc 0 t b = None"
| "layout_resolve_derived v abi alloc (Suc fuel) t b =
     resolve_derived_body v abi alloc (layout_resolve v abi alloc fuel) t b"

section \<open>The runtime image\<close>

definition object_type :: "compiled_project_view \<Rightarrow> nat \<Rightarrow> type_ref option" where
  "object_type v index =
     (let handle = view_object_at v index
      in if handle = 0 then None else map_option oe_type (view_object v handle))"

definition resolve_object ::
    "compiled_project_view \<Rightarrow> (type_ref \<Rightarrow> runtime_value_layout layout_m) \<Rightarrow> nat \<Rightarrow> unit \<Rightarrow> unit layout_m" where
  "resolve_object v resolve index _ =
     lm_bind (lm_option layout_invalid_input (object_type v index)) (\<lambda>t.
     lm_bind (resolve t) (\<lambda>_. lm_return ()))"

text \<open>The work list of unconnected types, which may grow while it is walked.\<close>

fun resolve_unconnected :: "(type_ref \<Rightarrow> runtime_value_layout layout_m) \<Rightarrow> nat \<Rightarrow> nat \<Rightarrow> unit layout_m" where
  "resolve_unconnected resolve 0 index b = None"
| "resolve_unconnected resolve (Suc fuel) index b =
     (if index < length (rl_unconnected_types b)
      then lm_bind (resolve (rl_unconnected_types b ! index)) (\<lambda>_. resolve_unconnected resolve fuel (index + 1)) b
      else lm_return () b)"

definition place_unconnected ::
    "(type_ref \<Rightarrow> runtime_value_layout layout_m) \<Rightarrow> type_ref \<Rightarrow> u64 \<times> u32 \<Rightarrow> (u64 \<times> u32) layout_m" where
  "place_unconnected resolve t = (\<lambda>(cursor, maximum_alignment).
     lm_bind (resolve t) (\<lambda>value.
     lm_bind (lm_option layout_overflow (align_up cursor (vl_alignment value))) (\<lambda>aligned.
     lm_bind (store_unconnected_offset t aligned) (\<lambda>_.
     lm_bind (lm_option layout_overflow (add_u64 aligned (vl_size value))) (\<lambda>cursor.
     lm_return (cursor, max maximum_alignment (vl_alignment value)))))))"

definition place_object ::
    "compiled_project_view \<Rightarrow> (type_ref \<Rightarrow> runtime_value_layout layout_m) \<Rightarrow>
       nat \<Rightarrow> u64 \<times> u32 \<Rightarrow> (u64 \<times> u32) layout_m" where
  "place_object v resolve index = (\<lambda>(cursor, maximum_alignment).
     lm_bind (lm_option layout_invalid_input (object_type v index)) (\<lambda>t.
     lm_bind (resolve t) (\<lambda>value.
     lm_bind (lm_option layout_overflow (align_up cursor (vl_alignment value))) (\<lambda>aligned.
     lm_bind (lm_update (\<lambda>b. b\<lparr>rl_object_offsets := (rl_object_offsets b)[index := aligned]\<rparr>)) (\<lambda>_.
     lm_bind (lm_option layout_overflow (add_u64 aligned (vl_size value))) (\<lambda>cursor.
     lm_return (cursor, max maximum_alignment (vl_alignment value))))))))"

definition layout_build ::
    "compiled_project_view \<Rightarrow> (type_ref \<Rightarrow> runtime_value_layout layout_m) \<Rightarrow> nat \<Rightarrow> unit layout_m" where
  "layout_build v resolve fuel =
     (let objects = [0..<object_count_value v]
      in lm_bind (lm_for (resolve_object v resolve) objects ()) (\<lambda>_.
         lm_bind (resolve_unconnected resolve fuel 0) (\<lambda>_.
         lm_bind (lm_get (\<lambda>b. lm_for (place_unconnected resolve) (rl_unconnected_types b) (0, 1))) (\<lambda>placed.
         lm_bind (lm_for (place_object v resolve) objects placed) (\<lambda>(cursor, maximum_alignment).
         lm_bind (lm_option layout_overflow (align_up cursor maximum_alignment)) (\<lambda>final_size.
         lm_update (\<lambda>b. b\<lparr>rl_size := final_size, rl_alignment := maximum_alignment\<rparr>)))))))"

text \<open>\<open>resolve_fuel\<close> and \<open>worklist_fuel\<close> are enough on every image (\<open>prepare_returns\<close> below).\<close>

definition resolve_fuel :: "compiled_project_view \<Rightarrow> nat" where
  "resolve_fuel v = 2 * (type_count_value v + sec_count (derived_types_section v)) + 2"

definition worklist_fuel :: "compiled_project_view \<Rightarrow> nat" where
  "worklist_fuel v = intrinsic_slot_count + type_count_value v + sec_count (derived_types_section v) + 1"

definition prepared_builder :: "compiled_project_view \<Rightarrow> server_abi_configuration \<Rightarrow> layout_builder" where
  "prepared_builder v abi =
     \<lparr>rl_type_slots = replicate (type_count_value v) blank_layout_slot,
      rl_derived_slots = replicate (sec_count (derived_types_section v)) blank_layout_slot,
      rl_member_offsets = replicate (sec_count (members_section v)) invalid_record_offset,
      rl_base_offsets = replicate (sec_count (bases_section v)) invalid_record_offset,
      rl_object_offsets = replicate (object_count_value v) 0,
      rl_unconnected_intrinsic_offsets = replicate intrinsic_slot_count invalid_offset,
      rl_unconnected_type_offsets = replicate (type_count_value v) invalid_offset,
      rl_unconnected_derived_offsets = replicate (sec_count (derived_types_section v)) invalid_offset,
      rl_unconnected_types = [], rl_target = abi_target_of abi, rl_size = 0, rl_alignment = 1,
      rl_prepared = False, lb_base_marks = [], lb_base_mark_generation = 0, lb_allocations = 0\<rparr>"

text \<open>\<open>alloc_slots\<close>: the dense tables could be allocated.\<close>

definition prepare_runtime_layout ::
    "compiled_project_view \<Rightarrow> server_abi_configuration \<Rightarrow> bool \<Rightarrow> (nat \<Rightarrow> bool) \<Rightarrow>
       (runtime_layout_result \<times> runtime_layout) option" where
  "prepare_runtime_layout v abi alloc_slots alloc =
     (if \<not> view_valid v \<or> \<not> valid_abi_layout_key (make_abi_layout_key abi)
      then Some (layout_invalid_input, fresh_runtime_layout)
      else if object_count_value v = 0
      then Some (layout_success, fresh_runtime_layout\<lparr>rl_target := abi_target_of abi, rl_prepared := True\<rparr>)
      else if \<not> alloc_slots then Some (layout_failed, fresh_runtime_layout)
      else case layout_build v (layout_resolve v abi alloc (resolve_fuel v)) (worklist_fuel v) (prepared_builder v abi) of
          None \<Rightarrow> None
        | Some (Inl e, _) \<Rightarrow> Some (e, fresh_runtime_layout)
        | Some (Inr _, b) \<Rightarrow> Some (layout_success, (runtime_layout.truncate b)\<lparr>rl_prepared := True\<rparr>))"

section \<open>Queries and bindings\<close>

definition rl_value :: "runtime_layout \<Rightarrow> type_ref \<Rightarrow> runtime_value_layout option" where
  "rl_value r t =
     (if \<not> rl_prepared r \<or> \<not> tr_valid t then None
      else case tr_kind t of
          type_ref_intrinsic \<Rightarrow>
            if tr_payload t > 21 then None
            else (case intrinsic_layout (intrinsic_of (unat (tr_payload t))) (rl_target r) of
                    Inl _ \<Rightarrow> None | Inr value \<Rightarrow> Some value)
        | type_ref_named \<Rightarrow>
            if tr_payload t = 0 \<or> unat (tr_payload t) > length (rl_type_slots r) then None
            else let slot = rl_type_slots r ! unat (tr_payload t - 1)
                 in if ls_state slot \<noteq> slot_ready then None
                    else Some (value_layout (ls_size slot) (ls_alignment slot))
        | type_ref_derived \<Rightarrow>
            if tr_payload t = 0 \<or> unat (tr_payload t) > length (rl_derived_slots r) then None
            else let slot = rl_derived_slots r ! unat (tr_payload t - 1)
                 in if ls_state slot \<noteq> slot_ready then None
                    else Some (value_layout (ls_size slot) (ls_alignment slot))
        | type_ref_invalid \<Rightarrow> None)"

definition rl_unconnected_offset :: "runtime_layout \<Rightarrow> type_ref \<Rightarrow> u64 option" where
  "rl_unconnected_offset r t =
     (if \<not> rl_prepared r \<or> \<not> tr_valid t then None
      else case unconnected_slot r t of
          None \<Rightarrow> None
        | Some off \<Rightarrow> if off = invalid_offset \<or> off = pending_offset then None else Some off)"

definition rl_unconnected_type :: "runtime_layout \<Rightarrow> nat \<Rightarrow> type_ref" where
  "rl_unconnected_type r index =
     (if index < length (rl_unconnected_types r) then rl_unconnected_types r ! index else 0)"

definition rl_type :: "runtime_layout \<Rightarrow> type_handle \<Rightarrow> runtime_value_layout option" where
  "rl_type r handle =
     (if handle = 0 \<or> unat handle > length (rl_type_slots r) then None
      else let slot = rl_type_slots r ! unat (handle - 1)
           in if ls_state slot \<noteq> slot_ready then None
              else Some (value_layout (ls_size slot) (ls_alignment slot)))"

definition record_offset_at :: "u32 list \<Rightarrow> nat \<Rightarrow> u32 option" where
  "record_offset_at offsets index =
     (if index \<ge> length offsets \<or> offsets ! index = invalid_record_offset then None
      else Some (offsets ! index))"

definition rl_member_offset :: "runtime_layout \<Rightarrow> nat \<Rightarrow> u32 option" where
  "rl_member_offset r index = record_offset_at (rl_member_offsets r) index"

definition rl_base_offset :: "runtime_layout \<Rightarrow> nat \<Rightarrow> u32 option" where
  "rl_base_offset r index = record_offset_at (rl_base_offsets r) index"

definition object_offset_at :: "u64 list \<Rightarrow> object_handle \<Rightarrow> u64 option" where
  "object_offset_at offsets handle =
     (if handle = 0 \<or> unat handle > length offsets then None else Some (offsets ! unat (handle - 1)))"

definition rl_object_offset :: "runtime_layout \<Rightarrow> object_handle \<Rightarrow> u64 option" where
  "rl_object_offset r handle = object_offset_at (rl_object_offsets r) handle"

record runtime_binding_index =
  bi_intrinsic_sizes :: "u8 list"
  bi_object_offsets :: "u64 list"
  bi_member_offsets :: "u32 list"
  bi_base_offsets :: "u32 list"

definition bi_object_offset :: "runtime_binding_index \<Rightarrow> object_handle \<Rightarrow> u64 option" where
  "bi_object_offset x handle = object_offset_at (bi_object_offsets x) handle"

definition bi_member_offset :: "runtime_binding_index \<Rightarrow> nat \<Rightarrow> u32 option" where
  "bi_member_offset x index = record_offset_at (bi_member_offsets x) index"

definition bi_base_offset :: "runtime_binding_index \<Rightarrow> nat \<Rightarrow> u32 option" where
  "bi_base_offset x index = record_offset_at (bi_base_offsets x) index"

definition bi_intrinsic_size :: "runtime_binding_index \<Rightarrow> nat \<Rightarrow> u8 option" where
  "bi_intrinsic_size x index =
     (if index = 0 \<or> index \<ge> length (bi_intrinsic_sizes x) \<or> bi_intrinsic_sizes x ! index = 0 then None
      else Some (bi_intrinsic_sizes x ! index))"

text \<open>The loop over the intrinsic types; \<open>False\<close> is the early return.\<close>

fun intrinsic_size_loop :: "abi_target \<Rightarrow> nat list \<Rightarrow> u8 list \<Rightarrow> bool \<times> u8 list" where
  "intrinsic_size_loop target [] sizes = (True, sizes)"
| "intrinsic_size_loop target (index # rest) sizes =
     (case intrinsic_layout (intrinsic_of index) target of
        Inl e \<Rightarrow> if e = layout_unsupported_type then intrinsic_size_loop target rest sizes else (False, sizes)
      | Inr value \<Rightarrow>
          if vl_size value = 0 \<or> vl_size value > 255 then (False, sizes)
          else intrinsic_size_loop target rest (sizes[index := ucast (vl_size value)]))"

text \<open>The vectors move into the binding index; a moved-from vector is empty.\<close>

definition release_bindings ::
    "runtime_layout \<Rightarrow> runtime_binding_index \<Rightarrow> bool \<times> runtime_layout \<times> runtime_binding_index" where
  "release_bindings r x =
     (if \<not> rl_prepared r then (False, r, x)
      else
        let (complete, sizes) =
              intrinsic_size_loop (rl_target r) [1..<intrinsic_slot_count] (replicate intrinsic_slot_count 0)
        in if \<not> complete then (False, r, x\<lparr>bi_intrinsic_sizes := sizes\<rparr>)
           else (True, r\<lparr>rl_object_offsets := [], rl_member_offsets := [], rl_base_offsets := []\<rparr>,
             \<lparr>bi_intrinsic_sizes = sizes, bi_object_offsets = rl_object_offsets r,
              bi_member_offsets = rl_member_offsets r, bi_base_offsets = rl_base_offsets r\<rparr>))"

section \<open>A sample image\<close>

text \<open>
  A record of a \<^verbatim>\<open>char\<close> and an \<^verbatim>\<open>int\<close>, a record derived from it with an \<^verbatim>\<open>int&\<close> member,
  and one object of each.
\<close>

definition sample_graph :: compiled_project_view where
  "sample_graph = sample_view
     \<lparr>types_section := empty_section\<lparr>sec_data :=
        [0, 0, 0, 0, 2, 0, 0, 0, 0, 0, 0, 0, 0, 0, 0, 0, 1, 1, 1, 0,
         2, 0, 0, 0, 1, 0, 0, 0, 0, 0, 0, 0, 1, 0, 0, 0, 1, 2, 1, 0], sec_count := 2\<rparr>,
      bases_section := empty_section\<lparr>sec_data := [1, 0, 0, 0, 1, 0, 0, 0], sec_count := 1\<rparr>,
      members_section := empty_section\<lparr>sec_data :=
        [1, 0, 0, 0, 3, 0, 0, 64, 1, 0, 0, 0,
         1, 0, 0, 0, 12, 0, 0, 64, 1, 0, 0, 0,
         1, 0, 0, 0, 1, 0, 0, 192, 1, 0, 0, 0], sec_count := 3\<rparr>,
      derived_types_section := empty_section\<lparr>sec_data :=
        [0, 0, 0, 0, 0, 0, 0, 0, 12, 0, 0, 64, 3, 0, 0, 0], sec_count := 1\<rparr>,
      objects_section := empty_section\<lparr>sec_data :=
        [1, 0, 0, 128, 0, 0, 0, 0, 2, 0, 0, 128, 0, 0, 0, 0], sec_count := 2\<rparr>,
      type_count_value := 2, object_count_value := 2\<rparr>"

end
