(* ===== verification/Layout_Logic.thy ===== *)
theory Layout_Logic
  imports Runtime_Layout
begin

text \<open>
  A total-correctness calculus for the methods of the layout builder, and the arithmetic of its
  checked operations. \<open>lm_wp m Q b\<close> says that \<open>m\<close> returns from state \<open>b\<close>, with an error or with
  a value and a state that satisfy \<open>Q\<close>; running out of fuel satisfies nothing. The equations in
  \<open>lm_wp_simps\<close> compute it for straight-line code and \<open>lm_wp_for\<close> is the invariant rule of
  counted loops.
\<close>

named_theorems lm_wp_simps \<open>weakest preconditions of the builder's combinators\<close>

definition lm_wp :: "'a layout_m \<Rightarrow> ('a \<Rightarrow> layout_builder \<Rightarrow> bool) \<Rightarrow> layout_builder \<Rightarrow> bool" where
  "lm_wp m Q b =
     (case m b of None \<Rightarrow> False | Some (Inl e, b') \<Rightarrow> True | Some (Inr x, b') \<Rightarrow> Q x b')"

lemma lm_wp_return [lm_wp_simps]: "lm_wp (lm_return x) Q b = Q x b"
  by (simp add: lm_wp_def lm_return_def)

lemma lm_wp_fail [lm_wp_simps]: "lm_wp (lm_fail e) Q b = True"
  by (simp add: lm_wp_def lm_fail_def)

lemma lm_wp_bind [lm_wp_simps]: "lm_wp (lm_bind m f) Q b = lm_wp m (\<lambda>x. lm_wp (f x) Q) b"
  by (auto simp: lm_wp_def lm_bind_def split: option.splits sum.splits)

lemma lm_wp_get [lm_wp_simps]: "lm_wp (lm_get f) Q b = lm_wp (f b) Q b"
  by (simp add: lm_wp_def lm_get_def)

lemma lm_wp_update [lm_wp_simps]: "lm_wp (lm_update f) Q b = Q () (f b)"
  by (simp add: lm_wp_def lm_update_def)

lemma lm_wp_require [lm_wp_simps]: "lm_wp (lm_require ok e) Q b = (ok \<longrightarrow> Q () b)"
  by (simp add: lm_require_def lm_wp_simps)

lemma lm_wp_option [lm_wp_simps]: "lm_wp (lm_option e r) Q b = (\<forall>x. r = Some x \<longrightarrow> Q x b)"
  by (cases r) (simp_all add: lm_option_def lm_wp_simps)

lemma lm_wp_sum [lm_wp_simps]: "lm_wp (lm_sum r) Q b = (\<forall>x. r = Inr x \<longrightarrow> Q x b)"
  by (cases r) (simp_all add: lm_sum_def lm_wp_simps)

lemma lm_wp_on_failure [lm_wp_simps]: "lm_wp (lm_on_failure g m) Q b = lm_wp m Q b"
  by (auto simp: lm_wp_def lm_on_failure_def split: option.splits sum.splits)

lemma lm_wp_allocate [lm_wp_simps]:
  "lm_wp (lm_allocate alloc) Q b = Q (alloc (lb_allocations b)) (b\<lparr>lb_allocations := lb_allocations b + 1\<rparr>)"
  by (simp add: lm_wp_def lm_allocate_def)

lemma lm_wp_if [lm_wp_simps]: "lm_wp (if c then m else m') Q b = (if c then lm_wp m Q b else lm_wp m' Q b)"
  by simp

lemma lm_wp_mono:
  assumes "lm_wp m Q b" "\<And>x b'. Q x b' \<Longrightarrow> R x b'"
  shows "lm_wp m R b"
  using assms by (auto simp: lm_wp_def split: option.splits sum.splits)

lemma lm_wp_SomeD: "lm_wp m Q b \<Longrightarrow> \<exists>r b'. m b = Some (r, b')"
  by (auto simp: lm_wp_def split: option.splits)

lemma lm_wp_Inr: "lm_wp m Q b \<Longrightarrow> m b = Some (Inr x, b') \<Longrightarrow> Q x b'"
  by (simp add: lm_wp_def)

lemma lm_wp_for:
  assumes "I 0 acc b"
    and "\<And>i acc b. i < length xs \<Longrightarrow> I i acc b \<Longrightarrow> lm_wp (body (xs ! i) acc) (I (Suc i)) b"
  shows "lm_wp (lm_for body xs acc) (I (length xs)) b"
  using assms
proof (induction xs arbitrary: I acc b)
  case Nil
  then show ?case by (simp add: lm_wp_simps)
next
  case (Cons x xs)
  have "lm_wp (body x acc) (I 1) b" using Cons.prems(2) [of 0] Cons.prems(1) by simp
  moreover have "lm_wp (lm_for body xs acc') (I (length (x # xs))) b'" if "I 1 acc' b'" for acc' b'
    using Cons.IH [of "\<lambda>i. I (Suc i)" acc' b'] Cons.prems(2) [of "Suc _"] that by simp
  ultimately show ?case by (auto simp: lm_wp_simps intro: lm_wp_mono)
qed

lemma lm_wp_upto:
  assumes "I 0 acc b"
    and "\<And>i acc b. i < n \<Longrightarrow> I i acc b \<Longrightarrow> lm_wp (body i acc) (I (Suc i)) b"
    and "\<And>acc b. I n acc b \<Longrightarrow> Q acc b"
  shows "lm_wp (lm_for body [0..<n] acc) Q b"
  using lm_wp_for [of I acc b "[0..<n]" body] assms by (auto intro: lm_wp_mono)

section \<open>Checked arithmetic\<close>

lemma u64_max: "unat (-1 - x :: u64) = size_max - unat x"
proof -
  have "unat (-1 :: u64) = size_max" by (simp add: unsigned_minus_1_eq_mask mask_eq_exp_minus_1)
  then show ?thesis by (simp add: unat_sub)
qed

lemma unat_u64_le: "unat (x :: u64) \<le> size_max"
  using unsigned_less [of x, where 'a = nat] by simp

lemma add_u64_Some: "add_u64 x y = Some z \<longleftrightarrow> unat x + unat y \<le> size_max \<and> unat z = unat x + unat y"
proof -
  have "x > -1 - y \<longleftrightarrow> unat x + unat y > size_max"
    using unat_u64_le [of y] by (auto simp: word_less_nat_alt u64_max)
  moreover have "unat (x + y) = unat x + unat y" if "unat x + unat y \<le> size_max"
    using that by (simp add: unat_word_ariths)
  ultimately show ?thesis by (auto simp: add_u64_def word_unat_eq_iff)
qed

lemma multiply_u64_Some:
  "multiply_u64 x y = Some z \<longleftrightarrow> unat x * unat y \<le> size_max \<and> unat z = unat x * unat y"
proof -
  have m: "unat (-1 :: u64) = size_max" using u64_max [of 0] by simp
  have "x \<noteq> 0 \<and> y > (-1) div x \<longleftrightarrow> unat x * unat y > size_max"
  proof (cases "x = 0")
    case False
    then have "0 < unat x" by (simp add: unat_gt_0)
    then have "size_max div unat x < unat y \<longleftrightarrow> size_max < unat x * unat y"
      by (simp add: div_less_iff_less_mult mult.commute)
    then show ?thesis using False by (simp add: word_less_nat_alt unat_div m)
  qed simp
  moreover have "unat (x * y) = unat x * unat y" if "unat x * unat y \<le> size_max"
    using that by (simp add: unat_word_ariths)
  ultimately show ?thesis by (auto simp: multiply_u64_def word_unat_eq_iff)
qed

lemma nat_and_pred_zero: "n AND (n - 1) = 0 \<Longrightarrow> 0 < n \<Longrightarrow> \<exists>k. n = 2 ^ k" for n :: nat
proof (induction n rule: less_induct)
  case (less n)
  have step: "n AND (n - 1) = of_bool (odd n \<and> odd (n - 1)) + 2 * ((n div 2) AND ((n - 1) div 2))"
    by (rule and_rec)
  show ?case
  proof (cases "odd n")
    case True
    then obtain m where n: "n = 2 * m + 1" by (elim oddE)
    then have "m AND m = 0" using less.prems(1) step by simp
    then show ?thesis using n by (intro exI [of _ 0]) simp
  next
    case False
    then have "even n" by simp
    then obtain m where n: "n = 2 * m" by (elim evenE)
    then have "(n - 1) div 2 = m - 1" "0 < m" using less.prems(2) by auto
    then have "m AND (m - 1) = 0" "m < n" using less.prems(1) step n by auto
    then obtain k where "m = 2 ^ k" using less.IH \<open>0 < m\<close> by blast
    then show ?thesis using n by (intro exI [of _ "Suc k"]) simp
  qed
qed

lemma u32_power_of_two:
  assumes "(a :: u32) \<noteq> 0" "a AND (a - 1) = 0"
  obtains k where "k < 32" "unat a = 2 ^ k"
proof -
  have "unat a AND (unat a - 1) = unat (a AND (a - 1))"
    using assms(1) by (simp add: unsigned_and_eq unat_minus_one)
  then have "\<exists>k. unat a = 2 ^ k"
    using assms by (intro nat_and_pred_zero) (simp_all add: unat_gt_0)
  then obtain k where k: "unat a = 2 ^ k" by blast
  then have "(2 :: nat) ^ k < 2 ^ 32" using unsigned_less [of a, where 'a = nat] by simp
  then have "k < 32" by (rule power_less_imp_less_exp [rotated]) simp
  then show thesis using that k by blast
qed

lemma u64_round_down: "unat (z AND NOT (mask k) :: u64) = unat z div 2 ^ k * 2 ^ k"
proof -
  have "unat (z AND NOT (mask k)) = push_bit k (drop_bit k (unat z))"
    by (rule bit_eqI) (auto simp: bit_simps dest: bit_imp_le_length)
  then show ?thesis by (simp add: push_bit_eq_mult drop_bit_eq_div)
qed

lemma align_up_Some:
  assumes "align_up x a = Some y"
  obtains k where "k < 32" "unat a = 2 ^ k" "unat y = (unat x + 2 ^ k - 1) div 2 ^ k * 2 ^ k"
proof -
  have a: "a \<noteq> 0" "a AND (a - 1) = 0" using assms by (auto simp: align_up_def split: if_splits)
  obtain k where k: "k < 32" "unat a = 2 ^ k" using u32_power_of_two [OF a] .
  let ?m = "ucast (a - 1) :: u64"
  have m1: "unat (a - 1) = 2 ^ k - 1" using a(1) k(2) by (simp add: unat_minus_one)
  have le: "(2::nat) ^ k \<le> 2 ^ 31" using k(1) by (intro power_increasing) auto
  have m: "unat ?m = 2 ^ k - 1"
    using m1 le by (simp add: unsigned_ucast_eq take_bit_nat_eq_self)
  have "a = of_nat (unat a)" by simp
  then have "a - 1 = mask k" unfolding k(2) by (simp add: mask_eq_exp_minus_1)
  then have mask: "?m = mask k" using k(1) by (simp add: ucast_mask_eq)
  have fits: "unat x + (2 ^ k - 1) \<le> size_max" and y: "y = (x + ?m) AND NOT ?m"
    using assms a unat_u64_le [of ?m] by (auto simp: align_up_def Let_def word_less_nat_alt u64_max m split: if_splits)
  have "unat (x + ?m) = unat x + (2 ^ k - 1)"
    using fits by (simp add: unat_word_ariths m)
  then have "unat y = (unat x + 2 ^ k - 1) div 2 ^ k * 2 ^ k"
    unfolding y by (simp add: mask u64_round_down)
  then show thesis using that k by blast
qed

lemma nat_round_up:
  assumes "(0 :: nat) < a"
  shows "(x + a - 1) div a * a mod a = 0" "x \<le> (x + a - 1) div a * a" "(x + a - 1) div a * a < x + a"
    "z mod a = 0 \<Longrightarrow> x \<le> z \<Longrightarrow> (x + a - 1) div a * a \<le> z"
proof -
  show "(x + a - 1) div a * a mod a = 0" by simp
  have d: "(x + a - 1) div a * a + (x + a - 1) mod a = x + a - 1" by simp
  have m: "(x + a - 1) mod a < a" using assms by simp
  show "x \<le> (x + a - 1) div a * a" "(x + a - 1) div a * a < x + a" using d m assms by linarith+
  assume "z mod a = 0" "x \<le> z"
  then obtain q where "z = q * a" by (metis dvdE mod_eq_0_iff_dvd mult.commute)
  moreover have "(x + a - 1) div a \<le> q"
    using \<open>x \<le> z\<close> calculation assms by (intro less_Suc_eq_le [THEN iffD1] iffD2 [OF div_less_iff_less_mult]) auto
  ultimately show "(x + a - 1) div a * a \<le> z" by simp
qed

lemma align_up_least:
  assumes "align_up x a = Some y"
  shows "unat y mod unat a = 0" "unat x \<le> unat y" "unat y < unat x + unat a"
    "z mod unat a = 0 \<Longrightarrow> unat x \<le> z \<Longrightarrow> unat y \<le> z"
proof -
  obtain k where k: "unat a = 2 ^ k" "unat y = (unat x + 2 ^ k - 1) div 2 ^ k * 2 ^ k"
    by (rule align_up_Some [OF assms])
  show "unat y mod unat a = 0" "unat x \<le> unat y" "unat y < unat x + unat a"
    "z mod unat a = 0 \<Longrightarrow> unat x \<le> z \<Longrightarrow> unat y \<le> z"
    using nat_round_up(1-3) [of "2 ^ k" "unat x"] nat_round_up(4) [of "2 ^ k" z "unat x"]
    by (simp_all only: k zero_less_power zero_less_numeral)
qed

end
