(* ===== verification/Layout_Correct.thy ===== *)
theory Layout_Correct
  imports Layout_Logic
begin

text \<open>
  What \<^verbatim>\<open>prepare_runtime_layout\<close> promises: it returns on every image; every value layout it hands
  out has a power-of-two alignment that divides its size; the bases and members of a record lie inside
  it, aligned and apart from each other (at offset zero in a union); and the objects and reference
  targets of the image are aligned and apart. The invariant \<open>layout_inv\<close> holds between the builder's
  calls, and \<open>layout_ext\<close> is what every call keeps: finished and unfinished slots and the offsets of
  their parts.
\<close>

section \<open>Values and parts of a layout\<close>

definition type_slot :: "'b runtime_layout_scheme \<Rightarrow> type_handle \<Rightarrow> layout_slot option" where
  "type_slot b h =
     (if h = 0 \<or> unat h > length (rl_type_slots b) then None else Some (rl_type_slots b ! unat (h - 1)))"

definition derived_slot :: "'b runtime_layout_scheme \<Rightarrow> type_ref \<Rightarrow> layout_slot option" where
  "derived_slot b t =
     (if tr_kind t \<noteq> type_ref_derived \<or> tr_payload t = 0 \<or> unat (tr_payload t) > length (rl_derived_slots b)
      then None else Some (rl_derived_slots b ! unat (tr_payload t - 1)))"

definition slot_value :: "layout_slot \<Rightarrow> runtime_value_layout option" where
  "slot_value s = (if ls_state s = slot_ready then Some (value_layout (ls_size s) (ls_alignment s)) else None)"

definition layout_value :: "abi_target \<Rightarrow> 'b runtime_layout_scheme \<Rightarrow> type_ref \<Rightarrow> runtime_value_layout option" where
  "layout_value target b t =
     (if \<not> tr_valid t then None
      else case tr_kind t of
          type_ref_intrinsic \<Rightarrow>
            if tr_payload t > 21 then None
            else (case intrinsic_layout (intrinsic_of (unat (tr_payload t))) target of
                    Inl _ \<Rightarrow> None | Inr x \<Rightarrow> Some x)
        | type_ref_named \<Rightarrow> Option.bind (type_slot b (tr_payload t)) slot_value
        | type_ref_derived \<Rightarrow> Option.bind (derived_slot b t) slot_value
        | type_ref_invalid \<Rightarrow> None)"

definition good_value :: "runtime_value_layout \<Rightarrow> bool" where
  "good_value x \<longleftrightarrow>
     unat (vl_alignment x) \<in> {1, 2, 4, 8, 16} \<and> unat (vl_size x) mod unat (vl_alignment x) = 0 \<and>
     0 < unat (vl_size x) \<and> unat (vl_size x) \<le> uint32_max"

definition pack_ok :: "server_abi_configuration \<Rightarrow> bool" where
  "pack_ok abi \<longleftrightarrow> unat (abi_pack abi) \<in> {1, 2, 4, 8, 16}"

text \<open>The alignment of a part under the pack value.\<close>

definition packed_alignment :: "server_abi_configuration \<Rightarrow> runtime_value_layout \<Rightarrow> nat" where
  "packed_alignment abi x = min (unat (vl_alignment x)) (unat (abi_pack abi))"

definition part_layout ::
    "compiled_project_view \<Rightarrow> abi_target \<Rightarrow> 'b runtime_layout_scheme \<Rightarrow> nat + nat \<Rightarrow> runtime_value_layout option" where
  "part_layout v target b p =
     (case p of
        Inl g \<Rightarrow> Option.bind (view_base_at v g) (\<lambda>base.
          if br_virtual_base base then None else Option.bind (type_slot b (br_type base)) slot_value)
      | Inr g \<Rightarrow> Option.bind (view_member_at v g) (\<lambda>member. layout_value target b (mr_type member)))"

definition part_offset :: "'b runtime_layout_scheme \<Rightarrow> nat + nat \<Rightarrow> nat" where
  "part_offset b p =
     (case p of Inl g \<Rightarrow> unat (rl_base_offsets b ! g) | Inr g \<Rightarrow> unat (rl_member_offsets b ! g))"

text \<open>A part that starts at or after \<open>lo\<close>, ends at or before \<open>hi\<close> and is aligned.\<close>

definition part_within ::
    "compiled_project_view \<Rightarrow> server_abi_configuration \<Rightarrow> 'b runtime_layout_scheme \<Rightarrow> nat \<Rightarrow> nat \<Rightarrow> nat \<Rightarrow> nat + nat \<Rightarrow> bool" where
  "part_within v abi b lo hi al p \<longleftrightarrow>
     (\<exists>x. part_layout v (abi_target_of abi) b p = Some x \<and>
        part_offset b p mod packed_alignment abi x = 0 \<and> packed_alignment abi x \<le> al \<and>
        lo \<le> part_offset b p \<and> part_offset b p + unat (vl_size x) \<le> hi)"

definition parts_apart ::
    "compiled_project_view \<Rightarrow> abi_target \<Rightarrow> 'b runtime_layout_scheme \<Rightarrow> nat + nat \<Rightarrow> nat + nat \<Rightarrow> bool" where
  "parts_apart v target b p q \<longleftrightarrow>
     (\<forall>x y. part_layout v target b p = Some x \<longrightarrow> part_layout v target b q = Some y \<longrightarrow>
        part_offset b p + unat (vl_size x) \<le> part_offset b q \<or>
        part_offset b q + unat (vl_size y) \<le> part_offset b p)"

definition polymorphic_base :: "compiled_project_view \<Rightarrow> nat \<Rightarrow> bool" where
  "polymorphic_base v g \<longleftrightarrow>
     (\<exists>base e. view_base_at v g = Some base \<and> view_type v (br_type base) = Some e \<and> te_polymorphic e)"

text \<open>The bytes of the virtual function pointer a record introduces itself.\<close>

definition own_vfptr_bytes :: "compiled_project_view \<Rightarrow> server_abi_configuration \<Rightarrow> type_handle \<Rightarrow> type_entry \<Rightarrow> nat" where
  "own_vfptr_bytes v abi h e =
     (if te_polymorphic e \<and> (\<forall>g\<in>type_bases v h. \<not> polymorphic_base v g)
      then (case abi_layout_properties (abi_target_of abi) of None \<Rightarrow> 0 | Some p \<Rightarrow> unat (pointer_size p))
      else 0)"

definition record_laid_out ::
    "compiled_project_view \<Rightarrow> server_abi_configuration \<Rightarrow> 'b runtime_layout_scheme \<Rightarrow> type_handle \<Rightarrow> layout_slot \<Rightarrow> bool" where
  "record_laid_out v abi b h s \<longleftrightarrow>
     (\<exists>e. view_type v h = Some e \<and> te_defined e \<and> unat (ls_alignment s) \<le> unat (abi_pack abi) \<and>
        (\<forall>p\<in>type_parts v h. part_within v abi b (own_vfptr_bytes v abi h e) (unat (ls_size s)) (unat (ls_alignment s)) p) \<and>
        (if te_record_kind e = union_type
         then \<forall>p\<in>type_parts v h. part_offset b p = 0
         else (\<forall>p\<in>type_parts v h. \<forall>q\<in>type_parts v h. p \<noteq> q \<longrightarrow> parts_apart v (abi_target_of abi) b p q) \<and>
              (\<forall>g\<in>type_members v h. \<forall>g'\<in>type_members v h. g < g' \<longrightarrow> part_offset b (Inr g) \<le> part_offset b (Inr g'))))"

definition derived_laid_out ::
    "compiled_project_view \<Rightarrow> server_abi_configuration \<Rightarrow> 'b runtime_layout_scheme \<Rightarrow> type_ref \<Rightarrow> layout_slot \<Rightarrow> bool" where
  "derived_laid_out v abi b t s \<longleftrightarrow>
     (\<exists>d. view_derived v t = Some d \<and>
        (if dr_kind d = 0 \<or> dr_kind d = 1
         then layout_value (abi_target_of abi) b (dr_child d) = Some (value_layout (ls_size s) (ls_alignment s))
         else if dr_kind d = 3 \<or> dr_kind d = 4
         then dr_child d \<in> set (rl_unconnected_types b) \<and>
              (\<exists>p. abi_layout_properties (abi_target_of abi) = Some p \<and> ls_size s = ucast (reference_size p))
         else if dr_kind d = 5
         then \<exists>x. layout_value (abi_target_of abi) b (dr_child d) = Some x \<and>
                unat (ls_size s) = unat (vl_size x) * unat (dr_payload d) \<and> ls_alignment s = vl_alignment x
         else dr_kind d = 2 \<and>
              (\<exists>p. abi_layout_properties (abi_target_of abi) = Some p \<and> ls_size s = ucast (pointer_size p))))"

section \<open>What every call keeps\<close>

definition slots_kept :: "layout_slot list \<Rightarrow> layout_slot list \<Rightarrow> bool" where
  "slots_kept xs ys \<longleftrightarrow> length ys = length xs \<and> (\<forall>i<length xs. ls_state (xs ! i) \<noteq> slot_empty \<longrightarrow> ys ! i = xs ! i)"

definition layout_ext :: "compiled_project_view \<Rightarrow> layout_builder \<Rightarrow> layout_builder \<Rightarrow> bool" where
  "layout_ext v b b' \<longleftrightarrow>
     slots_kept (rl_type_slots b) (rl_type_slots b') \<and> slots_kept (rl_derived_slots b) (rl_derived_slots b') \<and>
     (\<forall>h s. type_slot b h = Some s \<longrightarrow> ls_state s \<noteq> slot_empty \<longrightarrow> exclusive_parts v h \<longrightarrow>
        (\<forall>p\<in>type_parts v h. part_offset b' p = part_offset b p)) \<and>
     (\<exists>ys. rl_unconnected_types b' = rl_unconnected_types b @ ys) \<and>
     rl_object_offsets b' = rl_object_offsets b \<and> rl_target b' = rl_target b"

definition unvisited :: "layout_slot list \<Rightarrow> nat" where
  "unvisited xs = card {i. i < length xs \<and> ls_state (xs ! i) = slot_empty}"

definition unvisited_slots :: "layout_builder \<Rightarrow> nat" where
  "unvisited_slots b = unvisited (rl_type_slots b) + unvisited (rl_derived_slots b)"

lemma slots_kept_refl [simp]: "slots_kept xs xs"
  by (simp add: slots_kept_def)

lemma slots_kept_trans: "slots_kept xs ys \<Longrightarrow> slots_kept ys zs \<Longrightarrow> slots_kept xs zs"
  by (simp add: slots_kept_def)

lemma slots_kept_unvisited: "slots_kept xs ys \<Longrightarrow> unvisited ys \<le> unvisited xs"
  unfolding unvisited_def slots_kept_def by (intro card_mono) auto

lemma slots_kept_update:
  "slots_kept xs ys \<Longrightarrow> i < length xs \<Longrightarrow> ls_state (xs ! i) = slot_empty \<Longrightarrow> slots_kept xs (ys[i := s])"
  by (auto simp: slots_kept_def nth_list_update)

lemma unvisited_visit:
  assumes "i < length xs" "ls_state (xs ! i) = slot_empty" "ls_state s \<noteq> slot_empty"
  shows "unvisited (xs[i := s]) < unvisited xs"
  unfolding unvisited_def using assms
  by (intro psubset_card_mono psubsetI) (auto simp: nth_list_update)

lemma handle_index: "(h :: u32) \<noteq> 0 \<Longrightarrow> unat h \<le> n \<Longrightarrow> unat (h - 1) < n"
  using unat_gt_0 [of h] by (simp add: unat_minus_one)

lemma type_slot_kept:
  "slots_kept (rl_type_slots b) (rl_type_slots b') \<Longrightarrow> type_slot b h = Some s \<Longrightarrow> ls_state s \<noteq> slot_empty \<Longrightarrow>
     type_slot b' h = Some s"
  by (auto simp: type_slot_def slots_kept_def handle_index not_less split: if_splits)

lemma derived_slot_kept:
  "slots_kept (rl_derived_slots b) (rl_derived_slots b') \<Longrightarrow> derived_slot b t = Some s \<Longrightarrow>
     ls_state s \<noteq> slot_empty \<Longrightarrow> derived_slot b' t = Some s"
  by (auto simp: derived_slot_def slots_kept_def handle_index not_less split: if_splits)

lemma layout_ext_refl [simp]: "layout_ext v b b"
  by (simp add: layout_ext_def)

lemma layout_ext_trans: "layout_ext v a b \<Longrightarrow> layout_ext v b c \<Longrightarrow> layout_ext v a c"
  unfolding layout_ext_def by (auto intro: slots_kept_trans dest: type_slot_kept)

lemma layout_ext_unvisited: "layout_ext v b b' \<Longrightarrow> unvisited_slots b' \<le> unvisited_slots b"
  by (auto simp: layout_ext_def unvisited_slots_def intro: add_mono slots_kept_unvisited)

definition ready_kept :: "layout_slot list \<Rightarrow> layout_slot list \<Rightarrow> bool" where
  "ready_kept xs ys \<longleftrightarrow> length ys = length xs \<and> (\<forall>i<length xs. ls_state (xs ! i) = slot_ready \<longrightarrow> ys ! i = xs ! i)"

lemma slots_kept_ready: "slots_kept xs ys \<Longrightarrow> ready_kept xs ys"
  by (simp add: slots_kept_def ready_kept_def)

lemma type_slot_ready:
  "ready_kept (rl_type_slots b) (rl_type_slots b') \<Longrightarrow> type_slot b h = Some s \<Longrightarrow> ls_state s = slot_ready \<Longrightarrow>
     type_slot b' h = Some s"
  by (auto simp: type_slot_def ready_kept_def handle_index not_less split: if_splits)

lemma derived_slot_ready:
  "ready_kept (rl_derived_slots b) (rl_derived_slots b') \<Longrightarrow> derived_slot b t = Some s \<Longrightarrow>
     ls_state s = slot_ready \<Longrightarrow> derived_slot b' t = Some s"
  by (auto simp: derived_slot_def ready_kept_def handle_index not_less split: if_splits)

lemma ready_kept_value:
  "ready_kept (rl_type_slots b) (rl_type_slots b') \<Longrightarrow> ready_kept (rl_derived_slots b) (rl_derived_slots b') \<Longrightarrow>
     layout_value target b t = Some x \<Longrightarrow> layout_value target b' t = Some x"
  by (auto simp: layout_value_def slot_value_def bind_eq_Some_conv
      dest: type_slot_ready derived_slot_ready split: if_splits type_ref_kind.splits)

lemma ready_kept_part:
  "ready_kept (rl_type_slots b) (rl_type_slots b') \<Longrightarrow> ready_kept (rl_derived_slots b) (rl_derived_slots b') \<Longrightarrow>
     part_layout v target b p = Some x \<Longrightarrow> part_layout v target b' p = Some x"
  by (auto simp: part_layout_def slot_value_def bind_eq_Some_conv
      dest: type_slot_ready ready_kept_value split: if_splits sum.splits)

lemma layout_value_kept:
  "layout_ext v b b' \<Longrightarrow> layout_value target b t = Some x \<Longrightarrow> layout_value target b' t = Some x"
  by (auto simp: layout_ext_def intro: ready_kept_value slots_kept_ready)

text \<open>
  Parts of a slot that is not empty: their layouts can only become defined, and if the type owns its
  parts their offsets stay.
\<close>

lemma part_within_kept:
  assumes "ready_kept (rl_type_slots b) (rl_type_slots b')" "ready_kept (rl_derived_slots b) (rl_derived_slots b')"
    "part_offset b' p = part_offset b p" "part_within v abi b lo hi al p"
  shows "part_within v abi b' lo hi al p"
  using assms by (auto simp: part_within_def intro: ready_kept_part)

lemma parts_apart_kept:
  assumes "ready_kept (rl_type_slots b) (rl_type_slots b')" "ready_kept (rl_derived_slots b) (rl_derived_slots b')"
    "part_offset b' p = part_offset b p" "part_offset b' q = part_offset b q"
    "part_within v abi b lo hi al p" "part_within v abi b lo' hi' al' q"
    "parts_apart v (abi_target_of abi) b p q"
  shows "parts_apart v (abi_target_of abi) b' p q"
proof -
  obtain x y where xy: "part_layout v (abi_target_of abi) b p = Some x" "part_layout v (abi_target_of abi) b q = Some y"
    using assms(5,6) by (auto simp: part_within_def)
  then show ?thesis
    using assms(3,4,7) ready_kept_part [OF assms(1,2)] by (simp add: parts_apart_def)
qed

lemma record_laid_out_kept:
  assumes "ready_kept (rl_type_slots b) (rl_type_slots b')" "ready_kept (rl_derived_slots b) (rl_derived_slots b')"
    "\<forall>p\<in>type_parts v h. part_offset b' p = part_offset b p" "record_laid_out v abi b h s"
  shows "record_laid_out v abi b' h s"
proof -
  obtain e where e: "view_type v h = Some e" "te_defined e" "unat (ls_alignment s) \<le> unat (abi_pack abi)"
    and within: "\<And>p. p \<in> type_parts v h \<Longrightarrow>
      part_within v abi b (own_vfptr_bytes v abi h e) (unat (ls_size s)) (unat (ls_alignment s)) p"
    and shape: "if te_record_kind e = union_type then \<forall>p\<in>type_parts v h. part_offset b p = 0
      else (\<forall>p\<in>type_parts v h. \<forall>q\<in>type_parts v h. p \<noteq> q \<longrightarrow> parts_apart v (abi_target_of abi) b p q) \<and>
        (\<forall>g\<in>type_members v h. \<forall>g'\<in>type_members v h. g < g' \<longrightarrow> part_offset b (Inr g) \<le> part_offset b (Inr g'))"
    using assms(4) unfolding record_laid_out_def by blast
  have "part_within v abi b' (own_vfptr_bytes v abi h e) (unat (ls_size s)) (unat (ls_alignment s)) p"
    if "p \<in> type_parts v h" for p
    using part_within_kept [OF assms(1,2) _ within [OF that]] assms(3) that by simp
  moreover have "parts_apart v (abi_target_of abi) b' p q"
    if "p \<in> type_parts v h" "q \<in> type_parts v h" "parts_apart v (abi_target_of abi) b p q" for p q
    using parts_apart_kept [OF assms(1,2) _ _ within [OF that(1)] within [OF that(2)] that(3)] assms(3) that by simp
  moreover have "Inr g \<in> type_parts v h" if "g \<in> type_members v h" for g
    using that by (simp add: type_parts_def)
  ultimately show ?thesis
    unfolding record_laid_out_def using e shape assms(3) by (intro exI [of _ e]) (auto split: if_splits)
qed

lemma derived_laid_out_kept:
  assumes "ready_kept (rl_type_slots b) (rl_type_slots b')" "ready_kept (rl_derived_slots b) (rl_derived_slots b')"
    "set (rl_unconnected_types b) \<subseteq> set (rl_unconnected_types b')" "derived_laid_out v abi b t s"
  shows "derived_laid_out v abi b' t s"
  using assms(3,4) ready_kept_value [OF assms(1,2)] unfolding derived_laid_out_def
  by (auto split: if_splits)


section \<open>The invariant of the builder\<close>

definition pending :: "u64 list \<Rightarrow> nat" where
  "pending xs = length (filter (\<lambda>x. x = pending_offset) xs)"

definition unconnected_ok :: "layout_builder \<Rightarrow> bool" where
  "unconnected_ok b \<longleftrightarrow>
     distinct (rl_unconnected_types b) \<and>
     (\<forall>t\<in>set (rl_unconnected_types b). tr_valid t \<and> unconnected_slot b t = Some pending_offset) \<and>
     (\<forall>t off. tr_valid t \<longrightarrow> unconnected_slot b t = Some off \<longrightarrow> off \<noteq> invalid_offset \<longrightarrow>
        t \<in> set (rl_unconnected_types b)) \<and>
     length (rl_unconnected_types b) =
       pending (rl_unconnected_intrinsic_offsets b) + pending (rl_unconnected_type_offsets b) +
       pending (rl_unconnected_derived_offsets b)"

definition layout_sizes :: "compiled_project_view \<Rightarrow> layout_builder \<Rightarrow> bool" where
  "layout_sizes v b \<longleftrightarrow>
     length (rl_type_slots b) = type_count_value v \<and>
     length (rl_derived_slots b) = sec_count (derived_types_section v) \<and>
     length (rl_member_offsets b) = sec_count (members_section v) \<and>
     length (rl_base_offsets b) = sec_count (bases_section v) \<and>
     length (rl_object_offsets b) = object_count_value v \<and>
     length (rl_unconnected_intrinsic_offsets b) = intrinsic_slot_count \<and>
     length (rl_unconnected_type_offsets b) = type_count_value v \<and>
     length (rl_unconnected_derived_offsets b) = sec_count (derived_types_section v)"

definition type_slot_ok ::
    "compiled_project_view \<Rightarrow> server_abi_configuration \<Rightarrow> 'b runtime_layout_scheme \<Rightarrow> type_handle \<Rightarrow> layout_slot \<Rightarrow> bool" where
  "type_slot_ok v abi b h s \<longleftrightarrow>
     good_value (value_layout (ls_size s) (ls_alignment s)) \<and>
     (exclusive_parts v h \<longrightarrow> record_laid_out v abi b h s)"

definition derived_slot_ok ::
    "compiled_project_view \<Rightarrow> server_abi_configuration \<Rightarrow> 'b runtime_layout_scheme \<Rightarrow> type_ref \<Rightarrow> layout_slot \<Rightarrow> bool" where
  "derived_slot_ok v abi b t s \<longleftrightarrow>
     good_value (value_layout (ls_size s) (ls_alignment s)) \<and> derived_laid_out v abi b t s"

definition layout_inv :: "compiled_project_view \<Rightarrow> server_abi_configuration \<Rightarrow> layout_builder \<Rightarrow> bool" where
  "layout_inv v abi b \<longleftrightarrow>
     layout_sizes v b \<and> unconnected_ok b \<and>
     (\<forall>h s. type_slot b h = Some s \<longrightarrow> ls_state s = slot_ready \<longrightarrow> type_slot_ok v abi b h s) \<and>
     (\<forall>t s. derived_slot b t = Some s \<longrightarrow> ls_state s = slot_ready \<longrightarrow> derived_slot_ok v abi b t s)"

lemma layout_inv_step:
  assumes inv: "layout_inv v abi b" and sizes: "layout_sizes v b'" "unconnected_ok b'"
    and kept: "ready_kept (rl_type_slots b) (rl_type_slots b')" "ready_kept (rl_derived_slots b) (rl_derived_slots b')"
    and offsets: "\<And>h s. type_slot b h = Some s \<Longrightarrow> ls_state s = slot_ready \<Longrightarrow> exclusive_parts v h \<Longrightarrow>
      \<forall>p\<in>type_parts v h. part_offset b' p = part_offset b p"
    and types: "set (rl_unconnected_types b) \<subseteq> set (rl_unconnected_types b')"
    and new: "\<And>h s. type_slot b' h = Some s \<Longrightarrow> ls_state s = slot_ready \<Longrightarrow>
      type_slot b h = Some s \<or> type_slot_ok v abi b' h s"
      "\<And>t s. derived_slot b' t = Some s \<Longrightarrow> ls_state s = slot_ready \<Longrightarrow>
      derived_slot b t = Some s \<or> derived_slot_ok v abi b' t s"
  shows "layout_inv v abi b'"
proof -
  have "type_slot_ok v abi b' h s" if h: "type_slot b' h = Some s" "ls_state s = slot_ready" for h s
    using new(1) [OF h]
  proof
    assume s: "type_slot b h = Some s"
    then have "type_slot_ok v abi b h s" using inv h(2) by (simp add: layout_inv_def)
    then show ?thesis
      using record_laid_out_kept [OF kept offsets [OF s h(2)]] by (simp add: type_slot_ok_def)
  qed
  moreover have "derived_slot_ok v abi b' t s" if t: "derived_slot b' t = Some s" "ls_state s = slot_ready" for t s
    using new(2) [OF t]
  proof
    assume "derived_slot b t = Some s"
    then have "derived_slot_ok v abi b t s" using inv t(2) by (simp add: layout_inv_def)
    then show ?thesis
      using derived_laid_out_kept [OF kept types] by (simp add: derived_slot_ok_def)
  qed
  ultimately show ?thesis using sizes by (simp add: layout_inv_def)
qed

section \<open>Steps of the builder\<close>

lemma truncate_fields:
  assumes "runtime_layout.truncate b' = runtime_layout.truncate b"
  shows "rl_type_slots b' = rl_type_slots b" "rl_derived_slots b' = rl_derived_slots b"
    "rl_member_offsets b' = rl_member_offsets b" "rl_base_offsets b' = rl_base_offsets b"
    "rl_object_offsets b' = rl_object_offsets b" "rl_unconnected_types b' = rl_unconnected_types b"
    "rl_unconnected_intrinsic_offsets b' = rl_unconnected_intrinsic_offsets b"
    "rl_unconnected_type_offsets b' = rl_unconnected_type_offsets b"
    "rl_unconnected_derived_offsets b' = rl_unconnected_derived_offsets b" "rl_target b' = rl_target b"
  using assms by (simp_all add: runtime_layout.truncate_def)

lemma same_slots: "rl_type_slots b' = rl_type_slots b \<Longrightarrow> type_slot b' h = type_slot b h"
  "rl_derived_slots b' = rl_derived_slots b \<Longrightarrow> derived_slot b' t = derived_slot b t"
  by (simp_all add: type_slot_def derived_slot_def)

lemma same_offset:
  "rl_member_offsets b' = rl_member_offsets b \<Longrightarrow> rl_base_offsets b' = rl_base_offsets b \<Longrightarrow>
     part_offset b' p = part_offset b p"
  by (simp add: part_offset_def split: sum.splits)

lemma ready_kept_refl [simp]: "ready_kept xs xs"
  by (simp add: ready_kept_def)

lemma same_unconnected:
  assumes "rl_unconnected_intrinsic_offsets b' = rl_unconnected_intrinsic_offsets b"
    "rl_unconnected_type_offsets b' = rl_unconnected_type_offsets b"
    "rl_unconnected_derived_offsets b' = rl_unconnected_derived_offsets b"
  shows "unconnected_slot b' t = unconnected_slot b t"
  by (simp only: unconnected_slot_def assms)

lemma truncate_ext:
  assumes "runtime_layout.truncate b' = runtime_layout.truncate b"
  shows "layout_ext v b b'"
  using same_offset [of b' b] by (simp add: layout_ext_def truncate_fields [OF assms])

lemma truncate_inv:
  assumes "runtime_layout.truncate b' = runtime_layout.truncate b" "layout_inv v abi b"
  shows "layout_inv v abi b'"
proof -
  note same = truncate_fields [OF assms(1)]
  show ?thesis
    by (rule layout_inv_step [OF assms(2)])
      (use assms(2) in \<open>auto simp: same same_slots(1) [OF same(1)] same_slots(2) [OF same(2)] same_offset [OF same(3,4)]
        same_unconnected [OF same(7-9)] layout_inv_def layout_sizes_def unconnected_ok_def\<close>)
qed

text \<open>A record whose slot is marked as being visited, since the state \<open>b0\<close> where it was empty.\<close>

definition in_progress ::
    "compiled_project_view \<Rightarrow> server_abi_configuration \<Rightarrow> layout_builder \<Rightarrow> type_handle \<Rightarrow> layout_builder \<Rightarrow> bool" where
  "in_progress v abi b0 h b \<longleftrightarrow>
     layout_inv v abi b \<and> layout_ext v b0 b \<and> unvisited_slots b < unvisited_slots b0 \<and>
     (\<exists>s. type_slot b0 h = Some s \<and> ls_state s = slot_empty) \<and>
     (\<exists>s. type_slot b h = Some s \<and> ls_state s = slot_visiting)"

lemma in_progress_step:
  assumes "in_progress v abi b0 h b" "layout_ext v b b'" "layout_inv v abi b'"
  shows "in_progress v abi b0 h b'"
    "exclusive_parts v h \<Longrightarrow> p \<in> type_parts v h \<Longrightarrow> part_offset b' p = part_offset b p"
proof -
  obtain s where s: "type_slot b h = Some s" "ls_state s = slot_visiting"
    using assms(1) by (auto simp: in_progress_def)
  have kept: "type_slot b' h = Some s"
    using type_slot_kept [of b b' h s] assms(2) s by (simp add: layout_ext_def)
  then show "in_progress v abi b0 h b'"
    using assms s layout_ext_trans layout_ext_unvisited [OF assms(2)] by (auto simp: in_progress_def)
  show "exclusive_parts v h \<Longrightarrow> p \<in> type_parts v h \<Longrightarrow> part_offset b' p = part_offset b p"
    using assms(2) s by (simp add: layout_ext_def)
qed

lemma exclusive_partsD:
  "exclusive_parts v h' \<Longrightarrow> h' \<noteq> h \<Longrightarrow> p \<in> type_parts v h \<Longrightarrow> q \<in> type_parts v h' \<Longrightarrow> q \<noteq> p"
  by (auto simp: exclusive_parts_def)

text \<open>Writing the offset of a part of the record in progress disturbs no other record that owns its parts.\<close>

lemma in_progress_write:
  assumes prog: "in_progress v abi b0 h b" and p: "p \<in> type_parts v h"
    and same: "rl_type_slots b' = rl_type_slots b" "rl_derived_slots b' = rl_derived_slots b"
      "rl_object_offsets b' = rl_object_offsets b" "rl_unconnected_types b' = rl_unconnected_types b"
      "rl_unconnected_intrinsic_offsets b' = rl_unconnected_intrinsic_offsets b"
      "rl_unconnected_type_offsets b' = rl_unconnected_type_offsets b"
      "rl_unconnected_derived_offsets b' = rl_unconnected_derived_offsets b"
      "length (rl_member_offsets b') = length (rl_member_offsets b)"
      "length (rl_base_offsets b') = length (rl_base_offsets b)" "rl_target b' = rl_target b"
    and others: "\<And>q. q \<noteq> p \<Longrightarrow> part_offset b' q = part_offset b q"
  shows "in_progress v abi b0 h b'"
proof -
  have b: "layout_inv v abi b" "layout_ext v b0 b" using prog by (simp_all add: in_progress_def)
  obtain s where s: "type_slot b h = Some s" "ls_state s = slot_visiting"
    using prog by (auto simp: in_progress_def)
  obtain s0 where s0: "type_slot b0 h = Some s0" "ls_state s0 = slot_empty"
    using prog by (auto simp: in_progress_def)
  note unc = same_unconnected [OF same(5-7)]
  have away: "\<forall>q\<in>type_parts v h'. part_offset b' q = part_offset b q"
    if "exclusive_parts v h'" "h' \<noteq> h" for h'
    using exclusive_partsD [OF that p] others by blast
  have "layout_inv v abi b'"
  proof (rule layout_inv_step [OF b(1)])
    show "\<forall>q\<in>type_parts v h'. part_offset b' q = part_offset b q"
      if h': "type_slot b h' = Some s'" "ls_state s' = slot_ready" "exclusive_parts v h'" for h' s'
    proof -
      have "h' \<noteq> h" using h'(1,2) s by auto
      then show ?thesis using away h'(3) by simp
    qed
  qed (use b(1) in \<open>auto simp: layout_inv_def layout_sizes_def unconnected_ok_def same
      same_slots(1) [OF same(1)] same_slots(2) [OF same(2)] unc\<close>)
  moreover have "layout_ext v b0 b'"
    unfolding layout_ext_def
  proof (intro conjI allI impI)
    fix h' s' assume h': "type_slot b0 h' = Some s'" "ls_state s' \<noteq> slot_empty" "exclusive_parts v h'"
    then have "h' \<noteq> h" using s0 by auto
    then show "\<forall>q\<in>type_parts v h'. part_offset b' q = part_offset b0 q"
      using away [OF h'(3)] b(2) h' by (auto simp: layout_ext_def)
  qed (use b(2) in \<open>simp_all add: layout_ext_def same\<close>)
  ultimately show ?thesis
    using prog by (simp add: in_progress_def unvisited_slots_def same same_slots(1) [OF same(1)])
qed

lemma part_offset_write:
  "q \<noteq> Inr g \<Longrightarrow> part_offset (b\<lparr>rl_member_offsets := (rl_member_offsets b)[g := x]\<rparr>) q = part_offset b q"
  "q \<noteq> Inl g \<Longrightarrow> part_offset (b\<lparr>rl_base_offsets := (rl_base_offsets b)[g := x]\<rparr>) q = part_offset b q"
  by (cases q; simp add: part_offset_def)+

lemma in_progress_write_member:
  assumes "in_progress v abi b0 h b" "g \<in> type_members v h"
  shows "in_progress v abi b0 h (b\<lparr>rl_member_offsets := (rl_member_offsets b)[g := x]\<rparr>)"
  by (rule in_progress_write [OF assms(1), of "Inr g"])
    (use assms(2) in \<open>simp_all add: type_parts_def part_offset_write\<close>)

lemma in_progress_write_base:
  assumes "in_progress v abi b0 h b" "g \<in> type_bases v h"
  shows "in_progress v abi b0 h (b\<lparr>rl_base_offsets := (rl_base_offsets b)[g := x]\<rparr>)"
  by (rule in_progress_write [OF assms(1), of "Inl g"])
    (use assms(2) in \<open>simp_all add: type_parts_def part_offset_write\<close>)

lemma type_slot_set:
  assumes "h \<noteq> 0"
  shows "type_slot (set_type_slot (unat (h - 1)) s b) h' =
    (if h' = h \<and> unat h \<le> length (rl_type_slots b) then Some s else type_slot b h')"
proof (cases "h' = h")
  case True
  then show ?thesis
    using assms handle_index [of h "length (rl_type_slots b)"] by (simp add: type_slot_def set_type_slot_def)
next
  case False
  then have "unat (h - 1) \<noteq> unat (h' - 1)" by (simp add: word_unat_eq_iff [symmetric])
  then show ?thesis using False by (simp add: type_slot_def set_type_slot_def)
qed

lemma type_slot_index:
  "type_slot b h = Some s \<Longrightarrow>
     unat (h - 1) < length (rl_type_slots b) \<and> rl_type_slots b ! unat (h - 1) = s \<and> unat h \<le> length (rl_type_slots b)"
  using handle_index [of h "length (rl_type_slots b)"] by (auto simp: type_slot_def split: if_splits)

lemma set_type_slot_fields [simp]:
  "rl_type_slots (set_type_slot i s b) = (rl_type_slots b)[i := s]"
  "rl_derived_slots (set_type_slot i s b) = rl_derived_slots b"
  "rl_member_offsets (set_type_slot i s b) = rl_member_offsets b"
  "rl_base_offsets (set_type_slot i s b) = rl_base_offsets b"
  "rl_object_offsets (set_type_slot i s b) = rl_object_offsets b"
  "rl_target (set_type_slot i s b) = rl_target b"
  "rl_unconnected_types (set_type_slot i s b) = rl_unconnected_types b"
  "rl_unconnected_intrinsic_offsets (set_type_slot i s b) = rl_unconnected_intrinsic_offsets b"
  "rl_unconnected_type_offsets (set_type_slot i s b) = rl_unconnected_type_offsets b"
  "rl_unconnected_derived_offsets (set_type_slot i s b) = rl_unconnected_derived_offsets b"
  "derived_slot (set_type_slot i s b) t = derived_slot b t"
  "part_offset (set_type_slot i s b) p = part_offset b p"
  "unconnected_slot (set_type_slot i s b) t = unconnected_slot b t"
  unfolding set_type_slot_def
  by ((simp; fail) | (rule same_slots same_offset same_unconnected; simp; fail))+

lemma layout_inv_set_type:
  assumes inv: "layout_inv v abi b" and h: "h \<noteq> 0" and old: "type_slot b h = Some s0" "ls_state s0 \<noteq> slot_ready"
    and s: "ls_state s = slot_ready \<Longrightarrow> type_slot_ok v abi (set_type_slot (unat (h - 1)) s b) h s"
  shows "layout_inv v abi (set_type_slot (unat (h - 1)) s b)"
proof (rule layout_inv_step [OF inv])
  show "ready_kept (rl_type_slots b) (rl_type_slots (set_type_slot (unat (h - 1)) s b))"
    using type_slot_index [OF old(1)] old(2) by (auto simp: ready_kept_def nth_list_update)
  show "type_slot b h' = Some s' \<or> type_slot_ok v abi (set_type_slot (unat (h - 1)) s b) h' s'"
    if "type_slot (set_type_slot (unat (h - 1)) s b) h' = Some s'" "ls_state s' = slot_ready" for h' s'
    using that s by (auto simp: type_slot_set [OF h] split: if_splits)
qed (use inv in \<open>auto simp: layout_inv_def layout_sizes_def unconnected_ok_def\<close>)

lemma layout_ext_set_type:
  assumes ext: "layout_ext v b0 b" and h: "h \<noteq> 0" and old: "type_slot b0 h = Some s0" "ls_state s0 = slot_empty"
  shows "layout_ext v b0 (set_type_slot (unat (h - 1)) s b)"
proof -
  have "unat (h - 1) < length (rl_type_slots b0)" "ls_state (rl_type_slots b0 ! unat (h - 1)) = slot_empty"
    using type_slot_index [OF old(1)] old(2) by auto
  then show ?thesis
    using ext by (auto simp: layout_ext_def intro: slots_kept_update)
qed

lemma in_progress_start:
  assumes inv: "layout_inv v abi b0" and h: "h \<noteq> 0" and old: "type_slot b0 h = Some s0" "ls_state s0 = slot_empty"
  shows "in_progress v abi b0 h (set_type_slot (unat (h - 1)) (s0\<lparr>ls_state := slot_visiting\<rparr>) b0)"
    (is "in_progress v abi b0 h ?b")
proof -
  have i: "unat (h - 1) < length (rl_type_slots b0)" "ls_state (rl_type_slots b0 ! unat (h - 1)) = slot_empty"
    using type_slot_index [OF old(1)] old(2) by auto
  have "layout_inv v abi ?b"
    by (rule layout_inv_set_type [OF inv h old(1)]) (simp_all add: old(2))
  moreover have "layout_ext v b0 ?b"
    by (rule layout_ext_set_type [OF _ h old]) simp
  moreover have "unvisited_slots ?b < unvisited_slots b0"
    using unvisited_visit [OF i, of "s0\<lparr>ls_state := slot_visiting\<rparr>"] by (simp add: unvisited_slots_def)
  moreover have "type_slot ?b h = Some (s0\<lparr>ls_state := slot_visiting\<rparr>)"
    using type_slot_index [OF old(1)] by (simp add: type_slot_set [OF h])
  ultimately show ?thesis using old by (simp add: in_progress_def)
qed

lemma in_progress_finish:
  assumes prog: "in_progress v abi b0 h b" and h: "h \<noteq> 0"
    and ok: "type_slot_ok v abi (set_type_slot (unat (h - 1)) s b) h s"
  shows "layout_inv v abi (set_type_slot (unat (h - 1)) s b)" "layout_ext v b0 (set_type_slot (unat (h - 1)) s b)"
    "type_slot (set_type_slot (unat (h - 1)) s b) h = Some s"
proof -
  obtain s1 s0 where s: "type_slot b h = Some s1" "ls_state s1 = slot_visiting"
    "type_slot b0 h = Some s0" "ls_state s0 = slot_empty" "layout_inv v abi b" "layout_ext v b0 b"
    using prog by (auto simp: in_progress_def)
  show "layout_inv v abi (set_type_slot (unat (h - 1)) s b)"
    by (rule layout_inv_set_type [OF s(5) h s(1)]) (simp_all add: s ok)
  show "layout_ext v b0 (set_type_slot (unat (h - 1)) s b)"
    by (rule layout_ext_set_type [OF s(6) h s(3,4)])
  show "type_slot (set_type_slot (unat (h - 1)) s b) h = Some s"
    using type_slot_index [OF s(1)] by (simp add: type_slot_set [OF h])
qed

section \<open>Placing parts\<close>

definition placed ::
    "compiled_project_view \<Rightarrow> server_abi_configuration \<Rightarrow> 'b runtime_layout_scheme \<Rightarrow> nat \<Rightarrow> (nat + nat) set \<Rightarrow> nat \<Rightarrow> nat \<Rightarrow> bool" where
  "placed v abi b lo S hi al \<longleftrightarrow>
     (\<forall>p\<in>S. part_within v abi b lo hi al p) \<and>
     (\<forall>p\<in>S. \<forall>q\<in>S. p \<noteq> q \<longrightarrow> parts_apart v (abi_target_of abi) b p q)"

definition ascending :: "'b runtime_layout_scheme \<Rightarrow> nat set \<Rightarrow> bool" where
  "ascending b G \<longleftrightarrow> (\<forall>g\<in>G. \<forall>g'\<in>G. g < g' \<longrightarrow> part_offset b (Inr g) \<le> part_offset b (Inr g'))"

lemma placed_empty [simp]: "placed v abi b lo {} hi al"
  by (simp add: placed_def)

lemma part_within_mono:
  "part_within v abi b lo hi al p \<Longrightarrow> hi \<le> hi' \<Longrightarrow> al \<le> al' \<Longrightarrow> part_within v abi b lo hi' al' p"
  unfolding part_within_def by fastforce

lemma placed_kept:
  assumes "placed v abi b lo S hi al"
    "ready_kept (rl_type_slots b) (rl_type_slots b')" "ready_kept (rl_derived_slots b) (rl_derived_slots b')"
    "\<And>p. p \<in> S \<Longrightarrow> part_offset b' p = part_offset b p"
  shows "placed v abi b' lo S hi al"
  using assms part_within_kept [OF assms(2,3)] parts_apart_kept [OF assms(2,3)]
  unfolding placed_def by metis

lemma placed_insert:
  assumes S: "placed v abi b lo S hi al" "p \<notin> S"
    and kept: "ready_kept (rl_type_slots b) (rl_type_slots b')" "ready_kept (rl_derived_slots b) (rl_derived_slots b')"
      "\<And>q. q \<noteq> p \<Longrightarrow> part_offset b' q = part_offset b q"
    and p: "part_layout v (abi_target_of abi) b p = Some x" "part_offset b' p mod packed_alignment abi x = 0"
      "packed_alignment abi x \<le> al'" "al \<le> al'" "lo \<le> part_offset b' p" "hi \<le> part_offset b' p"
  shows "placed v abi b' lo (insert p S) (part_offset b' p + unat (vl_size x)) al'"
proof -
  have off: "part_offset b' q = part_offset b q" if "q \<in> S" for q
    using kept(3) S(2) that by metis
  have "placed v abi b' lo S hi al" by (rule placed_kept [OF S(1) kept(1,2) off])
  then have old: "part_within v abi b' lo hi al q" "q' \<in> S \<Longrightarrow> q \<noteq> q' \<Longrightarrow> parts_apart v (abi_target_of abi) b' q q'"
    if "q \<in> S" for q q'
    using that by (auto simp: placed_def)
  have x: "part_layout v (abi_target_of abi) b' p = Some x" by (rule ready_kept_part [OF kept(1,2) p(1)])
  have "parts_apart v (abi_target_of abi) b' p q" "parts_apart v (abi_target_of abi) b' q p" if "q \<in> S" for q
    using old(1) [OF that] p(6) by (auto simp: parts_apart_def part_within_def)
  moreover have "part_within v abi b' lo (part_offset b' p + unat (vl_size x)) al' q" if "q \<in> S" for q
    using part_within_mono [OF old(1) [OF that]] p(4,6) by (simp add: trans_le_add1)
  moreover have "part_within v abi b' lo (part_offset b' p + unat (vl_size x)) al' p"
    using x p(2,3,5) by (auto simp: part_within_def)
  ultimately show ?thesis using old(2) by (auto simp: placed_def)
qed

lemma unat_max: "unat (max x y :: u32) = max (unat x) (unat y)"
  by (simp add: max_def word_le_nat_alt)

lemma unat_min: "unat (min x y :: u32) = min (unat x) (unat y)"
  by (simp add: min_def word_le_nat_alt)

definition small_power :: "nat \<Rightarrow> bool" where
  "small_power a \<longleftrightarrow> a \<in> {1, 2, 4, 8, 16}"

lemma small_power_max: "small_power x \<Longrightarrow> small_power y \<Longrightarrow> small_power (max x y)"
  by (simp add: max_def)

lemma small_power_min: "small_power x \<Longrightarrow> small_power y \<Longrightarrow> small_power (min x y)"
  by (simp add: min_def)

lemma packed_small: "good_value x \<Longrightarrow> pack_ok abi \<Longrightarrow> small_power (packed_alignment abi x)"
  unfolding packed_alignment_def
  by (rule small_power_min) (simp_all add: good_value_def pack_ok_def small_power_def)

lemma unat_record_offset:
  "(a :: u64) < ucast invalid_record_offset \<Longrightarrow> unat (ucast a :: u32) = unat a"
proof -
  assume "a < ucast invalid_record_offset"
  moreover have "unat (ucast invalid_record_offset :: u64) = uint32_max"
    by (simp add: invalid_record_offset_def unsigned_ucast_eq unsigned_minus_1_eq_mask mask_eq_exp_minus_1)
  ultimately have "unat a < uint32_max" by (simp add: word_less_nat_alt)
  then show ?thesis by (simp add: unsigned_ucast_eq take_bit_nat_eq_self)
qed

section \<open>Records without bases and virtual functions\<close>

definition resolve_ok ::
    "compiled_project_view \<Rightarrow> server_abi_configuration \<Rightarrow> nat \<Rightarrow> (type_ref \<Rightarrow> runtime_value_layout layout_m) \<Rightarrow> bool" where
  "resolve_ok v abi n resolve \<longleftrightarrow>
     (\<forall>t b. layout_inv v abi b \<longrightarrow> unvisited_slots b \<le> n \<longrightarrow>
        lm_wp (resolve t) (\<lambda>x b'. layout_inv v abi b' \<and> layout_ext v b b' \<and>
          layout_value (abi_target_of abi) b' t = Some x \<and> good_value x) b)"

definition resolve_record_ok ::
    "compiled_project_view \<Rightarrow> server_abi_configuration \<Rightarrow> nat \<Rightarrow> (type_handle \<Rightarrow> runtime_value_layout layout_m) \<Rightarrow> bool" where
  "resolve_record_ok v abi n resolve_record \<longleftrightarrow>
     (\<forall>h b. layout_inv v abi b \<longrightarrow> unvisited_slots b \<le> n \<longrightarrow>
        lm_wp (resolve_record h) (\<lambda>x b'. layout_inv v abi b' \<and> layout_ext v b b' \<and>
          Option.bind (type_slot b' h) slot_value = Some x \<and> good_value x) b)"

text \<open>What a record in progress sees of a nested call.\<close>

lemma nested_resolve:
  assumes "resolve_ok v abi n resolve" "in_progress v abi b0 h b" "unvisited_slots b0 \<le> Suc n"
    and "\<And>x b'. in_progress v abi b0 h b' \<Longrightarrow> layout_ext v b b' \<Longrightarrow>
      (\<And>p. exclusive_parts v h \<Longrightarrow> p \<in> type_parts v h \<Longrightarrow> part_offset b' p = part_offset b p) \<Longrightarrow>
      layout_value (abi_target_of abi) b' t = Some x \<Longrightarrow> good_value x \<Longrightarrow> Q x b'"
  shows "lm_wp (resolve t) Q b"
proof -
  have "layout_inv v abi b" "unvisited_slots b \<le> n" using assms(2,3) by (auto simp: in_progress_def)
  then have "lm_wp (resolve t) (\<lambda>x b'. layout_inv v abi b' \<and> layout_ext v b b' \<and>
      layout_value (abi_target_of abi) b' t = Some x \<and> good_value x) b"
    using assms(1) by (simp add: resolve_ok_def)
  then show ?thesis
    by (rule lm_wp_mono) (use assms(4) in_progress_step [OF assms(2)] in blast)
qed

lemma nested_resolve_record:
  assumes "resolve_record_ok v abi n resolve_record" "in_progress v abi b0 h b" "unvisited_slots b0 \<le> Suc n"
    and "\<And>x b'. in_progress v abi b0 h b' \<Longrightarrow> layout_ext v b b' \<Longrightarrow>
      (\<And>p. exclusive_parts v h \<Longrightarrow> p \<in> type_parts v h \<Longrightarrow> part_offset b' p = part_offset b p) \<Longrightarrow>
      Option.bind (type_slot b' t) slot_value = Some x \<Longrightarrow> good_value x \<Longrightarrow> Q x b'"
  shows "lm_wp (resolve_record t) Q b"
proof -
  have "layout_inv v abi b" "unvisited_slots b \<le> n" using assms(2,3) by (auto simp: in_progress_def)
  then have "lm_wp (resolve_record t) (\<lambda>x b'. layout_inv v abi b' \<and> layout_ext v b b' \<and>
      Option.bind (type_slot b' t) slot_value = Some x \<and> good_value x) b"
    using assms(1) by (simp add: resolve_record_ok_def)
  then show ?thesis
    by (rule lm_wp_mono) (use assms(4) in_progress_step [OF assms(2)] in blast)
qed

definition first_member :: "type_entry \<Rightarrow> nat" where
  "first_member e = unat (gr_begin (te_members e))"

definition plain_inv ::
    "compiled_project_view \<Rightarrow> server_abi_configuration \<Rightarrow> layout_builder \<Rightarrow> type_handle \<Rightarrow> type_entry \<Rightarrow>
       nat \<Rightarrow> u64 \<times> u64 \<times> u32 \<Rightarrow> layout_builder \<Rightarrow> bool" where
  "plain_inv v abi b0 h e i = (\<lambda>(cursor, usize, al) b.
     in_progress v abi b0 h b \<and> small_power (unat al) \<and> unat al \<le> unat (abi_pack abi) \<and>
     (exclusive_parts v h \<longrightarrow>
       (let G = {first_member e ..< first_member e + i}
        in if te_record_kind e = union_type
           then \<forall>p\<in>Inr ` G. part_offset b p = 0 \<and> part_within v abi b 0 (unat usize) (unat al) p
           else placed v abi b 0 (Inr ` G) (unat cursor) (unat al) \<and> ascending b G)))"

lemma member_parts:
  assumes "view_type v h = Some e" "i < unat (gr_count (te_members e))"
  shows "first_member e + i \<in> type_members v h" "Inr ` {first_member e ..< first_member e + i} \<subseteq> type_parts v h"
  using assms by (auto simp: type_members_def type_parts_def first_member_def)

lemma member_range_Suc:
  "{first_member e ..< first_member e + Suc i} = insert (first_member e + i) {first_member e ..< first_member e + i}"
  by auto

lemma ascending_insert:
  assumes "ascending b G" "\<And>g. g \<in> G \<Longrightarrow> g < k \<and> part_offset b' (Inr g) = part_offset b (Inr g) \<and>
      part_offset b (Inr g) \<le> part_offset b' (Inr k)"
  shows "ascending b' (insert k G)"
  unfolding ascending_def
proof (intro ballI impI)
  fix g g' assume "g \<in> insert k G" "g' \<in> insert k G" "g < g'"
  then show "part_offset b' (Inr g) \<le> part_offset b' (Inr g')"
    using assms by (auto simp: ascending_def dest: assms(2))
qed

lemma part_within_end: "part_within v abi b lo hi al p \<Longrightarrow> part_offset b p \<le> hi"
  by (auto simp: part_within_def)

text \<open>The offset of member \<open>g\<close> is written.\<close>

lemma part_offset_written:
  "g < length (rl_member_offsets b) \<Longrightarrow>
     part_offset (b\<lparr>rl_member_offsets := (rl_member_offsets b)[g := x]\<rparr>) (Inr g) = unat x"
  "g < length (rl_base_offsets b) \<Longrightarrow>
     part_offset (b\<lparr>rl_base_offsets := (rl_base_offsets b)[g := x]\<rparr>) (Inl g) = unat x"
  by (simp_all add: part_offset_def)

lemma packed_max:
  assumes "small_power (unat al)" "unat al \<le> unat (abi_pack abi)" "good_value x" "pack_ok abi"
  shows "unat (max al (min (vl_alignment x) (abi_pack abi))) = max (unat al) (packed_alignment abi x)"
    "small_power (unat (max al (min (vl_alignment x) (abi_pack abi))))"
    "unat (max al (min (vl_alignment x) (abi_pack abi))) \<le> unat (abi_pack abi)"
proof -
  show eq: "unat (max al (min (vl_alignment x) (abi_pack abi))) = max (unat al) (packed_alignment abi x)"
    by (simp add: unat_max unat_min packed_alignment_def)
  show "small_power (unat (max al (min (vl_alignment x) (abi_pack abi))))"
    unfolding eq by (rule small_power_max [OF assms(1) packed_small [OF assms(3,4)]])
  show "unat (max al (min (vl_alignment x) (abi_pack abi))) \<le> unat (abi_pack abi)"
    using assms(2) unfolding eq by (simp add: packed_alignment_def)
qed

lemma member_part_layout:
  "view_member_at v g = Some m \<Longrightarrow> layout_value target b (mr_type m) = Some x \<Longrightarrow> part_layout v target b (Inr g) = Some x"
  by (simp add: part_layout_def)

lemma in_progress_sizes: "in_progress v abi b0 h b \<Longrightarrow> layout_sizes v b"
  by (simp add: in_progress_def layout_inv_def)

lemma ext_ready_kept:
  "layout_ext v b b' \<Longrightarrow> ready_kept (rl_type_slots b) (rl_type_slots b')"
  "layout_ext v b b' \<Longrightarrow> ready_kept (rl_derived_slots b) (rl_derived_slots b')"
  by (simp_all add: layout_ext_def slots_kept_ready)

text \<open>A part goes to the next aligned offset after everything placed so far.\<close>

lemma place_next:
  assumes S: "placed v abi b lo S (unat cursor) al" "p \<notin> S" "lo \<le> unat cursor"
    and kept: "ready_kept (rl_type_slots b) (rl_type_slots b')" "ready_kept (rl_derived_slots b) (rl_derived_slots b')"
      "\<And>q. q \<noteq> p \<Longrightarrow> part_offset b' q = part_offset b q" "part_offset b' p = unat aligned"
    and x: "part_layout v (abi_target_of abi) b p = Some x"
    and a: "align_up cursor (min (vl_alignment x) (abi_pack abi)) = Some aligned"
      "add_u64 aligned (vl_size x) = Some cursor'" "packed_alignment abi x \<le> al'" "al \<le> al'"
  shows "placed v abi b' lo (insert p S) (unat cursor') al'" "unat cursor \<le> unat aligned" "unat cursor \<le> unat cursor'"
proof -
  have al: "unat aligned mod packed_alignment abi x = 0" "unat cursor \<le> unat aligned"
    using align_up_least [OF a(1)] by (simp_all add: unat_min packed_alignment_def)
  have c: "unat cursor' = unat aligned + unat (vl_size x)" using a(2) by (simp add: add_u64_Some)
  have "placed v abi b' lo (insert p S) (part_offset b' p + unat (vl_size x)) al'"
    by (rule placed_insert [OF S(1,2) kept(1-3) x]) (use al S(3) a(3,4) kept(4) in auto)
  then show "placed v abi b' lo (insert p S) (unat cursor') al'" by (simp add: c kept(4))
  show "unat cursor \<le> unat aligned" "unat cursor \<le> unat cursor'" using al(2) c by simp_all
qed

lemma plain_step_struct:
  assumes pack: "pack_ok abi" and e: "view_type v h = Some e" and i: "i < unat (gr_count (te_members e))"
    and inv: "plain_inv v abi b0 h e i (cursor, usize, al) b" and struct: "te_record_kind e \<noteq> union_type"
    and len: "first_member e + i < length (rl_member_offsets b)" and m: "view_member_at v (first_member e + i) = Some m"
    and b': "in_progress v abi b0 h b'" "layout_ext v b b'"
      "\<And>p. exclusive_parts v h \<Longrightarrow> p \<in> type_parts v h \<Longrightarrow> part_offset b' p = part_offset b p"
    and x: "layout_value (abi_target_of abi) b' (mr_type m) = Some x" "good_value x"
    and a: "align_up cursor (min (vl_alignment x) (abi_pack abi)) = Some aligned"
      "aligned < ucast invalid_record_offset" "add_u64 aligned (vl_size x) = Some cursor'"
  shows "plain_inv v abi b0 h e (Suc i) (cursor', usize, max al (min (vl_alignment x) (abi_pack abi)))
      (b'\<lparr>rl_member_offsets := (rl_member_offsets b')[first_member e + i := ucast aligned]\<rparr>)"
    (is "plain_inv v abi b0 h e (Suc i) (cursor', usize, ?al) ?b")
proof -
  let ?g = "first_member e + i" and ?G = "{first_member e ..< first_member e + i}"
  note g = member_parts [OF e i]
  have al: "small_power (unat al)" "unat al \<le> unat (abi_pack abi)" and prog: "in_progress v abi b0 h b"
    using inv by (simp_all add: plain_inv_def)
  note al' = packed_max [OF al x(2) pack]
  have len': "?g < length (rl_member_offsets b')"
    using len in_progress_sizes [OF prog] in_progress_sizes [OF b'(1)] by (simp add: layout_sizes_def)
  have "placed v abi ?b 0 (Inr ` insert ?g ?G) (unat cursor') (unat ?al) \<and> ascending ?b (insert ?g ?G)"
    if ex: "exclusive_parts v h"
  proof -
    have S: "placed v abi b 0 (Inr ` ?G) (unat cursor) (unat al)" "ascending b ?G"
      using inv ex struct by (simp_all add: plain_inv_def Let_def)
    have off: "part_offset b' p = part_offset b p" if "p \<in> Inr ` ?G" for p
      using b'(3) [OF ex] g(2) that by blast
    have S': "placed v abi b' 0 (Inr ` ?G) (unat cursor) (unat al)"
      by (rule placed_kept [OF S(1) ext_ready_kept [OF b'(2)] off])
    have w: "part_offset ?b q = part_offset b' q" if "q \<noteq> Inr ?g" for q
      by (rule part_offset_write(1) [OF that])
    have at: "part_offset ?b (Inr ?g) = unat aligned"
      using part_offset_written(1) [OF len'] unat_record_offset [OF a(2)] by simp
    have nxt: "placed v abi ?b 0 (insert (Inr ?g) (Inr ` ?G)) (unat cursor') (unat ?al)" "unat cursor \<le> unat aligned"
      by (rule place_next(1) [OF S' _ _ _ _ w at member_part_layout [OF m x(1)] a(1,3)]; use al'(1) in auto)
        (use align_up_least(2) [OF a(1)] in simp)
    have "ascending ?b (insert ?g ?G)"
    proof (rule ascending_insert [OF S(2)])
      fix k assume k: "k \<in> ?G"
      then have "part_within v abi b 0 (unat cursor) (unat al) (Inr k)" using S(1) by (simp add: placed_def)
      then show "k < ?g \<and> part_offset ?b (Inr k) = part_offset b (Inr k) \<and> part_offset b (Inr k) \<le> part_offset ?b (Inr ?g)"
        using k off w [of "Inr k"] at nxt(2) part_within_end by force
    qed
    then show ?thesis using nxt(1) by simp
  qed
  then show ?thesis
    using in_progress_write_member [OF b'(1) g(1)] al'(2,3) struct
    unfolding plain_inv_def Let_def member_range_Suc prod.case by simp
qed

lemma plain_step_union:
  assumes pack: "pack_ok abi" and e: "view_type v h = Some e" and i: "i < unat (gr_count (te_members e))"
    and inv: "plain_inv v abi b0 h e i (cursor, usize, al) b" and union: "te_record_kind e = union_type"
    and len: "first_member e + i < length (rl_member_offsets b)" and m: "view_member_at v (first_member e + i) = Some m"
    and b': "in_progress v abi b0 h b'" "layout_ext v b b'"
      "\<And>p. exclusive_parts v h \<Longrightarrow> p \<in> type_parts v h \<Longrightarrow> part_offset b' p = part_offset b p"
    and x: "layout_value (abi_target_of abi) b' (mr_type m) = Some x" "good_value x"
  shows "plain_inv v abi b0 h e (Suc i) (cursor, max usize (vl_size x), max al (min (vl_alignment x) (abi_pack abi)))
      (b'\<lparr>rl_member_offsets := (rl_member_offsets b')[first_member e + i := 0]\<rparr>)"
    (is "plain_inv v abi b0 h e (Suc i) (cursor, ?usize, ?al) ?b")
proof -
  let ?g = "first_member e + i" and ?G = "{first_member e ..< first_member e + i}"
  note g = member_parts [OF e i]
  have al: "small_power (unat al)" "unat al \<le> unat (abi_pack abi)" and prog: "in_progress v abi b0 h b"
    using inv by (simp_all add: plain_inv_def)
  note al' = packed_max [OF al x(2) pack]
  have len': "?g < length (rl_member_offsets b')"
    using len in_progress_sizes [OF prog] in_progress_sizes [OF b'(1)] by (simp add: layout_sizes_def)
  have u: "unat ?usize = max (unat usize) (unat (vl_size x))"
    by (simp add: max_def word_le_nat_alt)
  have "\<forall>p\<in>Inr ` insert ?g ?G. part_offset ?b p = 0 \<and> part_within v abi ?b 0 (unat ?usize) (unat ?al) p"
    if ex: "exclusive_parts v h"
  proof
    fix p :: "nat + nat" assume "p \<in> Inr ` insert ?g ?G"
    then consider "p = Inr ?g" | "p \<in> Inr ` ?G" "p \<noteq> Inr ?g" by auto
    then show "part_offset ?b p = 0 \<and> part_within v abi ?b 0 (unat ?usize) (unat ?al) p"
    proof cases
      case 1
      have off: "part_offset ?b p = 0" unfolding 1 using part_offset_written(1) [OF len', of 0] by simp
      have "part_layout v (abi_target_of abi) ?b p = Some x"
        unfolding 1 by (rule ready_kept_part [OF _ _ member_part_layout [OF m x(1)]]) simp_all
      then show ?thesis using off u al'(1) by (auto simp: part_within_def)
    next
      case 2
      have "part_offset ?b p = part_offset b' p" by (rule part_offset_write(1) [OF 2(2)])
      moreover have "part_offset b' p = part_offset b p" using b'(3) [OF ex] g(2) 2(1) by blast
      moreover have old: "part_offset b p = 0" "part_within v abi b 0 (unat usize) (unat al) p"
        using inv ex union 2(1) by (auto simp: plain_inv_def Let_def)
      ultimately have off: "part_offset ?b p = part_offset b p" by simp
      have "part_within v abi ?b 0 (unat usize) (unat al) p"
        by (rule part_within_kept [OF _ _ off old(2)])
          (use ext_ready_kept [OF b'(2)] in simp_all)
      then show ?thesis
        using old(1) off u al'(1) by (auto intro: part_within_mono)
    qed
  qed
  then show ?thesis
    using in_progress_write_member [OF b'(1) g(1)] al'(2,3) union
    unfolding plain_inv_def Let_def member_range_Suc prod.case by simp
qed

lemma layout_member_ok:
  assumes res: "resolve_ok v abi n resolve" and n: "unvisited_slots b0 \<le> Suc n" and pack: "pack_ok abi"
    and e: "view_type v h = Some e" and i: "i < unat (gr_count (te_members e))"
    and inv: "plain_inv v abi b0 h e i acc b"
  shows "lm_wp (layout_member v abi resolve e (te_record_kind e = union_type) i acc) (plain_inv v abi b0 h e (Suc i)) b"
proof -
  obtain cursor usize al where acc: "acc = (cursor, usize, al)" by (cases acc)
  have prog: "in_progress v abi b0 h b" using inv by (simp add: plain_inv_def acc)
  show ?thesis
    unfolding layout_member_def acc prod.case Let_def first_member_def [symmetric] lm_wp_simps
  proof (intro impI allI, elim conjE, goal_cases)
    case (1 m)
    have m: "first_member e + i < length (rl_member_offsets b)" "view_member_at v (first_member e + i) = Some m"
      using 1 by simp_all
    note steps = plain_step_union [OF pack e i inv [unfolded acc] _ m]
      plain_step_struct [OF pack e i inv [unfolded acc] _ m]
    show ?case by (rule nested_resolve [OF res prog n]) (auto intro: steps)
  qed
qed

lemma unat_u32_max: "unat (ucast (-1 :: u32) :: u64) = uint32_max"
  by (simp add: unsigned_ucast_eq unsigned_minus_1_eq_mask mask_eq_exp_minus_1)

text \<open>What the resolution of record \<open>h\<close> from state \<open>b0\<close> delivers.\<close>

definition record_done ::
    "compiled_project_view \<Rightarrow> server_abi_configuration \<Rightarrow> layout_builder \<Rightarrow> type_handle \<Rightarrow>
       runtime_value_layout \<Rightarrow> layout_builder \<Rightarrow> bool" where
  "record_done v abi b0 h x b \<longleftrightarrow>
     layout_inv v abi b \<and> layout_ext v b0 b \<and> Option.bind (type_slot b h) slot_value = Some x \<and> good_value x"

lemma finish_record_ok:
  assumes prog: "in_progress v abi b0 h b" and h: "h \<noteq> 0" and al: "small_power (unat al)" and raw: "raw \<noteq> 0"
    and laid: "\<And>s. exclusive_parts v h \<Longrightarrow> ls_alignment s = al \<Longrightarrow> unat raw \<le> unat (ls_size s) \<Longrightarrow> record_laid_out v abi b h s"
  shows "lm_wp (finish_record (unat (h - 1)) raw al emp) (record_done v abi b0 h) b"
  unfolding finish_record_def lm_wp_simps
proof (intro allI impI)
  fix final assume final: "align_up raw al = Some final" "final \<le> ucast (-1 :: u32)"
  let ?s = "\<lparr>ls_size = final, ls_alignment = al, ls_state = slot_ready, ls_empty_record = emp\<rparr>"
  let ?b = "set_type_slot (unat (h - 1)) ?s b"
  obtain s1 where s1: "type_slot b h = Some s1" "ls_state s1 = slot_visiting"
    using prog by (auto simp: in_progress_def)
  have "unat final \<le> uint32_max" using final(2) by (simp add: word_le_nat_alt unat_u32_max)
  moreover have "0 < unat raw" using raw by (simp add: unat_gt_0)
  ultimately have good: "good_value (value_layout final al)"
    using align_up_least [OF final(1)] al by (simp add: good_value_def small_power_def)
  have kept: "ready_kept (rl_type_slots b) (rl_type_slots ?b)"
    using type_slot_index [OF s1(1)] s1(2) by (auto simp: ready_kept_def nth_list_update)
  have "record_laid_out v abi ?b h ?s" if "exclusive_parts v h"
    by (rule record_laid_out_kept [OF kept _ _ laid [OF that]]) (use align_up_least(2) [OF final(1)] in simp_all)
  then have "type_slot_ok v abi ?b h ?s" using good by (simp add: type_slot_ok_def)
  then show "record_done v abi b0 h (value_layout final al) ?b"
    using in_progress_finish [OF prog h] good by (simp add: record_done_def slot_value_def)
qed

lemma resolve_plain_record_ok:
  assumes res: "resolve_ok v abi n resolve" and n: "unvisited_slots b0 \<le> Suc n" and pack: "pack_ok abi"
    and e: "view_type v h = Some e" "te_defined e" and h: "h \<noteq> 0" and plain: "gr_count (te_bases e) = 0" "\<not> te_polymorphic e"
    and prog: "in_progress v abi b0 h b"
  shows "lm_wp (resolve_plain_record v abi resolve e (unat (h - 1))) (record_done v abi b0 h) b"
proof -
  have "small_power (unat (1 :: u32))" "1 \<le> unat (abi_pack abi)" using pack by (auto simp: small_power_def pack_ok_def)
  then have init: "plain_inv v abi b0 h e 0 (0, 0, 1) b"
    using prog by (simp add: plain_inv_def ascending_def)
  have parts: "type_parts v h = Inr ` type_members v h"
    "type_members v h = {first_member e ..< first_member e + unat (gr_count (te_members e))}"
    using e(1) plain(1) by (simp_all add: type_parts_def type_bases_def type_members_def first_member_def)
  have vf: "own_vfptr_bytes v abi h e = 0" using plain(2) by (simp add: own_vfptr_bytes_def)
  have fin: "lm_wp (finish_record (unat (h - 1)) (if raw = 0 then 1 else raw) al emp) (record_done v abi b0 h) b'"
    if inv: "plain_inv v abi b0 h e (unat (gr_count (te_members e))) (cursor, usize, al) b'"
      and raw: "raw = (if te_record_kind e = union_type then usize else cursor)" for cursor usize al b' emp raw
  proof (rule finish_record_ok [OF _ h])
    show "in_progress v abi b0 h b'" "small_power (unat al)" using inv by (simp_all add: plain_inv_def)
    show "(if raw = 0 then 1 else raw) \<noteq> 0" by simp
    fix s :: layout_slot assume ex: "exclusive_parts v h" and s: "ls_alignment s = al" "unat (if raw = 0 then 1 else raw) \<le> unat (ls_size s)"
    have r: "unat raw \<le> unat (ls_size s)" using s(2) by (auto split: if_splits)
    show "record_laid_out v abi b' h s"
      unfolding record_laid_out_def
      using inv ex e raw r s(1) unfolding parts plain_inv_def placed_def ascending_def Let_def
      by (auto simp: vf split: if_splits intro: part_within_mono)
  qed
  show ?thesis
    unfolding resolve_plain_record_def Let_def lm_wp_simps
  proof (rule lm_wp_upto [where I = "plain_inv v abi b0 h e", OF init])
    fix acc b' assume inv: "plain_inv v abi b0 h e (unat (gr_count (te_members e))) acc b'"
    obtain cursor usize al where acc: "acc = (cursor, usize, al)" by (cases acc)
    show "lm_wp (case acc of (cursor, union_size, record_alignment) \<Rightarrow>
        finish_record (unat (h - 1))
          (if (if te_record_kind e = union_type then union_size else cursor) = 0 then 1
           else if te_record_kind e = union_type then union_size else cursor)
          record_alignment (te_record_kind e \<noteq> union_type \<and> gr_count (te_members e) = 0))
        (record_done v abi b0 h) b'"
      unfolding acc prod.case by (rule fin [OF inv [unfolded acc] refl])
  qed (rule layout_member_ok [OF res n pack e(1)])
qed

end
