(* ===== verification/Layout_Class.thy ===== *)
theory Layout_Class
  imports Layout_Correct
begin

text \<open>
  Records with bases or virtual functions: the passes of \<^verbatim>\<open>resolve_windows_class_record\<close> place the
  virtual function pointer, every base and every member apart from each other, and the record ends after
  the last of them.
\<close>

section \<open>Marks and scans\<close>

lemma in_progress_truncate:
  assumes "in_progress v abi b0 h b" "runtime_layout.truncate b' = runtime_layout.truncate b"
  shows "in_progress v abi b0 h b'"
proof (rule in_progress_step(1) [OF assms(1) truncate_ext [OF assms(2)]])
  show "layout_inv v abi b'" using assms(1) by (intro truncate_inv [OF assms(2)]) (simp add: in_progress_def)
qed

lemma mark_base_ok:
  assumes "in_progress v abi b0 h b"
  shows "lm_wp (mark_base v first i u) (\<lambda>_. in_progress v abi b0 h) b"
  unfolding mark_base_def lm_wp_simps
  by (intro allI impI in_progress_truncate [OF assms]) (simp add: runtime_layout.truncate_def)

lemma next_base_mark_truncate: "runtime_layout.truncate (next_base_mark b) = runtime_layout.truncate b"
  by (simp add: next_base_mark_def Let_def runtime_layout.truncate_def)

lemma mark_bases_ok:
  assumes prog: "in_progress v abi b0 h b"
  shows "lm_wp (mark_bases v alloc e) (\<lambda>_. in_progress v abi b0 h) b"
proof -
  have loop: "lm_wp (lm_for (mark_base v first) [0..<n] ()) (\<lambda>_. in_progress v abi b0 h) (next_base_mark b')"
    if "runtime_layout.truncate b' = runtime_layout.truncate b" for b' first n
  proof (rule lm_wp_upto [where I = "\<lambda>_ _. in_progress v abi b0 h"])
    show "in_progress v abi b0 h (next_base_mark b')"
      by (rule in_progress_truncate [OF prog]) (simp add: next_base_mark_truncate that)
  qed (simp_all add: mark_base_ok)
  show ?thesis
    unfolding mark_bases_def by (simp add: lm_wp_simps prog loop runtime_layout.truncate_def)
qed

text \<open>Parts whose layouts are known and do not exceed the alignment of the record.\<close>

definition scanned ::
    "compiled_project_view \<Rightarrow> server_abi_configuration \<Rightarrow> layout_builder \<Rightarrow> (nat + nat) set \<Rightarrow> nat \<Rightarrow> bool" where
  "scanned v abi b S al \<longleftrightarrow>
     (\<forall>p\<in>S. \<exists>x. part_layout v (abi_target_of abi) b p = Some x \<and> packed_alignment abi x \<le> al)"

lemma scanned_kept:
  assumes "scanned v abi b S al" "ready_kept (rl_type_slots b) (rl_type_slots b')"
    "ready_kept (rl_derived_slots b) (rl_derived_slots b')" "al \<le> al'"
  shows "scanned v abi b' S al'"
  using assms(1,4) ready_kept_part [OF assms(2,3)] unfolding scanned_def by (meson le_trans)

lemma scanned_insert:
  "scanned v abi b S al \<Longrightarrow> part_layout v (abi_target_of abi) b p = Some x \<Longrightarrow> packed_alignment abi x \<le> al \<Longrightarrow>
     scanned v abi b (insert p S) al"
  by (simp add: scanned_def)

definition first_base :: "type_entry \<Rightarrow> nat" where
  "first_base e = unat (gr_begin (te_bases e))"

lemma base_range_Suc:
  "{first_base e ..< first_base e + Suc i} = insert (first_base e + i) {first_base e ..< first_base e + i}"
  by auto

lemma base_part_layout:
  "view_base_at v g = Some base \<Longrightarrow> \<not> br_virtual_base base \<Longrightarrow>
     Option.bind (type_slot b (br_type base)) slot_value = Some x \<Longrightarrow> part_layout v target b (Inl g) = Some x"
  by (simp add: part_layout_def)

definition scan_base_inv ::
    "compiled_project_view \<Rightarrow> server_abi_configuration \<Rightarrow> layout_builder \<Rightarrow> type_handle \<Rightarrow> type_entry \<Rightarrow>
       nat \<Rightarrow> nat option \<times> u32 \<Rightarrow> layout_builder \<Rightarrow> bool" where
  "scan_base_inv v abi b0 h e i = (\<lambda>(primary, al) b.
     in_progress v abi b0 h b \<and> small_power (unat al) \<and> unat al \<le> unat (abi_pack abi) \<and>
     scanned v abi b (Inl ` {first_base e ..< first_base e + i}) (unat al) \<and>
     (case primary of
        None \<Rightarrow> \<forall>k<i. \<not> polymorphic_base v (first_base e + k)
      | Some l \<Rightarrow> l < i \<and> polymorphic_base v (first_base e + l)))"

lemma scan_base_ok:
  assumes res: "resolve_record_ok v abi n resolve_record" and n: "unvisited_slots b0 \<le> Suc n" and pack: "pack_ok abi"
    and inv: "scan_base_inv v abi b0 h e i acc b"
  shows "lm_wp (scan_base v abi resolve_record e i acc) (scan_base_inv v abi b0 h e (Suc i)) b"
proof -
  obtain primary al where acc: "acc = (primary, al)" by (cases acc)
  have prog: "in_progress v abi b0 h b" and al: "small_power (unat al)" "unat al \<le> unat (abi_pack abi)"
    and sc: "scanned v abi b (Inl ` {first_base e ..< first_base e + i}) (unat al)"
    using inv by (simp_all add: scan_base_inv_def acc)
  show ?thesis
    unfolding scan_base_def acc Let_def first_base_def [symmetric] lm_wp_simps fst_conv snd_conv
  proof (intro allI impI, rule nested_resolve_record [OF res prog n], intro allI impI, goal_cases)
    case (1 base x b' bt)
    have good: "good_value x" and ext: "layout_ext v b b'" and base: "view_base_at v (first_base e + i) = Some base"
      and x: "Option.bind (type_slot b' (br_type base)) slot_value = Some x" and virt: "\<not> br_virtual_base base"
      using 1 by simp_all
    note al' = packed_max [OF al good pack]
    have "scanned v abi b' (Inl ` {first_base e ..< first_base e + i})
        (unat (max al (min (vl_alignment x) (abi_pack abi))))"
      by (rule scanned_kept [OF sc ext_ready_kept [OF ext]]) (simp add: al'(1))
    then have "scanned v abi b' (Inl ` {first_base e ..< first_base e + Suc i})
        (unat (max al (min (vl_alignment x) (abi_pack abi))))"
      unfolding base_range_Suc image_insert
      by (rule scanned_insert [OF _ base_part_layout [OF base virt x]]) (simp add: al'(1))
    moreover have "polymorphic_base v (first_base e + i) \<longleftrightarrow> te_polymorphic bt"
      using 1 by (simp add: polymorphic_base_def)
    ultimately show ?case
      using inv 1 al'(2,3) unfolding scan_base_inv_def acc prod.case
      by (auto simp: less_Suc_eq split: option.splits)
  qed
qed

definition scan_member_inv ::
    "compiled_project_view \<Rightarrow> server_abi_configuration \<Rightarrow> layout_builder \<Rightarrow> type_handle \<Rightarrow> type_entry \<Rightarrow>
       nat \<Rightarrow> u32 \<Rightarrow> layout_builder \<Rightarrow> bool" where
  "scan_member_inv v abi b0 h e i al b \<longleftrightarrow>
     in_progress v abi b0 h b \<and> small_power (unat al) \<and> unat al \<le> unat (abi_pack abi) \<and>
     scanned v abi b (Inl ` type_bases v h \<union> Inr ` {first_member e ..< first_member e + i}) (unat al)"

lemma scan_member_ok:
  assumes res: "resolve_ok v abi n resolve" and n: "unvisited_slots b0 \<le> Suc n" and pack: "pack_ok abi"
    and inv: "scan_member_inv v abi b0 h e i al b"
  shows "lm_wp (scan_member v abi resolve e i al) (scan_member_inv v abi b0 h e (Suc i)) b"
proof -
  have prog: "in_progress v abi b0 h b" and al: "small_power (unat al)" "unat al \<le> unat (abi_pack abi)"
    and sc: "scanned v abi b (Inl ` type_bases v h \<union> Inr ` {first_member e ..< first_member e + i}) (unat al)"
    using inv by (simp_all add: scan_member_inv_def)
  show ?thesis
    unfolding scan_member_def Let_def first_member_def [symmetric] lm_wp_simps
  proof (intro allI impI, rule nested_resolve [OF res prog n], intro allI impI, goal_cases)
    case (1 m x b')
    have good: "good_value x" and ext: "layout_ext v b b'" and m: "view_member_at v (first_member e + i) = Some m"
      and x: "layout_value (abi_target_of abi) b' (mr_type m) = Some x" and prog': "in_progress v abi b0 h b'"
      using 1 by simp_all
    note al' = packed_max [OF al good pack]
    have "scanned v abi b' (Inl ` type_bases v h \<union> Inr ` {first_member e ..< first_member e + i})
        (unat (max al (min (vl_alignment x) (abi_pack abi))))"
      by (rule scanned_kept [OF sc ext_ready_kept [OF ext]]) (simp add: al'(1))
    then have "scanned v abi b' (Inl ` type_bases v h \<union> Inr ` {first_member e ..< first_member e + Suc i})
        (unat (max al (min (vl_alignment x) (abi_pack abi))))"
      unfolding member_range_Suc image_insert Un_insert_right
      by (rule scanned_insert [OF _ member_part_layout [OF m x]]) (simp add: al'(1))
    then show ?case using prog' al'(2,3) by (simp add: scan_member_inv_def)
  qed
qed

section \<open>Placement\<close>

definition class_inv ::
    "compiled_project_view \<Rightarrow> server_abi_configuration \<Rightarrow> layout_builder \<Rightarrow> type_handle \<Rightarrow> nat \<Rightarrow> nat \<Rightarrow>
       (nat + nat) set \<Rightarrow> u64 \<Rightarrow> layout_builder \<Rightarrow> bool" where
  "class_inv v abi b0 h al lo S cursor b \<longleftrightarrow>
     in_progress v abi b0 h b \<and> scanned v abi b (type_parts v h) al \<and> lo \<le> unat cursor \<and> S \<subseteq> type_parts v h \<and>
     (exclusive_parts v h \<longrightarrow> placed v abi b lo S (unat cursor) al)"

text \<open>The common step: a part not yet placed, of layout \<open>x\<close>, is written at the next aligned offset.\<close>

lemma class_inv_place:
  assumes inv: "class_inv v abi b0 h al lo S cursor b" and p: "p \<in> type_parts v h" "p \<notin> S"
    and b': "in_progress v abi b0 h b'" "layout_ext v b b'"
      "\<And>q. exclusive_parts v h \<Longrightarrow> q \<in> type_parts v h \<Longrightarrow> part_offset b' q = part_offset b q"
    and x: "part_layout v (abi_target_of abi) b' p = Some x"
    and a: "align_up cursor (min (vl_alignment x) (abi_pack abi)) = Some aligned"
      "add_u64 aligned (vl_size x) = Some cursor'"
    and b2: "in_progress v abi b0 h b2" "rl_type_slots b2 = rl_type_slots b'" "rl_derived_slots b2 = rl_derived_slots b'"
      "part_offset b2 p = unat aligned" "\<And>q. q \<noteq> p \<Longrightarrow> part_offset b2 q = part_offset b' q"
  shows "class_inv v abi b0 h al lo (insert p S) cursor' b2"
proof -
  have sc: "scanned v abi b' (type_parts v h) al"
    using inv by (intro scanned_kept [OF _ ext_ready_kept [OF b'(2)]]) (auto simp: class_inv_def)
  then have al: "packed_alignment abi x \<le> al" using p(1) x by (auto simp: scanned_def)
  have lo: "lo \<le> unat cursor" "S \<subseteq> type_parts v h" using inv by (simp_all add: class_inv_def)
  have "unat cursor \<le> unat cursor'"
    using align_up_least(2) [OF a(1)] a(2) by (simp add: add_u64_Some)
  moreover have "placed v abi b2 lo (insert p S) (unat cursor') al" if ex: "exclusive_parts v h"
  proof -
    have "placed v abi b lo S (unat cursor) al" using inv ex by (simp add: class_inv_def)
    then have "placed v abi b' lo S (unat cursor) al"
      by (rule placed_kept [OF _ ext_ready_kept [OF b'(2)]]) (use b'(3) [OF ex] lo(2) in blast)
    then show ?thesis
      by (rule place_next(1) [OF _ p(2) lo(1) _ _ b2(5) b2(4) x a al order_refl]) (simp_all add: b2)
  qed
  moreover have "scanned v abi b2 (type_parts v h) al"
    by (rule scanned_kept [OF sc]) (simp_all add: b2)
  ultimately show ?thesis using lo p(1) b2(1) by (simp add: class_inv_def)
qed

lemma view_base_at_index: "view_base_at v g = Some base \<Longrightarrow> g < sec_count (bases_section v)"
  by (simp add: view_base_at_def split: if_splits)

lemma base_parts:
  assumes "view_type v h = Some e" "i < unat (gr_count (te_bases e))"
  shows "first_base e + i \<in> type_bases v h" "Inl (first_base e + i) \<in> type_parts v h"
  using assms by (auto simp: type_bases_def type_parts_def first_base_def)

lemma place_base_ok:
  assumes res: "resolve_record_ok v abi n resolve_record" and n: "unvisited_slots b0 \<le> Suc n"
    and e: "view_type v h = Some e" and i: "i < unat (gr_count (te_bases e))"
    and inv: "class_inv v abi b0 h al lo S cursor b" and new: "Inl (first_base e + i) \<notin> S"
  shows "lm_wp (place_base v abi resolve_record e i cursor)
    (class_inv v abi b0 h al lo (insert (Inl (first_base e + i)) S)) b"
proof -
  have prog: "in_progress v abi b0 h b" using inv by (simp add: class_inv_def)
  note g = base_parts [OF e i]
  show ?thesis
    unfolding place_base_def Let_def first_base_def [symmetric] lm_wp_simps
  proof (intro allI impI, rule nested_resolve_record [OF res prog n], intro allI impI, goal_cases)
    case (1 base x b' aligned cursor')
    have base: "view_base_at v (first_base e + i) = Some base" and ext: "layout_ext v b b'" "in_progress v abi b0 h b'"
      and x: "Option.bind (type_slot b' (br_type base)) slot_value = Some x" and virt: "\<not> br_virtual_base base"
      and a: "align_up cursor (min (vl_alignment x) (abi_pack abi)) = Some aligned"
        "add_u64 aligned (vl_size x) = Some cursor'" "aligned < ucast invalid_record_offset"
      and same: "\<And>q. exclusive_parts v h \<Longrightarrow> q \<in> type_parts v h \<Longrightarrow> part_offset b' q = part_offset b q"
      using 1 by simp_all
    have len: "first_base e + i < length (rl_base_offsets b')"
      using view_base_at_index [OF base] in_progress_sizes [OF ext(2)] by (simp add: layout_sizes_def)
    show ?case
      by (rule class_inv_place [OF inv g(2) new ext(2,1) same base_part_layout [OF base virt x] a(1,2)
            in_progress_write_base [OF ext(2) g(1)]])
        (simp_all add: part_offset_written(2) [OF len] unat_record_offset [OF a(3)] part_offset_write(2))
  qed
qed

lemma place_member_ok:
  assumes res: "resolve_ok v abi n resolve" and n: "unvisited_slots b0 \<le> Suc n"
    and e: "view_type v h = Some e" and i: "i < unat (gr_count (te_members e))"
    and inv: "class_inv v abi b0 h al lo (Inl ` type_bases v h \<union> Inr ` {first_member e ..< first_member e + i}) cursor b"
      "exclusive_parts v h \<Longrightarrow> ascending b {first_member e ..< first_member e + i}"
  shows "lm_wp (place_member v abi resolve e i cursor)
    (\<lambda>cursor b. class_inv v abi b0 h al lo (Inl ` type_bases v h \<union> Inr ` {first_member e ..< first_member e + Suc i}) cursor b \<and>
      (exclusive_parts v h \<longrightarrow> ascending b {first_member e ..< first_member e + Suc i})) b"
proof -
  let ?g = "first_member e + i" and ?G = "{first_member e ..< first_member e + i}"
  let ?S = "Inl ` type_bases v h \<union> Inr ` ?G"
  have prog: "in_progress v abi b0 h b" using inv(1) by (simp add: class_inv_def)
  note g = member_parts [OF e i]
  have p: "Inr ?g \<in> type_parts v h" "Inr ?g \<notin> ?S" using g(1) by (auto simp: type_parts_def)
  show ?thesis
    unfolding place_member_def Let_def first_member_def [symmetric] lm_wp_simps
  proof (intro allI impI, rule nested_resolve [OF res prog n], intro allI impI, goal_cases)
    case (1 m x b' aligned cursor')
    have m: "view_member_at v ?g = Some m" and ext: "layout_ext v b b'" "in_progress v abi b0 h b'"
      and x: "layout_value (abi_target_of abi) b' (mr_type m) = Some x"
      and a: "align_up cursor (min (vl_alignment x) (abi_pack abi)) = Some aligned"
        "add_u64 aligned (vl_size x) = Some cursor'" "aligned < ucast invalid_record_offset"
      and same: "\<And>q. exclusive_parts v h \<Longrightarrow> q \<in> type_parts v h \<Longrightarrow> part_offset b' q = part_offset b q"
      using 1 by simp_all
    let ?b = "b'\<lparr>rl_member_offsets := (rl_member_offsets b')[?g := ucast aligned]\<rparr>"
    have len: "?g < length (rl_member_offsets b')"
      using view_member_at_record [OF m] in_progress_sizes [OF ext(2)] by (simp add: layout_sizes_def)
    then have at: "part_offset ?b (Inr ?g) = unat aligned"
      by (simp add: part_offset_written(1) unat_record_offset [OF a(3)])
    have "class_inv v abi b0 h al lo (insert (Inr ?g) ?S) cursor' ?b"
      by (rule class_inv_place [OF inv(1) p ext(2,1) same member_part_layout [OF m x] a(1,2)
            in_progress_write_member [OF ext(2) g(1)]])
        (simp_all add: part_offset_written(1) [OF len] unat_record_offset [OF a(3)] part_offset_write(1))
    moreover have "ascending ?b (insert ?g ?G)" if ex: "exclusive_parts v h"
    proof (rule ascending_insert [OF inv(2) [OF ex]])
      fix k assume k: "k \<in> ?G"
      have "part_within v abi b lo (unat cursor) al (Inr k)"
        using inv(1) ex k by (simp add: class_inv_def placed_def)
      then have "part_offset b (Inr k) \<le> unat aligned"
        using part_within_end align_up_least(2) [OF a(1)] le_trans by blast
      moreover have "part_offset ?b (Inr k) = part_offset b (Inr k)"
        using same [OF ex, of "Inr k"] g(2) k by (simp add: part_offset_write(1) subset_iff)
      ultimately show "k < ?g \<and> part_offset ?b (Inr k) = part_offset b (Inr k) \<and> part_offset b (Inr k) \<le> part_offset ?b (Inr ?g)"
        using k at by simp
    qed
    ultimately show ?case unfolding member_range_Suc image_insert Un_insert_right by simp
  qed
qed

lemma place_primary_ok:
  assumes res: "resolve_record_ok v abi n resolve_record" and n: "unvisited_slots b0 \<le> Suc n"
    and e: "view_type v h = Some e" and i: "i < unat (gr_count (te_bases e))"
    and prog: "in_progress v abi b0 h b" and sc: "scanned v abi b (type_parts v h) al"
  shows "lm_wp (place_primary v resolve_record e i) (class_inv v abi b0 h al 0 {Inl (first_base e + i)}) b"
proof -
  note g = base_parts [OF e i]
  show ?thesis
    unfolding place_primary_def Let_def first_base_def [symmetric] lm_wp_simps
  proof (intro allI impI, rule nested_resolve_record [OF res prog n], intro allI impI, goal_cases)
    case (1 base x b')
    have base: "view_base_at v (first_base e + i) = Some base" and ext: "layout_ext v b b'" "in_progress v abi b0 h b'"
      and x: "Option.bind (type_slot b' (br_type base)) slot_value = Some x" and virt: "\<not> br_virtual_base base"
      using 1 by simp_all
    let ?b = "b'\<lparr>rl_base_offsets := (rl_base_offsets b')[first_base e + i := 0]\<rparr>"
    have "first_base e + i < length (rl_base_offsets b')"
      using view_base_at_index [OF base] in_progress_sizes [OF ext(2)] by (simp add: layout_sizes_def)
    then have at: "part_offset ?b (Inl (first_base e + i)) = 0" by (simp add: part_offset_written(2))
    have sc': "scanned v abi ?b (type_parts v h) al"
      by (rule scanned_kept [OF sc]) (use ext_ready_kept [OF ext(1)] in simp_all)
    have "part_layout v (abi_target_of abi) ?b (Inl (first_base e + i)) = Some x"
      by (rule ready_kept_part [OF _ _ base_part_layout [OF base virt x]]) simp_all
    then have "part_within v abi ?b 0 (unat (vl_size x)) al (Inl (first_base e + i))"
      using sc' g(2) at by (auto simp: scanned_def part_within_def)
    then show ?case
      using in_progress_write_base [OF ext(2) g(1), of 0] sc' g(2) by (simp add: class_inv_def placed_def)
  qed
qed

text \<open>The bases placed before local base \<open>i\<close> of a round.\<close>

definition base_round :: "compiled_project_view \<Rightarrow> type_entry \<Rightarrow> (nat \<Rightarrow> bool) \<Rightarrow> nat \<Rightarrow> (nat + nat) set" where
  "base_round v e P i = Inl ` {g. \<exists>k<i. g = first_base e + k \<and> P k}"

lemma base_round_0 [simp]: "base_round v e P 0 = {}"
  by (simp add: base_round_def)

lemma base_round_Suc: "base_round v e P (Suc i) = (if P i then insert (Inl (first_base e + i)) (base_round v e P i) else base_round v e P i)"
  by (auto simp: base_round_def less_Suc_eq)

lemma place_other_ok:
  assumes res: "resolve_record_ok v abi n resolve_record" and n: "unvisited_slots b0 \<le> Suc n"
    and e: "view_type v h = Some e" and i: "i < unat (gr_count (te_bases e))"
    and P: "P = (\<lambda>k. skip \<noteq> Some k \<and> polymorphic_base v (first_base e + k) = poly)"
    and inv: "class_inv v abi b0 h al lo (T \<union> base_round v e P i) cursor b"
    and new: "P i \<Longrightarrow> Inl (first_base e + i) \<notin> T"
  shows "lm_wp (place_other v abi resolve_record e skip poly i cursor)
    (class_inv v abi b0 h al lo (T \<union> base_round v e P (Suc i))) b"
proof -
  have keep: "class_inv v abi b0 h al lo (T \<union> base_round v e P (Suc i)) cursor b" if "\<not> P i"
    using inv that by (simp add: base_round_Suc)
  have fresh: "Inl (first_base e + i) \<notin> T \<union> base_round v e P i" if "P i"
    using new [OF that] by (auto simp: base_round_def)
  have put: "lm_wp (place_base v abi resolve_record e i cursor) (class_inv v abi b0 h al lo (T \<union> base_round v e P (Suc i))) b" if "P i"
    using place_base_ok [OF res n e i inv fresh [OF that]] that by (simp add: base_round_Suc)
  show ?thesis
    unfolding place_other_def first_base_def [symmetric] lm_wp_simps
    using keep put by (auto simp: P polymorphic_base_def lm_wp_simps)
qed

lemma type_bases_iff:
  "view_type v h = Some e \<Longrightarrow> g \<in> type_bases v h \<longleftrightarrow> (\<exists>k<unat (gr_count (te_bases e)). g = first_base e + k)"
  by (auto simp: type_bases_def first_base_def intro: exI [of _ "g - first_base e"])

lemma type_bases_round:
  "view_type v h = Some e \<Longrightarrow> Inl ` type_bases v h = base_round v e (\<lambda>_. True) (unat (gr_count (te_bases e)))"
  by (auto simp: base_round_def type_bases_iff)

lemma base_rounds_all:
  assumes "l < n" "polymorphic_base v (first_base e + l)"
  shows "{Inl (first_base e + l)} \<union> base_round v e (\<lambda>k. Some l \<noteq> Some k \<and> polymorphic_base v (first_base e + k) = True) n \<union>
    base_round v e (\<lambda>k. None \<noteq> Some k \<and> polymorphic_base v (first_base e + k) = False) n = base_round v e (\<lambda>_. True) n"
  using assms by (auto simp: base_round_def)

lemma place_bases_ok:
  assumes res: "resolve_record_ok v abi n resolve_record" and n: "unvisited_slots b0 \<le> Suc n"
    and e: "view_type v h = Some e"
    and none: "primary = None \<Longrightarrow> class_inv v abi b0 h al lo {} start b"
    and some: "\<And>l. primary = Some l \<Longrightarrow> l < unat (gr_count (te_bases e)) \<and> polymorphic_base v (first_base e + l) \<and> lo = 0"
    and prog: "in_progress v abi b0 h b" "scanned v abi b (type_parts v h) al"
  shows "lm_wp (place_bases v abi resolve_record e primary start) (class_inv v abi b0 h al lo (Inl ` type_bases v h)) b"
proof (cases primary)
  case None
  show ?thesis
    unfolding place_bases_def Let_def None option.case type_bases_round [OF e]
  proof (rule lm_wp_upto [where I = "\<lambda>i. class_inv v abi b0 h al lo (base_round v e (\<lambda>_. True) i)"])
    show "class_inv v abi b0 h al lo (base_round v e (\<lambda>_. True) 0) start b" using none None by simp
    show "lm_wp (place_base v abi resolve_record e i cursor) (class_inv v abi b0 h al lo (base_round v e (\<lambda>_. True) (Suc i))) b'"
      if "i < unat (gr_count (te_bases e))" "class_inv v abi b0 h al lo (base_round v e (\<lambda>_. True) i) cursor b'" for i cursor b'
    proof -
      have "Inl (first_base e + i) \<notin> base_round v e (\<lambda>_. True) i" by (auto simp: base_round_def)
      then show ?thesis using place_base_ok [OF res n e that] by (simp add: base_round_Suc)
    qed
  qed
next
  case (Some l)
  let ?n = "unat (gr_count (te_bases e))" and ?T = "{Inl (first_base e + l)}"
  let ?P = "\<lambda>k. Some l \<noteq> Some k \<and> polymorphic_base v (first_base e + k) = True"
  let ?Q = "\<lambda>k. None \<noteq> Some k \<and> polymorphic_base v (first_base e + k) = False"
  have l: "l < ?n" "polymorphic_base v (first_base e + l)" "lo = 0" using some Some by auto
  have primary: "lm_wp (place_primary v resolve_record e l) (class_inv v abi b0 h al 0 ?T) b"
    by (rule place_primary_ok [OF res n e l(1) prog])
  have poly: "lm_wp (lm_for (place_other v abi resolve_record e (Some l) True) [0..<?n] cursor)
      (class_inv v abi b0 h al 0 (?T \<union> base_round v e ?P ?n)) b'"
    if "class_inv v abi b0 h al 0 ?T cursor b'" for cursor b'
  proof (rule lm_wp_upto [where I = "\<lambda>i. class_inv v abi b0 h al 0 (?T \<union> base_round v e ?P i)"], goal_cases)
    case (2 i cursor b')
    then show ?case by (intro place_other_ok [OF res n e _ refl]) auto
  qed (use that in auto)
  have fresh: "Inl (first_base e + i) \<notin> ?T \<union> base_round v e ?P ?n" if "?Q i" for i
    using that l(2) by (auto simp: base_round_def)
  have rest: "lm_wp (lm_for (place_other v abi resolve_record e None False) [0..<?n] cursor)
      (class_inv v abi b0 h al 0 (?T \<union> base_round v e ?P ?n \<union> base_round v e ?Q ?n)) b'"
    if "class_inv v abi b0 h al 0 (?T \<union> base_round v e ?P ?n) cursor b'" for cursor b'
  proof (rule lm_wp_upto [where I = "\<lambda>i. class_inv v abi b0 h al 0 (?T \<union> base_round v e ?P ?n \<union> base_round v e ?Q i)"],
        goal_cases)
    case (2 i cursor b')
    then show ?case using fresh by (intro place_other_ok [OF res n e _ refl]) auto
  qed (use that in auto)
  show ?thesis
    unfolding place_bases_def Let_def Some option.case lm_wp_simps type_bases_round [OF e]
      base_rounds_all [OF l(1,2), symmetric] l(3)
    by (rule lm_wp_mono [OF primary], rule lm_wp_mono [OF poly], assumption, rule rest)
qed

section \<open>The whole record\<close>

lemma class_record_laid_out:
  assumes inv: "class_inv v abi b0 h (unat al) (own_vfptr_bytes v abi h e) (type_parts v h) cursor b"
    and asc: "exclusive_parts v h \<Longrightarrow> ascending b (type_members v h)"
    and e: "view_type v h = Some e" "te_defined e" "te_record_kind e \<noteq> union_type"
    and al: "small_power (unat al)" "unat al \<le> unat (abi_pack abi)" and h: "h \<noteq> 0"
  shows "lm_wp (finish_record (unat (h - 1)) (if cursor = 0 then 1 else cursor) al False) (record_done v abi b0 h) b"
proof (rule finish_record_ok [OF _ h al(1)])
  show "in_progress v abi b0 h b" using inv by (simp add: class_inv_def)
  show "(if cursor = 0 then 1 else cursor) \<noteq> 0" by simp
  fix s :: layout_slot
  assume ex: "exclusive_parts v h" and s: "ls_alignment s = al" "unat (if cursor = 0 then 1 else cursor) \<le> unat (ls_size s)"
  have "unat cursor \<le> unat (ls_size s)" using s(2) by (auto split: if_splits)
  then show "record_laid_out v abi b h s"
    using inv asc [OF ex] ex e al(2) s(1) unfolding record_laid_out_def class_inv_def placed_def ascending_def
    by (auto intro: part_within_mono)
qed

lemma type_members_range:
  "view_type v h = Some e \<Longrightarrow> type_members v h = {first_member e ..< first_member e + unat (gr_count (te_members e))}"
  "view_type v h = Some e \<Longrightarrow> type_bases v h = {first_base e ..< first_base e + unat (gr_count (te_bases e))}"
  by (simp_all add: type_members_def type_bases_def first_member_def first_base_def)

lemma resolve_windows_class_record_ok:
  assumes res: "resolve_ok v abi n resolve" "resolve_record_ok v abi n resolve_record"
    and n: "unvisited_slots b0 \<le> Suc n" and pack: "pack_ok abi"
    and e: "view_type v h = Some e" "te_defined e" "te_record_kind e \<noteq> union_type" and h: "h \<noteq> 0"
    and prog: "in_progress v abi b0 h b"
  shows "lm_wp (resolve_windows_class_record v abi alloc resolve resolve_record e (unat (h - 1))) (record_done v abi b0 h) b"
proof -
  let ?nb = "unat (gr_count (te_bases e))" and ?nm = "unat (gr_count (te_members e))"
  have one: "small_power (unat (1 :: u32))" "1 \<le> unat (abi_pack abi)" using pack by (auto simp: small_power_def pack_ok_def)
  have bases: "lm_wp (lm_for (scan_base v abi resolve_record e) [0..<?nb] (None, 1)) (scan_base_inv v abi b0 h e ?nb) b'"
    if "in_progress v abi b0 h b'" for b'
    by (rule lm_wp_upto [where I = "scan_base_inv v abi b0 h e"])
      (use that one scan_base_ok [OF res(2) n pack] in \<open>auto simp: scan_base_inv_def scanned_def\<close>)
  have members: "lm_wp (lm_for (scan_member v abi resolve e) [0..<?nm] al) (scan_member_inv v abi b0 h e ?nm) b'"
    if "scan_base_inv v abi b0 h e ?nb (primary, al) b'" for primary al b'
    by (rule lm_wp_upto [where I = "scan_member_inv v abi b0 h e"])
      (use that scan_member_ok [OF res(1) n pack] type_members_range(2) [OF e(1)] in
        \<open>auto simp: scan_base_inv_def scan_member_inv_def\<close>)
  have placing: "lm_wp (lm_for (place_member v abi resolve e) [0..<?nm] cursor)
      (\<lambda>cursor. lm_wp (finish_record (unat (h - 1)) (if cursor = 0 then 1 else cursor) al False) (record_done v abi b0 h)) b'"
    if inv: "class_inv v abi b0 h (unat al) (own_vfptr_bytes v abi h e) (Inl ` type_bases v h) cursor b'"
      and al: "small_power (unat al)" "unat al \<le> unat (abi_pack abi)" for al cursor b'
  proof (rule lm_wp_upto [where I = "\<lambda>i cursor b. class_inv v abi b0 h (unat al) (own_vfptr_bytes v abi h e)
        (Inl ` type_bases v h \<union> Inr ` {first_member e ..< first_member e + i}) cursor b \<and>
        (exclusive_parts v h \<longrightarrow> ascending b {first_member e ..< first_member e + i})"], goal_cases)
    case 1
    then show ?case using inv by (simp add: ascending_def)
  next
    case (2 i acc b)
    then show ?case by (intro place_member_ok [OF res(1) n e(1)]) auto
  next
    case (3 acc b)
    then show ?case
      by (intro class_record_laid_out [OF _ _ e al h])
        (auto simp: type_parts_def type_members_range(1) [OF e(1)])
  qed
  have tail: "lm_wp (if own then lm_option layout_overflow (align_up (ucast (pointer_size properties)) al') else lm_return 0)
      (\<lambda>start. lm_wp (place_bases v abi resolve_record e primary start) (\<lambda>cursor.
        lm_wp (lm_for (place_member v abi resolve e) [0..<?nm] cursor) (\<lambda>cursor.
          lm_wp (finish_record (unat (h - 1)) (if cursor = 0 then 1 else cursor) al' False) (record_done v abi b0 h)))) b'"
    if sm: "scan_member_inv v abi b0 h e ?nm al b'"
      and prim: "case primary of None \<Rightarrow> \<forall>k<?nb. \<not> polymorphic_base v (first_base e + k)
        | Some l \<Rightarrow> l < ?nb \<and> polymorphic_base v (first_base e + l)"
      and abi_ok: "abi_layout_properties (abi_target_of abi) = Some properties"
      and own: "own = (te_polymorphic e \<and> primary = None)"
      and al': "al' = (if own then max al (min (pointer_alignment properties) (abi_pack abi)) else al)"
    for own properties al al' primary b'
  proof -
    have ptr: "small_power (unat (pointer_alignment properties))"
      "unat (ucast (pointer_size properties) :: u64) = unat (pointer_size properties)"
      using abi_ok by (auto simp: abi_layout_properties_def small_power_def split: abi_target.splits)
    have "small_power (unat (abi_pack abi))" using pack by (simp add: pack_ok_def small_power_def)
    then have al1: "small_power (unat al')" "unat al' \<le> unat (abi_pack abi)" "unat al \<le> unat al'"
      using sm ptr(1) unfolding al' by (auto simp: scan_member_inv_def unat_max unat_min intro: small_power_max small_power_min)
    have prog': "in_progress v abi b0 h b'" "scanned v abi b' (type_parts v h) (unat al')"
      using sm al1(3) scanned_kept [of v abi b' "type_parts v h" "unat al" b' "unat al'"]
      by (simp_all add: scan_member_inv_def type_parts_def type_members_range(1) [OF e(1)])
    have lo: "own_vfptr_bytes v abi h e = (if own then unat (pointer_size properties) else 0)"
    proof (cases primary)
      case None
      then have "\<forall>g\<in>type_bases v h. \<not> polymorphic_base v g"
        using prim by (auto simp: type_bases_iff [OF e(1)])
      then show ?thesis using abi_ok None by (simp add: own_vfptr_bytes_def own)
    next
      case (Some l)
      then have "\<exists>g\<in>type_bases v h. polymorphic_base v g" using prim base_parts [OF e(1)] by auto
      then show ?thesis using Some by (auto simp: own_vfptr_bytes_def own)
    qed
    have "lm_wp (place_bases v abi resolve_record e primary start)
        (class_inv v abi b0 h (unat al') (own_vfptr_bytes v abi h e) (Inl ` type_bases v h)) b'"
      if "own_vfptr_bytes v abi h e \<le> unat start" for start
      by (rule place_bases_ok [OF res(2) n e(1) _ _ prog'])
        (use that prog' prim lo own in \<open>auto simp: class_inv_def\<close>)
    then have go: "lm_wp (place_bases v abi resolve_record e primary start) (\<lambda>cursor.
        lm_wp (lm_for (place_member v abi resolve e) [0..<?nm] cursor) (\<lambda>cursor.
          lm_wp (finish_record (unat (h - 1)) (if cursor = 0 then 1 else cursor) al' False) (record_done v abi b0 h))) b'"
      if "own_vfptr_bytes v abi h e \<le> unat start" for start
      using that by (auto intro: lm_wp_mono placing [OF _ al1(1,2)])
    show ?thesis
    proof (cases own)
      case True
      have "own_vfptr_bytes v abi h e \<le> unat start"
        if "align_up (ucast (pointer_size properties)) al' = Some start" for start
        using align_up_least(2) [OF that] lo True ptr(2) by simp
      then show ?thesis using True by (simp only: lm_wp_simps if_True) (blast intro: go)
    next
      case False
      then show ?thesis using lo by (simp only: lm_wp_simps if_False) (rule go, simp)
    qed
  qed
  show ?thesis
    unfolding resolve_windows_class_record_def Let_def lm_wp_simps
  proof (intro impI allI, rule lm_wp_mono [OF mark_bases_ok [OF prog]], rule lm_wp_mono [OF bases], assumption,
      goal_cases)
    case (1 properties u b1 acc b2)
    obtain primary al where acc: "acc = (primary, al)" by (cases acc)
    have sb: "scan_base_inv v abi b0 h e ?nb (primary, al) b2" using 1 by (simp add: acc)
    show ?case
      unfolding acc prod.case lm_wp_simps
    proof (rule lm_wp_mono [OF members [OF sb]], intro impI, goal_cases)
      case (1 al b3)
      show ?case
        by (rule tail [unfolded lm_wp_simps, OF 1(1) _ _ refl refl])
          (use sb \<open>abi_layout_properties _ = _\<close> in \<open>auto simp: scan_base_inv_def\<close>)
    qed
  qed
qed

end
