(* ===== verification/Layout_Resolve.thy ===== *)
theory Layout_Resolve
  imports Layout_Class
begin

text \<open>
  Derived types, the recursion over types, and the runtime image: the fuel of
  \<^verbatim>\<open>resolve\<close> is enough on every image, and what the builder leaves behind is laid out.
\<close>

section \<open>Reference targets\<close>

lemma tr_payload_take_bit: "tr_payload t = take_bit 30 t"
  by (simp add: tr_payload_def maximum_payload_def take_bit_eq_mask mask_eq_exp_minus_1)

lemma tr_eqI:
  assumes "tr_kind t = tr_kind t'" "tr_payload t = tr_payload t'" "tr_valid t"
  shows "t = t'"
proof -
  have "drop_bit 30 t = drop_bit 30 t'"
    using assms(1,3) by (auto simp: tr_valid_def tr_kind_def type_ref_kind_of_def split: if_splits)
  moreover have "take_bit 30 t = take_bit 30 t'" using assms(2) by (simp add: tr_payload_take_bit)
  ultimately show ?thesis by (metis bits_ident)
qed

lemma pending_update:
  "i < length xs \<Longrightarrow> xs ! i \<noteq> pending_offset \<Longrightarrow> pending (xs[i := pending_offset]) = Suc (pending xs)"
proof (induction xs arbitrary: i)
  case (Cons x xs)
  then show ?case by (cases i) (auto simp: pending_def)
qed simp

lemma pending_ne_invalid: "pending_offset \<noteq> invalid_offset"
  by (simp add: pending_offset_def invalid_offset_def)

lemma set_unconnected_other:
  assumes "tr_valid t'" "t' \<noteq> t" "unconnected_slot b t \<noteq> None"
  shows "unconnected_slot (set_unconnected_slot t off b) t' = unconnected_slot b t'"
proof -
  have p: "tr_kind t' = tr_kind t \<Longrightarrow> tr_payload t' \<noteq> tr_payload t" using tr_eqI [OF _ _ assms(1)] assms(2) by blast
  have q: "tr_payload t' \<noteq> tr_payload t \<Longrightarrow> unat (tr_payload t) \<noteq> unat (tr_payload t')"
    "tr_payload t' \<noteq> tr_payload t \<Longrightarrow> unat (tr_payload t - 1) \<noteq> unat (tr_payload t' - 1)"
    by (auto simp: word_unat_eq_iff [symmetric])
  show ?thesis
    using p q by (cases "tr_kind t'"; cases "tr_kind t") (simp_all add: unconnected_slot_def set_unconnected_slot_def)
qed

lemma set_unconnected_same:
  assumes "unconnected_slot b t \<noteq> None"
  shows "unconnected_slot (set_unconnected_slot t off b) t = Some off"
  using assms handle_index [of "tr_payload t"]
  by (cases "tr_kind t") (auto simp: unconnected_slot_def set_unconnected_slot_def split: if_splits)

lemma set_unconnected_pending:
  assumes "unconnected_slot b t = Some off" "off \<noteq> pending_offset"
  shows "pending (rl_unconnected_intrinsic_offsets (set_unconnected_slot t pending_offset b)) +
      pending (rl_unconnected_type_offsets (set_unconnected_slot t pending_offset b)) +
      pending (rl_unconnected_derived_offsets (set_unconnected_slot t pending_offset b)) =
    Suc (pending (rl_unconnected_intrinsic_offsets b) + pending (rl_unconnected_type_offsets b) +
      pending (rl_unconnected_derived_offsets b))"
  using assms handle_index [of "tr_payload t"]
  by (cases "tr_kind t") (auto simp: unconnected_slot_def set_unconnected_slot_def pending_update split: if_splits)

lemma set_unconnected_fields [simp]:
  "rl_type_slots (set_unconnected_slot t off b) = rl_type_slots b"
  "rl_derived_slots (set_unconnected_slot t off b) = rl_derived_slots b"
  "rl_member_offsets (set_unconnected_slot t off b) = rl_member_offsets b"
  "rl_base_offsets (set_unconnected_slot t off b) = rl_base_offsets b"
  "rl_object_offsets (set_unconnected_slot t off b) = rl_object_offsets b"
  "rl_target (set_unconnected_slot t off b) = rl_target b"
  "rl_unconnected_types (set_unconnected_slot t off b) = rl_unconnected_types b"
  "length (rl_unconnected_intrinsic_offsets (set_unconnected_slot t off b)) = length (rl_unconnected_intrinsic_offsets b)"
  "length (rl_unconnected_type_offsets (set_unconnected_slot t off b)) = length (rl_unconnected_type_offsets b)"
  "length (rl_unconnected_derived_offsets (set_unconnected_slot t off b)) = length (rl_unconnected_derived_offsets b)"
  "lb_allocations (set_unconnected_slot t off b) = lb_allocations b"
  by (cases "tr_kind t"; simp add: set_unconnected_slot_def)+

lemma require_unconnected_ok:
  assumes inv: "layout_inv v abi b"
  shows "lm_wp (require_unconnected alloc t)
    (\<lambda>_ b'. layout_inv v abi b' \<and> layout_ext v b b' \<and> t \<in> set (rl_unconnected_types b')) b"
proof -
  have ok: "unconnected_ok b" using inv by (simp add: layout_inv_def)
  have push: "layout_inv v abi b' \<and> layout_ext v b b' \<and> t \<in> set (rl_unconnected_types b')"
    if t: "tr_valid t" "unconnected_slot b t = Some invalid_offset"
      and b': "b' = (set_unconnected_slot t pending_offset b)\<lparr>lb_allocations := k, rl_unconnected_types := rl_unconnected_types b @ [t]\<rparr>"
    for b' k
  proof -
    let ?b = "set_unconnected_slot t pending_offset b"
    have new: "t \<notin> set (rl_unconnected_types b)" using ok t(2) pending_ne_invalid by (auto simp: unconnected_ok_def)
    have un: "unconnected_slot b' t' = unconnected_slot ?b t'" for t'
      by (rule same_unconnected) (simp_all add: b')
    have other: "unconnected_slot ?b t' = unconnected_slot b t'" if "tr_valid t'" "t' \<noteq> t" for t'
      using set_unconnected_other [OF that] t(2) by simp
    have same: "unconnected_slot ?b t = Some pending_offset" using set_unconnected_same [of b t] t(2) by simp
    have "unconnected_ok b'"
      unfolding unconnected_ok_def
    proof (intro conjI ballI allI impI)
      show "distinct (rl_unconnected_types b')" using ok new by (simp add: b' unconnected_ok_def)
      show "tr_valid t'" if "t' \<in> set (rl_unconnected_types b')" for t'
        using that ok t(1) by (auto simp: b' unconnected_ok_def)
      show "unconnected_slot b' t' = Some pending_offset" if "t' \<in> set (rl_unconnected_types b')" for t'
      proof (cases "t' = t")
        case False
        then have "t' \<in> set (rl_unconnected_types b)" using that by (simp add: b')
        then show ?thesis using ok other [OF _ False] by (simp add: un unconnected_ok_def)
      qed (simp add: un same)
      show "t' \<in> set (rl_unconnected_types b')"
        if "tr_valid t'" "unconnected_slot b' t' = Some off" "off \<noteq> invalid_offset" for t' off
      proof (cases "t' = t")
        case False
        then have "unconnected_slot b t' = Some off" using that(2) other [OF that(1)] by (simp add: un)
        then show ?thesis using that(1,3) ok by (simp add: b' unconnected_ok_def)
      qed (simp add: b')
      show "length (rl_unconnected_types b') = pending (rl_unconnected_intrinsic_offsets b') +
          pending (rl_unconnected_type_offsets b') + pending (rl_unconnected_derived_offsets b')"
        using ok set_unconnected_pending [OF t(2)] pending_ne_invalid by (simp add: b' unconnected_ok_def)
    qed
    moreover have "layout_inv v abi b'"
      by (rule layout_inv_step [OF inv])
        (use inv \<open>unconnected_ok b'\<close> in \<open>auto simp: b' layout_inv_def layout_sizes_def type_slot_def derived_slot_def
          part_offset_def split: sum.splits\<close>)
    moreover have "layout_ext v b b'" by (auto simp: b' layout_ext_def part_offset_def split: sum.splits)
    ultimately show ?thesis by (simp add: b')
  qed
  show ?thesis
    unfolding require_unconnected_def lm_wp_simps
  proof (intro impI allI, goal_cases)
    case (1 off)
    show ?case
    proof (cases "off = invalid_offset")
      case True
      then show ?thesis using push [OF 1(1) _ refl] 1(2) by (auto simp: lm_wp_simps)
    next
      case False
      then show ?thesis using inv ok 1 by (auto simp: unconnected_ok_def)
    qed
  qed
qed

section \<open>Derived types\<close>

lemma derived_slot_index:
  "derived_slot b t = Some s \<Longrightarrow> tr_kind t = type_ref_derived \<and> tr_payload t \<noteq> 0 \<and>
     unat (tr_payload t - 1) < length (rl_derived_slots b) \<and> rl_derived_slots b ! unat (tr_payload t - 1) = s \<and>
     unat (tr_payload t) \<le> length (rl_derived_slots b)"
  using handle_index [of "tr_payload t" "length (rl_derived_slots b)"] by (auto simp: derived_slot_def split: if_splits)

lemma derived_slot_set:
  assumes "derived_slot b t = Some s0"
  shows "derived_slot (set_derived_slot (unat (tr_payload t - 1)) s b) t' = (if t' = t then Some s else derived_slot b t')"
proof (cases "t' = t")
  case True
  then show ?thesis using derived_slot_index [OF assms] by (simp add: derived_slot_def set_derived_slot_def)
next
  case False
  have "unat (tr_payload t - 1) \<noteq> unat (tr_payload t' - 1)" if "tr_kind t' = type_ref_derived" "tr_payload t' \<noteq> 0"
  proof -
    have "tr_payload t' \<noteq> tr_payload t"
      using tr_eqI [of t' t] that derived_slot_index [OF assms] False by (auto simp: tr_valid_def)
    then show ?thesis by (auto simp: word_unat_eq_iff [symmetric])
  qed
  then show ?thesis using False by (auto simp: derived_slot_def set_derived_slot_def)
qed

lemma set_derived_slot_fields [simp]:
  "rl_type_slots (set_derived_slot i s b) = rl_type_slots b"
  "rl_derived_slots (set_derived_slot i s b) = (rl_derived_slots b)[i := s]"
  "rl_member_offsets (set_derived_slot i s b) = rl_member_offsets b"
  "rl_base_offsets (set_derived_slot i s b) = rl_base_offsets b"
  "rl_object_offsets (set_derived_slot i s b) = rl_object_offsets b"
  "rl_target (set_derived_slot i s b) = rl_target b"
  "rl_unconnected_types (set_derived_slot i s b) = rl_unconnected_types b"
  "rl_unconnected_intrinsic_offsets (set_derived_slot i s b) = rl_unconnected_intrinsic_offsets b"
  "rl_unconnected_type_offsets (set_derived_slot i s b) = rl_unconnected_type_offsets b"
  "rl_unconnected_derived_offsets (set_derived_slot i s b) = rl_unconnected_derived_offsets b"
  "type_slot (set_derived_slot i s b) h = type_slot b h"
  "part_offset (set_derived_slot i s b) p = part_offset b p"
  "unconnected_slot (set_derived_slot i s b) t = unconnected_slot b t"
  unfolding set_derived_slot_def
  by ((simp; fail) | (rule same_slots same_offset same_unconnected; simp; fail))+

lemma layout_inv_set_derived:
  assumes inv: "layout_inv v abi b" and old: "derived_slot b t = Some s0" "ls_state s0 \<noteq> slot_ready"
    and s: "ls_state s = slot_ready \<Longrightarrow> derived_slot_ok v abi (set_derived_slot (unat (tr_payload t - 1)) s b) t s"
  shows "layout_inv v abi (set_derived_slot (unat (tr_payload t - 1)) s b)"
proof (rule layout_inv_step [OF inv])
  show "ready_kept (rl_derived_slots b) (rl_derived_slots (set_derived_slot (unat (tr_payload t - 1)) s b))"
    using derived_slot_index [OF old(1)] old(2) by (auto simp: ready_kept_def nth_list_update)
  show "derived_slot b t' = Some s' \<or> derived_slot_ok v abi (set_derived_slot (unat (tr_payload t - 1)) s b) t' s'"
    if "derived_slot (set_derived_slot (unat (tr_payload t - 1)) s b) t' = Some s'" "ls_state s' = slot_ready" for t' s'
    using that s by (auto simp: derived_slot_set [OF old(1)] split: if_splits)
qed (use inv in \<open>auto simp: layout_inv_def layout_sizes_def unconnected_ok_def\<close>)

lemma layout_ext_set_derived:
  assumes ext: "layout_ext v b0 b" and old: "derived_slot b0 t = Some s0" "ls_state s0 = slot_empty"
  shows "layout_ext v b0 (set_derived_slot (unat (tr_payload t - 1)) s b)"
  using ext derived_slot_index [OF old(1)] old(2) by (auto simp: layout_ext_def intro: slots_kept_update)

definition derived_done ::
    "compiled_project_view \<Rightarrow> server_abi_configuration \<Rightarrow> layout_builder \<Rightarrow> type_ref \<Rightarrow>
       runtime_value_layout \<Rightarrow> layout_builder \<Rightarrow> bool" where
  "derived_done v abi b0 t x b \<longleftrightarrow>
     layout_inv v abi b \<and> layout_ext v b0 b \<and> Option.bind (derived_slot b t) slot_value = Some x \<and> good_value x"

text \<open>The layout a derived type takes from its child, before its slot is written.\<close>

definition derived_layout ::
    "compiled_project_view \<Rightarrow> server_abi_configuration \<Rightarrow> layout_builder \<Rightarrow> type_ref \<Rightarrow> runtime_value_layout \<Rightarrow> bool" where
  "derived_layout v abi b t x \<longleftrightarrow>
     (\<forall>s. ls_size s = vl_size x \<longrightarrow> ls_alignment s = vl_alignment x \<longrightarrow> derived_laid_out v abi b t s)"

lemma resolve_derived_kind_ok:
  assumes res: "resolve_ok v abi n resolve" and b: "layout_inv v abi b" "unvisited_slots b \<le> n"
    and d: "view_derived v t = Some d"
  shows "lm_wp (resolve_derived_kind abi alloc resolve d)
    (\<lambda>x b'. layout_inv v abi b' \<and> layout_ext v b b' \<and> derived_layout v abi b' t x \<and>
      (unat (vl_size x) \<le> uint32_max \<longrightarrow> good_value x)) b"
proof -
  have child: "lm_wp (resolve (dr_child d)) (\<lambda>x b'. layout_inv v abi b' \<and> layout_ext v b b' \<and>
      layout_value (abi_target_of abi) b' (dr_child d) = Some x \<and> good_value x) b"
    using res b by (simp add: resolve_ok_def)
  have props: "abi_layout_properties (abi_target_of abi) = Some p \<Longrightarrow>
      good_value (value_layout (ucast (pointer_size p)) (pointer_alignment p)) \<and>
      good_value (value_layout (ucast (reference_size p)) (reference_alignment p))" for p
    by (auto simp: abi_layout_properties_def good_value_def split: abi_target.splits)
  have array: "good_value (value_layout bytes (vl_alignment x))"
    if "good_value x" "multiply_u64 (vl_size x) (dr_payload d) = Some bytes" "dr_payload d \<noteq> 0" "unat bytes \<le> uint32_max" for x bytes
  proof -
    have "unat bytes = unat (vl_size x) * unat (dr_payload d)" using that(2) by (simp add: multiply_u64_Some)
    moreover have "0 < unat (dr_payload d)" using that(3) by (simp add: unat_gt_0)
    ultimately show ?thesis using that(1,4) by (auto simp: good_value_def mod_mult_left_eq [symmetric])
  qed
  consider "dr_kind d = 0 \<or> dr_kind d = 1" | "dr_kind d = 2" | "dr_kind d = 3 \<or> dr_kind d = 4" | "dr_kind d = 5"
    | "dr_kind d \<notin> {0, 1, 2, 3, 4, 5}" by auto
  then show ?thesis
  proof cases
    case 1
    then show ?thesis
      unfolding resolve_derived_kind_def
      by (simp only: if_True) (rule lm_wp_mono [OF child], auto simp: derived_layout_def derived_laid_out_def d)
  next
    case 2
    then show ?thesis
      using b(1) props d by (simp add: resolve_derived_kind_def lm_wp_simps derived_layout_def derived_laid_out_def)
  next
    case 3
    then have "resolve_derived_kind abi alloc resolve d = lm_bind (require_unconnected alloc (dr_child d)) (\<lambda>_.
        lm_bind (lm_option layout_invalid_input (abi_layout_properties (abi_target_of abi))) (\<lambda>properties.
        lm_return (value_layout (ucast (reference_size properties)) (reference_alignment properties))))"
      by (auto simp: resolve_derived_kind_def)
    then show ?thesis
      using 3 props d
      by (auto simp: lm_wp_simps derived_layout_def derived_laid_out_def intro: lm_wp_mono [OF require_unconnected_ok [OF b(1)]])
  next
    case 4
    then have "resolve_derived_kind abi alloc resolve d =
        lm_bind (lm_require (dr_payload d \<noteq> 0) layout_invalid_input) (\<lambda>_.
        lm_bind (resolve (dr_child d)) (\<lambda>child.
        lm_bind (lm_option layout_overflow (multiply_u64 (vl_size child) (dr_payload d))) (\<lambda>bytes.
        lm_return (value_layout bytes (vl_alignment child)))))"
      by (simp add: resolve_derived_kind_def)
    then show ?thesis
      using 4 array d
      by (auto simp: lm_wp_simps derived_layout_def derived_laid_out_def multiply_u64_Some intro!: lm_wp_mono [OF child])
  next
    case 5
    then show ?thesis by (simp add: resolve_derived_kind_def lm_wp_simps)
  qed
qed

definition resolve_derived_ok ::
    "compiled_project_view \<Rightarrow> server_abi_configuration \<Rightarrow> nat \<Rightarrow> (type_ref \<Rightarrow> runtime_value_layout layout_m) \<Rightarrow> bool" where
  "resolve_derived_ok v abi n resolve_derived \<longleftrightarrow>
     (\<forall>t b. layout_inv v abi b \<longrightarrow> unvisited_slots b \<le> n \<longrightarrow> lm_wp (resolve_derived t) (derived_done v abi b t) b)"

text \<open>A visit of an empty derived slot, from marking it to writing it.\<close>

lemma visit_derived_ok:
  assumes res: "resolve_ok v abi n resolve" and b: "layout_inv v abi b" "unvisited_slots b \<le> Suc n"
    and slot: "derived_slot b t = Some s0" "ls_state s0 = slot_empty" and d: "view_derived v t = Some d"
  shows "lm_wp (lm_bind (resolve_derived_kind abi alloc resolve d) (\<lambda>resolved.
      lm_bind (lm_require (vl_size resolved \<le> ucast (-1 :: u32)) layout_overflow) (\<lambda>_.
      lm_bind (lm_update (set_derived_slot (unat (tr_payload t - 1))
        (s0\<lparr>ls_size := vl_size resolved, ls_alignment := vl_alignment resolved, ls_state := slot_ready\<rparr>))) (\<lambda>_.
      lm_return resolved)))) (derived_done v abi b t)
    (set_derived_slot (unat (tr_payload t - 1)) (s0\<lparr>ls_state := slot_visiting\<rparr>) b)"
proof -
  let ?i = "unat (tr_payload t - 1)"
  let ?b1 = "set_derived_slot ?i (s0\<lparr>ls_state := slot_visiting\<rparr>) b"
  note index = derived_slot_index [OF slot(1)]
  have inv1: "layout_inv v abi ?b1" by (rule layout_inv_set_derived [OF b(1) slot(1)]) (simp_all add: slot(2))
  have ext1: "layout_ext v b ?b1" by (rule layout_ext_set_derived [OF layout_ext_refl slot])
  have "unvisited_slots ?b1 < unvisited_slots b"
    using unvisited_visit [of ?i "rl_derived_slots b" "s0\<lparr>ls_state := slot_visiting\<rparr>"] index slot(2)
    by (simp add: unvisited_slots_def)
  then have "unvisited_slots ?b1 \<le> n" using b(2) by simp
  note kind = resolve_derived_kind_ok [OF res inv1 this d]
  show ?thesis
    unfolding lm_wp_simps
  proof (rule lm_wp_mono [OF kind], intro impI, elim conjE)
    fix x b2
    assume inv2: "layout_inv v abi b2" and ext2: "layout_ext v ?b1 b2" and x: "derived_layout v abi b2 t x"
      and good: "unat (vl_size x) \<le> uint32_max \<longrightarrow> good_value x" and le: "vl_size x \<le> ucast (-1 :: u32)"
    let ?s = "s0\<lparr>ls_size := vl_size x, ls_alignment := vl_alignment x, ls_state := slot_ready\<rparr>"
    let ?b3 = "set_derived_slot ?i ?s b2"
    have g: "good_value x" using good le by (simp add: word_le_nat_alt unat_u32_max)
    have "derived_slot ?b1 t = Some (s0\<lparr>ls_state := slot_visiting\<rparr>)" by (simp add: derived_slot_set [OF slot(1)])
    moreover have "slots_kept (rl_derived_slots ?b1) (rl_derived_slots b2)" using ext2 by (simp only: layout_ext_def)
    ultimately have slot2: "derived_slot b2 t = Some (s0\<lparr>ls_state := slot_visiting\<rparr>)"
      using derived_slot_kept [of ?b1 b2 t "s0\<lparr>ls_state := slot_visiting\<rparr>"] by simp
    have "ready_kept (rl_derived_slots b2) (rl_derived_slots ?b3)"
      using derived_slot_index [OF slot2] by (auto simp: ready_kept_def nth_list_update)
    moreover have "derived_laid_out v abi b2 t ?s" using x by (simp add: derived_layout_def)
    ultimately have "derived_laid_out v abi ?b3 t ?s"
      using derived_laid_out_kept [of b2 ?b3 v abi t ?s] by simp
    then have ok: "derived_slot_ok v abi ?b3 t ?s" using g by (simp add: derived_slot_ok_def good_value_def)
    have "layout_inv v abi ?b3" by (rule layout_inv_set_derived [OF inv2 slot2]) (simp_all add: ok)
    moreover have "layout_ext v b ?b3" by (rule layout_ext_set_derived [OF layout_ext_trans [OF ext1 ext2] slot])
    moreover have "derived_slot ?b3 t = Some ?s" by (simp add: derived_slot_set [OF slot2])
    ultimately show "derived_done v abi b t x ?b3" using g by (simp add: derived_done_def slot_value_def)
  qed
qed

lemma unvisited_pos:
  assumes "type_slot b h = Some s \<or> derived_slot b t = Some s" "ls_state s = slot_empty"
  shows "0 < unvisited_slots b"
proof -
  have pos: "i < length xs \<Longrightarrow> ls_state (xs ! i) = slot_empty \<Longrightarrow> 0 < unvisited xs" for i xs
    by (auto simp: unvisited_def card_gt_0_iff)
  from assms(1) show ?thesis
  proof
    assume "type_slot b h = Some s"
    then show ?thesis using pos [of "unat (h - 1)" "rl_type_slots b"] type_slot_index [of b h s] assms(2)
      by (simp add: unvisited_slots_def)
  next
    assume "derived_slot b t = Some s"
    then show ?thesis using pos [of "unat (tr_payload t - 1)" "rl_derived_slots b"] derived_slot_index [of b t s] assms(2)
      by (simp add: unvisited_slots_def)
  qed
qed

lemma resolve_derived_body_ok:
  assumes res: "\<And>m. n = Suc m \<Longrightarrow> resolve_ok v abi m resolve"
  shows "resolve_derived_ok v abi n (resolve_derived_body v abi alloc resolve)"
  unfolding resolve_derived_ok_def
proof (intro allI impI)
  fix t b assume b: "layout_inv v abi b" "unvisited_slots b \<le> n"
  show "lm_wp (resolve_derived_body v abi alloc resolve t) (derived_done v abi b t) b"
  proof (cases "derived_slot b t")
    case None
    then have "tr_kind t \<noteq> type_ref_derived \<or> tr_payload t = 0 \<or> unat (tr_payload t) > length (rl_derived_slots b)"
      by (auto simp: derived_slot_def split: if_splits)
    then show ?thesis unfolding resolve_derived_body_def lm_wp_simps by (simp only: if_True)
  next
    case (Some s)
    note index = derived_slot_index [OF Some]
    have guard: "\<not> (tr_kind t \<noteq> type_ref_derived \<or> tr_payload t = 0 \<or> unat (tr_payload t) > length (rl_derived_slots b))"
      using index by simp
    have slot: "rl_derived_slots b ! unat (tr_payload t - 1) = s" using index by simp
    have body: "lm_wp (resolve_derived_body v abi alloc resolve t) Q b = lm_wp
        (case ls_state s of
           slot_ready \<Rightarrow> lm_return (value_layout (ls_size s) (ls_alignment s))
         | slot_visiting \<Rightarrow> lm_fail layout_invalid_input
         | slot_empty \<Rightarrow>
             lm_bind (lm_option layout_invalid_input (view_derived v t)) (\<lambda>derived.
             lm_bind (lm_update (set_derived_slot (unat (tr_payload t - 1)) (s\<lparr>ls_state := slot_visiting\<rparr>))) (\<lambda>_.
             lm_on_failure (set_derived_slot (unat (tr_payload t - 1)) (s\<lparr>ls_state := slot_empty\<rparr>))
               (lm_bind (resolve_derived_kind abi alloc resolve derived) (\<lambda>resolved.
                lm_bind (lm_require (vl_size resolved \<le> ucast (-1 :: u32)) layout_overflow) (\<lambda>_.
                lm_bind (lm_update (set_derived_slot (unat (tr_payload t - 1))
                  (s\<lparr>ls_size := vl_size resolved, ls_alignment := vl_alignment resolved, ls_state := slot_ready\<rparr>))) (\<lambda>_.
                lm_return resolved))))))) Q b" for Q
      using guard unfolding resolve_derived_body_def lm_wp_get Let_def slot by (simp only: if_False)
    show ?thesis
    proof (cases "ls_state s")
      case slot_ready
      then show ?thesis
        unfolding body using b(1) Some by (simp add: lm_wp_simps derived_done_def slot_value_def layout_inv_def derived_slot_ok_def)
    next
      case slot_visiting
      then show ?thesis unfolding body by (simp add: lm_wp_simps)
    next
      case slot_empty
      obtain m where m: "n = Suc m" using unvisited_pos [of b 0 s t] Some slot_empty b(2) by (cases n) auto
      note visit = visit_derived_ok [OF res [OF m] b(1) b(2) [unfolded m] Some slot_empty]
      show ?thesis
        unfolding body slot_empty slot_state.case
        using visit by (simp only: lm_wp_simps) blast
    qed
  qed
qed

section \<open>The recursion over types\<close>

lemma resolve_record_ok_done:
  "resolve_record_ok v abi n rr \<longleftrightarrow>
     (\<forall>h b. layout_inv v abi b \<longrightarrow> unvisited_slots b \<le> n \<longrightarrow> lm_wp (rr h) (record_done v abi b h) b)"
  by (simp add: resolve_record_ok_def record_done_def [abs_def])

lemma resolve_record_body_ok:
  assumes res: "\<And>m. n = Suc m \<Longrightarrow> resolve_ok v abi m resolve \<and> resolve_record_ok v abi m resolve_record"
    and pack: "pack_ok abi"
  shows "resolve_record_ok v abi n (resolve_record_body v abi alloc resolve resolve_record)"
  unfolding resolve_record_ok_done
proof (intro allI impI)
  fix h b assume b: "layout_inv v abi b" "unvisited_slots b \<le> n"
  show "lm_wp (resolve_record_body v abi alloc resolve resolve_record h) (record_done v abi b h) b"
  proof (cases "type_slot b h")
    case None
    then have "h = 0 \<or> unat h > length (rl_type_slots b)" by (auto simp: type_slot_def split: if_splits)
    then show ?thesis unfolding resolve_record_body_def lm_wp_simps by (simp only: if_True)
  next
    case (Some s)
    note index = type_slot_index [OF Some]
    have h: "h \<noteq> 0" using Some by (auto simp: type_slot_def)
    have guard: "\<not> (h = 0 \<or> unat h > length (rl_type_slots b))" using index h by simp
    have slot: "rl_type_slots b ! unat (h - 1) = s" using index by simp
    show ?thesis
    proof (cases "ls_state s")
      case slot_ready
      then show ?thesis
        unfolding resolve_record_body_def lm_wp_get Let_def slot using guard b(1) Some
        by (simp only: if_False slot_state.case)
          (simp add: lm_wp_simps record_done_def slot_value_def layout_inv_def type_slot_ok_def)
    next
      case slot_visiting
      then show ?thesis
        unfolding resolve_record_body_def lm_wp_get Let_def slot using guard
        by (simp only: if_False slot_state.case lm_wp_simps)
    next
      case slot_empty
      obtain m where m: "n = Suc m" using unvisited_pos [of b h s 0] Some slot_empty b(2) by (cases n) auto
      have r: "resolve_ok v abi m resolve" "resolve_record_ok v abi m resolve_record" "unvisited_slots b \<le> Suc m"
        using res [OF m] b(2) m by auto
      note start = in_progress_start [OF b(1) h Some slot_empty]
      show ?thesis
        unfolding resolve_record_body_def lm_wp_get Let_def slot using guard
      proof (simp only: if_False slot_empty slot_state.case lm_wp_simps, intro allI impI, goal_cases)
        case (1 e)
        then show ?case
          using resolve_windows_class_record_ok [OF r(1,2,3) pack _ _ _ h start]
            resolve_plain_record_ok [OF r(1,3) pack _ _ h _ _ start]
          by (simp split: if_splits) blast
      qed
    qed
  qed
qed

lemma intrinsic_good: "intrinsic_layout t target = Inr x \<Longrightarrow> good_value x"
  by (cases t; cases target) (auto simp: intrinsic_layout_def abi_layout_properties_def good_value_def)

lemma view_type_at_payload:
  "p \<noteq> 0 \<Longrightarrow> unat p \<le> type_count_value v \<Longrightarrow> view_type_at v (unat (p - 1)) = p" for p :: u32
  using handle_index [of p "type_count_value v"] by (simp add: view_type_at_def)

lemma resolve_body_ok:
  assumes rec: "resolve_record_ok v abi n resolve_record" and der: "resolve_derived_ok v abi n resolve_derived"
  shows "resolve_ok v abi n (resolve_body v abi resolve_record resolve_derived)"
  unfolding resolve_ok_def
proof (intro allI impI)
  fix t b assume b: "layout_inv v abi b" "unvisited_slots b \<le> n"
  let ?Q = "\<lambda>x b'. layout_inv v abi b' \<and> layout_ext v b b' \<and> layout_value (abi_target_of abi) b' t = Some x \<and> good_value x"
  show "lm_wp (resolve_body v abi resolve_record resolve_derived t) ?Q b"
  proof (cases "tr_valid t")
    case False
    then show ?thesis by (simp add: resolve_body_def lm_wp_simps)
  next
    case True
    show ?thesis
    proof (cases "tr_kind t")
      case type_ref_invalid
      then show ?thesis using True by (simp add: tr_valid_def)
    next
      case type_ref_intrinsic
      then show ?thesis
        using True b(1) by (auto simp: resolve_body_def lm_wp_simps layout_value_def intro: intrinsic_good)
    next
      case type_ref_named
      have "lm_wp (resolve_record (tr_payload t)) ?Q b"
        by (rule lm_wp_mono [OF rec [unfolded resolve_record_ok_done, rule_format, OF b]])
          (use True type_ref_named in \<open>simp add: record_done_def layout_value_def\<close>)
      then show ?thesis
        using True type_ref_named by (simp add: resolve_body_def lm_wp_simps view_type_at_payload)
    next
      case type_ref_derived
      have "lm_wp (resolve_derived t) ?Q b"
        by (rule lm_wp_mono [OF der [unfolded resolve_derived_ok_def, rule_format, OF b]])
          (use True type_ref_derived in \<open>simp add: derived_done_def layout_value_def\<close>)
      then show ?thesis using True type_ref_derived by (simp add: resolve_body_def)
    qed
  qed
qed

lemma layout_resolve_eqs:
  "layout_resolve v abi alloc (Suc fuel) =
     resolve_body v abi (layout_resolve_record v abi alloc fuel) (layout_resolve_derived v abi alloc fuel)"
  "layout_resolve_record v abi alloc (Suc fuel) =
     resolve_record_body v abi alloc (layout_resolve v abi alloc fuel) (layout_resolve_record v abi alloc fuel)"
  "layout_resolve_derived v abi alloc (Suc fuel) = resolve_derived_body v abi alloc (layout_resolve v abi alloc fuel)"
  by (simp_all add: fun_eq_iff)

text \<open>Two levels of fuel per unvisited slot are enough.\<close>

lemma layout_resolve_ok:
  assumes pack: "pack_ok abi"
  shows "(\<forall>fuel\<ge>2 * n + 2. resolve_ok v abi n (layout_resolve v abi alloc fuel)) \<and>
    (\<forall>fuel\<ge>2 * n + 1. resolve_record_ok v abi n (layout_resolve_record v abi alloc fuel)) \<and>
    (\<forall>fuel\<ge>2 * n + 1. resolve_derived_ok v abi n (layout_resolve_derived v abi alloc fuel))"
proof (induction n)
  case 0
  have rec: "resolve_record_ok v abi 0 (layout_resolve_record v abi alloc fuel)"
    and der: "resolve_derived_ok v abi 0 (layout_resolve_derived v abi alloc fuel)" if "fuel \<ge> 1" for fuel
    using that resolve_record_body_ok [OF _ pack, of 0 v] resolve_derived_body_ok [of 0 v]
    by (cases fuel; simp add: layout_resolve_eqs del: layout_resolve_record.simps layout_resolve_derived.simps)+
  have "resolve_ok v abi 0 (layout_resolve v abi alloc fuel)" if "fuel \<ge> 2" for fuel
    using that resolve_body_ok [OF rec der]
    by (cases fuel) (simp_all add: layout_resolve_eqs del: layout_resolve.simps)
  then show ?case using rec der by simp
next
  case (Suc n)
  have rec: "resolve_record_ok v abi (Suc n) (layout_resolve_record v abi alloc fuel)"
    and der: "resolve_derived_ok v abi (Suc n) (layout_resolve_derived v abi alloc fuel)" if "fuel \<ge> 2 * Suc n + 1" for fuel
  proof -
    obtain f where f: "fuel = Suc f" "f \<ge> 2 * n + 2" using \<open>fuel \<ge> _\<close> by (cases fuel) auto
    show "resolve_record_ok v abi (Suc n) (layout_resolve_record v abi alloc fuel)"
      unfolding f(1) layout_resolve_eqs using Suc.IH f(2) by (intro resolve_record_body_ok [OF _ pack]) auto
    show "resolve_derived_ok v abi (Suc n) (layout_resolve_derived v abi alloc fuel)"
      unfolding f(1) layout_resolve_eqs using Suc.IH f(2) by (intro resolve_derived_body_ok) auto
  qed
  have "resolve_ok v abi (Suc n) (layout_resolve v abi alloc fuel)" if fuel: "fuel \<ge> 2 * Suc n + 2" for fuel
  proof -
    obtain f where f: "fuel = Suc f" "f \<ge> 2 * Suc n + 1" using fuel by (cases fuel) auto
    show ?thesis unfolding f(1) layout_resolve_eqs by (rule resolve_body_ok [OF rec [OF f(2)] der [OF f(2)]])
  qed
  then show ?case using rec der by blast
qed

end
