(* ===== verification/Layout_Errors.thy ===== *)
theory Layout_Errors
  imports Layout_Logic
begin

text \<open>
  The error paths of the layout builder: a method that gives up always gives a reason, so the success
  code of \<^verbatim>\<open>prepare_runtime_layout\<close> means that every step of the build was completed.
\<close>

named_theorems fails_intros \<open>methods whose failures carry an error code\<close>

definition fails_with_error :: "'a layout_m \<Rightarrow> bool" where
  "fails_with_error m \<longleftrightarrow> (\<forall>b b'. m b \<noteq> Some (Inl layout_success, b'))"

lemma fails_return [fails_intros]: "fails_with_error (lm_return x)"
  by (simp add: fails_with_error_def lm_return_def)

lemma fails_fail [fails_intros]: "e \<noteq> layout_success \<Longrightarrow> fails_with_error (lm_fail e)"
  by (simp add: fails_with_error_def lm_fail_def)

lemma fails_bind [fails_intros]:
  "fails_with_error m \<Longrightarrow> (\<And>x. fails_with_error (f x)) \<Longrightarrow> fails_with_error (lm_bind m f)"
  by (auto simp: fails_with_error_def lm_bind_def split: option.splits sum.splits)

lemma fails_get [fails_intros]: "(\<And>b. fails_with_error (f b)) \<Longrightarrow> fails_with_error (lm_get f)"
  by (simp add: fails_with_error_def lm_get_def)

lemma fails_update [fails_intros]: "fails_with_error (lm_update f)"
  by (simp add: fails_with_error_def lm_update_def)

lemma fails_require [fails_intros]: "e \<noteq> layout_success \<Longrightarrow> fails_with_error (lm_require ok e)"
  by (simp add: lm_require_def fails_intros)

lemma fails_option [fails_intros]: "e \<noteq> layout_success \<Longrightarrow> fails_with_error (lm_option e r)"
  by (cases r) (simp_all add: lm_option_def fails_intros)

lemma fails_on_failure [fails_intros]: "fails_with_error m \<Longrightarrow> fails_with_error (lm_on_failure g m)"
  by (auto simp: fails_with_error_def lm_on_failure_def split: option.splits sum.splits)

lemma fails_allocate [fails_intros]: "fails_with_error (lm_allocate alloc)"
  by (simp add: fails_with_error_def lm_allocate_def)

lemma fails_for [fails_intros]:
  "(\<And>i acc. fails_with_error (body i acc)) \<Longrightarrow> fails_with_error (lm_for body xs acc)"
  by (induction xs arbitrary: acc) (simp_all add: fails_intros)

lemma fails_sum_intrinsic [fails_intros]: "fails_with_error (lm_sum (intrinsic_layout t target))"
  by (simp add: intrinsic_layout_def lm_sum_def Let_def fails_intros split: option.splits)

lemma fails_unconnected [fails_intros]:
  "fails_with_error (require_unconnected alloc t)" "fails_with_error (store_unconnected_offset t off)"
  unfolding require_unconnected_def store_unconnected_offset_def by (auto intro!: fails_intros)

lemma fails_mark_bases [fails_intros]: "fails_with_error (mark_bases v alloc entry)"
  unfolding mark_bases_def mark_base_def by (auto intro!: fails_intros)

lemma fails_finish [fails_intros]: "fails_with_error (finish_record i raw al empty_record)"
  unfolding finish_record_def by (auto intro!: fails_intros)

lemma fails_scan [fails_intros]:
  "(\<And>h. fails_with_error (rr h)) \<Longrightarrow> fails_with_error (scan_base v abi rr entry k acc)"
  "(\<And>t. fails_with_error (r t)) \<Longrightarrow> fails_with_error (scan_member v abi r entry k al)"
  unfolding scan_base_def scan_member_def Let_def by (auto intro!: fails_intros)

lemma fails_place [fails_intros]:
  "(\<And>h. fails_with_error (rr h)) \<Longrightarrow> fails_with_error (place_base v abi rr entry k cursor)"
  "(\<And>h. fails_with_error (rr h)) \<Longrightarrow> fails_with_error (place_primary v rr entry k)"
  "(\<And>t. fails_with_error (r t)) \<Longrightarrow> fails_with_error (place_member v abi r entry k cursor)"
  unfolding place_base_def place_primary_def place_member_def Let_def by (auto intro!: fails_intros)

lemma fails_place_other [fails_intros]:
  "(\<And>h. fails_with_error (rr h)) \<Longrightarrow> fails_with_error (place_other v abi rr entry skip poly k cursor)"
  unfolding place_other_def by (auto intro!: fails_intros)

lemma fails_place_bases [fails_intros]:
  "(\<And>h. fails_with_error (rr h)) \<Longrightarrow> fails_with_error (place_bases v abi rr entry primary cursor)"
  unfolding place_bases_def Let_def by (cases primary) (auto intro!: fails_intros)

lemma fails_class_record [fails_intros]:
  assumes "\<And>t. fails_with_error (r t)" "\<And>h. fails_with_error (rr h)"
  shows "fails_with_error (resolve_windows_class_record v abi alloc r rr entry i)"
  unfolding resolve_windows_class_record_def Let_def by (auto intro!: fails_intros assms split: prod.split)

lemma fails_plain_record [fails_intros]:
  assumes "\<And>t. fails_with_error (r t)"
  shows "fails_with_error (resolve_plain_record v abi r entry i)"
proof -
  have "fails_with_error (layout_member v abi r entry u k acc)" for u k acc
    unfolding layout_member_def Let_def by (cases acc) (auto intro!: fails_intros assms)
  then show ?thesis unfolding resolve_plain_record_def Let_def by (auto intro!: fails_intros split: prod.split)
qed

lemma fails_record [fails_intros]:
  assumes "\<And>t. fails_with_error (r t)" "\<And>h. fails_with_error (rr h)"
  shows "fails_with_error (resolve_record_body v abi alloc r rr h)"
  unfolding resolve_record_body_def Let_def by (auto intro!: fails_intros assms split: slot_state.split)

lemma fails_derived [fails_intros]:
  assumes "\<And>t. fails_with_error (r t)"
  shows "fails_with_error (resolve_derived_body v abi alloc r t)"
proof -
  have "fails_with_error (resolve_derived_kind abi alloc r d)" for d
    unfolding resolve_derived_kind_def by (auto intro!: fails_intros assms)
  then show ?thesis unfolding resolve_derived_body_def Let_def by (auto intro!: fails_intros split: slot_state.split)
qed

lemma fails_body [fails_intros]:
  assumes "\<And>h. fails_with_error (rr h)" "\<And>t. fails_with_error (rd t)"
  shows "fails_with_error (resolve_body v abi rr rd t)"
  unfolding resolve_body_def by (auto intro!: fails_intros assms split: type_ref_kind.split)

lemma fails_resolve_all:
  "(\<forall>t. fails_with_error (layout_resolve v abi alloc n t)) \<and>
   (\<forall>h. fails_with_error (layout_resolve_record v abi alloc n h)) \<and>
   (\<forall>t. fails_with_error (layout_resolve_derived v abi alloc n t))"
proof (induction n)
  case 0
  then show ?case by (simp add: fails_with_error_def)
next
  case (Suc n)
  have eq: "layout_resolve v abi alloc (Suc n) t =
      resolve_body v abi (layout_resolve_record v abi alloc n) (layout_resolve_derived v abi alloc n) t"
    "layout_resolve_record v abi alloc (Suc n) h =
      resolve_record_body v abi alloc (layout_resolve v abi alloc n) (layout_resolve_record v abi alloc n) h"
    "layout_resolve_derived v abi alloc (Suc n) t = resolve_derived_body v abi alloc (layout_resolve v abi alloc n) t" for t h
    by (simp_all add: fun_eq_iff)
  show ?case unfolding eq using Suc by (auto intro!: fails_intros)
qed

lemma fails_resolve [fails_intros]: "fails_with_error (layout_resolve v abi alloc n t)"
  using fails_resolve_all by blast

lemma fails_resolve_unconnected [fails_intros]:
  assumes "\<And>t. fails_with_error (r t)"
  shows "fails_with_error (resolve_unconnected r fuel index)"
proof (induction fuel arbitrary: index)
  case 0
  then show ?case by (simp add: fails_with_error_def)
next
  case (Suc fuel)
  have "fails_with_error (lm_bind (r t) (\<lambda>_. resolve_unconnected r fuel (index + 1)))" for t
    by (intro fails_bind assms Suc)
  then show ?case by (simp add: fails_with_error_def lm_return_def)
qed

lemma layout_build_fails: "fails_with_error (layout_build v (layout_resolve v abi alloc n) fuel)"
  unfolding layout_build_def Let_def resolve_object_def place_unconnected_def place_object_def
  by (auto intro!: fails_intros split: prod.split)

end
