(* ===== verification/Layout_Image.thy ===== *)
theory Layout_Image
  imports Layout_Resolve Layout_Errors
begin

text \<open>
  The whole of \<^verbatim>\<open>prepare_runtime_layout\<close>: it returns on every image, and a prepared layout places
  every object and every reference target at an aligned offset of its own.
\<close>

section \<open>The starting state\<close>

lemma unconnected_slot_invalid:
  assumes "\<forall>x\<in>set (rl_unconnected_intrinsic_offsets b). x = invalid_offset"
    "\<forall>x\<in>set (rl_unconnected_type_offsets b). x = invalid_offset"
    "\<forall>x\<in>set (rl_unconnected_derived_offsets b). x = invalid_offset" "unconnected_slot b t = Some off"
  shows "off = invalid_offset"
  using assms handle_index [of "tr_payload t"]
  by (auto simp: unconnected_slot_def not_less not_le split: type_ref_kind.splits if_splits)

lemma prepared_builder_inv: "layout_inv v abi (prepared_builder v abi)"
proof -
  let ?b = "prepared_builder v abi"
  have "unconnected_slot ?b t = Some off \<Longrightarrow> off = invalid_offset" for t off
    by (rule unconnected_slot_invalid [of ?b t off]) (simp_all add: prepared_builder_def)
  then have "unconnected_ok ?b"
    using pending_ne_invalid by (auto simp: unconnected_ok_def prepared_builder_def pending_def)
  moreover have "layout_sizes v ?b" by (simp add: layout_sizes_def prepared_builder_def)
  moreover have "type_slot ?b h = Some s \<Longrightarrow> ls_state s = slot_empty"
    "derived_slot ?b t = Some s \<Longrightarrow> ls_state s = slot_empty" for h t s
    using type_slot_index [of ?b h s] derived_slot_index [of ?b t s]
    by (auto simp: prepared_builder_def blank_layout_slot_def)
  ultimately show ?thesis by (auto simp: layout_inv_def)
qed

lemma unvisited_le: "unvisited xs \<le> length xs"
  using card_mono [of "{..<length xs}" "{i. i < length xs \<and> ls_state (xs ! i) = slot_empty}"] by (auto simp: unvisited_def)

lemma layout_unvisited_le:
  "layout_inv v abi b \<Longrightarrow> unvisited_slots b \<le> type_count_value v + sec_count (derived_types_section v)"
  using unvisited_le [of "rl_type_slots b"] unvisited_le [of "rl_derived_slots b"]
  by (simp add: unvisited_slots_def layout_inv_def layout_sizes_def)

section \<open>Resolving the types of the image\<close>

definition layout_step ::
    "compiled_project_view \<Rightarrow> server_abi_configuration \<Rightarrow> layout_builder \<Rightarrow> layout_builder \<Rightarrow> bool" where
  "layout_step v abi b b' \<longleftrightarrow> layout_inv v abi b' \<and> layout_ext v b b'"

lemma layout_step_trans: "layout_step v abi a b \<Longrightarrow> layout_step v abi b c \<Longrightarrow> layout_step v abi a c"
  by (auto simp: layout_step_def intro: layout_ext_trans)

text \<open>A resolver that works from every state of the builder.\<close>

definition resolver :: "compiled_project_view \<Rightarrow> server_abi_configuration \<Rightarrow> (type_ref \<Rightarrow> runtime_value_layout layout_m) \<Rightarrow> bool" where
  "resolver v abi resolve \<longleftrightarrow>
     (\<forall>t b. layout_inv v abi b \<longrightarrow>
        lm_wp (resolve t) (\<lambda>x b'. layout_step v abi b b' \<and> layout_value (abi_target_of abi) b' t = Some x \<and> good_value x) b) \<and>
     (\<forall>t b x. length (rl_type_slots b) = type_count_value v \<longrightarrow> layout_value (abi_target_of abi) b t = Some x \<longrightarrow>
        resolve t b = Some (Inr x, b))"

lemma layout_resolve_ready:
  assumes len: "length (rl_type_slots b) = type_count_value v" and x: "layout_value (abi_target_of abi) b t = Some x"
  shows "layout_resolve v abi alloc (Suc (Suc fuel)) t b = Some (Inr x, b)"
proof -
  have t: "tr_valid t" using x by (auto simp: layout_value_def split: if_splits)
  consider "tr_kind t = type_ref_intrinsic" | "tr_kind t = type_ref_named" | "tr_kind t = type_ref_derived"
    using t by (cases "tr_kind t") (auto simp: tr_valid_def)
  then show ?thesis
  proof cases
    case 1
    then show ?thesis
      using x t by (auto simp: layout_value_def resolve_body_def lm_sum_def lm_return_def split: if_splits sum.splits)
  next
    case 2
    then obtain s where s: "type_slot b (tr_payload t) = Some s" "ls_state s = slot_ready"
      "x = value_layout (ls_size s) (ls_alignment s)"
      using x t by (auto simp: layout_value_def slot_value_def bind_eq_Some_conv split: if_splits)
    have "tr_payload t \<noteq> 0" using t by (simp add: tr_valid_def)
    moreover note index = type_slot_index [OF s(1)]
    ultimately have "resolve_record_body v abi alloc r rr (tr_payload t) b = Some (Inr x, b)" for r rr
      using s(2,3) by (simp add: resolve_record_body_def lm_get_def Let_def lm_return_def)
    then show ?thesis
      using 2 t index len \<open>tr_payload t \<noteq> 0\<close> by (simp add: resolve_body_def view_type_at_payload)
  next
    case 3
    then obtain s where s: "derived_slot b t = Some s" "ls_state s = slot_ready"
      "x = value_layout (ls_size s) (ls_alignment s)"
      using x t by (auto simp: layout_value_def slot_value_def bind_eq_Some_conv split: if_splits)
    have "resolve_derived_body v abi alloc r t b = Some (Inr x, b)" for r
      using derived_slot_index [OF s(1)] s(2,3) by (simp add: resolve_derived_body_def lm_get_def Let_def lm_return_def)
    then show ?thesis using 3 t by (simp add: resolve_body_def)
  qed
qed

lemma layout_resolve_resolver:
  assumes "pack_ok abi"
  shows "resolver v abi (layout_resolve v abi alloc (resolve_fuel v))"
  unfolding resolver_def
proof (intro conjI allI impI)
  fix t b assume inv: "layout_inv v abi b"
  have "resolve_ok v abi (type_count_value v + sec_count (derived_types_section v))
      (layout_resolve v abi alloc (resolve_fuel v))"
    using layout_resolve_ok [OF assms, of "type_count_value v + sec_count (derived_types_section v)" v alloc]
    by (simp add: resolve_fuel_def)
  then show "lm_wp (layout_resolve v abi alloc (resolve_fuel v) t)
      (\<lambda>x b'. layout_step v abi b b' \<and> layout_value (abi_target_of abi) b' t = Some x \<and> good_value x) b"
    using inv layout_unvisited_le [OF inv] by (simp add: resolve_ok_def layout_step_def)
next
  fix t x and b :: layout_builder assume "length (rl_type_slots b) = type_count_value v" "layout_value (abi_target_of abi) b t = Some x"
  then show "layout_resolve v abi alloc (resolve_fuel v) t b = Some (Inr x, b)"
    using layout_resolve_ready by (simp add: resolve_fuel_def numeral_2_eq_2 del: layout_resolve.simps)
qed

definition resolved :: "server_abi_configuration \<Rightarrow> layout_builder \<Rightarrow> type_ref \<Rightarrow> bool" where
  "resolved abi b t \<longleftrightarrow> (\<exists>x. layout_value (abi_target_of abi) b t = Some x \<and> good_value x)"

lemma resolved_kept: "layout_step v abi b b' \<Longrightarrow> resolved abi b t \<Longrightarrow> resolved abi b' t"
  by (auto simp: layout_step_def resolved_def dest: layout_value_kept)

lemma resolve_object_ok:
  assumes res: "resolver v abi resolve" and inv: "layout_inv v abi b"
  shows "lm_wp (resolve_object v resolve k u)
    (\<lambda>_ b'. layout_step v abi b b' \<and> (\<exists>t. object_type v k = Some t \<and> resolved abi b' t)) b"
  unfolding resolve_object_def lm_wp_simps
proof (intro allI impI)
  fix t assume t: "object_type v k = Some t"
  show "lm_wp (resolve t) (\<lambda>x b'. layout_step v abi b b' \<and> (\<exists>t. object_type v k = Some t \<and> resolved abi b' t)) b"
    by (rule lm_wp_mono [OF res [unfolded resolver_def, THEN conjunct1, rule_format, OF inv]])
      (use t in \<open>auto simp: resolved_def\<close>)
qed

lemma resolve_objects_ok:
  assumes res: "resolver v abi resolve" and inv: "layout_inv v abi b"
  shows "lm_wp (lm_for (resolve_object v resolve) [0..<n] ())
    (\<lambda>_ b'. layout_step v abi b b' \<and> (\<forall>k<n. \<exists>t. object_type v k = Some t \<and> resolved abi b' t)) b"
proof (rule lm_wp_upto [where I = "\<lambda>i _ b'. layout_step v abi b b' \<and> (\<forall>k<i. \<exists>t. object_type v k = Some t \<and> resolved abi b' t)"],
    goal_cases)
  case 1
  then show ?case using inv by (simp add: layout_step_def)
next
  case (2 i u b')
  have "layout_inv v abi b'" using 2(2) by (simp add: layout_step_def)
  from resolve_object_ok [OF res this, of i u] show ?case
  proof (rule lm_wp_mono, elim conjE)
    fix u b2 assume step: "layout_step v abi b' b2" and t: "\<exists>t. object_type v i = Some t \<and> resolved abi b2 t"
    have "\<exists>t. object_type v k = Some t \<and> resolved abi b2 t" if "k < i" for k
      using 2(2) that resolved_kept [OF step] by blast
    then show "layout_step v abi b b2 \<and> (\<forall>k<Suc i. \<exists>t. object_type v k = Some t \<and> resolved abi b2 t)"
      using t 2(2) layout_step_trans [OF _ step] by (auto simp: less_Suc_eq)
  qed
qed simp

lemma pending_le: "pending xs \<le> length xs"
  by (simp add: pending_def)

lemma unconnected_bound:
  assumes "layout_inv v abi b"
  shows "Suc (length (rl_unconnected_types b)) \<le> worklist_fuel v"
  using assms pending_le [of "rl_unconnected_intrinsic_offsets b"] pending_le [of "rl_unconnected_type_offsets b"]
    pending_le [of "rl_unconnected_derived_offsets b"]
  by (simp add: layout_inv_def unconnected_ok_def layout_sizes_def worklist_fuel_def)

lemma resolve_unconnected_ok:
  assumes res: "resolver v abi resolve" and inv: "layout_inv v abi b" and fuel: "worklist_fuel v \<le> fuel + index"
    and prefix: "\<forall>k<index. resolved abi b (rl_unconnected_types b ! k)" "index \<le> length (rl_unconnected_types b)"
  shows "lm_wp (resolve_unconnected resolve fuel index)
    (\<lambda>_ b'. layout_step v abi b b' \<and> (\<forall>t\<in>set (rl_unconnected_types b'). resolved abi b' t)) b"
  using inv fuel prefix
proof (induction fuel arbitrary: index b)
  case 0
  then show ?case using unconnected_bound [OF 0(1)] by simp
next
  case (Suc fuel)
  show ?case
  proof (cases "index < length (rl_unconnected_types b)")
    case False
    then have "resolve_unconnected resolve (Suc fuel) index b = lm_return () b" by simp
    moreover have "\<forall>t\<in>set (rl_unconnected_types b). resolved abi b t"
      using Suc.prems(3,4) False by (auto simp: in_set_conv_nth)
    ultimately show ?thesis using Suc.prems(1) by (simp add: lm_wp_def lm_return_def layout_step_def)
  next
    case True
    let ?t = "rl_unconnected_types b ! index"
    have eq: "resolve_unconnected resolve (Suc fuel) index b =
        lm_bind (resolve ?t) (\<lambda>_. resolve_unconnected resolve fuel (index + 1)) b" using True by simp
    have "lm_wp (lm_bind (resolve ?t) (\<lambda>_. resolve_unconnected resolve fuel (index + 1)))
        (\<lambda>_ b'. layout_step v abi b b' \<and> (\<forall>t\<in>set (rl_unconnected_types b'). resolved abi b' t)) b"
      unfolding lm_wp_bind
    proof (rule lm_wp_mono [OF res [unfolded resolver_def, THEN conjunct1, rule_format, OF Suc.prems(1)]], elim conjE)
      fix x b1 assume b1: "layout_step v abi b b1" "layout_value (abi_target_of abi) b1 ?t = Some x" "good_value x"
      obtain ys where ys: "rl_unconnected_types b1 = rl_unconnected_types b @ ys"
        using b1(1) by (auto simp: layout_step_def layout_ext_def)
      have "lm_wp (resolve_unconnected resolve fuel (index + 1))
          (\<lambda>_ b'. layout_step v abi b1 b' \<and> (\<forall>t\<in>set (rl_unconnected_types b'). resolved abi b' t)) b1"
      proof (rule Suc.IH)
        show "layout_inv v abi b1" using b1(1) by (simp add: layout_step_def)
        show "worklist_fuel v \<le> fuel + (index + 1)" using Suc.prems(2) by simp
        show "index + 1 \<le> length (rl_unconnected_types b1)" using True by (simp add: ys)
        show "\<forall>k<index + 1. resolved abi b1 (rl_unconnected_types b1 ! k)"
        proof (intro allI impI)
          fix k assume "k < index + 1"
          then consider "k < index" | "k = index" by linarith
          then show "resolved abi b1 (rl_unconnected_types b1 ! k)"
          proof cases
            case 1
            then show ?thesis using Suc.prems(3) True resolved_kept [OF b1(1)] by (simp add: ys nth_append)
          next
            case 2
            then show ?thesis using b1(2,3) True by (auto simp: ys nth_append resolved_def)
          qed
        qed
      qed
      then show "lm_wp (resolve_unconnected resolve fuel (index + 1))
          (\<lambda>_ b'. layout_step v abi b b' \<and> (\<forall>t\<in>set (rl_unconnected_types b'). resolved abi b' t)) b1"
        by (rule lm_wp_mono) (use layout_step_trans [OF b1(1)] in blast)
    qed
    then show ?thesis by (simp only: lm_wp_def eq)
  qed
qed

section \<open>Placing the image\<close>

text \<open>Aligned spans that end before \<open>hi\<close> and do not meet.\<close>

definition span_end :: "('p \<Rightarrow> nat) \<Rightarrow> ('p \<Rightarrow> runtime_value_layout option) \<Rightarrow> 'p \<Rightarrow> nat" where
  "span_end off val p = off p + (case val p of None \<Rightarrow> 0 | Some x \<Rightarrow> unat (vl_size x))"

definition spread :: "('p \<Rightarrow> nat) \<Rightarrow> ('p \<Rightarrow> runtime_value_layout option) \<Rightarrow> 'p set \<Rightarrow> nat \<Rightarrow> nat \<Rightarrow> bool" where
  "spread off val S hi al \<longleftrightarrow>
     (\<forall>p\<in>S. span_end off val p \<le> hi \<and>
        (\<exists>x. val p = Some x \<and> good_value x \<and> off p mod unat (vl_alignment x) = 0 \<and> unat (vl_alignment x) \<le> al)) \<and>
     (\<forall>p\<in>S. \<forall>q\<in>S. p \<noteq> q \<longrightarrow> span_end off val p \<le> off q \<or> span_end off val q \<le> off p)"

lemma spread_insert:
  assumes S: "spread off val S hi al" "p \<notin> S" and off: "\<And>q. q \<in> S \<Longrightarrow> off' q = off q"
    and p: "val p = Some x" "good_value x" "off' p mod unat (vl_alignment x) = 0" "unat (vl_alignment x) \<le> al'"
      "al \<le> al'" "hi \<le> off' p"
  shows "spread off' val (insert p S) (off' p + unat (vl_size x)) al'"
proof -
  have e: "span_end off' val q = span_end off val q" if "q \<in> S" for q using off [OF that] by (simp add: span_end_def)
  have ep: "span_end off' val p = off' p + unat (vl_size x)" using p(1) by (simp add: span_end_def)
  have hi: "span_end off val q \<le> hi" if "q \<in> S" for q using S(1) that by (simp add: spread_def)
  have "span_end off' val q \<le> off' p + unat (vl_size x) \<and>
      (\<exists>x. val q = Some x \<and> good_value x \<and> off' q mod unat (vl_alignment x) = 0 \<and> unat (vl_alignment x) \<le> al')"
    if "q \<in> insert p S" for q
  proof (cases "q = p")
    case False
    then have q: "q \<in> S" using that by simp
    obtain y where "val q = Some y" "good_value y" "off q mod unat (vl_alignment y) = 0" "unat (vl_alignment y) \<le> al"
      using S(1) q by (auto simp: spread_def)
    moreover have "span_end off' val q \<le> off' p + unat (vl_size x)" using e [OF q] hi [OF q] p(6) by linarith
    ultimately show ?thesis using off [OF q] p(5) by auto
  qed (use p ep in auto)
  moreover have "span_end off' val q \<le> off' q' \<or> span_end off' val q' \<le> off' q"
    if "q \<in> insert p S" "q' \<in> insert p S" "q \<noteq> q'" for q q'
  proof (cases "q = p \<or> q' = p")
    case True
    then show ?thesis using that e hi p(6) by (metis insertE le_trans)
  next
    case False
    then have "q \<in> S" "q' \<in> S" using that by auto
    then show ?thesis using S(1) that(3) by (simp add: spread_def e off)
  qed
  ultimately show ?thesis by (simp add: spread_def)
qed

definition image_offset :: "'b runtime_layout_scheme \<Rightarrow> type_ref + nat \<Rightarrow> nat" where
  "image_offset b p =
     (case p of Inl t \<Rightarrow> (case unconnected_slot b t of None \<Rightarrow> 0 | Some off \<Rightarrow> unat off) | Inr k \<Rightarrow> unat (rl_object_offsets b ! k))"

definition image_value :: "compiled_project_view \<Rightarrow> abi_target \<Rightarrow> 'b runtime_layout_scheme \<Rightarrow> type_ref + nat \<Rightarrow> runtime_value_layout option" where
  "image_value v target b p =
     (case p of Inl t \<Rightarrow> layout_value target b t | Inr k \<Rightarrow> Option.bind (object_type v k) (layout_value target b))"

text \<open>The state of the types is frozen while the image is placed.\<close>

definition frozen :: "layout_builder \<Rightarrow> layout_builder \<Rightarrow> bool" where
  "frozen b b' \<longleftrightarrow>
     rl_type_slots b' = rl_type_slots b \<and> rl_derived_slots b' = rl_derived_slots b \<and>
     rl_member_offsets b' = rl_member_offsets b \<and> rl_base_offsets b' = rl_base_offsets b \<and>
     rl_unconnected_types b' = rl_unconnected_types b \<and> length (rl_object_offsets b') = length (rl_object_offsets b) \<and>
     rl_target b' = rl_target b"

lemma layout_value_same:
  assumes "rl_type_slots b' = rl_type_slots b" "rl_derived_slots b' = rl_derived_slots b"
  shows "layout_value target b' t = layout_value target b t"
  by (simp only: layout_value_def same_slots(1) [OF assms(1)] same_slots(2) [OF assms(2)])

lemma resolver_ready:
  assumes "resolver v abi resolve" "layout_inv v abi b" "frozen b b'" "layout_value (abi_target_of abi) b t = Some x"
  shows "lm_wp (resolve t) Q b' = Q x b'"
proof -
  have "length (rl_type_slots b') = type_count_value v" using assms(2,3) by (simp add: layout_inv_def layout_sizes_def frozen_def)
  moreover have "layout_value (abi_target_of abi) b' t = Some x"
    using assms(3,4) layout_value_same [of b' b] by (simp add: frozen_def)
  ultimately have "resolve t b' = Some (Inr x, b')" using assms(1) by (simp add: resolver_def)
  then show ?thesis by (simp add: lm_wp_def)
qed

text \<open>The step both loops share.\<close>

lemma spread_next:
  assumes S: "spread off val S (unat cursor) (unat al)" "p \<notin> S" "\<And>q. q \<in> S \<Longrightarrow> off' q = off q"
    and p: "val p = Some x" "good_value x" "off' p = unat aligned"
    and a: "align_up cursor (vl_alignment x) = Some aligned" "add_u64 aligned (vl_size x) = Some cursor'"
    and al: "small_power (unat al)"
  shows "spread off' val (insert p S) (unat cursor') (unat (max al (vl_alignment x)))"
    "small_power (unat (max al (vl_alignment x)))"
proof -
  have c: "unat cursor' = off' p + unat (vl_size x)" using a(2) p(3) by (simp add: add_u64_Some)
  show "spread off' val (insert p S) (unat cursor') (unat (max al (vl_alignment x)))"
    unfolding c by (rule spread_insert [OF S p(1,2)]) (use align_up_least [OF a(1)] p(3) in \<open>simp_all add: unat_max\<close>)
  have "small_power (unat (vl_alignment x))" using p(2) by (simp add: good_value_def small_power_def)
  then show "small_power (unat (max al (vl_alignment x)))" using al by (simp add: unat_max small_power_max)
qed

definition unconnected_inv ::
    "compiled_project_view \<Rightarrow> server_abi_configuration \<Rightarrow> layout_builder \<Rightarrow> nat \<Rightarrow> u64 \<times> u32 \<Rightarrow> layout_builder \<Rightarrow> bool" where
  "unconnected_inv v abi b i = (\<lambda>(cursor, al) b'.
     frozen b b' \<and> small_power (unat al) \<and>
     (\<forall>k<length (rl_unconnected_types b). \<exists>off. unconnected_slot b' (rl_unconnected_types b ! k) = Some off \<and>
        (if k < i then off < pending_offset else off = pending_offset)) \<and>
     spread (image_offset b') (image_value v (abi_target_of abi) b) (Inl ` set (take i (rl_unconnected_types b)))
       (unat cursor) (unat al))"

lemma place_unconnected_ok:
  assumes res: "resolver v abi resolve" and inv: "layout_inv v abi b"
    and all: "\<forall>t\<in>set (rl_unconnected_types b). resolved abi b t" and i: "i < length (rl_unconnected_types b)"
    and I: "unconnected_inv v abi b i acc b'"
  shows "lm_wp (place_unconnected resolve (rl_unconnected_types b ! i) acc) (unconnected_inv v abi b (Suc i)) b'"
proof -
  obtain cursor al where acc: "acc = (cursor, al)" by (cases acc)
  let ?ts = "rl_unconnected_types b" and ?t = "rl_unconnected_types b ! i"
  have ts: "distinct ?ts" "\<And>t. t \<in> set ?ts \<Longrightarrow> tr_valid t" using inv by (auto simp: layout_inv_def unconnected_ok_def)
  obtain x where x: "layout_value (abi_target_of abi) b ?t = Some x" "good_value x"
    using bspec [OF all nth_mem [OF i]] by (auto simp: resolved_def)
  have fr: "frozen b b'" and al: "small_power (unat al)"
    and sp: "spread (image_offset b') (image_value v (abi_target_of abi) b) (Inl ` set (take i ?ts)) (unat cursor) (unat al)"
    and slots: "\<And>k. k < length ?ts \<Longrightarrow> \<exists>off. unconnected_slot b' (?ts ! k) = Some off \<and>
        (if k < i then off < pending_offset else off = pending_offset)"
    using I by (simp_all add: unconnected_inv_def acc)
  show ?thesis
    unfolding place_unconnected_def store_unconnected_offset_def acc prod.case resolver_ready [OF res inv fr x(1)] lm_wp_simps
  proof (intro allI impI, goal_cases)
    case (1 aligned off cursor')
    let ?b = "set_unconnected_slot ?t aligned b'"
    have t: "unconnected_slot b' ?t \<noteq> None" using 1 by simp
    have other: "unconnected_slot ?b (?ts ! k) = unconnected_slot b' (?ts ! k)" if "k < length ?ts" "k \<noteq> i" for k
      using set_unconnected_other [OF ts(2) _ t] that ts(1) i by (simp add: nth_eq_iff_index_eq)
    have same: "unconnected_slot ?b ?t = Some aligned" by (rule set_unconnected_same [OF t])
    have stored: "\<exists>off. unconnected_slot ?b (?ts ! k) = Some off \<and> (if k < Suc i then off < pending_offset else off = pending_offset)"
      if k: "k < length ?ts" for k
    proof (cases "k = i")
      case True
      then show ?thesis using same 1 by simp
    next
      case False
      then show ?thesis using slots [OF k] other [OF k] by (auto simp: less_Suc_eq)
    qed
    have "Inl ?t \<notin> Inl ` set (take i ?ts)"
      using ts(1) i by (auto simp: in_set_conv_nth nth_eq_iff_index_eq)
    moreover have "image_offset ?b q = image_offset b' q" if "q \<in> Inl ` set (take i ?ts)" for q
      using that other by (auto simp: in_set_conv_nth image_offset_def)
    ultimately have "spread (image_offset ?b) (image_value v (abi_target_of abi) b) (insert (Inl ?t) (Inl ` set (take i ?ts)))
        (unat cursor') (unat (max al (vl_alignment x)))" "small_power (unat (max al (vl_alignment x)))"
      using spread_next [OF sp, of "Inl ?t" "image_offset ?b" x aligned cursor'] 1 x same al
      by (simp_all add: image_value_def image_offset_def)
    moreover have tk: "Inl ` set (take (Suc i) ?ts) = insert (Inl ?t) (Inl ` set (take i ?ts))"
      using i by (simp add: take_Suc_conv_app_nth)
    moreover have "frozen b ?b" using fr by (simp add: frozen_def)
    ultimately show ?case
      using stored by (simp only: unconnected_inv_def prod.case tk) blast
  qed
qed

definition object_inv ::
    "compiled_project_view \<Rightarrow> server_abi_configuration \<Rightarrow> layout_builder \<Rightarrow> nat \<Rightarrow> u64 \<times> u32 \<Rightarrow> layout_builder \<Rightarrow> bool" where
  "object_inv v abi b i = (\<lambda>(cursor, al) b'.
     frozen b b' \<and> small_power (unat al) \<and>
     (\<forall>t\<in>set (rl_unconnected_types b). \<exists>off. unconnected_slot b' t = Some off \<and> off < pending_offset) \<and>
     spread (image_offset b') (image_value v (abi_target_of abi) b) (Inl ` set (rl_unconnected_types b) \<union> Inr ` {..<i})
       (unat cursor) (unat al))"

lemma place_object_ok:
  assumes res: "resolver v abi resolve" and inv: "layout_inv v abi b"
    and all: "\<forall>k<object_count_value v. \<exists>t. object_type v k = Some t \<and> resolved abi b t" and i: "i < object_count_value v"
    and I: "object_inv v abi b i acc b'"
  shows "lm_wp (place_object v resolve i acc) (object_inv v abi b (Suc i)) b'"
proof -
  obtain cursor al where acc: "acc = (cursor, al)" by (cases acc)
  let ?S = "Inl ` set (rl_unconnected_types b) \<union> Inr ` {..<i}"
  obtain t x where t: "object_type v i = Some t" and x: "layout_value (abi_target_of abi) b t = Some x" "good_value x"
    using all i by (auto simp: resolved_def)
  have fr: "frozen b b'" and al: "small_power (unat al)"
    and sp: "spread (image_offset b') (image_value v (abi_target_of abi) b) ?S (unat cursor) (unat al)"
    and slots: "\<forall>t\<in>set (rl_unconnected_types b). \<exists>off. unconnected_slot b' t = Some off \<and> off < pending_offset"
    using I by (simp_all add: object_inv_def acc)
  have len: "i < length (rl_object_offsets b')"
    using i inv fr by (simp add: layout_inv_def layout_sizes_def frozen_def)
  have val: "image_value v (abi_target_of abi) b (Inr i) = Some x" using t x by (simp add: image_value_def)
  have placed: "object_inv v abi b (Suc i) (cursor', max al (vl_alignment x))
      (b'\<lparr>rl_object_offsets := (rl_object_offsets b')[i := aligned]\<rparr>)"
    if a: "align_up cursor (vl_alignment x) = Some aligned" "add_u64 aligned (vl_size x) = Some cursor'" for aligned cursor'
  proof -
    let ?b = "b'\<lparr>rl_object_offsets := (rl_object_offsets b')[i := aligned]\<rparr>"
    have un: "unconnected_slot ?b t = unconnected_slot b' t" for t by (rule same_unconnected) simp_all
    have off: "image_offset ?b (Inr i) = unat aligned" using len by (simp add: image_offset_def)
    have keep: "image_offset ?b q = image_offset b' q" if "q \<in> ?S" for q
      using that un by (auto simp: image_offset_def)
    have new: "Inr i \<notin> ?S" by auto
    note spread_next [OF sp new keep val x(2) off a al]
    moreover have "Inl ` set (rl_unconnected_types b) \<union> Inr ` {..<Suc i} = insert (Inr i) ?S"
      by (auto simp: lessThan_Suc)
    moreover have "frozen b ?b" using fr by (simp add: frozen_def)
    ultimately show ?thesis using slots un by (simp add: object_inv_def)
  qed
  show ?thesis
    unfolding place_object_def acc prod.case lm_wp_simps
    using placed t by (simp add: resolver_ready [OF res inv fr] x(1) lm_wp_simps)
qed

definition image_done ::
    "compiled_project_view \<Rightarrow> server_abi_configuration \<Rightarrow> layout_builder \<Rightarrow> bool" where
  "image_done v abi b' \<longleftrightarrow>
     (\<exists>b cursor. layout_inv v abi b \<and> rl_target b = abi_target_of abi \<and>
        object_inv v abi b (object_count_value v) (cursor, rl_alignment b') b' \<and>
        align_up cursor (rl_alignment b') = Some (rl_size b'))"

lemma image_offset_same:
  assumes "rl_object_offsets b' = rl_object_offsets b" "\<And>t. unconnected_slot b' t = unconnected_slot b t"
  shows "image_offset b' = image_offset b"
  by (simp add: fun_eq_iff image_offset_def assms split: sum.splits)

lemma place_image_ok:
  assumes res: "resolver v abi resolve" and inv: "layout_inv v abi b" and target: "rl_target b = abi_target_of abi"
    and types: "\<forall>t\<in>set (rl_unconnected_types b). resolved abi b t"
    and objects: "\<forall>k<object_count_value v. \<exists>t. object_type v k = Some t \<and> resolved abi b t"
  shows "lm_wp (lm_bind (lm_get (\<lambda>b. lm_for (place_unconnected resolve) (rl_unconnected_types b) (0, 1))) (\<lambda>placed.
      lm_bind (lm_for (place_object v resolve) [0..<object_count_value v] placed) (\<lambda>(cursor, maximum_alignment).
      lm_bind (lm_option layout_overflow (align_up cursor maximum_alignment)) (\<lambda>final_size.
      lm_update (\<lambda>b. b\<lparr>rl_size := final_size, rl_alignment := maximum_alignment\<rparr>))))) (\<lambda>_. image_done v abi) b"
proof -
  let ?ts = "rl_unconnected_types b"
  have "unconnected_slot b (?ts ! k) = Some pending_offset" if "k < length ?ts" for k
    using inv nth_mem [OF that] by (simp add: layout_inv_def unconnected_ok_def)
  then have "unconnected_inv v abi b 0 (0, 1) b"
    by (simp add: unconnected_inv_def frozen_def spread_def small_power_def)
  then have un: "lm_wp (lm_for (place_unconnected resolve) ?ts (0, 1)) (unconnected_inv v abi b (length ?ts)) b"
    by (rule lm_wp_for) (rule place_unconnected_ok [OF res inv types])
  have start: "object_inv v abi b 0 acc b'" if "unconnected_inv v abi b (length ?ts) acc b'" for acc b'
    using that by (cases acc) (simp add: unconnected_inv_def object_inv_def all_set_conv_all_nth)
  have obj: "lm_wp (lm_for (place_object v resolve) [0..<object_count_value v] acc)
      (object_inv v abi b (object_count_value v)) b'" if "unconnected_inv v abi b (length ?ts) acc b'" for acc b'
    by (rule lm_wp_upto [where I = "object_inv v abi b", OF start [OF that] place_object_ok [OF res inv objects]])
  have fin: "image_done v abi (b'\<lparr>rl_size := final, rl_alignment := al\<rparr>)"
    if "object_inv v abi b (object_count_value v) (cursor, al) b'" "align_up cursor al = Some final" for cursor al b' final
  proof -
    let ?b = "b'\<lparr>rl_size := final, rl_alignment := al\<rparr>"
    have un: "unconnected_slot ?b t = unconnected_slot b' t" for t by (rule same_unconnected) simp_all
    have "image_offset ?b = image_offset b'" by (rule image_offset_same) (simp_all add: un)
    then have "object_inv v abi b (object_count_value v) (cursor, al) ?b"
      using that(1) un by (simp add: object_inv_def frozen_def)
    then show ?thesis unfolding image_done_def using inv target that(2) by (intro exI [of _ b] exI [of _ cursor]) simp
  qed
  show ?thesis
    unfolding lm_wp_bind lm_wp_get
  proof (rule lm_wp_mono [OF un])
    fix acc b' assume "unconnected_inv v abi b (length ?ts) acc b'"
    then show "lm_wp (lm_for (place_object v resolve) [0..<object_count_value v] acc)
        (\<lambda>x. lm_wp (case x of (cursor, maximum_alignment) \<Rightarrow>
          lm_bind (lm_option layout_overflow (align_up cursor maximum_alignment)) (\<lambda>final_size.
          lm_update (\<lambda>b. b\<lparr>rl_size := final_size, rl_alignment := maximum_alignment\<rparr>))) (\<lambda>_. image_done v abi)) b'"
      by (rule lm_wp_mono [OF obj]) (simp add: lm_wp_simps split: prod.splits, blast intro: fin)
  qed
qed

lemma layout_build_ok:
  assumes "pack_ok abi"
  shows "lm_wp (layout_build v (layout_resolve v abi alloc (resolve_fuel v)) (worklist_fuel v)) (\<lambda>_. image_done v abi)
    (prepared_builder v abi)"
proof -
  let ?r = "layout_resolve v abi alloc (resolve_fuel v)" and ?b = "prepared_builder v abi"
  have res: "resolver v abi ?r" by (rule layout_resolve_resolver [OF assms])
  show ?thesis
    unfolding layout_build_def Let_def lm_wp_bind [of "lm_for (resolve_object v ?r) _ ()"]
      lm_wp_bind [of "resolve_unconnected ?r (worklist_fuel v) 0"]
  proof (rule lm_wp_mono [OF resolve_objects_ok [OF res prepared_builder_inv]], elim conjE, goal_cases)
    case (1 u b1)
    have inv1: "layout_inv v abi b1" using 1(1) by (simp add: layout_step_def)
    have "lm_wp (resolve_unconnected ?r (worklist_fuel v) 0)
        (\<lambda>_ b'. layout_step v abi b1 b' \<and> (\<forall>t\<in>set (rl_unconnected_types b'). resolved abi b' t)) b1"
      by (rule resolve_unconnected_ok [OF res inv1]) simp_all
    then show ?case
    proof (rule lm_wp_mono, elim conjE, goal_cases)
      case (1 u' b2)
      have b2: "layout_step v abi b1 b2" and types: "\<forall>t\<in>set (rl_unconnected_types b2). resolved abi b2 t" using 1 by simp_all
      note step = layout_step_trans [OF \<open>layout_step v abi ?b b1\<close> b2]
      show ?case
      proof (rule place_image_ok [OF res _ _ types])
        show "layout_inv v abi b2" "rl_target b2 = abi_target_of abi"
          using step by (simp_all add: layout_step_def layout_ext_def prepared_builder_def)
        show "\<forall>k<object_count_value v. \<exists>t. object_type v k = Some t \<and> resolved abi b2 t"
          using \<open>\<forall>k<object_count_value v. \<exists>t. object_type v k = Some t \<and> resolved abi b1 t\<close> resolved_kept [OF b2] by blast
      qed
    qed
  qed
qed

section \<open>The prepared layout\<close>

lemma small_power_dvd: "small_power a \<Longrightarrow> small_power b \<Longrightarrow> a \<le> b \<Longrightarrow> b mod a = 0"
  by (auto simp: small_power_def)

lemma valid_pack: "valid_abi_layout_key (make_abi_layout_key abi) \<Longrightarrow> pack_ok abi"
  by (auto simp: valid_abi_layout_key_def make_abi_layout_key_def pack_ok_def)

lemma prepare_cases:
  assumes "prepare_runtime_layout v abi alloc_slots alloc = Some (layout_success, r)"
  obtains (no_objects) "object_count_value v = 0" "r = fresh_runtime_layout\<lparr>rl_target := abi_target_of abi, rl_prepared := True\<rparr>"
  | (built) b where "r = (runtime_layout.truncate b)\<lparr>rl_prepared := True\<rparr>" "image_done v abi b"
proof (cases "object_count_value v = 0")
  case True
  then show ?thesis using assms no_objects by (simp add: prepare_runtime_layout_def split: if_splits)
next
  case False
  let ?m = "layout_build v (layout_resolve v abi alloc (resolve_fuel v)) (worklist_fuel v)"
  have pack: "pack_ok abi" using assms valid_pack by (simp add: prepare_runtime_layout_def split: if_splits)
  note ok = layout_build_ok [OF pack, of v alloc]
  obtain res b where run: "?m (prepared_builder v abi) = Some (res, b)" using lm_wp_SomeD [OF ok] by blast
  have "\<exists>u. res = Inr u \<and> r = (runtime_layout.truncate b)\<lparr>rl_prepared := True\<rparr>"
    using assms False run layout_build_fails [of v abi alloc "resolve_fuel v" "worklist_fuel v"]
    by (cases res) (auto simp: prepare_runtime_layout_def fails_with_error_def split: if_splits)
  then show ?thesis using built lm_wp_Inr [OF ok] run by blast
qed

lemma rl_value_layout: "rl_prepared r \<Longrightarrow> rl_value r t = layout_value (rl_target r) r t"
  by (auto simp: rl_value_def layout_value_def type_slot_def derived_slot_def slot_value_def Let_def
      split: type_ref_kind.splits sum.splits)

lemma rl_type_slot: "rl_type r h = Option.bind (type_slot r h) slot_value"
  by (simp add: rl_type_def type_slot_def slot_value_def Let_def)

lemma prepared_fields [simp]:
  "rl_type_slots ((runtime_layout.truncate b)\<lparr>rl_prepared := True\<rparr>) = rl_type_slots b"
  "rl_derived_slots ((runtime_layout.truncate b)\<lparr>rl_prepared := True\<rparr>) = rl_derived_slots b"
  "rl_member_offsets ((runtime_layout.truncate b)\<lparr>rl_prepared := True\<rparr>) = rl_member_offsets b"
  "rl_base_offsets ((runtime_layout.truncate b)\<lparr>rl_prepared := True\<rparr>) = rl_base_offsets b"
  "rl_object_offsets ((runtime_layout.truncate b)\<lparr>rl_prepared := True\<rparr>) = rl_object_offsets b"
  "rl_unconnected_types ((runtime_layout.truncate b)\<lparr>rl_prepared := True\<rparr>) = rl_unconnected_types b"
  "rl_target ((runtime_layout.truncate b)\<lparr>rl_prepared := True\<rparr>) = rl_target b"
  "rl_size ((runtime_layout.truncate b)\<lparr>rl_prepared := True\<rparr>) = rl_size b"
  "rl_alignment ((runtime_layout.truncate b)\<lparr>rl_prepared := True\<rparr>) = rl_alignment b"
  "unconnected_slot ((runtime_layout.truncate b)\<lparr>rl_prepared := True\<rparr>) t = unconnected_slot b t"
  by (simp_all add: runtime_layout.truncate_def) (rule same_unconnected; simp)

text \<open>What the builder's state gives for the prepared layout.\<close>

lemma prepared_from_builder:
  assumes "prepare_runtime_layout v abi alloc_slots alloc = Some (layout_success, r)" "object_count_value v \<noteq> 0"
  obtains b b' cursor where "layout_inv v abi b" "object_inv v abi b (object_count_value v) (cursor, rl_alignment r) b'"
    "r = (runtime_layout.truncate b')\<lparr>rl_prepared := True\<rparr>"
    "align_up cursor (rl_alignment r) = Some (rl_size r)" "\<And>t. rl_value r t = layout_value (abi_target_of abi) b t"
    "\<And>h. type_slot r h = type_slot b h" "\<And>t. derived_slot r t = derived_slot b t"
  using assms(1)
proof (cases rule: prepare_cases)
  case no_objects
  then show ?thesis using assms(2) by simp
next
  case (built b')
  then obtain b cursor where b: "layout_inv v abi b" "rl_target b = abi_target_of abi"
      "object_inv v abi b (object_count_value v) (cursor, rl_alignment b') b'"
      "align_up cursor (rl_alignment b') = Some (rl_size b')"
    by (auto simp: image_done_def)
  have fr: "frozen b b'" using b(3) by (simp add: object_inv_def)
  have slots: "rl_type_slots r = rl_type_slots b" "rl_derived_slots r = rl_derived_slots b" "rl_target r = rl_target b"
    using fr built(1) by (simp_all add: frozen_def)
  have "rl_value r t = layout_value (abi_target_of abi) b t" for t
    using rl_value_layout [of r t] layout_value_same [OF slots(1,2)] slots(3) b(2) built(1) by simp
  then show ?thesis
    using that [of b cursor b'] b(1,3,4) built(1) same_slots(1) [OF slots(1)] same_slots(2) [OF slots(2)] by simp
qed

section \<open>Properties\<close>

text \<open>\<^bold>\<open>C35.\<close> \<open>prepare_runtime_layout\<close> returns on every image, every ABI and every sequence of
  allocation results: recursive types are detected and the work list of reference targets is finite.\<close>

theorem prepare_returns: "\<exists>e r. prepare_runtime_layout v abi alloc_slots alloc = Some (e, r)"
proof (cases "valid_abi_layout_key (make_abi_layout_key abi)")
  case True
  obtain res b where "layout_build v (layout_resolve v abi alloc (resolve_fuel v)) (worklist_fuel v)
      (prepared_builder v abi) = Some (res, b)"
    using lm_wp_SomeD [OF layout_build_ok [OF valid_pack [OF True]]] by blast
  then show ?thesis by (simp add: prepare_runtime_layout_def split: sum.splits)
qed (simp add: prepare_runtime_layout_def)

text \<open>The spans of the image: reference targets that no object provides, and objects.\<close>

definition image_items :: "compiled_project_view \<Rightarrow> runtime_layout \<Rightarrow> (type_ref + object_handle) set" where
  "image_items v r =
     Inl ` set (rl_unconnected_types r) \<union> Inr ` {h. h \<noteq> 0 \<and> unat h \<le> object_count_value v}"

definition image_span ::
    "compiled_project_view \<Rightarrow> runtime_layout \<Rightarrow> type_ref + object_handle \<Rightarrow> (u64 \<times> runtime_value_layout) option" where
  "image_span v r p =
     (case p of
        Inl t \<Rightarrow> Option.bind (rl_unconnected_offset r t) (\<lambda>off. map_option (Pair off) (rl_value r t))
      | Inr h \<Rightarrow> Option.bind (rl_object_offset r h) (\<lambda>off.
          Option.bind (view_object v h) (\<lambda>entry. map_option (Pair off) (rl_value r (oe_type entry)))))"

definition span_inside :: "runtime_layout \<Rightarrow> u64 \<times> runtime_value_layout \<Rightarrow> bool" where
  "span_inside r = (\<lambda>(off, x).
     good_value x \<and> unat off mod unat (vl_alignment x) = 0 \<and>
     unat (rl_alignment r) mod unat (vl_alignment x) = 0 \<and> unat off + unat (vl_size x) \<le> unat (rl_size r))"

definition spans_apart :: "u64 \<times> runtime_value_layout \<Rightarrow> u64 \<times> runtime_value_layout \<Rightarrow> bool" where
  "spans_apart = (\<lambda>(off, x) (off', y).
     unat off + unat (vl_size x) \<le> unat off' \<or> unat off' + unat (vl_size y) \<le> unat off)"

text \<open>The index the builder uses for an item.\<close>

definition item_index :: "type_ref + object_handle \<Rightarrow> type_ref + nat" where
  "item_index = map_sum id (\<lambda>h. unat (h - 1))"

lemma object_type_handle:
  assumes "h \<noteq> 0" "unat h \<le> object_count_value v"
  shows "object_type v (unat (h - 1)) = map_option oe_type (view_object v h)"
proof -
  have "view_object_at v (unat (h - 1)) = h"
    using assms handle_index [OF assms] unat_gt_0 [of h] by (simp add: view_object_at_def unat_minus_one)
  then show ?thesis using assms(1) by (simp add: object_type_def)
qed

lemma item_index_inj: "inj_on item_index (image_items v r)"
proof (rule inj_onI)
  fix p q assume pq: "p \<in> image_items v r" "q \<in> image_items v r" "item_index p = item_index q"
  show "p = q"
  proof (cases p; cases q)
    fix h h' assume h: "p = Inr h" "q = Inr h'"
    then have "unat (h - 1) = unat (h' - 1)" using pq(3) by (simp add: item_index_def)
    then show "p = q" using h by (simp add: word_unat_eq_iff [symmetric])
  qed (use pq in \<open>auto simp: item_index_def\<close>)
qed

lemma image_span_builder:
  assumes inv: "layout_inv v abi b" and obj: "object_inv v abi b (object_count_value v) (cursor, al) b'"
    and r: "r = (runtime_layout.truncate b')\<lparr>rl_prepared := True\<rparr>"
    and val: "\<And>t. rl_value r t = layout_value (abi_target_of abi) b t" and p: "p \<in> image_items v r"
  shows "item_index p \<in> Inl ` set (rl_unconnected_types b) \<union> Inr ` {..<object_count_value v}"
    "\<exists>off x. image_span v r p = Some (off, x) \<and> image_offset b' (item_index p) = unat off \<and>
       image_value v (abi_target_of abi) b (item_index p) = Some x"
proof -
  let ?S = "Inl ` set (rl_unconnected_types b) \<union> Inr ` {..<object_count_value v}"
  have fr: "frozen b b'" and sp: "spread (image_offset b') (image_value v (abi_target_of abi) b) ?S (unat cursor) (unat al)"
    and slots: "\<And>t. t \<in> set (rl_unconnected_types b) \<Longrightarrow> \<exists>off. unconnected_slot b' t = Some off \<and> off < pending_offset"
    using obj by (simp_all add: object_inv_def)
  have types: "rl_unconnected_types r = rl_unconnected_types b" using fr by (simp add: r frozen_def)
  have len: "length (rl_object_offsets b') = object_count_value v"
    using inv fr by (simp add: layout_inv_def layout_sizes_def frozen_def)
  show in_S: "item_index p \<in> ?S"
    using p handle_index by (auto simp: image_items_def item_index_def types)
  then obtain x where x: "image_value v (abi_target_of abi) b (item_index p) = Some x"
    using bspec [OF conjunct1 [OF sp [unfolded spread_def]]] by blast
  show "\<exists>off x. image_span v r p = Some (off, x) \<and> image_offset b' (item_index p) = unat off \<and>
       image_value v (abi_target_of abi) b (item_index p) = Some x"
  proof (cases p)
    case (Inl t)
    then have t: "t \<in> set (rl_unconnected_types b)" using p by (auto simp: image_items_def types)
    obtain off where off: "unconnected_slot b' t = Some off" "off < pending_offset" using slots [OF t] by blast
    have "off \<noteq> invalid_offset" "off \<noteq> pending_offset"
      using off(2) by (auto simp: invalid_offset_def pending_offset_def)
    moreover have "tr_valid t" using inv t by (auto simp: layout_inv_def unconnected_ok_def)
    ultimately show ?thesis
      using off x Inl by (simp add: image_span_def rl_unconnected_offset_def item_index_def image_offset_def image_value_def val)
        (simp add: r)
  next
    case (Inr h)
    then have h: "h \<noteq> 0" "unat h \<le> object_count_value v" using p by (auto simp: image_items_def)
    have "rl_object_offset r h = Some (rl_object_offsets b' ! unat (h - 1))"
      using h len by (simp add: rl_object_offset_def object_offset_at_def r)
    then show ?thesis
      using x Inr object_type_handle [OF h]
      by (auto simp: image_span_def item_index_def image_offset_def image_value_def val bind_eq_Some_conv)
  qed
qed

text \<open>The prepared layout as the spans of its items in the final state of the builder.\<close>

lemma prepared_spread:
  assumes "prepare_runtime_layout v abi alloc_slots alloc = Some (layout_success, r)" "object_count_value v \<noteq> 0"
  obtains off val S hi where "spread off val S hi (unat (rl_alignment r))" "small_power (unat (rl_alignment r))"
    "hi \<le> unat (rl_size r)" "unat (rl_size r) mod unat (rl_alignment r) = 0"
    "\<forall>p\<in>image_items v r. item_index p \<in> S \<and>
       (\<exists>o' x. image_span v r p = Some (o', x) \<and> off (item_index p) = unat o' \<and> val (item_index p) = Some x)"
proof -
  from assms obtain b b' cursor where inv: "layout_inv v abi b"
    and obj: "object_inv v abi b (object_count_value v) (cursor, rl_alignment r) b'"
    and r: "r = (runtime_layout.truncate b')\<lparr>rl_prepared := True\<rparr>"
    and fin: "align_up cursor (rl_alignment r) = Some (rl_size r)"
    and val: "\<And>t. rl_value r t = layout_value (abi_target_of abi) b t"
    by (rule prepared_from_builder) blast
  show thesis
  proof (rule that)
    show "spread (image_offset b') (image_value v (abi_target_of abi) b)
        (Inl ` set (rl_unconnected_types b) \<union> Inr ` {..<object_count_value v}) (unat cursor) (unat (rl_alignment r))"
      "small_power (unat (rl_alignment r))"
      using obj by (simp_all add: object_inv_def)
    show "unat cursor \<le> unat (rl_size r)" "unat (rl_size r) mod unat (rl_alignment r) = 0"
      using align_up_least [OF fin] by simp_all
  qed (use image_span_builder [OF inv obj r val] in blast)
qed

lemma no_image_items:
  assumes "prepare_runtime_layout v abi alloc_slots alloc = Some (layout_success, r)" "object_count_value v = 0"
  shows "image_items v r = {}" "rl_size r = 0"
proof -
  have "rl_unconnected_types r = []" "rl_size r = 0"
    using assms by (simp_all add: prepare_runtime_layout_def fresh_runtime_layout_def split: if_splits)
      (auto simp: fresh_runtime_layout_def)
  moreover have "h = 0" if "unat h = 0" for h :: object_handle using that unat_gt_0 [of h] by fastforce
  ultimately show "image_items v r = {}" "rl_size r = 0" using assms(2) by (auto simp: image_items_def)
qed

lemma prepared_span:
  assumes prepared: "prepare_runtime_layout v abi alloc_slots alloc = Some (layout_success, r)"
    and p: "p \<in> image_items v r"
  shows "\<exists>s. image_span v r p = Some s \<and> span_inside r s"
proof -
  have "object_count_value v \<noteq> 0" using no_image_items(1) [OF prepared] p by auto
  then obtain off val S hi where sp: "spread off val S hi (unat (rl_alignment r))" "small_power (unat (rl_alignment r))"
    "hi \<le> unat (rl_size r)" "unat (rl_size r) mod unat (rl_alignment r) = 0"
    and item: "\<forall>p\<in>image_items v r. item_index p \<in> S \<and>
       (\<exists>o' x. image_span v r p = Some (o', x) \<and> off (item_index p) = unat o' \<and> val (item_index p) = Some x)"
    by (rule prepared_spread [OF prepared])
  obtain o' x where x: "item_index p \<in> S" "image_span v r p = Some (o', x)" "off (item_index p) = unat o'"
    "val (item_index p) = Some x" using item p by blast
  have "span_end off val (item_index p) \<le> hi" "good_value x" "off (item_index p) mod unat (vl_alignment x) = 0"
      "unat (vl_alignment x) \<le> unat (rl_alignment r)"
    using bspec [OF conjunct1 [OF sp(1) [unfolded spread_def]] x(1)] x(4) by auto
  then have "span_inside r (o', x)"
    using x(3,4) sp(3) small_power_dvd [OF _ sp(2)] by (simp add: span_inside_def span_end_def good_value_def small_power_def)
  then show ?thesis using x(2) by blast
qed

text \<open>\<^bold>\<open>C4.\<close> In a prepared layout every object and every unconnected reference target has an aligned span
  of its own inside the image: alignments divide the image's alignment, the image's size is a multiple of
  it, and no two spans meet.\<close>

theorem runtime_image_laid_out:
  assumes "prepare_runtime_layout v abi alloc_slots alloc = Some (layout_success, r)"
  shows "(\<forall>p\<in>image_items v r. \<exists>s. image_span v r p = Some s \<and> span_inside r s) \<and>
    (\<forall>p\<in>image_items v r. \<forall>q\<in>image_items v r. \<forall>s s'. p \<noteq> q \<longrightarrow> image_span v r p = Some s \<longrightarrow>
       image_span v r q = Some s' \<longrightarrow> spans_apart s s') \<and>
    unat (rl_size r) mod unat (rl_alignment r) = 0"
proof (cases "object_count_value v = 0")
  case True
  then show ?thesis using no_image_items [OF assms] by simp
next
  case False
  obtain off val S hi where sp: "spread off val S hi (unat (rl_alignment r))" "small_power (unat (rl_alignment r))"
      "hi \<le> unat (rl_size r)" "unat (rl_size r) mod unat (rl_alignment r) = 0"
    and item: "\<forall>p\<in>image_items v r. item_index p \<in> S \<and>
       (\<exists>o' x. image_span v r p = Some (o', x) \<and> off (item_index p) = unat o' \<and> val (item_index p) = Some x)"
    by (rule prepared_spread [OF assms False])
  have "spans_apart s s'"
    if p: "p \<in> image_items v r" "image_span v r p = Some s" and q: "q \<in> image_items v r" "image_span v r q = Some s'"
      and "p \<noteq> q" for p q s s'
  proof -
    have "item_index p \<noteq> item_index q" using inj_onD [OF item_index_inj _ p(1) q(1)] \<open>p \<noteq> q\<close> by blast
    then have "span_end off val (item_index p) \<le> off (item_index q) \<or> span_end off val (item_index q) \<le> off (item_index p)"
      using sp(1) bspec [OF item p(1)] bspec [OF item q(1)] unfolding spread_def by blast
    then show ?thesis using bspec [OF item p(1)] bspec [OF item q(1)] p(2) q(2) by (auto simp: span_end_def spans_apart_def)
  qed
  then show ?thesis using prepared_span [OF assms] sp(4) by blast
qed

definition sample_abi :: server_abi_configuration where
  "sample_abi = \<lparr>abi_target_of = windows_x64, abi_pack = 8\<rparr>"

definition sample_layout :: runtime_layout where
  "sample_layout = the (map_option snd (prepare_runtime_layout sample_graph sample_abi True (\<lambda>_. True)))"

lemma sample_prepared:
  "prepare_runtime_layout sample_graph sample_abi True (\<lambda>_. True) = Some (layout_success, sample_layout)"
proof -
  have "map_option fst (prepare_runtime_layout sample_graph sample_abi True (\<lambda>_. True)) = Some layout_success"
    by code_simp
  then show ?thesis by (cases "prepare_runtime_layout sample_graph sample_abi True (\<lambda>_. True)") (auto simp: sample_layout_def)
qed

theorem runtime_image_laid_out_witness:
  "map_option fst (image_span sample_graph sample_layout (Inr 2)) = Some 16 \<and>
   (\<exists>s. image_span sample_graph sample_layout (Inr 2) = Some s \<and> span_inside sample_layout s) \<and>
   unat (rl_size sample_layout) mod unat (rl_alignment sample_layout) = 0"
proof -
  have "Inr 2 \<in> image_items sample_graph sample_layout" by (simp add: image_items_def sample_graph_def)
  moreover have "map_option fst (image_span sample_graph sample_layout (Inr 2)) = Some 16" by code_simp
  ultimately show ?thesis using runtime_image_laid_out [OF sample_prepared] by blast
qed

text \<open>Every record of a prepared layout has a size between one byte and \<open>2 ^ 32 - 1\<close> that is a multiple of
  its power-of-two alignment. If no other type claims its base and member slots, its parts lie behind the
  virtual function pointer it introduces and inside it, aligned under the pack value and apart from each
  other in declaration order, or all at offset zero in a union.\<close>

lemma prepared_record:
  assumes "prepare_runtime_layout v abi alloc_slots alloc = Some (layout_success, r)" "type_slot r h = Some s"
    "rl_type r h = Some x"
  shows "x = value_layout (ls_size s) (ls_alignment s) \<and> good_value x \<and>
    (exclusive_parts v h \<longrightarrow> record_laid_out v abi r h s)"
proof (cases "object_count_value v = 0")
  case True
  then have "rl_type_slots r = []"
    using assms(1) by (simp add: prepare_runtime_layout_def fresh_runtime_layout_def split: if_splits)
      (auto simp: fresh_runtime_layout_def)
  then have "type_slot r h = None" by (auto simp: type_slot_def word_unat_eq_iff)
  then show ?thesis using assms(2) by simp
next
  case False
  from assms(1) False obtain b b' cursor where inv: "layout_inv v abi b"
    and obj: "object_inv v abi b (object_count_value v) (cursor, rl_alignment r) b'"
    and r: "r = (runtime_layout.truncate b')\<lparr>rl_prepared := True\<rparr>"
    and slot: "\<And>h. type_slot r h = type_slot b h"
    by (rule prepared_from_builder) blast
  have fr: "frozen b b'" using obj by (simp add: object_inv_def)
  have s: "x = value_layout (ls_size s) (ls_alignment s)" "ls_state s = slot_ready"
    using assms(2,3) by (auto simp: rl_type_slot slot_value_def split: if_splits)
  have ok: "type_slot_ok v abi b h s" using inv assms(2) s(2) slot by (simp add: layout_inv_def)
  have same: "rl_type_slots r = rl_type_slots b" "rl_derived_slots r = rl_derived_slots b"
    "rl_member_offsets r = rl_member_offsets b" "rl_base_offsets r = rl_base_offsets b"
    using fr by (simp_all add: r frozen_def)
  have "record_laid_out v abi r h s" if "record_laid_out v abi b h s"
    by (rule record_laid_out_kept [OF _ _ _ that]) (simp_all add: same same_offset [OF same(3,4)])
  then show ?thesis using ok s(1) by (simp add: type_slot_ok_def)
qed

text \<open>The derived types of a prepared layout: qualifiers keep the layout of the type they qualify, an
  array has its element's alignment and exactly as many bytes as its elements, pointers and references
  have the size the ABI gives them, and the target type of every reference has a span in the image.\<close>

lemma prepared_derived:
  assumes "prepare_runtime_layout v abi alloc_slots alloc = Some (layout_success, r)" "tr_kind t = type_ref_derived"
    "rl_value r t = Some x"
  shows "good_value x \<and> (\<exists>d. view_derived v t = Some d \<and>
    (if dr_kind d = 0 \<or> dr_kind d = 1 then rl_value r (dr_child d) = Some x
     else if dr_kind d = 2 then \<exists>p. abi_layout_properties (abi_target_of abi) = Some p \<and> vl_size x = ucast (pointer_size p)
     else if dr_kind d = 3 \<or> dr_kind d = 4
     then (\<exists>p. abi_layout_properties (abi_target_of abi) = Some p \<and> vl_size x = ucast (reference_size p)) \<and>
       Inl (dr_child d) \<in> image_items v r \<and> (\<exists>off y. image_span v r (Inl (dr_child d)) = Some (off, y))
     else dr_kind d = 5 \<and> (\<exists>y. rl_value r (dr_child d) = Some y \<and>
       unat (vl_size x) = unat (vl_size y) * unat (dr_payload d) \<and> vl_alignment x = vl_alignment y)))"
proof (cases "object_count_value v = 0")
  case True
  then have "rl_derived_slots r = []"
    using assms(1) by (simp add: prepare_runtime_layout_def fresh_runtime_layout_def split: if_splits)
      (auto simp: fresh_runtime_layout_def)
  then have "rl_value r t = None" using assms(2) by (auto simp: rl_value_def word_unat_eq_iff)
  then show ?thesis using assms(3) by simp
next
  case False
  from assms(1) False obtain b b' cursor where inv: "layout_inv v abi b"
    and obj: "object_inv v abi b (object_count_value v) (cursor, rl_alignment r) b'"
    and r: "r = (runtime_layout.truncate b')\<lparr>rl_prepared := True\<rparr>"
    and val: "\<And>t. rl_value r t = layout_value (abi_target_of abi) b t"
    by (rule prepared_from_builder) blast
  obtain s where s: "derived_slot b t = Some s" "ls_state s = slot_ready" "x = value_layout (ls_size s) (ls_alignment s)"
    using assms(2,3) by (auto simp: val layout_value_def slot_value_def bind_eq_Some_conv split: if_splits)
  then have ok: "good_value x" "derived_laid_out v abi b t s" using inv by (auto simp: layout_inv_def derived_slot_ok_def)
  have items: "Inl u \<in> image_items v r" if "u \<in> set (rl_unconnected_types b)" for u
    using obj that by (simp add: image_items_def r object_inv_def frozen_def)
  have span: "\<exists>off y. image_span v r (Inl u) = Some (off, y)" if "u \<in> set (rl_unconnected_types b)" for u
    using image_span_builder(2) [OF inv obj r val items [OF that]] by blast
  obtain d where d: "view_derived v t = Some d" using ok(2) by (auto simp: derived_laid_out_def)
  note shape = ok(2) [unfolded derived_laid_out_def d option.inject ex_simps simp_thms]
  consider "dr_kind d = 0 \<or> dr_kind d = 1" | "dr_kind d = 3 \<or> dr_kind d = 4" | "dr_kind d = 5" | "dr_kind d = 2"
    using shape by argo
  then show ?thesis
  proof cases
    case 1
    then show ?thesis using shape ok(1) d s(3) by (simp add: val)
  next
    case 2
    then have "dr_child d \<in> set (rl_unconnected_types b)" using shape by auto
    note child = items [OF this] span [OF this]
    from 2 show ?thesis using shape ok(1) d s(3) child by (elim disjE) simp_all
  next
    case 3
    then show ?thesis using shape ok(1) d s(3) by (auto simp: val)
  next
    case 4
    then show ?thesis using shape ok(1) d s(3) by simp
  qed
qed

text \<open>\<^bold>\<open>C36.\<close> The checked arithmetic of the layout is exact: a sum or product is returned exactly when it
  fits into 64 bits, and a returned aligned offset is the first multiple of the alignment that is not before
  the cursor.\<close>

theorem checked_arithmetic_exact:
  "(add_u64 x y = Some z \<longleftrightarrow> unat x + unat y = unat z) \<and>
   (multiply_u64 x y = Some z \<longleftrightarrow> unat x * unat y = unat z) \<and>
   (align_up x a = Some z \<longrightarrow> unat z mod unat a = 0 \<and> unat x \<le> unat z \<and> unat z < unat x + unat a)"
  using unat_u64_le [of z] align_up_least [of x a z] by (auto simp: add_u64_Some multiply_u64_Some)

theorem checked_arithmetic_exact_witness:
  "align_up 13 8 = Some 16 \<and> unat (16 :: u64) mod unat (8 :: u32) = 0 \<and> unat (16 :: u64) < unat (13 :: u64) + unat (8 :: u32)"
proof -
  have "align_up 13 8 = Some 16" by code_simp
  then show ?thesis using checked_arithmetic_exact [of 13 _ 16 8] by blast
qed

end
