(* ===== verification/Graph_Audit.thy ===== *)
theory Graph_Audit
  imports Graph_View Image_Audit
begin

text \<open>
  The rest of the cold audit \<^verbatim>\<open>compiled_project_view::verify_contents\<close>
  (\<^verbatim>\<open>server_engine/project/persistence/compiled_project.cpp\<close>) after the strings and identities: types
  with their bases and members, inheritance, derived types, objects, the identity index, endpoint
  paths, links and assigns, and \<^verbatim>\<open>verify_sources\<close>, which runs first. Also
  \<^verbatim>\<open>construction_compatible\<close> of \<^verbatim>\<open>server_engine/project/graph/construction_semantics.hpp\<close>. Every loop
  of the source is a definition of its own. Loops that follow references of the image are
  \<open>partial_function\<close>s: \<open>None\<close> is a loop that does not end.
\<close>

section \<open>Results of the audit\<close>

datatype compiled_project_image_result = image_success | image_invalid_state | image_invalid_image | image_failed

text \<open>The results a pass can stop the audit with.\<close>

datatype audit_failure = audit_invalid_state | audit_invalid_image | audit_failed

type_synonym 's audit = "(audit_failure + 's) option"

definition image_result :: "audit_failure + 's \<Rightarrow> compiled_project_image_result" where
  "image_result r =
     (case r of
        Inl audit_invalid_state \<Rightarrow> image_invalid_state
      | Inl audit_invalid_image \<Rightarrow> image_invalid_image
      | Inl audit_failed \<Rightarrow> image_failed
      | Inr _ \<Rightarrow> image_success)"

definition au_return :: "'s \<Rightarrow> 's audit" where
  "au_return x = Some (Inr x)"

definition au_fail :: "audit_failure \<Rightarrow> 's audit" where
  "au_fail e = Some (Inl e)"

definition au_bind :: "'s audit \<Rightarrow> ('s \<Rightarrow> 't audit) \<Rightarrow> 't audit" where
  "au_bind m f = (case m of None \<Rightarrow> None | Some (Inl e) \<Rightarrow> Some (Inl e) | Some (Inr x) \<Rightarrow> f x)"

text \<open>A condition that must hold, a query that must succeed, and a Boolean call that may not return.\<close>

definition au_require :: "bool \<Rightarrow> unit audit" where
  "au_require ok = (if ok then au_return () else au_fail audit_invalid_image)"

definition au_option :: "'s option \<Rightarrow> 's audit" where
  "au_option r = (case r of None \<Rightarrow> au_fail audit_invalid_image | Some x \<Rightarrow> au_return x)"

definition au_test :: "bool option \<Rightarrow> unit audit" where
  "au_test r = (case r of None \<Rightarrow> None | Some ok \<Rightarrow> au_require ok)"

definition au_allocate :: "bool \<Rightarrow> unit audit" where
  "au_allocate ok = (if ok then au_return () else au_fail audit_failed)"

fun au_for :: "('i \<Rightarrow> 's \<Rightarrow> 's audit) \<Rightarrow> 'i list \<Rightarrow> 's \<Rightarrow> 's audit" where
  "au_for body [] s = au_return s"
| "au_for body (i # rest) s = au_bind (body i s) (\<lambda>s'. au_for body rest s')"

section \<open>Construction values\<close>

definition integral_intrinsic :: "intrinsic_type \<Rightarrow> bool" where
  "integral_intrinsic type \<longleftrightarrow>
     type \<in> {bool_type, char_type, signed_char, unsigned_char, wchar_type, char8_type, char16_type, char32_type,
       signed_short, unsigned_short, signed_int, unsigned_int, signed_long, unsigned_long, signed_long_long,
       unsigned_long_long}"

definition floating_intrinsic :: "intrinsic_type \<Rightarrow> bool" where
  "floating_intrinsic type \<longleftrightarrow> type = float_type \<or> type = double_type \<or> type = long_double_type"

definition integer_constant :: "construction_value \<Rightarrow> bool" where
  "integer_constant c \<longleftrightarrow> cv_kind c = 1 \<or> cv_kind c = 2"

text \<open>After the qualifiers: what a reference, a pointer or an array accepts, and what a named or
  intrinsic type accepts. The payload of an intrinsic reference is converted to the eight bits of the
  enumeration.\<close>

definition derived_construction :: "derived_type_record \<Rightarrow> construction_value \<Rightarrow> bool" where
  "derived_construction d c =
     (if dr_kind d = 3 \<or> dr_kind d = 4 then cv_kind c = 0 \<or> cv_kind c = 4 \<or> cv_kind c = 5
      else if dr_kind d = 2 then cv_kind c = 0 \<or> integer_constant c \<and> cv_bits c = 0
      else if dr_kind d = 5 then dr_payload d \<noteq> 0 \<and> cv_kind c = 0
      else False)"

definition direct_construction :: "type_ref \<Rightarrow> construction_value \<Rightarrow> bool" where
  "direct_construction target c =
     (if tr_kind target = type_ref_named then cv_kind c = 0
      else if tr_kind target \<noteq> type_ref_intrinsic then False
      else
        let raw = unat (tr_payload target) mod 256
        in if raw = 0 \<or> raw > 21 \<or> intrinsic_of raw = void_type then False
           else if intrinsic_of raw = nullptr_type then cv_kind c = 0 \<or> integer_constant c \<and> cv_bits c = 0
           else if floating_intrinsic (intrinsic_of raw)
           then cv_kind c = 0 \<or> cv_kind c = 1 \<or> cv_kind c = 2 \<or> cv_kind c = 3
           else if integral_intrinsic (intrinsic_of raw) then cv_kind c = 0 \<or> cv_kind c = 1 \<or> cv_kind c = 2
           else False)"

partial_function (option) construction_loop ::
    "compiled_project_view \<Rightarrow> type_ref \<Rightarrow> construction_value \<Rightarrow> bool option" where
  "construction_loop v target c =
     (if tr_kind target \<noteq> type_ref_derived then Some (direct_construction target c)
      else case view_derived v target of
          None \<Rightarrow> Some False
        | Some d \<Rightarrow>
            if dr_kind d = 0 \<or> dr_kind d = 1 then construction_loop v (dr_child d) c
            else Some (derived_construction d c))"

definition construction_compatible ::
    "compiled_project_view \<Rightarrow> type_ref \<Rightarrow> construction_value \<Rightarrow> bool option" where
  "construction_compatible v target c =
     (if \<not> tr_valid target \<or> \<not> valid_construction c \<or> cv_kind c = 6 then Some False
      else construction_loop v target c)"

definition reference_binding_compatible :: "compiled_project_view \<Rightarrow> type_ref \<Rightarrow> type_ref \<Rightarrow> bool" where
  "reference_binding_compatible v target source =
     (case view_derived v target of
        None \<Rightarrow> False
      | Some target_type \<Rightarrow>
          if dr_kind target_type \<noteq> 3 \<and> dr_kind target_type \<noteq> 4 then False
          else
            let source = (case view_derived v source of
                  None \<Rightarrow> source
                | Some source_type \<Rightarrow>
                    if dr_kind source_type = 3 \<or> dr_kind source_type = 4 then dr_child source_type else source)
            in dr_child target_type = source)"

section \<open>Types, bases and members\<close>

record owner_marks =
  om_members :: "bool list"
  om_bases :: "bool list"
  om_seen :: "u32 list"

definition valid_record_kind :: "u8 \<Rightarrow> bool" where
  "valid_record_kind kind \<longleftrightarrow> kind = struct_type \<or> kind = class_type \<or> kind = union_type"

definition verify_base ::
    "compiled_project_view \<Rightarrow> type_handle \<Rightarrow> type_entry \<Rightarrow> nat \<Rightarrow> owner_marks \<times> bool \<Rightarrow> (owner_marks \<times> bool) audit" where
  "verify_base v handle entry local = (\<lambda>(marks, inherited_polymorphic).
     let global = unat (gr_begin (te_bases entry)) + local
     in au_bind (au_require (\<not> om_bases marks ! global)) (\<lambda>_.
        let marks = marks\<lparr>om_bases := (om_bases marks)[global := True]\<rparr>
        in au_bind (au_option (view_base_at v global)) (\<lambda>base.
           au_bind (au_require (br_type base \<noteq> handle)) (\<lambda>_.
           au_bind (au_option (view_type v (br_type base))) (\<lambda>base_type.
           au_bind (au_require (te_defined base_type \<and> te_kind base_type = graph_type_kind_record \<and>
             te_record_kind base_type \<noteq> union_type)) (\<lambda>_.
           let base_slot = unat (br_type base - 1)
           in au_bind (au_require (om_seen marks ! base_slot \<noteq> handle)) (\<lambda>_.
              au_return (marks\<lparr>om_seen := (om_seen marks)[base_slot := handle]\<rparr>,
                inherited_polymorphic \<or> te_polymorphic base_type))))))))"

definition verify_binding ::
    "compiled_project_view \<Rightarrow> type_handle \<Rightarrow> member_record \<Rightarrow> construction_value \<Rightarrow> unit audit" where
  "verify_binding v handle member c =
     au_bind
       (if cv_kind c = 4
        then au_bind (au_option (view_member v handle (cv_operand c - 1))) (\<lambda>bound.
          au_require (reference_binding_compatible v (mr_type member) (mr_type bound)))
        else au_return ()) (\<lambda>_.
     if cv_kind c = 5
     then au_bind (au_option (view_object v (object_from_raw v (cv_operand c)))) (\<lambda>bound.
       au_require (oe_internal_static bound \<and> reference_binding_compatible v (mr_type member) (oe_type bound)))
     else au_return ())"

definition verify_member ::
    "compiled_project_view \<Rightarrow> type_handle \<Rightarrow> type_entry \<Rightarrow> nat \<Rightarrow> owner_marks \<Rightarrow> owner_marks audit" where
  "verify_member v handle entry local marks =
     (let global = unat (gr_begin (te_members entry)) + local; m = of_nat local
      in au_bind (au_require (\<not> om_members marks ! global)) (\<lambda>_.
         au_bind (au_option (view_member v handle m)) (\<lambda>member.
         au_bind (au_require (view_find_member v handle (mr_name member) = m)) (\<lambda>_.
         au_bind (au_option (view_member_construction v handle m)) (\<lambda>c.
         au_bind (au_require (valid_member_access (mr_access member) \<and> mr_name member \<noteq> 0 \<and>
           tr_valid (mr_type member))) (\<lambda>_.
         au_bind (au_test (construction_compatible v (mr_type member) c)) (\<lambda>_.
         au_bind (au_require (\<not> (cv_kind c = 4 \<and> cv_operand c > gr_count (te_members entry)))) (\<lambda>_.
         au_bind (verify_binding v handle member c) (\<lambda>_.
         au_return (marks\<lparr>om_members := (om_members marks)[global := True]\<rparr>))))))))))"

definition verify_type :: "compiled_project_view \<Rightarrow> nat \<Rightarrow> owner_marks \<Rightarrow> owner_marks audit" where
  "verify_type v index marks =
     (let handle = view_type_at v index; identity = view_type_identity v handle
      in au_bind (au_option (view_type v handle)) (\<lambda>entry.
         au_bind (au_require (te_kind entry = graph_type_kind_record \<and> valid_record_kind (te_record_kind entry) \<and>
           te_flags entry AND NOT 3 = 0 \<and> ref_valid identity \<and> ref_kind identity = kind_type \<and>
           view_find_type v identity = handle)) (\<lambda>_.
         if \<not> te_defined entry
         then au_bind (au_require (gr_begin (te_members entry) = 0 \<and> gr_count (te_members entry) = 0 \<and>
             gr_begin (te_bases entry) = 0 \<and> gr_count (te_bases entry) = 0 \<and> \<not> te_polymorphic entry)) (\<lambda>_.
           au_return marks)
         else
           au_bind (au_require (\<not> (te_record_kind entry = union_type \<and>
             (gr_count (te_bases entry) \<noteq> 0 \<or> te_polymorphic entry)))) (\<lambda>_.
           au_bind (au_require (unat (gr_begin (te_bases entry)) \<le> sec_count (bases_section v) \<and>
             unat (gr_count (te_bases entry)) \<le> sec_count (bases_section v) - unat (gr_begin (te_bases entry)))) (\<lambda>_.
           au_bind (au_for (verify_base v handle entry) [0..<unat (gr_count (te_bases entry))] (marks, False))
             (\<lambda>(marks, inherited_polymorphic).
           au_bind (au_require (inherited_polymorphic \<longrightarrow> te_polymorphic entry)) (\<lambda>_.
           au_bind (au_require (unat (gr_begin (te_members entry)) \<le> sec_count (members_section v) \<and>
             unat (gr_count (te_members entry)) \<le> sec_count (members_section v) - unat (gr_begin (te_members entry)))) (\<lambda>_.
           au_for (verify_member v handle entry) [0..<unat (gr_count (te_members entry))] marks))))))))"

definition fresh_marks :: "compiled_project_view \<Rightarrow> owner_marks" where
  "fresh_marks v =
     \<lparr>om_members = replicate (sec_count (members_section v)) False,
      om_bases = replicate (sec_count (bases_section v)) False,
      om_seen = replicate (type_count_value v) 0\<rparr>"

definition verify_types :: "compiled_project_view \<Rightarrow> owner_marks audit" where
  "verify_types v = au_for (verify_type v) [0..<type_count_value v] (fresh_marks v)"

section \<open>Inheritance\<close>

text \<open>
  The depth-first walk: states are 0 (unvisited), 1 (on the stack) and 2 (finished); a frame is a type
  and its next base.
\<close>

partial_function (option) inheritance_walk ::
    "compiled_project_view \<Rightarrow> nat list \<Rightarrow> (type_handle \<times> nat) list \<Rightarrow> (audit_failure + nat list) option" where
  "inheritance_walk v states stack =
     (case stack of
        [] \<Rightarrow> Some (Inr states)
      | (t, k) # rest \<Rightarrow>
          (case view_type v t of
             None \<Rightarrow> Some (Inl audit_invalid_image)
           | Some current \<Rightarrow>
               if \<not> te_defined current then Some (Inl audit_invalid_image)
               else if k \<ge> unat (gr_count (te_bases current))
               then inheritance_walk v (states[unat (t - 1) := 2]) rest
               else
                 (case view_base_at v (unat (gr_begin (te_bases current)) + k) of
                    None \<Rightarrow> Some (Inl audit_invalid_image)
                  | Some base \<Rightarrow>
                      let base_slot = unat (br_type base - 1)
                      in if states ! base_slot = 1 then Some (Inl audit_invalid_image)
                         else if states ! base_slot = 2 then inheritance_walk v states ((t, k + 1) # rest)
                         else inheritance_walk v (states[base_slot := 1]) ((br_type base, 0) # (t, k + 1) # rest))))"

definition verify_inheritance_root :: "compiled_project_view \<Rightarrow> nat \<Rightarrow> nat list \<Rightarrow> nat list audit" where
  "verify_inheritance_root v index states =
     (if states ! index \<noteq> 0 then au_return states
      else
        let root = view_type_at v index
        in au_bind (au_option (view_type v root)) (\<lambda>root_type.
           if \<not> te_defined root_type then au_return (states[index := 2])
           else inheritance_walk v (states[index := 1]) [(root, 0)]))"

definition verify_inheritance :: "compiled_project_view \<Rightarrow> nat list audit" where
  "verify_inheritance v =
     au_for (verify_inheritance_root v) [0..<type_count_value v] (replicate (type_count_value v) 0)"

section \<open>Indexes, derived types and objects\<close>

text \<open>The count of the occupied slots of an index whose entries are numbered up to \<open>limit\<close>.\<close>

fun count_index :: "u8 list \<Rightarrow> nat \<Rightarrow> nat list \<Rightarrow> nat \<Rightarrow> nat audit" where
  "count_index data limit [] indexed = au_return indexed"
| "count_index data limit (index # rest) indexed =
     (let fingerprint = read_u32 data (index * index_record_size);
          raw = read_u32 data (index * index_record_size + 4)
      in if raw = 0
         then au_bind (au_require (fingerprint = 0)) (\<lambda>_. count_index data limit rest indexed)
         else au_bind (au_require (fingerprint \<noteq> 0 \<and> unat raw \<le> limit)) (\<lambda>_.
           count_index data limit rest (indexed + 1)))"

definition verify_index :: "section_view \<Rightarrow> nat \<Rightarrow> unit audit" where
  "verify_index index limit =
     au_bind (count_index (sec_data index) limit [0..<sec_count index] 0) (\<lambda>indexed. au_require (indexed = limit))"

definition derived_ref :: "nat \<Rightarrow> type_ref" where
  "derived_ref slot = push_bit 30 3 OR of_nat slot"

definition verify_derived :: "compiled_project_view \<Rightarrow> nat \<Rightarrow> unit \<Rightarrow> unit audit" where
  "verify_derived v slot _ =
     au_bind (au_option (view_derived v (derived_ref slot))) (\<lambda>d.
     au_bind (au_require (valid_derived_kind (dr_kind d))) (\<lambda>_.
     au_bind (au_require (\<not> (tr_kind (dr_child d) = type_ref_derived \<and> unat (tr_payload (dr_child d)) \<ge> slot))) (\<lambda>_.
     au_require (view_find_derived v (dr_child d) (dr_kind d) (dr_payload d) = derived_ref slot))))"

definition verify_object :: "compiled_project_view \<Rightarrow> nat \<Rightarrow> u32 \<Rightarrow> u32 audit" where
  "verify_object v index expected =
     (let handle = view_object_at v index; identity = view_object_identity v handle
      in au_bind (au_option (view_object v handle)) (\<lambda>entry.
         au_bind (au_option (view_object_construction v handle)) (\<lambda>initial.
         au_bind (au_require (tr_valid (oe_type entry) \<and> ref_valid identity \<and> ref_kind identity = kind_object \<and>
           view_find_object v identity = handle)) (\<lambda>_.
         if oe_non_default_initializer entry
         then
           au_bind (au_require (expected \<noteq> 0x3fffffff)) (\<lambda>_.
           let expected = expected + 1
           in au_bind (au_require (oe_construction_slot entry = expected)) (\<lambda>_.
              au_bind (au_test (construction_compatible v (oe_type entry) initial)) (\<lambda>_.
              au_bind (au_require (cv_kind initial \<noteq> 4 \<and> cv_kind initial \<noteq> 5)) (\<lambda>_. au_return expected))))
         else
           au_bind (au_require (oe_construction_slot entry = 0 \<and> initial = empty_construction)) (\<lambda>_.
           au_return expected)))))"

definition verify_graph_location :: "compiled_project_view \<Rightarrow> nat \<Rightarrow> unit \<Rightarrow> unit audit" where
  "verify_graph_location v slot _ =
     (let location = read_u32 (sec_data (graph_identity_index_section v)) (slot * graph_identity_record_size)
      in if slot = 0 then au_require (location = 0)
         else
           let identity = identity_from_raw v (read_u32 (sec_data (identity_core v)) ((slot - 1) * identity_core_size))
           in au_bind (au_require (ref_valid identity \<and> unat (ref_slot identity) = slot)) (\<lambda>_.
              case ref_kind identity of
                kind_root \<Rightarrow> au_require (location = 0)
              | kind_namespace_scope \<Rightarrow> au_require (location = 0)
              | kind_type \<Rightarrow>
                  if location = 0 then au_return ()
                  else au_bind (au_require (graph_location_kind location = 1)) (\<lambda>_.
                    let handle = type_from_raw v (graph_location_slot location)
                    in au_require (handle \<noteq> 0 \<and> view_type_identity v handle = identity))
              | kind_object \<Rightarrow>
                  if location = 0 then au_return ()
                  else au_bind (au_require (graph_location_kind location = 2)) (\<lambda>_.
                    let handle = object_from_raw v (graph_location_slot location)
                    in au_require (handle \<noteq> 0 \<and> view_object_identity v handle = identity))))"

section \<open>Endpoint paths, links and assigns\<close>

partial_function (option) strip_qualifiers :: "compiled_project_view \<Rightarrow> type_ref \<Rightarrow> type_ref option" where
  "strip_qualifiers v t =
     (case view_derived v t of
        None \<Rightarrow> Some t
      | Some d \<Rightarrow> if dr_kind d = 0 \<or> dr_kind d = 1 then strip_qualifiers v (dr_child d) else Some t)"

definition au_returned :: "'s option \<Rightarrow> 's audit" where
  "au_returned r = map_option Inr r"

definition verify_path_step :: "compiled_project_view \<Rightarrow> endpoint_path_record \<Rightarrow> nat \<Rightarrow> type_ref \<Rightarrow> type_ref audit" where
  "verify_path_step v path local current_type =
     au_bind (au_option (view_endpoint_path_step_at v (unat (gr_begin (epr_steps path)) + local))) (\<lambda>step.
     au_bind (au_returned (strip_qualifiers v current_type)) (\<lambda>current_type.
     if eps_kind step = 2
     then
       au_bind (au_option (view_derived v current_type)) (\<lambda>d.
       au_bind (au_require (dr_kind d = 5 \<and> eps_value step < dr_payload d)) (\<lambda>_.
       au_return (dr_child d)))
     else
       au_bind (au_require (eps_value step \<le> 0xffffffff)) (\<lambda>_.
       au_bind (au_require (tr_kind current_type = type_ref_named)) (\<lambda>_.
       let record_handle = type_from_raw v (tr_payload current_type)
       in au_bind (au_require (record_handle \<noteq> 0)) (\<lambda>_.
          au_bind (au_option (view_type v record_handle)) (\<lambda>entry.
          au_bind (au_require (eps_value step < ucast (gr_count (te_members entry)))) (\<lambda>_.
          au_bind (au_option (view_member v record_handle (ucast (eps_value step)))) (\<lambda>member.
          au_return (mr_type member)))))))))"

text \<open>\<open>None\<close> is a step that cannot be read; the source returns zero then, which no hash is otherwise.\<close>

definition endpoint_path_hash :: "compiled_project_view \<Rightarrow> type_ref \<Rightarrow> nat \<Rightarrow> nat \<Rightarrow> u64" where
  "endpoint_path_hash v root first n =
     (case foldl (\<lambda>acc local. case acc of None \<Rightarrow> None | Some hash \<Rightarrow>
          (case view_endpoint_path_step_at v (first + local) of
             None \<Rightarrow> None
           | Some step \<Rightarrow> Some (fnv64_mix (fnv64_mix hash (ucast (eps_kind step))) (eps_value step))))
        (Some (fnv64_mix 1469598103934665603 (ucast root))) [0..<n] of
        None \<Rightarrow> 0
      | Some hash \<Rightarrow> if hash = 0 then 1 else hash)"

definition path_indexed :: "compiled_project_view \<Rightarrow> u64 \<Rightarrow> u32 \<Rightarrow> bool" where
  "path_indexed v hash handle =
     (let index = endpoint_path_index_section v; count = sec_count index;
          raw = (\<lambda>p. read_u32 (sec_data index) (p * index_record_size + 4))
      in probe_find (\<lambda>p. raw p \<noteq> 0)
           (\<lambda>p. read_u32 (sec_data index) (p * index_record_size) = identity_fingerprint hash \<and> raw p = handle)
           (count - 1) (unat hash AND (count - 1)) count \<noteq> None)"

definition verify_path :: "compiled_project_view \<Rightarrow> nat \<Rightarrow> u32 \<Rightarrow> u32 audit" where
  "verify_path v index expected =
     (let handle = of_nat (index + 1)
      in au_bind (au_option (view_endpoint_path v handle)) (\<lambda>path.
         au_bind (au_require (gr_begin (epr_steps path) = expected)) (\<lambda>_.
         au_bind (au_for (verify_path_step v path) [0..<unat (gr_count (epr_steps path))] (epr_root_type path)) (\<lambda>current_type.
         au_bind (au_require (current_type = epr_value_type path)) (\<lambda>_.
         let hash = endpoint_path_hash v (epr_root_type path) (unat (gr_begin (epr_steps path)))
               (unat (gr_count (epr_steps path)))
         in au_bind (au_require (hash \<noteq> 0)) (\<lambda>_.
            au_bind (au_require (path_indexed v hash handle)) (\<lambda>_.
            au_return (expected + gr_count (epr_steps path)))))))))"

definition verify_paths :: "compiled_project_view \<Rightarrow> unit audit" where
  "verify_paths v =
     (let count = sec_count (endpoint_paths_section v)
      in au_bind (au_for (verify_path v) [0..<count] 0) (\<lambda>expected.
         au_bind (au_require (unat expected = sec_count (endpoint_path_steps_section v))) (\<lambda>_.
         verify_index (endpoint_path_index_section v) count)))"

definition endpoint_type :: "compiled_project_view \<Rightarrow> object_endpoint \<Rightarrow> type_ref option option" where
  "endpoint_type v endpoint =
     (case view_object v (ep_object endpoint) of
        None \<Rightarrow> Some None
      | Some entry \<Rightarrow>
          if \<not> er_valid (ep_member endpoint) then Some None
          else if er_is_path (ep_member endpoint)
          then Some (case view_endpoint_path v (er_path (ep_member endpoint)) of
                 None \<Rightarrow> None
               | Some path \<Rightarrow>
                   if epr_root_type path = oe_type entry \<and> tr_valid (epr_value_type path)
                   then Some (epr_value_type path) else None)
          else map_option (\<lambda>object_type.
                 if tr_kind object_type \<noteq> type_ref_named then None
                 else
                   let r = type_from_raw v (tr_payload object_type)
                   in if r = 0 then None
                      else case view_member v r (ep_member endpoint) of
                          None \<Rightarrow> None
                        | Some member \<Rightarrow> if tr_valid (mr_type member) then Some (mr_type member) else None)
               (strip_qualifiers v (oe_type entry)))"

definition verify_link :: "compiled_project_view \<Rightarrow> nat \<Rightarrow> unit \<Rightarrow> unit audit" where
  "verify_link v index _ =
     (let handle = of_nat (index + 1)
      in au_bind (au_option (view_link v handle)) (\<lambda>l.
         au_bind (au_returned (endpoint_type v (lr_source l))) (\<lambda>source.
         au_bind (au_option source) (\<lambda>source_type.
         au_bind (au_returned (endpoint_type v (lr_target l))) (\<lambda>target.
         au_bind (au_option target) (\<lambda>target_type.
         au_bind (au_require (reference_binding_compatible v target_type source_type)) (\<lambda>_.
         au_require (view_find_link_target v (lr_target l) = handle))))))))"

text \<open>The end of the source text is computed in 32 bits, the expected offset in 64.\<close>

definition verify_assign :: "compiled_project_view \<Rightarrow> nat \<Rightarrow> nat \<Rightarrow> nat audit" where
  "verify_assign v index expected =
     (let data = sec_data (assign_records_section v); record = index * assign_record_size;
          source_offset = read_u32 data record; source_length = read_u32 data (record + 4);
          target_offset = read_u32 data (record + 8); target_length = read_u32 data (record + 12)
      in au_bind (au_require (unat source_offset = expected \<and> source_length \<noteq> 0 \<and>
           target_offset = source_offset + source_length \<and> target_length \<noteq> 0 \<and> view_assign v index \<noteq> None)) (\<lambda>_.
         au_return (unat target_offset + unat target_length)))"

section \<open>Sources\<close>

datatype file_kind = file_project | file_header | file_source | file_assign
datatype source_data_kind = data_type_declaration | data_type_definition | data_object | data_link

definition sd_from_raw :: "u32 \<Rightarrow> u32" where
  "sd_from_raw raw = (if raw AND 0x3fffffff \<noteq> 0 then raw else 0)"

definition sd_kind :: "u32 \<Rightarrow> source_data_kind" where
  "sd_kind raw =
     (let kind = drop_bit 30 raw
      in if kind = 0 then data_type_declaration else if kind = 1 then data_type_definition
         else if kind = 2 then data_object else data_link)"

definition sd_slot :: "u32 \<Rightarrow> u32" where
  "sd_slot raw = raw AND 0x3fffffff"

record source_contribution_record =
  sc_file :: u32
  sc_data :: u32

definition view_source_contribution :: "compiled_project_view \<Rightarrow> nat \<Rightarrow> source_contribution_record option" where
  "view_source_contribution v index =
     (let values = source_contributions_section v
      in if \<not> view_valid v \<or> index \<ge> sec_count values then None
         else
           let c = \<lparr>sc_file = read_u32 (sec_data values) (index * 8),
                    sc_data = sd_from_raw (read_u32 (sec_data values) (index * 8 + 4))\<rparr>
           in if sc_file c \<noteq> 0 \<and> unat (sc_file c) \<le> sec_count (source_files_section v) \<and> sd_slot (sc_data c) \<noteq> 0
              then Some c else None)"

definition range_within :: "graph_range \<Rightarrow> nat \<Rightarrow> bool" where
  "range_within r n \<longleftrightarrow> unat (gr_begin r) \<le> n \<and> unat (gr_count r) \<le> n - unat (gr_begin r)"

definition view_source_root :: "compiled_project_view \<Rightarrow> u32 \<Rightarrow> graph_range option" where
  "view_source_root v root =
     (let values = source_roots_section v
      in if \<not> view_valid v \<or> root = 0 \<or> unat root > sec_count values then None
         else
           let r = unat (root - 1) * 8;
               extent = \<lparr>gr_begin = read_u32 (sec_data values) r, gr_count = read_u32 (sec_data values) (r + 4)\<rparr>
           in if range_within extent (sec_count (source_contributions_section v)) then Some extent else None)"

definition view_source_file :: "compiled_project_view \<Rightarrow> u32 \<Rightarrow> (string \<times> file_kind \<times> graph_range) option" where
  "view_source_file v f =
     (let values = source_files_section v; paths = source_paths_section v
      in if \<not> view_valid v \<or> f = 0 \<or> unat f > sec_count values then None
         else
           let data = sec_data values; r = unat (f - 1) * 20; raw_kind = unat (read_u32 data r);
               off = unat (read_u32 data (r + 4)); len = unat (read_u32 data (r + 8))
           in if raw_kind > 3 \<or> len = 0 \<or> off > sec_count paths \<or> len > sec_count paths - off then None
              else
                let extent = \<lparr>gr_begin = read_u32 data (r + 12), gr_count = read_u32 data (r + 16)\<rparr>
                in if range_within extent (sec_count (source_file_indices_section v))
                   then Some (map byte_char (text_slice (sec_data paths) off len),
                     [file_project, file_header, file_source, file_assign] ! raw_kind, extent)
                   else None)"

definition view_source_file_index :: "compiled_project_view \<Rightarrow> nat \<Rightarrow> u32 option" where
  "view_source_file_index v index =
     (let values = source_file_indices_section v
      in if \<not> view_valid v \<or> index \<ge> sec_count values then None
         else
           let output = read_u32 (sec_data values) (index * 4)
           in if unat output < sec_count (source_contributions_section v) then Some output else None)"

definition contribution_domain :: "compiled_project_view \<Rightarrow> source_contribution_record \<Rightarrow> file_kind option" where
  "contribution_domain v c =
     (if sd_kind (sc_data c) = data_link
      then (case view_link v (link_from_raw v (sd_slot (sc_data c))) of None \<Rightarrow> None | Some _ \<Rightarrow> Some file_source)
      else
        let identity = identity_at_slot v (sd_slot (sc_data c))
        in if sd_kind (sc_data c) = data_object
           then if \<not> ref_valid identity \<or> ref_kind identity \<noteq> kind_object then None
             else (case view_object v (view_find_object v identity) of
                     None \<Rightarrow> None
                   | Some entry \<Rightarrow> Some (if oe_internal_static entry then file_header else file_source))
           else if \<not> ref_valid identity \<or> ref_kind identity \<noteq> kind_type then None
             else (case view_type v (view_find_type v identity) of
                     None \<Rightarrow> None
                   | Some entry \<Rightarrow>
                       if sd_kind (sc_data c) = data_type_definition \<and> \<not> te_defined entry then None
                       else Some file_header))"

definition verify_contribution :: "compiled_project_view \<Rightarrow> nat \<Rightarrow> file_kind list \<Rightarrow> file_kind list audit" where
  "verify_contribution v index domains =
     au_bind (au_option (view_source_contribution v index)) (\<lambda>c.
     au_bind (au_option (contribution_domain v c)) (\<lambda>domain.
     au_bind (au_option (view_source_file v (sc_file c))) (\<lambda>(path, kind, extent).
     au_bind (au_require (kind = domain)) (\<lambda>_.
     au_return (domains[index := domain])))))"

text \<open>
  The marks of \<^verbatim>\<open>owned\<close> and \<^verbatim>\<open>physical\<close>. \<open>alloc_push file offset\<close> is the outcome of the insertion into the
  buffer of the semantic references of a root; sorting it and looking for equal neighbours finds
  duplicates.
\<close>

record source_marks =
  sm_owned :: "bool list"
  sm_physical :: "bool list"

definition semantic_key :: "source_contribution_record \<Rightarrow> u64" where
  "semantic_key c =
     push_bit 32 (ucast (sc_file c)) OR
     ucast (if sd_kind (sc_data c) = data_type_definition then sd_slot (sc_data c) else sc_data c)"

definition verify_root_entry ::
    "compiled_project_view \<Rightarrow> file_kind list \<Rightarrow> (nat \<Rightarrow> bool) \<Rightarrow> file_kind \<Rightarrow> graph_range \<Rightarrow> nat \<Rightarrow>
       source_marks \<times> u64 list \<Rightarrow> (source_marks \<times> u64 list) audit" where
  "verify_root_entry v domains alloc_push kind extent offset = (\<lambda>(marks, semantics).
     let index = unat (gr_begin extent + of_nat offset)
     in au_bind (au_require (index < sec_count (source_contributions_section v) \<and> \<not> sm_owned marks ! index)) (\<lambda>_.
        au_bind (au_option (view_source_contribution v index)) (\<lambda>c.
        au_bind (au_require (domains ! index = kind)) (\<lambda>_.
        au_bind (au_allocate (alloc_push offset)) (\<lambda>_.
        au_return (marks\<lparr>sm_owned := (sm_owned marks)[index := True]\<rparr>, semantics @ [semantic_key c]))))))"

definition verify_file_entry ::
    "compiled_project_view \<Rightarrow> u32 \<Rightarrow> graph_range \<Rightarrow> nat \<Rightarrow> source_marks \<Rightarrow> source_marks audit" where
  "verify_file_entry v f extent offset marks =
     au_bind (au_option (view_source_file_index v (unat (gr_begin extent + of_nat offset)))) (\<lambda>index.
     au_bind (au_option (view_source_contribution v (unat index))) (\<lambda>c.
     au_bind (au_require (sc_file c = f \<and> \<not> sm_physical marks ! unat index)) (\<lambda>_.
     au_return (marks\<lparr>sm_physical := (sm_physical marks)[unat index := True]\<rparr>))))"

definition verify_source_file ::
    "compiled_project_view \<Rightarrow> (string \<Rightarrow> bool) \<Rightarrow> file_kind list \<Rightarrow> (nat \<Rightarrow> nat \<Rightarrow> bool) \<Rightarrow> nat \<Rightarrow>
       source_marks \<times> nat \<times> nat \<Rightarrow> (source_marks \<times> nat \<times> nat) audit" where
  "verify_source_file v path_ok domains alloc_push index = (\<lambda>(marks, path_cursor, file_cursor).
     let f = of_nat (index + 1)
     in au_bind (au_option (view_source_root v f)) (\<lambda>root_range.
        au_bind (au_option (view_source_file v f)) (\<lambda>(path, kind, file_range).
        au_bind (au_require (unat (read_u32 (sec_data (source_files_section v)) (index * 20 + 4)) = path_cursor \<and>
          unat (gr_begin file_range) = file_cursor)) (\<lambda>_.
        au_bind (au_require (path_ok path)) (\<lambda>_.
        au_bind (au_require (\<not> ((gr_count root_range \<noteq> 0 \<or> gr_count file_range \<noteq> 0) \<and>
          kind \<noteq> file_header \<and> kind \<noteq> file_source))) (\<lambda>_.
        au_bind (au_for (verify_root_entry v domains (alloc_push index) kind root_range)
          [0..<unat (gr_count root_range)] (marks, [])) (\<lambda>(marks, semantics).
        au_bind (au_require (distinct semantics)) (\<lambda>_.
        au_bind (au_for (verify_file_entry v f file_range) [0..<unat (gr_count file_range)] marks) (\<lambda>marks.
        au_return (marks, path_cursor + length path, file_cursor + unat (gr_count file_range)))))))))))"

definition verify_sources ::
    "compiled_project_view \<Rightarrow> (string \<Rightarrow> bool) \<Rightarrow> bool \<Rightarrow> (nat \<Rightarrow> nat \<Rightarrow> bool) \<Rightarrow> unit audit" where
  "verify_sources v path_ok alloc alloc_push =
     (if \<not> view_valid v then au_fail audit_invalid_state
      else
        let count = sec_count (source_contributions_section v)
        in au_bind (au_allocate alloc) (\<lambda>_.
           au_bind (au_for (verify_contribution v) [0..<count] (replicate count file_project)) (\<lambda>domains.
           au_bind (au_for (verify_source_file v path_ok domains alloc_push) [0..<sec_count (source_files_section v)]
             (\<lparr>sm_owned = replicate count False, sm_physical = replicate count False\<rparr>, 0, 0))
             (\<lambda>(marks, path_cursor, file_cursor).
           au_require (path_cursor = sec_count (source_paths_section v) \<and> file_cursor = count \<and>
             (\<forall>m\<in>set (sm_owned marks). m) \<and> (\<forall>m\<in>set (sm_physical marks). m))))))"

section \<open>The whole audit\<close>

definition view_sections :: "compiled_project_view \<Rightarrow> section_view list" where
  "view_sections v =
     [string_core v, string_index v, string_bytes v, identity_core v, identity_index v, types_section v,
      type_identities_section v, members_section v, member_construction_section v, derived_types_section v,
      objects_section v, object_identities_section v, object_construction_section v, links_section v,
      graph_identity_index_section v, assign_records_section v, assign_bytes_section v,
      source_contributions_section v, source_roots_section v, source_files_section v,
      source_file_indices_section v, source_paths_section v, derived_index_section v,
      link_target_index_section v, endpoint_paths_section v, endpoint_path_steps_section v,
      endpoint_path_index_section v, bases_section v, member_name_index_section v]"

text \<open>The passes over the graph sections, in the order of the source.\<close>

definition verify_graph :: "compiled_project_view \<Rightarrow> bool \<Rightarrow> bool \<Rightarrow> unit audit" where
  "verify_graph v alloc_marks alloc_stack =
     au_bind (au_allocate alloc_marks) (\<lambda>_.
     au_bind (verify_types v) (\<lambda>marks.
     au_bind (au_allocate alloc_stack) (\<lambda>_.
     au_bind (verify_inheritance v) (\<lambda>_.
     au_bind (au_require (\<forall>m\<in>set (om_members marks). m)) (\<lambda>_.
     au_bind (au_require (\<forall>m\<in>set (om_bases marks). m)) (\<lambda>_.
     au_bind (verify_index (member_name_index_section v) (sec_count (members_section v))) (\<lambda>_.
     au_bind (au_require (sec_count (members_section v) = sec_count (member_construction_section v))) (\<lambda>_.
     au_bind (au_for (verify_derived v) [1..<sec_count (derived_types_section v) + 1] ()) (\<lambda>_.
     au_bind (au_for (verify_object v) [0..<object_count_value v] 0) (\<lambda>expected.
     au_bind (au_require (unat expected = sec_count (object_construction_section v))) (\<lambda>_.
     au_bind (au_for (verify_graph_location v) [0..<identity_count_value v + 1] ()) (\<lambda>_.
     au_bind (verify_paths v) (\<lambda>_.
     au_bind (au_for (verify_link v) [0..<link_count_value v] ()) (\<lambda>_.
     au_bind (au_for (verify_assign v) [0..<assign_count_value v] 0) (\<lambda>expected.
     au_require (expected = sec_count (assign_bytes_section v)))))))))))))))))"

definition verify_contents ::
    "compiled_project_view \<Rightarrow> (string \<Rightarrow> bool) \<Rightarrow> bool \<Rightarrow> (nat \<Rightarrow> nat \<Rightarrow> bool) \<Rightarrow> bool \<Rightarrow> bool \<Rightarrow>
       compiled_project_image_result option" where
  "verify_contents v path_ok alloc_sources alloc_push alloc_marks alloc_stack =
     (if \<not> view_valid v then Some image_invalid_state
      else map_option image_result
        (au_bind (verify_sources v path_ok alloc_sources alloc_push) (\<lambda>_.
         au_bind (au_require (\<forall>sec\<in>set (view_sections v). section_crc_ok sec)) (\<lambda>_.
         au_bind (au_require (verify_strings v)) (\<lambda>_.
         au_bind (au_require (verify_identities v)) (\<lambda>_.
         verify_graph v alloc_marks alloc_stack))))))"

end
