(* ===== verification/Audit_Types.thy ===== *)
theory Audit_Types
  imports Graph_Audit
begin

text \<open>
  What the passes of the audit over types, members and bases establish: every base and member slot
  belongs to exactly one type, and look-ups by name find every member.
\<close>

section \<open>Accepted audits\<close>

named_theorems audit_simps \<open>when a step of the audit accepts\<close>

lemma au_return_ok [audit_simps]: "au_return x = Some (Inr y) \<longleftrightarrow> x = y"
  by (simp add: au_return_def)

lemma au_fail_ok [audit_simps]: "au_fail e = Some (Inr y) \<longleftrightarrow> False"
  by (simp add: au_fail_def)

lemma au_bind_ok [audit_simps]: "au_bind m f = Some (Inr y) \<longleftrightarrow> (\<exists>x. m = Some (Inr x) \<and> f x = Some (Inr y))"
  by (auto simp: au_bind_def split: option.splits sum.splits)

lemma au_require_ok [audit_simps]: "au_require ok = Some (Inr y) \<longleftrightarrow> ok"
  by (simp add: au_require_def audit_simps)

lemma au_option_ok [audit_simps]: "au_option r = Some (Inr y) \<longleftrightarrow> r = Some y"
  by (cases r) (simp_all add: au_option_def audit_simps)

lemma au_test_ok [audit_simps]: "au_test r = Some (Inr y) \<longleftrightarrow> r = Some True"
  by (cases r) (simp_all add: au_test_def audit_simps)

lemma au_allocate_ok [audit_simps]: "au_allocate ok = Some (Inr y) \<longleftrightarrow> ok"
  by (simp add: au_allocate_def audit_simps)

lemma au_returned_ok [audit_simps]: "au_returned r = Some (Inr y) \<longleftrightarrow> r = Some y"
  by (cases r) (simp_all add: au_returned_def)

lemma au_if_ok [audit_simps]: "(if c then m else m') = Some (Inr y) \<longleftrightarrow> (if c then m = Some (Inr y) else m' = Some (Inr y))"
  by simp

lemma au_for_invariant:
  assumes "au_for body xs s = Some (Inr s')" "I 0 s"
    and "\<And>i s s'. i < length xs \<Longrightarrow> I i s \<Longrightarrow> body (xs ! i) s = Some (Inr s') \<Longrightarrow> I (Suc i) s'"
  shows "I (length xs) s'"
  using assms
proof (induction xs arbitrary: I s)
  case Nil
  then show ?case by (simp add: audit_simps)
next
  case (Cons x xs)
  obtain s1 where s1: "body x s = Some (Inr s1)" "au_for body xs s1 = Some (Inr s')"
    using Cons.prems(1) by (auto simp: audit_simps)
  have "I 1 s1" using Cons.prems(3) [of 0] Cons.prems(2) s1(1) by simp
  then show ?case
    using Cons.IH [OF s1(2), of "\<lambda>i. I (Suc i)"] Cons.prems(3) [of "Suc _"] by simp
qed

lemma au_for_upto:
  assumes "au_for body [0..<n] s = Some (Inr s')" "I 0 s"
    and "\<And>i s s'. i < n \<Longrightarrow> I i s \<Longrightarrow> body i s = Some (Inr s') \<Longrightarrow> I (Suc i) s'"
  shows "I n s'"
  using au_for_invariant [OF assms(1), of I] assms(2,3) by simp

lemma au_for_total:
  assumes "I 0 s" "\<And>i s. i < n \<Longrightarrow> I i s \<Longrightarrow> \<exists>r. body i s = Some r \<and> (\<forall>s'. r = Inr s' \<longrightarrow> I (Suc i) s')"
  shows "\<exists>r. au_for body [0..<n] s = Some r \<and> (\<forall>s'. r = Inr s' \<longrightarrow> I n s')"
proof -
  have "I k s \<Longrightarrow> k \<le> n \<Longrightarrow> \<exists>r. au_for body [k..<n] s = Some r \<and> (\<forall>s'. r = Inr s' \<longrightarrow> I n s')" for k s
  proof (induction "n - k" arbitrary: k s)
    case 0
    then show ?case by (simp add: au_return_def)
  next
    case (Suc d)
    then have k: "k < n" by linarith
    obtain r where r: "body k s = Some r" "\<And>s'. r = Inr s' \<Longrightarrow> I (Suc k) s'" using assms(2) [OF k Suc.prems(1)] by blast
    show ?case
    proof (cases r)
      case (Inl e)
      then show ?thesis using r(1) k by (simp add: upt_conv_Cons au_bind_def)
    next
      case (Inr s1)
      then show ?thesis using Suc.hyps(1) [of "Suc k" s1] Suc.hyps(2) r k by (simp add: upt_conv_Cons au_bind_def)
    qed
  qed
  then show ?thesis using assms(1) by blast
qed

lemma au_for_each:
  assumes "au_for body xs () = Some (Inr u)" "x \<in> set xs"
  shows "body x () = Some (Inr ())"
  using assms by (induction xs) (auto simp: audit_simps)

section \<open>Ownership of the parts\<close>

definition marked :: "bool list \<Rightarrow> nat set" where
  "marked ms = {g. g < length ms \<and> ms ! g}"

lemma marked_set: "g < length ms \<Longrightarrow> marked (ms[g := True]) = insert g (marked ms)"
  by (auto simp: marked_def nth_list_update)

lemma marked_fresh: "marked (replicate n False) = {}"
  by (auto simp: marked_def)

definition marks_fit :: "compiled_project_view \<Rightarrow> owner_marks \<Rightarrow> bool" where
  "marks_fit v marks \<longleftrightarrow>
     length (om_members marks) = sec_count (members_section v) \<and> length (om_bases marks) = sec_count (bases_section v)"

lemma verify_bases_marks:
  assumes run: "au_for (verify_base v h e) [0..<n] (marks, False) = Some (Inr (marks', poly))"
    and fit: "marks_fit v marks" and n: "unat (gr_begin (te_bases e)) + n \<le> sec_count (bases_section v)"
  shows "marks_fit v marks' \<and> om_members marks' = om_members marks \<and>
    marked (om_bases marks') = marked (om_bases marks) \<union> {unat (gr_begin (te_bases e)) ..< unat (gr_begin (te_bases e)) + n} \<and>
    marked (om_bases marks) \<inter> {unat (gr_begin (te_bases e)) ..< unat (gr_begin (te_bases e)) + n} = {}"
proof -
  let ?b = "unat (gr_begin (te_bases e))"
  let ?I = "\<lambda>k (m, p :: bool). marks_fit v m \<and> om_members m = om_members marks \<and>
    marked (om_bases m) = marked (om_bases marks) \<union> {?b ..< ?b + k} \<and> marked (om_bases marks) \<inter> {?b ..< ?b + k} = {}"
  have "?I n (marks', poly)"
  proof (rule au_for_upto [OF run])
    show "?I 0 (marks, False)" using fit by simp
  next
    fix k s s' assume k: "k < n" and I: "?I k s" and step: "verify_base v h e k s = Some (Inr s')"
    obtain m p where s: "s = (m, p)" by (cases s)
    have g: "?b + k < length (om_bases m)" using k n I by (simp add: s marks_fit_def)
    have free: "?b + k \<notin> marked (om_bases m)"
      using step by (auto simp: s verify_base_def Let_def audit_simps marked_def)
    obtain q seen where s': "s' = (m\<lparr>om_bases := (om_bases m)[?b + k := True], om_seen := seen\<rparr>, q)"
      using step by (auto simp: s verify_base_def Let_def audit_simps)
    have "{?b ..< ?b + Suc k} = insert (?b + k) {?b ..< ?b + k}" by auto
    then show "?I (Suc k) s'"
      using I g free fit by (simp add: s s' marked_set marks_fit_def)
  qed
  then show ?thesis by simp
qed

lemma verify_members_marks:
  assumes run: "au_for (verify_member v h e) [0..<n] marks = Some (Inr marks')"
    and fit: "marks_fit v marks" and n: "unat (gr_begin (te_members e)) + n \<le> sec_count (members_section v)"
  shows "marks_fit v marks' \<and> om_bases marks' = om_bases marks \<and>
    marked (om_members marks') = marked (om_members marks) \<union> {unat (gr_begin (te_members e)) ..< unat (gr_begin (te_members e)) + n} \<and>
    marked (om_members marks) \<inter> {unat (gr_begin (te_members e)) ..< unat (gr_begin (te_members e)) + n} = {}"
proof -
  let ?b = "unat (gr_begin (te_members e))"
  let ?I = "\<lambda>k m. marks_fit v m \<and> om_bases m = om_bases marks \<and>
    marked (om_members m) = marked (om_members marks) \<union> {?b ..< ?b + k} \<and> marked (om_members marks) \<inter> {?b ..< ?b + k} = {}"
  show ?thesis
  proof (rule au_for_upto [where I = ?I, OF run])
    show "?I 0 marks" using fit by simp
  next
    fix k m m' assume k: "k < n" and I: "?I k m" and step: "verify_member v h e k m = Some (Inr m')"
    have g: "?b + k < length (om_members m)" using k n I by (simp add: marks_fit_def)
    have free: "?b + k \<notin> marked (om_members m)" and m': "m' = m\<lparr>om_members := (om_members m)[?b + k := True]\<rparr>"
      using step by (auto simp: verify_member_def Let_def audit_simps marked_def)
    have "{?b ..< ?b + Suc k} = insert (?b + k) {?b ..< ?b + k}" by auto
    then show "?I (Suc k) m'"
      using I g free fit by (simp add: m' marked_set marks_fit_def)
  qed
qed

text \<open>The slots a marking covers, as parts.\<close>

definition marked_parts :: "owner_marks \<Rightarrow> (nat + nat) set" where
  "marked_parts marks = Inl ` marked (om_bases marks) \<union> Inr ` marked (om_members marks)"

lemma verify_type_marks:
  assumes run: "verify_type v i marks = Some (Inr marks')" and fit: "marks_fit v marks"
  shows "marks_fit v marks' \<and> marked_parts marks' = marked_parts marks \<union> type_parts v (view_type_at v i) \<and>
    marked_parts marks \<inter> type_parts v (view_type_at v i) = {}"
proof -
  let ?h = "view_type_at v i"
  obtain e where e: "view_type v ?h = Some e"
    using run by (auto simp: verify_type_def Let_def audit_simps)
  show ?thesis
  proof (cases "te_defined e")
    case False
    then have "marks' = marks" "gr_count (te_members e) = 0" "gr_count (te_bases e) = 0"
      using run e by (auto simp: verify_type_def Let_def audit_simps)
    then show ?thesis using fit e by (simp add: type_parts_def type_bases_def type_members_def)
  next
    case True
    obtain m1 p where b: "au_for (verify_base v ?h e) [0..<unat (gr_count (te_bases e))] (marks, False) = Some (Inr (m1, p))"
        "unat (gr_begin (te_bases e)) \<le> sec_count (bases_section v)"
        "unat (gr_count (te_bases e)) \<le> sec_count (bases_section v) - unat (gr_begin (te_bases e))"
      and m: "unat (gr_begin (te_members e)) \<le> sec_count (members_section v)"
        "unat (gr_count (te_members e)) \<le> sec_count (members_section v) - unat (gr_begin (te_members e))"
        "au_for (verify_member v ?h e) [0..<unat (gr_count (te_members e))] m1 = Some (Inr marks')"
      using run e True by (auto simp: verify_type_def Let_def audit_simps split: prod.splits)
    have "marks_fit v m1" and bases: "om_members m1 = om_members marks"
        "marked (om_bases m1) = marked (om_bases marks) \<union> type_bases v ?h" "marked (om_bases marks) \<inter> type_bases v ?h = {}"
      using verify_bases_marks [OF b(1) fit] b(2,3) e by (auto simp: type_bases_def)
    moreover have "marks_fit v marks'" and members: "om_bases marks' = om_bases m1"
        "marked (om_members marks') = marked (om_members m1) \<union> type_members v ?h" "marked (om_members m1) \<inter> type_members v ?h = {}"
      using verify_members_marks [OF m(3) \<open>marks_fit v m1\<close>] m(1,2) e by (auto simp: type_members_def)
    ultimately show ?thesis by (auto simp: marked_parts_def type_parts_def)
  qed
qed

lemma verify_types_marks:
  assumes "verify_types v = Some (Inr marks)"
  shows "marks_fit v marks \<and> marked_parts marks = (\<Union>i<type_count_value v. type_parts v (view_type_at v i)) \<and>
    (\<forall>i<type_count_value v. \<forall>j<i. type_parts v (view_type_at v j) \<inter> type_parts v (view_type_at v i) = {})"
  using assms unfolding verify_types_def
proof (rule au_for_upto [where I = "\<lambda>n marks. marks_fit v marks \<and>
      marked_parts marks = (\<Union>i<n. type_parts v (view_type_at v i)) \<and>
      (\<forall>i<n. \<forall>j<i. type_parts v (view_type_at v j) \<inter> type_parts v (view_type_at v i) = {})"], goal_cases)
  case 1
  then show ?case by (simp add: fresh_marks_def marks_fit_def marked_parts_def marked_fresh)
next
  case (2 n marks marks')
  then show ?case
    using verify_type_marks [of v n marks marks'] by (auto simp: lessThan_Suc less_Suc_eq)
qed

lemma handle_view_type_at:
  assumes "view_type v h = Some e"
  shows "unat (h - 1) < type_count_value v" "view_type_at v (unat (h - 1)) = h"
proof -
  have h: "h \<noteq> 0" "unat h \<le> type_count_value v" using assms by (auto simp: view_type_def split: if_splits)
  then have "0 < unat h" by (simp add: unat_gt_0)
  then show "unat (h - 1) < type_count_value v" using h by (simp add: unat_minus_one)
  then show "view_type_at v (unat (h - 1)) = h"
    using \<open>0 < unat h\<close> h(1) by (simp add: view_type_at_def unat_minus_one)
qed

lemma verify_types_exclusive:
  assumes "verify_types v = Some (Inr marks)"
  shows "exclusive_parts v h"
  unfolding exclusive_parts_def
proof (intro allI impI)
  fix h' assume "h' \<noteq> h"
  show "type_parts v h \<inter> type_parts v h' = {}"
  proof (cases "view_type v h = None \<or> view_type v h' = None")
    case True
    then show ?thesis by (auto simp: type_parts_def type_bases_def type_members_def)
  next
    case False
    then obtain e e' where "view_type v h = Some e" "view_type v h' = Some e'" by auto
    note h = handle_view_type_at [OF this(1)] and h' = handle_view_type_at [OF this(2)]
    have "unat (h - 1) \<noteq> unat (h' - 1)" using h h' \<open>h' \<noteq> h\<close> by metis
    then consider "unat (h - 1) < unat (h' - 1)" | "unat (h' - 1) < unat (h - 1)" by linarith
    then show ?thesis using verify_types_marks [OF assms] h h' by cases (metis Int_commute)+
  qed
qed

end
