(* ===== verification/Audit_Inheritance.thy ===== *)
theory Audit_Inheritance
  imports Audit_Types
begin

text \<open>
  The depth-first walk of the audit over the bases of all types returns on every image, and the image is
  rejected unless inheritance is free of cycles.
\<close>

definition base_edge :: "compiled_project_view \<Rightarrow> type_handle \<Rightarrow> type_handle \<Rightarrow> bool" where
  "base_edge v t b \<longleftrightarrow>
     (\<exists>e g base. view_type v t = Some e \<and> te_defined e \<and> g \<in> type_bases v t \<and>
        view_base_at v g = Some base \<and> br_type base = b)"

definition inheritance :: "compiled_project_view \<Rightarrow> (type_handle \<times> type_handle) set" where
  "inheritance v = {(b, t). base_edge v t b}"

definition known_type :: "compiled_project_view \<Rightarrow> type_handle \<Rightarrow> bool" where
  "known_type v t \<longleftrightarrow> t \<noteq> 0 \<and> unat t \<le> type_count_value v"

lemma known_type_index: "known_type v t \<Longrightarrow> unat (t - 1) < type_count_value v"
  using unat_gt_0 [of t] by (auto simp: known_type_def unat_minus_one)

lemma known_type_inj:
  assumes "known_type v t" "known_type v t'" "unat (t - 1) = unat (t' - 1)"
  shows "t = t'"
  using assms by (simp add: word_unat_eq_iff [symmetric])

lemma view_type_known: "view_type v t = Some e \<Longrightarrow> known_type v t"
  by (auto simp: view_type_def known_type_def split: if_splits)

lemma view_base_known: "view_base_at v g = Some base \<Longrightarrow> known_type v (br_type base)"
  by (auto simp: view_base_at_def type_from_raw_def known_type_def Let_def split: if_splits)

lemma base_edge_known: "base_edge v t b \<Longrightarrow> known_type v t \<and> known_type v b"
  by (auto simp: base_edge_def type_bases_def intro: view_base_known view_type_known split: option.splits)

definition state_of :: "nat list \<Rightarrow> type_handle \<Rightarrow> nat" where
  "state_of states t = states ! unat (t - 1)"

lemma state_of_update:
  assumes "known_type v t" "known_type v t'" "length states = type_count_value v"
  shows "state_of (states[unat (t - 1) := x]) t' = (if t' = t then x else state_of states t')"
  using known_type_index [OF assms(1)] known_type_inj [OF assms(1,2)] assms(3)
  by (auto simp: state_of_def nth_list_update)

section \<open>The invariant of the walk\<close>

fun frames_ok :: "compiled_project_view \<Rightarrow> nat list \<Rightarrow> type_handle option \<Rightarrow> (type_handle \<times> nat) list \<Rightarrow> bool" where
  "frames_ok v states child [] = True"
| "frames_ok v states child ((t, k) # rest) =
     ((\<forall>e l base. view_type v t = Some e \<longrightarrow> l < k \<longrightarrow> view_base_at v (unat (gr_begin (te_bases e)) + l) = Some base \<longrightarrow>
         state_of states (br_type base) = 2 \<or> child = Some (br_type base)) \<and>
      frames_ok v states (Some t) rest)"

definition finished :: "compiled_project_view \<Rightarrow> nat list \<Rightarrow> (type_handle \<times> type_handle) set" where
  "finished v states = {(b, t). base_edge v t b \<and> state_of states t = 2}"

definition walk_inv :: "compiled_project_view \<Rightarrow> nat list \<Rightarrow> (type_handle \<times> nat) list \<Rightarrow> bool" where
  "walk_inv v states stack \<longleftrightarrow>
     length states = type_count_value v \<and> distinct (map fst stack) \<and>
     (\<forall>t\<in>set (map fst stack). known_type v t) \<and>
     (\<forall>t. known_type v t \<longrightarrow> (state_of states t = 1 \<longleftrightarrow> t \<in> set (map fst stack)) \<and> state_of states t \<le> 2) \<and>
     frames_ok v states None stack \<and>
     (\<forall>t b. base_edge v t b \<longrightarrow> state_of states t = 2 \<longrightarrow> state_of states b = 2) \<and>
     acyclic (finished v states)"

lemma acyclic_sink:
  assumes "acyclic E" "\<And>x. (t, x) \<notin> E" "t \<notin> B"
  shows "acyclic (E \<union> B \<times> {t})"
proof -
  have out: "(t, y) \<notin> E \<union> B \<times> {t}" for y using assms(2,3) by auto
  have path: "(x, y) \<in> E\<^sup>+ \<or> y = t" if "(x, y) \<in> (E \<union> B \<times> {t})\<^sup>+" for x y
    using that
  proof (induction rule: trancl_induct)
    case (step y z)
    then show ?case using out by (auto intro: trancl_into_trancl)
  qed auto
  have "(x, x) \<notin> (E \<union> B \<times> {t})\<^sup>+" for x
  proof
    assume cyc: "(x, x) \<in> (E \<union> B \<times> {t})\<^sup>+"
    then consider "(x, x) \<in> E\<^sup>+" | "x = t" using path by blast
    then show False
    proof cases
      case 1
      then show ?thesis using assms(1) by (simp add: acyclic_def)
    next
      case 2
      then show ?thesis using tranclD [OF cyc] out by blast
    qed
  qed
  then show ?thesis by (simp add: acyclic_def)
qed

text \<open>Frames only ask for finished types, so finishing or starting a type keeps them.\<close>

lemma frames_ok_mono:
  assumes "frames_ok v states child stack" "\<And>t. known_type v t \<Longrightarrow> state_of states t = 2 \<Longrightarrow> state_of states' t = 2"
    and "child = None \<or> child = child' \<or> (\<exists>t. child = Some t \<and> state_of states' t = 2)"
  shows "frames_ok v states' child' stack"
  using assms
proof (induction v states child stack arbitrary: child' rule: frames_ok.induct)
  case (2 v states child t k rest)
  have "frames_ok v states' (Some t) rest" using "2.IH" [of "Some t"] "2.prems"(1,2) by simp
  moreover have "state_of states' (br_type base) = 2 \<or> child' = Some (br_type base)"
    if "view_type v t = Some e" "l < k" "view_base_at v (unat (gr_begin (te_bases e)) + l) = Some base" for e l base
  proof -
    have "state_of states (br_type base) = 2 \<or> child = Some (br_type base)" using "2.prems"(1) that by simp
    then show ?thesis using "2.prems"(2,3) view_base_known [OF that(3)] by auto
  qed
  ultimately show ?case by simp
qed simp

lemma walk_pop:
  assumes inv: "walk_inv v states ((t, k) # rest)" and e: "view_type v t = Some e"
    and k: "unat (gr_count (te_bases e)) \<le> k"
  shows "walk_inv v (states[unat (t - 1) := 2]) rest"
proof -
  let ?s = "states[unat (t - 1) := 2]"
  have len: "length states = type_count_value v" and t: "known_type v t" "t \<notin> set (map fst rest)" "state_of states t = 1"
    and frames: "frames_ok v states None ((t, k) # rest)"
    and closed: "\<And>t b. base_edge v t b \<Longrightarrow> state_of states t = 2 \<Longrightarrow> state_of states b = 2"
    and acyc: "acyclic (finished v states)"
    using inv by (auto simp: walk_inv_def)
  have upd: "state_of ?s t' = (if t' = t then 2 else state_of states t')" if "known_type v t'" for t'
    by (rule state_of_update [OF t(1) that len])
  have done_t: "state_of states b = 2" if "base_edge v t b" for b
  proof -
    obtain g base where g: "g \<in> type_bases v t" "view_base_at v g = Some base" "br_type base = b"
      using \<open>base_edge v t b\<close> by (auto simp: base_edge_def)
    then obtain l where "g = unat (gr_begin (te_bases e)) + l" "l < k"
      using e k by (auto simp: type_bases_def) (metis add_diff_inverse_nat add_less_cancel_left less_le_trans not_less)
    then show ?thesis using frames e g by auto
  qed
  have "finished v ?s = finished v states \<union> {b. base_edge v t b} \<times> {t}"
    using base_edge_known upd t(3) by (auto simp: finished_def split: if_splits)
  moreover have "acyclic (finished v states \<union> {b. base_edge v t b} \<times> {t})"
  proof (rule acyclic_sink [OF acyc])
    show "(t, x) \<notin> finished v states" for x
      using closed [of x t] t(3) by (auto simp: finished_def)
    show "t \<notin> {b. base_edge v t b}" using done_t [of t] t(3) by auto
  qed
  moreover have "frames_ok v ?s None rest"
    by (rule frames_ok_mono [of v states "Some t"]) (use frames upd t(1) in auto)
  moreover have "state_of ?s b = 2" if "base_edge v t' b" "state_of ?s t' = 2" for t' b
    using that base_edge_known [OF that(1)] upd done_t closed by (auto split: if_splits)
  ultimately show ?thesis
    using inv upd t(1,2) by (auto simp: walk_inv_def)
qed

lemma walk_skip:
  assumes inv: "walk_inv v states ((t, k) # rest)" and e: "view_type v t = Some e"
    and base: "view_base_at v (unat (gr_begin (te_bases e)) + k) = Some base" "state_of states (br_type base) = 2"
  shows "walk_inv v states ((t, k + 1) # rest)"
proof -
  have "frames_ok v states None ((t, k + 1) # rest)"
    using inv e base by (auto simp: walk_inv_def less_Suc_eq)
  then show ?thesis using inv by (simp add: walk_inv_def)
qed

lemma walk_push:
  assumes inv: "walk_inv v states ((t, k) # rest)" and e: "view_type v t = Some e"
    and base: "view_base_at v (unat (gr_begin (te_bases e)) + k) = Some base" "state_of states (br_type base) = 0"
  shows "walk_inv v (states[unat (br_type base - 1) := 1]) ((br_type base, 0) # (t, k + 1) # rest)"
proof -
  let ?b = "br_type base" and ?s = "states[unat (br_type base - 1) := 1]"
  have len: "length states = type_count_value v" and frames: "frames_ok v states None ((t, k) # rest)"
    and stack: "\<And>t'. known_type v t' \<Longrightarrow> state_of states t' = 1 \<longleftrightarrow> t' \<in> set (map fst ((t, k) # rest))"
    and closed: "\<And>t b. base_edge v t b \<Longrightarrow> state_of states t = 2 \<Longrightarrow> state_of states b = 2"
    using inv by (auto simp: walk_inv_def)
  have b: "known_type v ?b" by (rule view_base_known [OF base(1)])
  have new: "?b \<notin> set (map fst ((t, k) # rest))" using stack [OF b] base(2) by simp
  have upd: "state_of ?s t' = (if t' = ?b then 1 else state_of states t')" if "known_type v t'" for t'
    by (rule state_of_update [OF b that len])
  have keep: "known_type v t' \<Longrightarrow> state_of ?s t' = 2 \<longleftrightarrow> state_of states t' = 2" for t'
    using upd [of t'] base(2) by auto
  have "frames_ok v ?s None ((?b, 0) # (t, k + 1) # rest)"
  proof -
    have "frames_ok v ?s (Some ?b) ((t, k) # rest)"
      by (rule frames_ok_mono [OF frames]) (use keep in auto)
    then show ?thesis using e base(1) by (auto simp: less_Suc_eq)
  qed
  moreover have "finished v ?s = finished v states"
    using base_edge_known keep by (auto simp: finished_def)
  moreover have "state_of ?s b' = 2" if "base_edge v t' b'" "state_of ?s t' = 2" for t' b'
    using that keep base_edge_known [OF that(1)] closed by blast
  ultimately show ?thesis
    using inv upd new b by (auto simp: walk_inv_def)
qed

section \<open>The walk returns\<close>

definition unvisited_types :: "nat list \<Rightarrow> nat" where
  "unvisited_types states = length (filter (\<lambda>s. s = 0) states)"

definition frame_weight :: "compiled_project_view \<Rightarrow> type_handle \<times> nat \<Rightarrow> nat" where
  "frame_weight v = (\<lambda>(t, k). Suc ((case view_type v t of None \<Rightarrow> 0 | Some e \<Rightarrow> unat (gr_count (te_bases e))) - k))"

definition walk_order :: "compiled_project_view \<Rightarrow> ((nat list \<times> (type_handle \<times> nat) list) \<times> (nat list \<times> (type_handle \<times> nat) list)) set" where
  "walk_order v =
     inv_image (less_than <*lex*> less_than)
       (\<lambda>(states, stack). (unvisited_types states, sum_list (map (frame_weight v) stack)))"

lemma walk_order_wf: "wf (walk_order v)"
  by (simp add: walk_order_def wf_inv_image wf_lex_prod)

lemma unvisited_types_update:
  assumes "i < length states" "x \<noteq> 0"
  shows "unvisited_types (states[i := x]) = unvisited_types states - (if states ! i = 0 then 1 else 0)"
    "states ! i = 0 \<Longrightarrow> unvisited_types (states[i := x]) < unvisited_types states"
proof -
  have "length (filter (\<lambda>s. s = 0) (take i states @ states ! i # drop (Suc i) states)) =
      length (filter (\<lambda>s. s = 0) (take i states)) + (if states ! i = 0 then 1 else 0) +
      length (filter (\<lambda>s. s = 0) (drop (Suc i) states))" by simp
  then have "unvisited_types states = length (filter (\<lambda>s. s = 0) (take i states)) + (if states ! i = 0 then 1 else 0) +
      length (filter (\<lambda>s. s = 0) (drop (Suc i) states))"
    by (simp only: unvisited_types_def id_take_nth_drop [OF assms(1), symmetric])
  moreover have "unvisited_types (states[i := x]) = length (filter (\<lambda>s. s = 0) (take i states)) +
      length (filter (\<lambda>s. s = 0) (drop (Suc i) states))"
    using assms by (simp add: unvisited_types_def upd_conv_take_nth_drop)
  ultimately show "unvisited_types (states[i := x]) = unvisited_types states - (if states ! i = 0 then 1 else 0)"
    "states ! i = 0 \<Longrightarrow> unvisited_types (states[i := x]) < unvisited_types states" by simp_all
qed

lemma inheritance_walk_ok:
  "walk_inv v states stack \<Longrightarrow> \<exists>r. inheritance_walk v states stack = Some r \<and>
     (\<forall>states'. r = Inr states' \<longrightarrow> walk_inv v states' [] \<and>
        (\<forall>t. known_type v t \<longrightarrow> state_of states t \<noteq> 0 \<longrightarrow> state_of states' t \<noteq> 0))"
proof (induction "(states, stack)" arbitrary: states stack rule: wf_induct_rule [OF walk_order_wf [of v]])
  case 1
  show ?case
  proof (cases stack)
    case Nil
    then show ?thesis using "1.prems" by (subst inheritance_walk.simps) simp
  next
    case (Cons frame rest)
    obtain t k where stack: "stack = (t, k) # rest" using Cons by (cases frame) auto
    note inv = "1.prems" [unfolded stack]
    have t: "known_type v t" "state_of states t = 1" and len: "length states = type_count_value v"
      using inv by (auto simp: walk_inv_def)
    note step = inheritance_walk.simps [of v states stack, unfolded stack, simplified]
    show ?thesis
    proof (cases "view_type v t")
      case (Some e)
      note e = Some
      consider "\<not> te_defined e" | "te_defined e" "unat (gr_count (te_bases e)) \<le> k"
        | "te_defined e" "k < unat (gr_count (te_bases e))" by linarith
      then show ?thesis
      proof cases
        case 1
        then show ?thesis using step e by (simp add: stack)
      next
        case 2
        let ?s = "states[unat (t - 1) := 2]"
        have "unvisited_types ?s = unvisited_types states"
          using unvisited_types_update(1) [of "unat (t - 1)" states 2] known_type_index [OF t(1)] t(2) len
          by (simp add: state_of_def)
        then have "((?s, rest), (states, stack)) \<in> walk_order v" by (simp add: walk_order_def stack frame_weight_def)
        note ih = "1.hyps" [OF this walk_pop [OF inv e 2(2)]]
        have eq: "inheritance_walk v states stack = inheritance_walk v ?s rest"
          by (subst inheritance_walk.simps) (simp add: stack e 2)
        have "state_of ?s t' \<noteq> 0" if "known_type v t'" "state_of states t' \<noteq> 0" for t'
          using state_of_update [OF t(1) that(1) len, of 2] that(2) by simp
        then show ?thesis using ih unfolding eq by blast
      next
        case 3
        show ?thesis
        proof (cases "view_base_at v (unat (gr_begin (te_bases e)) + k)")
          case None
          then show ?thesis using step e 3 by (simp add: stack)
        next
          case (Some base)
          note base = Some and b = view_base_known [OF Some]
          have le: "state_of states (br_type base) \<le> 2" using inv b by (simp add: walk_inv_def)
          then consider "state_of states (br_type base) = 1" | "state_of states (br_type base) = 2" | "state_of states (br_type base) = 0"
            by linarith
          then show ?thesis
          proof cases
            case 1
            then show ?thesis using step e 3 base by (simp add: stack state_of_def)
          next
            case 2
            have "((states, (t, k + 1) # rest), (states, stack)) \<in> walk_order v"
              using 3 e by (simp add: walk_order_def stack frame_weight_def)
            note ih = "1.hyps" [OF this walk_skip [OF inv e base 2]]
            have eq: "inheritance_walk v states stack = inheritance_walk v states ((t, k + 1) # rest)"
              by (subst inheritance_walk.simps) (use 2 3 in \<open>simp add: stack e base state_of_def\<close>)
            then show ?thesis using ih by simp
          next
            case 0: 3
            let ?s = "states[unat (br_type base - 1) := 1]"
            have "unvisited_types ?s < unvisited_types states"
              using unvisited_types_update(2) [of "unat (br_type base - 1)" states 1] known_type_index [OF b] len 0
              by (simp add: state_of_def)
            then have "((?s, (br_type base, 0) # (t, k + 1) # rest), (states, stack)) \<in> walk_order v"
              by (simp add: walk_order_def)
            note ih = "1.hyps" [OF this walk_push [OF inv e base 0]]
            have eq: "inheritance_walk v states stack =
                inheritance_walk v ?s ((br_type base, 0) # (t, k + 1) # rest)"
              by (subst inheritance_walk.simps) (use 0 3 in \<open>simp add: stack e base state_of_def\<close>)
            have "state_of ?s t' \<noteq> 0" if "known_type v t'" "state_of states t' \<noteq> 0" for t'
              using state_of_update [OF b that(1) len, of 1] that(2) by simp
            then show ?thesis using ih unfolding eq by blast
          qed
        qed
      qed
    qed (use step in \<open>simp add: stack\<close>)
  qed
qed

section \<open>Accepted inheritance has no cycles\<close>

lemma view_type_at_index:
  assumes "type_count_value v \<le> uint32_max" "i < type_count_value v"
  shows "known_type v (view_type_at v i)" "unat (view_type_at v i - 1) = i"
proof -
  have "unat (view_type_at v i) = i + 1" using assms by (simp add: view_type_at_def unat_of_nat_u32 del: of_nat_add of_nat_Suc)
  then show "known_type v (view_type_at v i)" "unat (view_type_at v i - 1) = i"
    using assms(2) unat_gt_0 [of "view_type_at v i"] by (auto simp: known_type_def unat_minus_one)
qed

lemma walk_inv_start:
  assumes inv: "walk_inv v states []" and t: "known_type v t" "state_of states t = 0"
  shows "walk_inv v (states[unat (t - 1) := 1]) [(t, 0)]"
    "\<lbrakk>view_type v t = Some e; \<not> te_defined e\<rbrakk> \<Longrightarrow> walk_inv v (states[unat (t - 1) := 2]) []"
proof -
  have len: "length states = type_count_value v" using inv by (simp add: walk_inv_def)
  note upd = state_of_update [OF t(1) _ len]
  have keep: "state_of (states[unat (t - 1) := 1]) t' = 2 \<longleftrightarrow> state_of states t' = 2" if "known_type v t'" for t'
    using upd [OF that, of 1] t(2) by auto
  have "finished v (states[unat (t - 1) := 1]) = finished v states"
    using base_edge_known keep by (auto simp: finished_def)
  moreover have "state_of (states[unat (t - 1) := 1]) b = 2"
    if "base_edge v t' b" "state_of (states[unat (t - 1) := 1]) t' = 2" for t' b
    using inv that keep base_edge_known [OF that(1)] by (auto simp: walk_inv_def)
  ultimately show "walk_inv v (states[unat (t - 1) := 1]) [(t, 0)]"
    using inv upd [of _ 1] t by (auto simp: walk_inv_def)
  assume e: "view_type v t = Some e" "\<not> te_defined e"
  then have none: "\<not> base_edge v t b" for b by (auto simp: base_edge_def)
  have "finished v (states[unat (t - 1) := 2]) = finished v states"
    using base_edge_known upd [of _ 2] none by (auto simp: finished_def split: if_splits)
  moreover have "state_of (states[unat (t - 1) := 2]) b = 2"
    if "base_edge v t' b" "state_of (states[unat (t - 1) := 2]) t' = 2" for t' b
    using inv that none upd [of _ 2] base_edge_known [OF that(1)] by (auto simp: walk_inv_def split: if_splits)
  ultimately show "walk_inv v (states[unat (t - 1) := 2]) []"
    using inv upd [of _ 2] t by (auto simp: walk_inv_def)
qed

definition roots_done :: "compiled_project_view \<Rightarrow> nat \<Rightarrow> nat list \<Rightarrow> bool" where
  "roots_done v n states \<longleftrightarrow> walk_inv v states [] \<and> (\<forall>i<n. state_of states (view_type_at v i) \<noteq> 0)"

lemma verify_inheritance_root_ok:
  assumes T: "type_count_value v \<le> uint32_max" and i: "i < type_count_value v" and inv: "roots_done v i states"
  shows "\<exists>r. verify_inheritance_root v i states = Some r \<and> (\<forall>states'. r = Inr states' \<longrightarrow> roots_done v (Suc i) states')"
proof -
  let ?t = "view_type_at v i"
  note t = view_type_at_index [OF T i]
  have len: "length states = type_count_value v" and w: "walk_inv v states []"
    using inv by (simp_all add: roots_done_def walk_inv_def)
  note upd = state_of_update [OF t(1) _ len]
  have known: "known_type v (view_type_at v j)" if "j < Suc i" for j using view_type_at_index(1) [OF T] that i by simp
  have si: "state_of states ?t = states ! i" using t(2) by (simp add: state_of_def)
  show ?thesis
  proof (cases "states ! i = 0")
    case False
    then show ?thesis using inv si
      by (auto simp: verify_inheritance_root_def au_return_def roots_done_def less_Suc_eq)
  next
    case True
    then have zero: "state_of states ?t = 0" using si by simp
    show ?thesis
    proof (cases "view_type v ?t")
      case None
      then show ?thesis using True by (simp add: verify_inheritance_root_def au_option_def au_bind_def au_fail_def)
    next
      case (Some e)
      show ?thesis
      proof (cases "te_defined e")
        case False
        have "roots_done v (Suc i) (states[i := 2])"
          using walk_inv_start(2) [OF w t(1) zero Some False] inv upd [of _ 2] known
          by (simp add: t(2) roots_done_def less_Suc_eq)
        then show ?thesis using True Some False
          by (simp add: verify_inheritance_root_def au_option_def au_bind_def au_return_def)
      next
        case True
        have start: "walk_inv v (states[i := 1]) [(?t, 0)]" using walk_inv_start(1) [OF w t(1) zero] t(2) by simp
        obtain r where r: "inheritance_walk v (states[i := 1]) [(?t, 0)] = Some r"
          "\<And>states'. r = Inr states' \<Longrightarrow> walk_inv v states' [] \<and>
            (\<forall>t. known_type v t \<longrightarrow> state_of (states[i := 1]) t \<noteq> 0 \<longrightarrow> state_of states' t \<noteq> 0)"
          using inheritance_walk_ok [OF start] by blast
        have "state_of (states[i := 1]) (view_type_at v j) \<noteq> 0" if "j < Suc i" for j
          using inv upd [OF known [OF that], of 1] that by (auto simp: t(2) roots_done_def less_Suc_eq)
        then have "roots_done v (Suc i) states'" if "r = Inr states'" for states'
          using r(2) [OF that] known by (simp add: roots_done_def)
        then show ?thesis using True Some \<open>states ! i = 0\<close> r(1)
          by (simp add: verify_inheritance_root_def au_option_def au_bind_def au_return_def)
      qed
    qed
  qed
qed

lemma verify_inheritance_ok:
  assumes T: "type_count_value v \<le> uint32_max"
  shows "\<exists>r. verify_inheritance v = Some r \<and> (\<forall>states. r = Inr states \<longrightarrow> acyclic (inheritance v))"
proof -
  let ?z = "replicate (type_count_value v) (0 :: nat)"
  have zero: "state_of ?z t = 0" if "known_type v t" for t
    using known_type_index [OF that] by (simp add: state_of_def)
  have "finished v ?z = {}" using zero base_edge_known by (auto simp: finished_def)
  then have "roots_done v 0 ?z" using zero base_edge_known by (auto simp: roots_done_def walk_inv_def acyclic_def)
  then obtain r where r: "verify_inheritance v = Some r" "\<And>states. r = Inr states \<Longrightarrow> roots_done v (type_count_value v) states"
    using au_for_total [of "roots_done v" ?z "type_count_value v" "verify_inheritance_root v"]
      verify_inheritance_root_ok [OF T] by (auto simp: verify_inheritance_def)
  have "acyclic (inheritance v)" if "r = Inr states" for states
  proof -
    note done_all = r(2) [OF that]
    have "state_of states t = 2" if t: "known_type v t" for t
    proof -
      have "view_type_at v (unat (t - 1)) = t"
        using t known_type_index [OF t] unat_gt_0 [of t] by (simp add: view_type_at_def known_type_def unat_minus_one)
      then have "state_of states t \<noteq> 0" using done_all known_type_index [OF t] by (auto simp: roots_done_def)
      moreover have "state_of states t \<noteq> 1" "state_of states t \<le> 2"
        using done_all t by (auto simp: roots_done_def walk_inv_def acyclic_def)
      ultimately show ?thesis by linarith
    qed
    then have "finished v states = inheritance v" using base_edge_known by (auto simp: finished_def inheritance_def)
    then show ?thesis using done_all by (simp add: roots_done_def walk_inv_def)
  qed
  then show ?thesis using r(1) by blast
qed

end
