(* ===== verification/Audit_Graph.thy ===== *)
theory Audit_Graph
  imports Audit_Inheritance
begin

text \<open>
  What an accepted audit says about the rest of the graph: derived types are well founded, every look-up
  finds what it should and nothing twice. The audit returns on every image whose derived types are well
  founded; on an image with a qualifier that qualifies itself it does not, because members are checked
  before the derived types they use.
\<close>

section \<open>Derived types\<close>

definition derived_ordered :: "compiled_project_view \<Rightarrow> bool" where
  "derived_ordered v \<longleftrightarrow>
     (\<forall>t d. view_derived v t = Some d \<longrightarrow> tr_kind (dr_child d) = type_ref_derived \<longrightarrow>
        unat (tr_payload (dr_child d)) < unat (tr_payload t))"

lemma derived_ref_payload:
  assumes "tr_kind t = type_ref_derived"
  shows "derived_ref (unat (tr_payload t)) = t"
proof -
  have "drop_bit 30 t = 3"
    using assms by (auto simp: tr_kind_def type_ref_kind_of_def split: if_splits)
  moreover have "push_bit 30 (drop_bit 30 t) OR (t AND mask 30) = t"
    by (rule bit_eqI) (auto simp: bit_simps)
  moreover have "tr_payload t = t AND mask 30"
    by (simp add: tr_payload_def maximum_payload_def mask_eq_exp_minus_1)
  ultimately show ?thesis by (simp add: derived_ref_def)
qed

lemma view_derived_kind:
  assumes "view_derived v t = Some d"
  shows "tr_kind t = type_ref_derived" "0 < unat (tr_payload t)" "unat (tr_payload t) \<le> sec_count (derived_types_section v)"
  using assms by (auto simp: view_derived_def unat_gt_0 split: if_splits)

lemma verify_derived_each:
  assumes "au_for (verify_derived v) [1..<sec_count (derived_types_section v) + 1] () = Some (Inr ())" "view_derived v t = Some d"
  shows "\<not> (tr_kind (dr_child d) = type_ref_derived \<and> unat (tr_payload (dr_child d)) \<ge> unat (tr_payload t))"
    "view_find_derived v (dr_child d) (dr_kind d) (dr_payload d) = t"
proof -
  note k = view_derived_kind [OF assms(2)]
  have "verify_derived v (unat (tr_payload t)) () = Some (Inr ())"
    by (rule au_for_each [OF assms(1)]) (use k in auto)
  then show "\<not> (tr_kind (dr_child d) = type_ref_derived \<and> unat (tr_payload (dr_child d)) \<ge> unat (tr_payload t))"
    "view_find_derived v (dr_child d) (dr_kind d) (dr_payload d) = t"
    using assms(2) derived_ref_payload [OF k(1)] by (auto simp: verify_derived_def audit_simps)
qed

section \<open>The audit returns\<close>

definition qualifier_rank :: "type_ref \<Rightarrow> nat" where
  "qualifier_rank t = (if tr_kind t = type_ref_derived then unat (tr_payload t) else 0)"

lemma derived_child_rank:
  assumes "derived_ordered v" "view_derived v t = Some d"
  shows "qualifier_rank (dr_child d) < qualifier_rank t"
  using assms view_derived_kind [OF assms(2)] by (auto simp: derived_ordered_def qualifier_rank_def)

lemma construction_loop_returns: "derived_ordered v \<Longrightarrow> \<exists>r. construction_loop v t c = Some r"
proof (induction "qualifier_rank t" arbitrary: t rule: less_induct)
  case less
  then show ?case
    using derived_child_rank [OF less.prems] by (subst construction_loop.simps) (auto split: option.split)
qed

lemma strip_qualifiers_returns: "derived_ordered v \<Longrightarrow> \<exists>t'. strip_qualifiers v t = Some t'"
proof (induction "qualifier_rank t" arbitrary: t rule: less_induct)
  case less
  then show ?case
    using derived_child_rank [OF less.prems] by (subst strip_qualifiers.simps) (auto split: option.split)
qed

definition returns :: "'s option \<Rightarrow> bool" where
  "returns m \<longleftrightarrow> m \<noteq> None"

named_theorems returns_intros \<open>steps of the audit that return\<close>

lemma returns_return [returns_intros]: "returns (au_return x)" by (simp add: returns_def au_return_def)
lemma returns_fail [returns_intros]: "returns (au_fail e)" by (simp add: returns_def au_fail_def)
lemma returns_require [returns_intros]: "returns (au_require b)" by (simp add: returns_intros au_require_def)
lemma returns_allocate [returns_intros]: "returns (au_allocate b)" by (simp add: returns_intros au_allocate_def)
lemma returns_option [returns_intros]: "returns (au_option r)" by (cases r) (simp_all add: returns_intros au_option_def)

lemma returns_bind [returns_intros]: "returns m \<Longrightarrow> (\<And>x. returns (f x)) \<Longrightarrow> returns (au_bind m f)"
  by (auto simp: returns_def au_bind_def split: option.splits sum.splits)

lemma returns_for [returns_intros]: "(\<And>i s. returns (body i s)) \<Longrightarrow> returns (au_for body xs s)"
  by (induction xs arbitrary: s) (auto intro: returns_intros)

lemma returns_if [returns_intros]: "returns m \<Longrightarrow> returns m' \<Longrightarrow> returns (if c then m else m')"
  by simp

lemma returns_test: "returns r \<Longrightarrow> returns (au_test r)"
  by (auto simp: returns_def au_test_def au_require_def au_return_def au_fail_def split: option.splits)

lemma returns_returned: "returns r \<Longrightarrow> returns (au_returned r)"
  by (auto simp: returns_def au_returned_def)

lemma returns_sources [returns_intros]: "returns (verify_sources v path_ok alloc alloc_push)"
  unfolding verify_sources_def verify_contribution_def verify_source_file_def verify_root_entry_def
    verify_file_entry_def Let_def
  by (auto intro!: returns_intros split: prod.split)

lemma returns_index [returns_intros]: "returns (verify_index index limit)"
proof -
  have "returns (count_index data limit xs n)" for data xs n
    by (induction data limit xs n rule: count_index.induct) (auto simp: Let_def intro!: returns_intros)
  then show ?thesis by (auto simp: verify_index_def intro!: returns_intros)
qed

lemma verify_contents_returns:
  assumes ordered: "derived_ordered v" and T: "type_count_value v \<le> uint32_max"
  shows "returns (verify_contents v path_ok alloc_sources alloc_push alloc_marks alloc_stack)"
proof -
  have "returns (construction_loop v t c)" for t c using construction_loop_returns [OF ordered, of t c] by (auto simp: returns_def)
  then have test: "returns (au_test (construction_compatible v t c))" for t c
    by (intro returns_test) (auto simp: construction_compatible_def returns_def)
  have strip: "returns (strip_qualifiers v t)" for t using strip_qualifiers_returns [OF ordered, of t] by (auto simp: returns_def)
  have types: "returns (verify_types v)"
    unfolding verify_types_def verify_type_def verify_base_def verify_member_def verify_binding_def Let_def
    by (auto intro!: returns_intros test split: prod.split)
  have inheritance: "returns (verify_inheritance v)" using verify_inheritance_ok [OF T] by (auto simp: returns_def)
  have paths: "returns (verify_paths v)"
    unfolding verify_paths_def verify_path_def verify_path_step_def Let_def
    by (auto intro!: returns_intros returns_returned strip)
  have "returns (endpoint_type v ep)" for ep
    using strip by (auto simp: endpoint_type_def returns_def split: option.split)
  then have links: "returns (verify_link v i u)" for i u
    unfolding verify_link_def Let_def by (auto intro!: returns_intros returns_returned)
  have objects: "returns (verify_object v i s)" for i s
    unfolding verify_object_def Let_def by (auto intro!: returns_intros test)
  have derived: "returns (verify_derived v i u)" for i u
    unfolding verify_derived_def by (auto intro!: returns_intros)
  have location: "returns (verify_graph_location v i u)" for i u
    unfolding verify_graph_location_def Let_def by (auto intro!: returns_intros split: identity_kind.split)
  have assign: "returns (verify_assign v i s)" for i s
    unfolding verify_assign_def Let_def by (auto intro!: returns_intros)
  have "returns (verify_graph v alloc_marks alloc_stack)"
    unfolding verify_graph_def
    by (auto intro!: returns_intros types inheritance paths links objects derived location assign)
  then have "returns (au_bind (verify_sources v path_ok alloc_sources alloc_push) (\<lambda>_.
         au_bind (au_require (\<forall>sec\<in>set (view_sections v). section_crc_ok sec)) (\<lambda>_.
         au_bind (au_require (verify_strings v)) (\<lambda>_.
         au_bind (au_require (verify_identities v)) (\<lambda>_.
         verify_graph v alloc_marks alloc_stack)))))"
    by (intro returns_intros)
  then show ?thesis by (simp add: verify_contents_def returns_def)
qed

section \<open>Accepted images\<close>

lemma image_result_success: "image_result r = image_success \<longleftrightarrow> (\<exists>x. r = Inr x)"
  by (auto simp: image_result_def split: sum.splits audit_failure.splits)

lemma verify_contents_parts:
  assumes "verify_contents v path_ok alloc_sources alloc_push alloc_marks alloc_stack = Some image_success"
  shows "view_valid v" "verify_strings v" "verify_identities v" "verify_graph v alloc_marks alloc_stack = Some (Inr ())"
    "\<forall>sec\<in>set (view_sections v). section_crc_ok sec" "verify_sources v path_ok alloc_sources alloc_push = Some (Inr ())"
  using assms by (auto simp: verify_contents_def image_result_success audit_simps split: if_splits)

lemma verify_graph_parts:
  assumes "verify_graph v alloc_marks alloc_stack = Some (Inr ())"
  obtains marks states where "verify_types v = Some (Inr marks)" "verify_inheritance v = Some (Inr states)"
    "\<forall>m\<in>set (om_members marks). m" "\<forall>m\<in>set (om_bases marks). m"
    "au_for (verify_derived v) [1..<sec_count (derived_types_section v) + 1] () = Some (Inr ())"
    "au_for (verify_link v) [0..<link_count_value v] () = Some (Inr ())"
  using assms unfolding verify_graph_def audit_simps by (elim exE conjE) auto

lemma verify_members_each:
  assumes run: "au_for (verify_member v h e) [0..<n] marks = Some (Inr marks')" and l: "l < n"
  shows "\<exists>member. view_member v h (of_nat l) = Some member \<and> view_find_member v h (mr_name member) = of_nat l"
proof -
  have "\<forall>l<n. \<exists>member. view_member v h (of_nat l) = Some member \<and> view_find_member v h (mr_name member) = of_nat l"
    by (rule au_for_upto [OF run, where I = "\<lambda>n _. \<forall>l<n. \<exists>member. view_member v h (of_nat l) = Some member \<and>
          view_find_member v h (mr_name member) = of_nat l"])
      (auto simp: verify_member_def Let_def audit_simps less_Suc_eq)
  then show ?thesis using l by blast
qed

lemma verify_types_members:
  assumes run: "verify_types v = Some (Inr marks)" and m: "view_member v h m = Some member"
  shows "view_find_member v h (mr_name member) = m"
proof -
  obtain e where e: "view_type v h = Some e" "te_defined e" "m < gr_count (te_members e)"
    using m by (auto simp: view_member_def not_le split: option.splits if_splits)
  note h = handle_view_type_at [OF e(1)]
  let ?P = "\<lambda>n (_ :: owner_marks). \<forall>i<n. \<forall>e. view_type v (view_type_at v i) = Some e \<longrightarrow> te_defined e \<longrightarrow>
      (\<forall>l<unat (gr_count (te_members e)). \<exists>member. view_member v (view_type_at v i) (of_nat l) = Some member \<and>
         view_find_member v (view_type_at v i) (mr_name member) = of_nat l)"
  have "?P (type_count_value v) marks"
  proof (rule au_for_upto [OF run [unfolded verify_types_def], where I = ?P])
    fix i m1 m2 assume I: "?P i m1" and step: "verify_type v i m1 = Some (Inr m2)"
    have "\<exists>member. view_member v (view_type_at v i) (of_nat l) = Some member \<and>
        view_find_member v (view_type_at v i) (mr_name member) = of_nat l"
      if "view_type v (view_type_at v i) = Some e" "te_defined e" "l < unat (gr_count (te_members e))" for e l
      using step that verify_members_each [of v "view_type_at v i" e "unat (gr_count (te_members e))" _ m2 l]
      by (auto simp: verify_type_def Let_def audit_simps split: prod.splits)
    then show "?P (Suc i) m2" using I by (auto simp: less_Suc_eq)
  qed simp
  then have "\<exists>member. view_member v h (of_nat (unat m)) = Some member \<and>
      view_find_member v h (mr_name member) = of_nat (unat m)"
    using h e by (metis word_less_nat_alt)
  then show ?thesis using m by auto
qed

lemma verify_links_each:
  assumes "au_for (verify_link v) [0..<link_count_value v] () = Some (Inr ())" "view_link v h = Some l"
  shows "view_find_link_target v (lr_target l) = h"
proof -
  have h: "h \<noteq> 0" "unat h \<le> link_count_value v" using assms(2) by (auto simp: view_link_def split: if_splits)
  then have "0 < unat h" by (simp add: unat_gt_0)
  then have i: "unat h - 1 < link_count_value v" "(of_nat (unat h - 1 + 1) :: u32) = h" using h by auto
  have "verify_link v (unat h - 1) () = Some (Inr ())" by (rule au_for_each [OF assms(1)]) (use i(1) in simp)
  then show ?thesis using assms(2) unfolding verify_link_def Let_def i(2) by (auto simp: audit_simps)
qed

end
