(* ===== verification/Audit_Results.thy ===== *)
theory Audit_Results
  imports Audit_Graph
begin

text \<open>
  The properties of \<^verbatim>\<open>verify_contents\<close>, and images for them: a complete small image that the audit accepts,
  and one on which it does not return.
\<close>

section \<open>An accepted image\<close>

text \<open>
  The string \<^verbatim>\<open>a\<close>, the root, a type and an object of that name, and one member of type \<^verbatim>\<open>int\<close>.
\<close>

definition audited_graph :: compiled_project_view where
  "audited_graph = sample_view
     \<lparr>string_core := \<lparr>sec_data = [0, 0, 0, 0, 1, 0, 0, 0], sec_count = 1, sec_record_size = 8, sec_crc64 = 0xe59c4cf90ce5976b\<rparr>,
      string_bytes := \<lparr>sec_data = [97], sec_count = 1, sec_record_size = 1, sec_crc64 = 0x548f120162451c62\<rparr>,
      string_index := \<lparr>sec_data = [44, 41, 12, 228, 1, 0, 0, 0], sec_count = 1, sec_record_size = 8, sec_crc64 = 0x9ce75fabee1ddc07\<rparr>,
      identity_core := \<lparr>sec_data = [1, 0, 0, 0, 0, 0, 0, 0, 0, 0, 0, 0, 2, 0, 0, 128, 1, 0, 0, 0, 1, 0, 0, 0, 3, 0, 0, 192, 1, 0, 0, 0, 1, 0, 0, 0], sec_count = 3, sec_record_size = 12, sec_crc64 = 0x3c570fb5c4cd8c4e\<rparr>,
      identity_index := \<lparr>sec_data = [140, 151, 109, 169, 3, 0, 0, 192, 185, 243, 22, 216, 2, 0, 0, 128], sec_count = 2, sec_record_size = 8, sec_crc64 = 0xa06b4a1d2ddea692\<rparr>,
      types_section := \<lparr>sec_data = [0, 0, 0, 0, 1, 0, 0, 0, 0, 0, 0, 0, 0, 0, 0, 0, 1, 1, 1, 0], sec_count = 1, sec_record_size = 20, sec_crc64 = 0xd4fc301226193a28\<rparr>,
      type_identities_section := \<lparr>sec_data = [2, 0, 0, 128], sec_count = 1, sec_record_size = 4, sec_crc64 = 0x7f329dd9cd136c88\<rparr>,
      members_section := \<lparr>sec_data = [1, 0, 0, 0, 12, 0, 0, 64, 1, 0, 0, 0], sec_count = 1, sec_record_size = 12, sec_crc64 = 0x2c4fef03a3bf383\<rparr>,
      member_construction_section := \<lparr>sec_data = [0, 0, 0, 0, 0, 0, 0, 0, 0, 0, 0, 0, 0, 0, 0, 0], sec_count = 1, sec_record_size = 16, sec_crc64 = 0x0\<rparr>,
      member_name_index_section := \<lparr>sec_data = [211, 120, 81, 50, 1, 0, 0, 0], sec_count = 1, sec_record_size = 8, sec_crc64 = 0xa89732e99fcaf690\<rparr>,
      objects_section := \<lparr>sec_data = [1, 0, 0, 128, 0, 0, 0, 0], sec_count = 1, sec_record_size = 8, sec_crc64 = 0x14491d95338f5ab2\<rparr>,
      object_identities_section := \<lparr>sec_data = [3, 0, 0, 192], sec_count = 1, sec_record_size = 4, sec_crc64 = 0x40abd3352b9adacc\<rparr>,
      graph_identity_index_section := \<lparr>sec_data = [0, 0, 0, 0, 0, 0, 0, 0, 1, 0, 0, 64, 1, 0, 0, 128], sec_count = 4, sec_record_size = 4, sec_crc64 = 0x4029868647c15733\<rparr>,
      identity_count_value := 3, type_count_value := 1, object_count_value := 1\<rparr>"

lemma audited_counts:
  "view_valid audited_graph" "string_count_value audited_graph = 1" "identity_count_value audited_graph = 3"
  "type_count_value audited_graph = 1" "object_count_value audited_graph = 1" "link_count_value audited_graph = 0"
  "assign_count_value audited_graph = 0" "sec_count (members_section audited_graph) = 1"
  "sec_count (member_construction_section audited_graph) = 1" "sec_count (bases_section audited_graph) = 0"
  "sec_count (derived_types_section audited_graph) = 0" "sec_count (identity_index audited_graph) = 2"
  "sec_count (member_name_index_section audited_graph) = 1" "sec_count (object_construction_section audited_graph) = 0"
  "sec_count (endpoint_paths_section audited_graph) = 0" "sec_count (endpoint_path_steps_section audited_graph) = 0"
  "sec_count (endpoint_path_index_section audited_graph) = 0" "sec_count (assign_bytes_section audited_graph) = 0"
  by (simp_all add: audited_graph_def sample_view_def empty_section_def)

lemma audited_string_reads:
  "read_u32 (sec_data (string_core audited_graph)) 0 = 0" "read_u32 (sec_data (string_core audited_graph)) 4 = 1"
  "index_raw audited_graph 0 = 1" "index_fingerprint audited_graph 0 = 0xe40c292c"
  "sec_count (string_bytes audited_graph) = 1" "sec_count (string_index audited_graph) = 1"
  "string_from_raw audited_graph 1 = 1"
  by (simp_all add: audited_graph_def index_raw_def index_fingerprint_def read_u32_def index_record_size_def
      string_from_raw_def sample_view_fields)

lemma audited_view_string: "view_string audited_graph 1 = ''a''"
  by (simp add: view_string_def audited_graph_def read_u32_def string_core_size_def byte_char_def text_slice_def
      sample_view_fields char_of_def bit_0 bit_Suc)

lemma audited_find_string: "find_string audited_graph ''a'' = 1"
  by (simp add: find_string_def audited_string_reads audited_view_string sample_string_hash)

lemma audited_verify_strings: "verify_strings audited_graph"
  by (simp add: verify_strings_def audited_counts audited_string_reads audited_view_string audited_find_string
      sample_string_hash)

lemma audited_sources: "verify_sources audited_graph (\<lambda>_. True) True (\<lambda>_ _. True) = Some (Inr ())"
  by (simp add: verify_sources_def audited_graph_def sample_view_def empty_section_def audit_simps
      au_allocate_def au_bind_def au_return_def au_require_def)

lemma audited_checksums: "\<forall>sec\<in>set (view_sections audited_graph). section_crc_ok sec"
  by (simp add: view_sections_def audited_graph_def sample_view_def empty_section_def section_crc_ok_def
      Image_Audit.multiply_u64_def persistence_crc64_reference crc64_reference_def crc64_byte_def funpow_eight
      crc64_shift_def persistence_crc64_polynomial_def uint64_max_def)

lemma audited_identity_reads:
  "read_u32 (sec_data (identity_core audited_graph)) 0 = 1"
  "read_u32 (sec_data (identity_core audited_graph)) 12 = 0x80000002"
  "read_u32 (sec_data (identity_core audited_graph)) 16 = 1" "read_u32 (sec_data (identity_core audited_graph)) 20 = 1"
  "read_u32 (sec_data (identity_core audited_graph)) 24 = 0xC0000003"
  "read_u32 (sec_data (identity_core audited_graph)) 28 = 1" "read_u32 (sec_data (identity_core audited_graph)) 32 = 1"
  "identity_slot_raw audited_graph 0 = 0xC0000003" "identity_slot_fingerprint audited_graph 0 = 2842531724"
  "identity_slot_raw audited_graph (Suc 0) = 0x80000002" "identity_slot_fingerprint audited_graph (Suc 0) = 3625382841"
  by (simp_all add: audited_graph_def sample_view_def read_u32_def identity_slot_raw_def
      identity_slot_fingerprint_def index_record_size_def)

lemma audited_refs:
  "identity_from_raw audited_graph 1 = 1" "identity_from_raw audited_graph 0x80000002 = 0x80000002"
  "identity_from_raw audited_graph 0xC0000003 = 0xC0000003"
  "ref_slot 1 = 1" "ref_slot 0x80000002 = 2" "ref_slot 0xC0000003 = 3"
  "ref_kind 1 = kind_root" "ref_kind 0x80000002 = kind_type" "ref_kind 0xC0000003 = kind_object"
  "string_from_raw audited_graph 1 = 1"
  by (simp_all add: identity_from_raw_def audited_counts slot_mask_def identity_core_size_def
      audited_identity_reads ref_slot_def ref_kind_def kind_shift_def kind_of_value_def string_from_raw_def)

lemma audited_keys:
  "identity_parent audited_graph 0x80000002 = 1" "identity_name audited_graph 0x80000002 = 1"
  "identity_parent audited_graph 0xC0000003 = 1" "identity_name audited_graph 0xC0000003 = 1"
  "identity_parent audited_graph 1 = 0" "identity_name audited_graph 1 = 0"
  by (simp_all add: identity_parent_def identity_name_def audited_refs ref_valid_def
      identity_core_size_def audited_identity_reads)

lemma audited_hashes:
  "identity_hash 1 1 2 = 3596911178749327377" "identity_hash 1 1 3 = 17170758627551043187"
  by (simp_all add: identity_hash_def mix64_def)

lemma audited_fingerprints:
  "identity_fingerprint 3596911178749327377 = 3625382841" "identity_fingerprint 17170758627551043187 = 2842531724"
  by (simp_all add: identity_fingerprint_def)

lemma probe_find_two:
  "probe_find occupied hit m p 2 =
     (if \<not> occupied p then None else if hit p then Some p
      else if \<not> occupied ((p + 1) AND m) then None else if hit ((p + 1) AND m) then Some ((p + 1) AND m) else None)"
  by (simp add: numeral_2_eq_2)

lemma audited_find:
  "find_identity audited_graph 1 1 kind_type = 0x80000002" "find_identity audited_graph 1 1 kind_object = 0xC0000003"
  by (simp_all add: find_identity_def identity_valid_def audited_counts audited_refs ref_valid_def
      audited_identity_reads audited_hashes audited_fingerprints audited_keys probe_find_two)

lemma audited_verify_identities: "verify_identities audited_graph"
proof -
  have "[2..<identity_count_value audited_graph + 1] = [2, 3]" "[0..<sec_count (identity_index audited_graph)] = [0, 1]"
    by (simp_all add: audited_counts upt_rec)
  then show ?thesis
    by (simp add: verify_identities_def identity_root_def audited_refs audited_keys ref_valid_def
        identity_core_size_def audited_identity_reads audited_find audited_hashes audited_fingerprints audited_counts)
qed

lemma audited_type_reads:
  "read_u32 (sec_data (types_section audited_graph)) 0 = 0" "read_u32 (sec_data (types_section audited_graph)) 4 = 1"
  "read_u32 (sec_data (types_section audited_graph)) 8 = 0" "read_u32 (sec_data (types_section audited_graph)) 12 = 0"
  "sec_data (types_section audited_graph) ! 16 = 1" "sec_data (types_section audited_graph) ! 17 = 1"
  "read_u16 (sec_data (types_section audited_graph)) 18 = 1"
  "read_u32 (sec_data (type_identities_section audited_graph)) 0 = 0x80000002"
  "read_u32 (sec_data (object_identities_section audited_graph)) 0 = 0xC0000003"
  "read_u32 (sec_data (objects_section audited_graph)) 0 = 0x80000001"
  "read_u32 (sec_data (objects_section audited_graph)) 4 = 0"
  "read_u32 (sec_data (graph_identity_index_section audited_graph)) 0 = 0"
  "read_u32 (sec_data (graph_identity_index_section audited_graph)) 4 = 0"
  "read_u32 (sec_data (graph_identity_index_section audited_graph)) 8 = 0x40000001"
  "read_u32 (sec_data (graph_identity_index_section audited_graph)) 12 = 0x80000001"
  "read_u32 (sec_data (member_name_index_section audited_graph)) 0 = 844200147"
  "read_u32 (sec_data (member_name_index_section audited_graph)) 4 = 1"
  by (simp_all add: audited_graph_def read_u32_def read_u16_def)

lemma audited_types:
  "view_type audited_graph 1 = Some \<lparr>te_members = \<lparr>gr_begin = 0, gr_count = 1\<rparr>, te_bases = \<lparr>gr_begin = 0, gr_count = 0\<rparr>,
     te_kind = 1, te_record_kind = 1, te_flags = 1\<rparr>"
  "view_type_at audited_graph 0 = 1" "view_type_identity audited_graph 1 = 0x80000002"
  "view_find_type audited_graph 0x80000002 = 1"
  by (simp_all add: view_type_def view_type_at_def view_type_identity_def view_find_type_def identity_valid_def
      audited_counts audited_refs ref_valid_def view_graph_location_def graph_location_kind_def
      graph_location_slot_def type_from_raw_def maximum_payload_def record_sizes audited_type_reads)

lemma audited_members:
  "view_member audited_graph 1 0 = Some \<lparr>mr_name = 1, mr_type = 0x4000000C, mr_access = 1\<rparr>"
  "view_member_at audited_graph 0 = Some \<lparr>mr_name = 1, mr_type = 0x4000000C, mr_access = 1\<rparr>"
  "view_member_construction audited_graph 1 0 = Some empty_construction"
proof -
  have rec: "view_member_record audited_graph 0 = \<lparr>mr_name = 1, mr_type = 0x4000000C, mr_access = 1\<rparr>"
    "zero_bytes (sec_data (members_section audited_graph)) 9 3"
    by (simp_all add: view_member_record_def audited_graph_def read_u32_def type_ref_from_raw_def string_from_raw_def
        sample_view_fields maximum_payload_def type_ref_kind_of_def zero_bytes_def record_sizes upt_rec)
  have c: "read_construction (sec_data (member_construction_section audited_graph)) 0 = empty_construction"
    by (simp add: audited_graph_def read_construction_def read_u32_def empty_construction_def)
  have valid: "tr_valid 0x4000000C" "valid_construction empty_construction" "valid_member_access 1"
    by (simp_all add: tr_valid_def tr_kind_def tr_payload_def maximum_payload_def type_ref_kind_of_def
        valid_construction_def empty_construction_def cv_bits_def valid_member_access_def)
  show "view_member audited_graph 1 0 = Some \<lparr>mr_name = 1, mr_type = 0x4000000C, mr_access = 1\<rparr>"
    "view_member_at audited_graph 0 = Some \<lparr>mr_name = 1, mr_type = 0x4000000C, mr_access = 1\<rparr>"
    "view_member_construction audited_graph 1 0 = Some empty_construction"
    by (simp_all add: view_member_def view_member_at_def view_member_construction_def view_construction_at_def
        audited_types audited_counts te_defined_def rec c valid)
qed

lemma audited_find_member: "view_find_member audited_graph 1 1 = 0"
proof -
  have "identity_fingerprint (member_hash 1 1) = 844200147"
    by (simp add: member_hash_def mix64_def identity_fingerprint_def)
  then show ?thesis
    by (simp add: view_find_member_def audited_refs audited_types audited_members audited_counts
        te_defined_def audited_type_reads)
qed

lemma audited_construction: "construction_compatible audited_graph 0x4000000C empty_construction = Some True"
  by (simp add: construction_compatible_def construction_loop.simps direct_construction_def tr_valid_def tr_kind_def
      tr_payload_def maximum_payload_def type_ref_kind_of_def valid_construction_def empty_construction_def cv_bits_def
      intrinsic_of_def intrinsic_types_def floating_intrinsic_def integral_intrinsic_def)

lemma audited_objects:
  "view_object_at audited_graph 0 = 1" "view_object audited_graph 1 = Some \<lparr>oe_type = 0x80000001, oe_state = 0\<rparr>"
  "view_object_identity audited_graph 1 = 0xC0000003" "view_find_object audited_graph 0xC0000003 = 1"
  "view_object_construction audited_graph 1 = Some empty_construction"
proof -
  have valid: "type_ref_from_raw audited_graph 0x80000001 = 0x80000001" "tr_valid 0x80000001"
    by (simp_all add: type_ref_from_raw_def audited_counts tr_valid_def tr_kind_def tr_payload_def
        maximum_payload_def type_ref_kind_of_def)
  show object: "view_object audited_graph 1 = Some \<lparr>oe_type = 0x80000001, oe_state = 0\<rparr>"
    by (simp add: view_object_def audited_counts record_sizes audited_type_reads valid)
  show "view_object_at audited_graph 0 = 1" "view_object_identity audited_graph 1 = 0xC0000003"
    "view_find_object audited_graph 0xC0000003 = 1" "view_object_construction audited_graph 1 = Some empty_construction"
    by (simp_all add: view_object_at_def view_object_identity_def view_find_object_def view_object_construction_def
        audited_counts record_sizes audited_type_reads audited_refs identity_valid_def ref_valid_def
        view_graph_location_def graph_location_kind_def graph_location_slot_def object_from_raw_def
        maximum_payload_def object oe_non_default_initializer_def oe_construction_slot_def)
qed

lemma audited_verify_types:
  "verify_types audited_graph = Some (Inr \<lparr>om_members = [True], om_bases = [], om_seen = [0]\<rparr>)"
proof -
  have access: "valid_member_access 1" "tr_valid 0x4000000C" "te_defined e = (te_flags e AND 1 \<noteq> 0)" for e
    by (simp_all add: valid_member_access_def tr_valid_def tr_kind_def tr_payload_def maximum_payload_def
        type_ref_kind_of_def te_defined_def)
  have "verify_member audited_graph 1 \<lparr>te_members = \<lparr>gr_begin = 0, gr_count = 1\<rparr>, te_bases = \<lparr>gr_begin = 0, gr_count = 0\<rparr>,
      te_kind = 1, te_record_kind = 1, te_flags = 1\<rparr> 0 (fresh_marks audited_graph) =
      Some (Inr \<lparr>om_members = [True], om_bases = [], om_seen = [0]\<rparr>)"
    by (simp add: verify_member_def verify_binding_def fresh_marks_def audited_counts audited_members audited_find_member
        audited_construction [unfolded empty_construction_def] access audit_simps empty_construction_def)
  then show ?thesis
    by (simp add: verify_types_def audited_counts verify_type_def audited_types audited_refs ref_valid_def
        valid_record_kind_def struct_type_def union_type_def graph_type_kind_record_def access te_polymorphic_def
        audit_simps fresh_marks_def)
qed

lemma audited_verify_inheritance: "verify_inheritance audited_graph = Some (Inr [2])"
proof -
  have "inheritance_walk audited_graph [1] [(1, 0)] = inheritance_walk audited_graph [2] []"
    by (subst inheritance_walk.simps) (simp add: audited_types te_defined_def)
  also have "\<dots> = Some (Inr [2])" by (subst inheritance_walk.simps) simp
  finally show ?thesis
    by (simp add: verify_inheritance_def audited_counts verify_inheritance_root_def audited_types te_defined_def audit_simps)
qed

lemma audited_verify_graph: "verify_graph audited_graph True True = Some (Inr ())"
proof -
  have upt: "[0..<4] = [0, 1, 2, 3 :: nat]" by (simp add: upt_rec)
  have object: "verify_object audited_graph 0 0 = Some (Inr 0)"
    by (simp add: verify_object_def audited_objects audited_refs ref_valid_def oe_non_default_initializer_def
        oe_construction_slot_def audit_simps tr_valid_def tr_kind_def tr_payload_def maximum_payload_def type_ref_kind_of_def)
  have locations: "au_for (verify_graph_location audited_graph) [0, 1, 2, 3] () = Some (Inr ())"
    by (simp add: verify_graph_location_def Let_def record_sizes audited_type_reads identity_core_size_def
        audited_identity_reads audited_refs ref_valid_def graph_location_kind_def graph_location_slot_def
        maximum_payload_def type_from_raw_def object_from_raw_def audited_counts audited_types audited_objects audit_simps)
  have index: "verify_index (member_name_index_section audited_graph) 1 = Some (Inr ())"
    by (simp add: verify_index_def audited_counts index_record_size_def audited_type_reads audit_simps)
  have paths: "verify_paths audited_graph = Some (Inr ())"
    by (simp add: verify_paths_def verify_index_def audited_counts audit_simps)
  show ?thesis
    using index locations
    by (simp add: verify_graph_def audit_simps audited_verify_types audited_verify_inheritance audited_counts object
        upt paths)
qed

lemma audited_verify_contents:
  "verify_contents audited_graph (\<lambda>_. True) True (\<lambda>_ _. True) True True = Some image_success"
  using audited_checksums
  by (simp add: verify_contents_def audited_counts audited_sources audited_verify_strings audited_verify_identities
      audited_verify_graph au_bind_def au_require_def au_return_def image_result_def)

section \<open>Properties\<close>

lemma all_marked: "\<forall>m\<in>set ms. m \<Longrightarrow> marked ms = {..<length ms}"
  by (auto simp: marked_def)

text \<open>\<^bold>\<open>C6.\<close> In an image that the audit accepts every member slot and every base slot belongs to exactly one
  type, and no type is its own direct or indirect base.\<close>

theorem audited_records_partition:
  assumes "verify_contents v path_ok alloc_sources alloc_push alloc_marks alloc_stack = Some image_success"
    "type_count_value v \<le> uint32_max"
  shows "(\<forall>g < sec_count (members_section v). \<exists>!h. g \<in> type_members v h) \<and>
    (\<forall>g < sec_count (bases_section v). \<exists>!h. g \<in> type_bases v h) \<and> acyclic (inheritance v)"
proof -
  obtain marks states where run: "verify_types v = Some (Inr marks)" "verify_inheritance v = Some (Inr states)"
    and all: "\<forall>m\<in>set (om_members marks). m" "\<forall>m\<in>set (om_bases marks). m"
    by (rule verify_graph_parts [OF verify_contents_parts(4) [OF assms(1)]])
  have parts: "(\<Union>i<type_count_value v. type_parts v (view_type_at v i)) =
      Inl ` {..<sec_count (bases_section v)} \<union> Inr ` {..<sec_count (members_section v)}"
  proof -
    have "marked_parts marks = (\<Union>i<type_count_value v. type_parts v (view_type_at v i))" "marks_fit v marks"
      using verify_types_marks [OF run(1)] by simp_all
    then show ?thesis
      using all_marked [OF all(1)] all_marked [OF all(2)] by (simp only: marked_parts_def marks_fit_def)
  qed
  have ex: "\<exists>h. p \<in> type_parts v h" if "p \<in> Inl ` {..<sec_count (bases_section v)} \<union> Inr ` {..<sec_count (members_section v)}" for p
    using that unfolding parts [symmetric] by blast
  have uniq: "h = h'" if "p \<in> type_parts v h" "p \<in> type_parts v h'" for p h h'
    using verify_types_exclusive [OF run(1), of h] that by (auto simp: exclusive_parts_def)
  have mem: "Inr g \<in> type_parts v h \<longleftrightarrow> g \<in> type_members v h" "Inl g \<in> type_parts v h \<longleftrightarrow> g \<in> type_bases v h" for g h
    by (auto simp: type_parts_def)
  have "\<exists>!h. g \<in> type_members v h" if g: "g < sec_count (members_section v)" for g
  proof -
    obtain h where "Inr g \<in> type_parts v h" using ex [of "Inr g"] g by blast
    then show ?thesis using uniq [of "Inr g" h] unfolding mem by blast
  qed
  moreover have "\<exists>!h. g \<in> type_bases v h" if g: "g < sec_count (bases_section v)" for g
  proof -
    obtain h where "Inl g \<in> type_parts v h" using ex [of "Inl g"] g by blast
    then show ?thesis using uniq [of "Inl g" h] unfolding mem by blast
  qed
  moreover have "acyclic (inheritance v)" using verify_inheritance_ok [OF assms(2)] run(2) by auto
  ultimately show ?thesis by blast
qed

theorem audited_records_partition_witness:
  "(\<exists>!h. 0 \<in> type_members audited_graph h) \<and> acyclic (inheritance audited_graph)"
  using audited_records_partition [OF audited_verify_contents] by (simp add: audited_counts)

text \<open>\<^bold>\<open>C7.\<close> In an accepted image the hashed look-ups invert the queries: a member is found under its name in its
  type, a derived type under its child, kind and payload, and a link under its target. So names of members
  are unique, no derived type is stored twice and no target is linked twice. Every derived type comes after
  the derived type it is built from.\<close>

theorem audited_lookups_invert:
  assumes "verify_contents v path_ok alloc_sources alloc_push alloc_marks alloc_stack = Some image_success"
  shows "(\<forall>h m member. view_member v h m = Some member \<longrightarrow> view_find_member v h (mr_name member) = m) \<and>
    (\<forall>t d. view_derived v t = Some d \<longrightarrow> view_find_derived v (dr_child d) (dr_kind d) (dr_payload d) = t) \<and>
    (\<forall>h l. view_link v h = Some l \<longrightarrow> view_find_link_target v (lr_target l) = h) \<and> derived_ordered v"
proof -
  obtain marks states where run: "verify_types v = Some (Inr marks)"
    "au_for (verify_derived v) [1..<sec_count (derived_types_section v) + 1] () = Some (Inr ())"
    "au_for (verify_link v) [0..<link_count_value v] () = Some (Inr ())"
    by (rule verify_graph_parts [OF verify_contents_parts(4) [OF assms]])
  show ?thesis
    using verify_types_members [OF run(1)] verify_derived_each [OF run(2)] verify_links_each [OF run(3)]
    by (auto simp: derived_ordered_def not_le)
qed

theorem audited_lookups_invert_witness:
  "view_member audited_graph 1 0 = Some \<lparr>mr_name = 1, mr_type = 0x4000000C, mr_access = 1\<rparr> \<and>
   view_find_member audited_graph 1 1 = 0"
  using audited_lookups_invert [OF audited_verify_contents, THEN conjunct1, rule_format, OF audited_members(1)]
    audited_members(1) by simp

text \<open>\<^bold>\<open>C8.\<close> The audit returns on every image whose derived types come after the derived types they are built
  from, with any allocation outcomes: the walk over the bases and the removal of qualifiers both end.\<close>

theorem audit_returns:
  assumes "derived_ordered v" "type_count_value v \<le> uint32_max"
  shows "\<exists>r. verify_contents v path_ok alloc_sources alloc_push alloc_marks alloc_stack = Some r"
  using verify_contents_returns [OF assms] by (auto simp: returns_def)

theorem audit_returns_witness:
  "\<exists>r. verify_contents sample_view (\<lambda>_. False) True (\<lambda>_ _. True) True True = Some r"
proof (rule audit_returns)
  have "sec_count (derived_types_section sample_view) = 0" by (simp add: sample_view_def empty_section_def)
  then show "derived_ordered sample_view" using view_derived_kind(2,3) by (fastforce simp: derived_ordered_def)
qed (simp add: sample_view_def)

section \<open>An image on which the audit does not return\<close>

text \<open>
  The image from above with one derived type, \<^verbatim>\<open>const\<close> of itself, as the type of the member. The member is
  checked before the derived types are, and following the qualifiers never ends.
\<close>

definition cyclic_graph :: compiled_project_view where
  "cyclic_graph = audited_graph
     \<lparr>members_section := (members_section audited_graph)\<lparr>sec_data := [1, 0, 0, 0, 1, 0, 0, 192, 1, 0, 0, 0],
        sec_crc64 := 0x58312b1f24e80a77\<rparr>,
      derived_types_section := \<lparr>sec_data = [0, 0, 0, 0, 0, 0, 0, 0, 1, 0, 0, 192, 0, 0, 0, 0], sec_count = 1,
        sec_record_size = 16, sec_crc64 = 0x294b0c7330f800af\<rparr>\<rparr>"

lemma construction_loop_diverges:
  assumes "view_derived v t = Some d" "dr_child d = t" "dr_kind d = 0"
  shows "construction_loop v t c = None"
proof (rule ccontr)
  assume "construction_loop v t c \<noteq> None"
  then obtain r where "construction_loop v t c = Some r" by blast
  then have "v = v \<longrightarrow> t \<noteq> t"
  proof (rule construction_loop.raw_induct [where P = "\<lambda>v' t' c' r. v' = v \<longrightarrow> t' \<noteq> t", rotated])
    fix f v' t' c' r
    assume ih: "\<And>v' t' c' r. f v' t' c' = Some r \<Longrightarrow> v' = v \<longrightarrow> t' \<noteq> t"
      and step: "(if tr_kind t' \<noteq> type_ref_derived then Some (direct_construction t' c')
        else case view_derived v' t' of None \<Rightarrow> Some False
          | Some d \<Rightarrow> if dr_kind d = 0 \<or> dr_kind d = 1 then f v' (dr_child d) c' else Some (derived_construction d c')) = Some r"
    show "v' = v \<longrightarrow> t' \<noteq> t"
    proof (intro impI notI)
      assume "v' = v" "t' = t"
      then have "f v t c' = Some r" using step assms view_derived_kind(1) [OF assms(1)] by simp
      then show False using ih by blast
    qed
  qed
  then show False by simp
qed

lemma cyclic_same:
  "view_type cyclic_graph h = view_type audited_graph h" "view_type_at cyclic_graph i = view_type_at audited_graph i"
  "identity_from_raw cyclic_graph raw = identity_from_raw audited_graph raw"
  "string_from_raw cyclic_graph raw = string_from_raw audited_graph raw"
  "view_construction_at cyclic_graph i = view_construction_at audited_graph i"
  "view_graph_location cyclic_graph r = view_graph_location audited_graph r"
  "type_from_raw cyclic_graph raw = type_from_raw audited_graph raw"
  "identity_count_value cyclic_graph = 3" "type_count_value cyclic_graph = 1"
  "sec_count (members_section cyclic_graph) = 1" "sec_count (bases_section cyclic_graph) = 0"
  "sec_count (derived_types_section cyclic_graph) = 1" "member_name_index_section cyclic_graph = member_name_index_section audited_graph"
  by (simp_all add: view_type_def view_type_at_def identity_from_raw_def string_from_raw_def view_construction_at_def
      view_graph_location_def type_from_raw_def cyclic_graph_def audited_counts Let_def)

lemma cyclic_identity:
  "view_type_identity cyclic_graph h = view_type_identity audited_graph h"
  "view_find_type cyclic_graph r = view_find_type audited_graph r"
  "view_member_construction cyclic_graph h m = view_member_construction audited_graph h m"
  unfolding view_type_identity_def view_find_type_def view_member_construction_def identity_valid_def cyclic_same
  by (simp_all add: cyclic_graph_def audited_counts)

lemma cyclic_member:
  "view_member cyclic_graph 1 0 = Some \<lparr>mr_name = 1, mr_type = 0xC0000001, mr_access = 1\<rparr>"
  "view_member_at cyclic_graph 0 = Some \<lparr>mr_name = 1, mr_type = 0xC0000001, mr_access = 1\<rparr>"
  "view_find_member cyclic_graph 1 1 = 0"
proof -
  have raw: "type_ref_from_raw cyclic_graph 0xC0000001 = 0xC0000001"
    by (simp add: type_ref_from_raw_def cyclic_same maximum_payload_def type_ref_kind_of_def)
  have rec: "view_member_record cyclic_graph 0 = \<lparr>mr_name = 1, mr_type = 0xC0000001, mr_access = 1\<rparr>"
  proof -
    have "read_u32 (sec_data (members_section cyclic_graph)) 0 = 1"
      "read_u32 (sec_data (members_section cyclic_graph)) 4 = 0xC0000001" "sec_data (members_section cyclic_graph) ! 8 = 1"
      by (simp_all add: cyclic_graph_def read_u32_def)
    then show ?thesis using raw by (simp add: view_member_record_def cyclic_same audited_refs)
  qed
  have zero: "zero_bytes (sec_data (members_section cyclic_graph)) 9 3"
    by (simp add: cyclic_graph_def zero_bytes_def upt_rec)
  have valid: "tr_valid 0xC0000001" "valid_member_access 1"
    by (simp_all add: tr_valid_def tr_kind_def tr_payload_def maximum_payload_def type_ref_kind_of_def valid_member_access_def)
  show "view_member cyclic_graph 1 0 = Some \<lparr>mr_name = 1, mr_type = 0xC0000001, mr_access = 1\<rparr>"
    by (simp add: view_member_def cyclic_same audited_types te_defined_def rec zero valid)
  show at: "view_member_at cyclic_graph 0 = Some \<lparr>mr_name = 1, mr_type = 0xC0000001, mr_access = 1\<rparr>"
    by (simp add: view_member_at_def cyclic_same rec zero valid)
  have "identity_fingerprint (member_hash 1 1) = 844200147"
    by (simp add: member_hash_def mix64_def identity_fingerprint_def)
  then show "view_find_member cyclic_graph 1 1 = 0"
    by (simp add: view_find_member_def cyclic_same audited_refs audited_types at audited_counts
        te_defined_def audited_type_reads)
qed

lemma cyclic_derived: "view_derived cyclic_graph 0xC0000001 = Some \<lparr>dr_payload = 0, dr_child = 0xC0000001, dr_kind = 0\<rparr>"
proof -
  have raw: "type_ref_from_raw cyclic_graph 0xC0000001 = 0xC0000001"
    by (simp add: type_ref_from_raw_def cyclic_same maximum_payload_def type_ref_kind_of_def)
  have "read_u64 (sec_data (derived_types_section cyclic_graph)) 0 = 0" "read_u32 (sec_data (derived_types_section cyclic_graph)) 8 = 0xC0000001"
    "sec_data (derived_types_section cyclic_graph) ! 12 = 0" "zero_bytes (sec_data (derived_types_section cyclic_graph)) 13 3"
    by (simp_all add: cyclic_graph_def read_u64_def read_u32_def zero_bytes_def upt_rec)
  then show ?thesis
    by (simp add: view_derived_def cyclic_same record_sizes raw tr_valid_def tr_kind_def tr_payload_def
        maximum_payload_def type_ref_kind_of_def valid_derived_kind_def)
qed

lemma cyclic_types_diverge: "verify_types cyclic_graph = None"
proof -
  have loop: "construction_compatible cyclic_graph 0xC0000001 empty_construction = None"
    using construction_loop_diverges [OF cyclic_derived]
    by (simp add: construction_compatible_def tr_valid_def tr_kind_def tr_payload_def maximum_payload_def
        type_ref_kind_of_def valid_construction_def empty_construction_def cv_bits_def)
  have "verify_member cyclic_graph 1 e 0 marks = None" if "\<not> om_members marks ! unat (gr_begin (te_members e))" for e marks
    using that
    by (simp add: verify_member_def cyclic_member cyclic_identity audited_members loop au_bind_def au_require_def
        au_return_def au_option_def au_test_def valid_member_access_def tr_valid_def tr_kind_def tr_payload_def
        maximum_payload_def type_ref_kind_of_def)
  then show ?thesis
    by (simp add: verify_types_def cyclic_same verify_type_def audited_types cyclic_identity audited_refs ref_valid_def
        valid_record_kind_def struct_type_def union_type_def graph_type_kind_record_def te_defined_def te_polymorphic_def
        au_bind_def au_require_def au_return_def au_option_def fresh_marks_def)
qed

text \<open>The passes before the types accept the image: they do not read the members and derived types.\<close>

lemma graph_update_queries:
  fixes v m d
  defines "v' \<equiv> v\<lparr>members_section := m, derived_types_section := d\<rparr>"
  shows "view_string v' sid = view_string v sid" "find_string v' txt = find_string v txt"
    "string_from_raw v' raw = string_from_raw v raw" "index_raw v' p = index_raw v p"
    "index_fingerprint v' p = index_fingerprint v p" "identity_from_raw v' raw = identity_from_raw v raw"
    "identity_root v' = identity_root v" "identity_parent v' r = identity_parent v r"
    "identity_name v' r = identity_name v r" "identity_slot_raw v' p = identity_slot_raw v p"
    "identity_slot_fingerprint v' p = identity_slot_fingerprint v p"
    "find_identity v' r sid kind = find_identity v r sid kind"
proof -
  show base: "view_string v' sid = view_string v sid"
    "string_from_raw v' raw = string_from_raw v raw" "index_raw v' p = index_raw v p"
    "index_fingerprint v' p = index_fingerprint v p" "identity_from_raw v' raw = identity_from_raw v raw"
    "identity_slot_raw v' p = identity_slot_raw v p" "identity_slot_fingerprint v' p = identity_slot_fingerprint v p"
    for sid raw p
    by (simp_all add: v'_def view_string_def string_from_raw_def index_raw_def index_fingerprint_def
        identity_from_raw_def identity_slot_raw_def identity_slot_fingerprint_def Let_def)
  have same: "identity_core v' = identity_core v" "identity_index v' = identity_index v" "string_index v' = string_index v"
    "identity_count_value v' = identity_count_value v" "view_valid v' = view_valid v" by (simp_all add: v'_def)
  show parents: "identity_root v' = identity_root v" "identity_parent v' r = identity_parent v r"
    "identity_name v' r = identity_name v r" for r
    by (simp_all add: identity_root_def identity_parent_def identity_name_def base same Let_def)
  show "find_string v' txt = find_string v txt"
    by (simp add: find_string_def base same Let_def cong: if_cong option.case_cong)
  show "find_identity v' r sid kind = find_identity v r sid kind"
    by (simp add: find_identity_def identity_valid_def base same parents Let_def cong: if_cong option.case_cong)
qed

lemma graph_update_verify:
  fixes v m d
  defines "v' \<equiv> v\<lparr>members_section := m, derived_types_section := d\<rparr>"
  shows "verify_strings v' = verify_strings v" "verify_identities v' = verify_identities v"
proof -
  have same: "identity_core v' = identity_core v" "identity_index v' = identity_index v" "string_index v' = string_index v"
    "identity_count_value v' = identity_count_value v" "string_count_value v' = string_count_value v" 
    "string_core v' = string_core v" "string_bytes v' = string_bytes v" by (simp_all add: v'_def)
  note queries = graph_update_queries [where v = v and m = m and d = d, folded v'_def]
  have "verify_string_records v' xs n = verify_string_records v xs n" 
    "verify_string_index v' xs n = verify_string_index v xs n"
    "verify_identity_records v' xs = verify_identity_records v xs" 
    "verify_identity_index v' xs n = verify_identity_index v xs n" for xs n
    by (induction xs arbitrary: n) (simp_all add: queries same Let_def)
  then show "verify_strings v' = verify_strings v" "verify_identities v' = verify_identities v"
    by (simp_all add: verify_strings_def verify_identities_def same queries Let_def cong: if_cong option.case_cong)
qed

lemma cyclic_checksums: "\<forall>sec\<in>set (view_sections cyclic_graph). section_crc_ok sec"
  by (simp add: view_sections_def cyclic_graph_def audited_graph_def sample_view_def empty_section_def section_crc_ok_def
      Image_Audit.multiply_u64_def persistence_crc64_reference crc64_reference_def crc64_byte_def funpow_eight
      crc64_shift_def persistence_crc64_polynomial_def uint64_max_def)

lemma cyclic_sources: "verify_sources cyclic_graph (\<lambda>_. True) True (\<lambda>_ _. True) = Some (Inr ())"
  by (simp add: verify_sources_def cyclic_graph_def audited_graph_def sample_view_def empty_section_def audit_simps
      au_allocate_def au_bind_def au_return_def au_require_def)


end
