(* ===== verification/Runtime_Query.thy ===== *)
theory Runtime_Query
  imports Layout_Image Audit_Results
begin

text \<open>
  Reading one value of the running image by its qualified name
  (\<^verbatim>\<open>server_engine/project/runtime/runtime_query.cpp\<close>). The name is resolved in the compiled image, the
  offsets come from the binding index that the layout released, and references are followed through the
  addresses stored in the bytes of the runtime image. \<open>base\<close> is the address of the first byte, \<open>runtime\<close>
  the bytes; the host is little-endian with addresses of eight bytes.
\<close>

section \<open>Results\<close>

datatype runtime_query_result =
  query_success | query_invalid_input | query_not_found | query_unsupported_type | query_invalid_runtime

record runtime_value =
  rv_type :: nat
  rv_size :: u8
  rv_bits :: u64

definition empty_value :: runtime_value where
  "empty_value = \<lparr>rv_type = 0, rv_size = 0, rv_bits = 0\<rparr>"

datatype member_search_result = member_none | member_found | member_ambiguous | member_invalid

record resolved_member =
  rm_offset :: u64
  rm_type :: type_ref

definition empty_member :: resolved_member where
  "empty_member = \<lparr>rm_offset = 0, rm_type = 0\<rparr>"

definition add_offset :: "u64 \<Rightarrow> u64 \<Rightarrow> u64 option" where
  "add_offset left right = (if left > - 1 - right then None else Some (left + right))"

section \<open>Memory\<close>

text \<open>\<^verbatim>\<open>memcpy\<close> of bytes into the low end of a zeroed 64-bit word.\<close>

definition native_bits :: "u8 list \<Rightarrow> u64" where
  "native_bits bytes = foldr (\<lambda>b acc. ucast b OR push_bit 8 acc) bytes 0"

definition read_native_bits :: "u8 list \<Rightarrow> u64 \<Rightarrow> u8 \<Rightarrow> runtime_query_result \<times> u64" where
  "read_native_bits runtime offset width =
     (if width = 0 \<or> width > 8 \<or> offset > of_nat (length runtime) \<or> ucast width > of_nat (length runtime) - offset
      then (query_invalid_runtime, 0)
      else (query_success, native_bits (take (unat width) (drop (unat offset) runtime))))"

text \<open>
  The loop that removes qualifiers and follows references; \<open>remaining\<close> is the number of rounds left. The
  type and the offset are in and out parameters.
\<close>

fun normalize_rounds ::
    "compiled_project_view \<Rightarrow> u64 \<Rightarrow> u8 list \<Rightarrow> nat \<Rightarrow> type_ref \<Rightarrow> u64 \<Rightarrow> runtime_query_result \<times> type_ref \<times> u64" where
  "normalize_rounds v base runtime 0 type offset = (query_invalid_runtime, type, offset)"
| "normalize_rounds v base runtime (Suc remaining) type offset =
     (if \<not> tr_valid type then (query_invalid_runtime, type, offset)
      else if tr_kind type \<noteq> type_ref_derived then (query_success, type, offset)
      else case view_derived v type of
          None \<Rightarrow> (query_invalid_runtime, type, offset)
        | Some derived \<Rightarrow>
            if dr_kind derived = 0 \<or> dr_kind derived = 1
            then normalize_rounds v base runtime remaining (dr_child derived) offset
            else if dr_kind derived = 3 \<or> dr_kind derived = 4
            then
              if offset > of_nat (length runtime) \<or> 8 > of_nat (length runtime) - offset
              then (query_invalid_runtime, type, offset)
              else
                let target = native_bits (take 8 (drop (unat offset) runtime))
                in if target < base then (query_invalid_runtime, type, offset)
                   else if target - base \<ge> of_nat (length runtime) then (query_invalid_runtime, type, offset)
                   else normalize_rounds v base runtime remaining (dr_child derived) (target - base)
            else (query_success, type, offset))"

definition normalize_location ::
    "compiled_project_view \<Rightarrow> u64 \<Rightarrow> u8 list \<Rightarrow> type_ref \<Rightarrow> u64 \<Rightarrow> runtime_query_result \<times> type_ref \<times> u64" where
  "normalize_location v base runtime type offset =
     (let limit = sec_count (derived_types_section v) + 1
      in normalize_rounds v base runtime (limit + 1) type offset)"

section \<open>Members\<close>

text \<open>The loop over the direct bases, with the search in a base as a parameter.\<close>

fun search_bases ::
    "(type_handle \<Rightarrow> member_search_result \<times> resolved_member) \<Rightarrow> compiled_project_view \<Rightarrow> runtime_binding_index \<Rightarrow>
       nat list \<Rightarrow> member_search_result \<times> resolved_member \<Rightarrow> member_search_result \<times> resolved_member" where
  "search_bases search v bindings [] (state, selected) =
     (if state = member_found then (state, selected) else (state, empty_member))"
| "search_bases search v bindings (global # rest) (state, selected) =
     (case (view_base_at v global, bi_base_offset bindings global) of
        (Some base, Some base_offset) \<Rightarrow>
          if br_virtual_base base then (member_invalid, empty_member)
          else
            let (found, candidate) = search (br_type base)
            in if found = member_invalid \<or> found = member_ambiguous then (found, empty_member)
               else if found \<noteq> member_found then search_bases search v bindings rest (state, selected)
               else
                 (case add_offset (ucast base_offset) (rm_offset candidate) of
                    None \<Rightarrow> (member_invalid, empty_member)
                  | Some combined \<Rightarrow>
                      if state = member_found then (member_ambiguous, empty_member)
                      else search_bases search v bindings rest (member_found, candidate\<lparr>rm_offset := combined\<rparr>))
      | _ \<Rightarrow> (member_invalid, empty_member))"

text \<open>\<open>remaining\<close> is the number of levels left, \<^verbatim>\<open>type_count () + 1 - depth\<close>.\<close>

fun find_member_recursive ::
    "compiled_project_view \<Rightarrow> runtime_binding_index \<Rightarrow> nat \<Rightarrow> type_handle \<Rightarrow> u32 \<Rightarrow> member_search_result \<times> resolved_member" where
  "find_member_recursive v bindings 0 type name = (member_invalid, empty_member)"
| "find_member_recursive v bindings (Suc remaining) type name =
     (if type = 0 then (member_invalid, empty_member)
      else case view_type v type of
          None \<Rightarrow> (member_invalid, empty_member)
        | Some entry \<Rightarrow>
            if \<not> te_defined entry then (member_invalid, empty_member)
            else
              let member = view_find_member v type name
              in if member \<noteq> 0xffffffff
                 then
                   (case (view_member v type member,
                          bi_member_offset bindings (unat (gr_begin (te_members entry)) + unat member)) of
                      (Some record, Some member_offset) \<Rightarrow>
                        (member_found, \<lparr>rm_offset = ucast member_offset, rm_type = mr_type record\<rparr>)
                    | _ \<Rightarrow> (member_invalid, empty_member))
                 else search_bases (\<lambda>t. find_member_recursive v bindings remaining t name) v bindings
                        [unat (gr_begin (te_bases entry)) ..< unat (gr_begin (te_bases entry)) + unat (gr_count (te_bases entry))]
                        (member_none, empty_member))"

section \<open>Objects\<close>

text \<open>The position of the next \<^verbatim>\<open>::\<close>, and of the next dot.\<close>

fun find_scope :: "string \<Rightarrow> nat option" where
  "find_scope (a # b # rest) = (if a = CHR '':'' \<and> b = CHR '':'' then Some 0 else map_option Suc (find_scope (b # rest)))"
| "find_scope _ = None"

fun find_dot :: "string \<Rightarrow> nat option" where
  "find_dot [] = None"
| "find_dot (a # rest) = (if a = CHR ''.'' then Some 0 else map_option Suc (find_dot rest))"

lemma find_scope_bound: "find_scope text = Some p \<Longrightarrow> p + 2 \<le> length text"
  by (induction "text" arbitrary: p rule: find_scope.induct) (auto split: if_splits)

lemma find_dot_bound: "find_dot text = Some p \<Longrightarrow> p < length text"
  by (induction "text" arbitrary: p) (auto split: if_splits)

text \<open>The loop over the scopes of a name; \<open>text\<close> is the part that is still to read.\<close>

function resolve_scopes :: "compiled_project_view \<Rightarrow> identity_ref \<Rightarrow> string \<Rightarrow> runtime_query_result \<times> object_handle" where
  "resolve_scopes v parent text =
     (let separator = find_scope text;
          component = (case separator of None \<Rightarrow> text | Some p \<Rightarrow> take p text)
      in if component = [] then (query_invalid_input, 0)
         else
           let name = find_string v component
           in if name = 0 then (query_not_found, 0)
              else
                let identity = find_identity v parent name (if separator = None then kind_object else kind_namespace_scope)
                in if \<not> ref_valid identity then (query_not_found, 0)
                   else case separator of
                       None \<Rightarrow>
                         let object = view_find_object v identity
                         in (if object \<noteq> 0 then query_success else query_not_found, object)
                     | Some p \<Rightarrow>
                         if drop (p + 2) text = [] then (query_invalid_input, 0)
                         else resolve_scopes v identity (drop (p + 2) text))"
  by pat_completeness auto
termination by (relation "measure (\<lambda>(v, parent, text). length text)") (auto dest: find_scope_bound)

declare resolve_scopes.simps [simp del]

definition query_resolve_object :: "compiled_project_view \<Rightarrow> string \<Rightarrow> runtime_query_result \<times> object_handle" where
  "query_resolve_object v qualified =
     (let text = (if take 2 qualified = ''::'' then drop 2 qualified else qualified)
      in if text = [] then (query_invalid_input, 0)
         else if \<not> ref_valid (identity_root v) then (query_invalid_runtime, 0)
         else resolve_scopes v (identity_root v) text)"

section \<open>Values\<close>

text \<open>The loop over the members of a name.\<close>

function resolve_members ::
    "compiled_project_view \<Rightarrow> runtime_binding_index \<Rightarrow> u64 \<Rightarrow> u8 list \<Rightarrow> string \<Rightarrow> type_ref \<Rightarrow> u64 \<Rightarrow>
       runtime_query_result \<times> type_ref \<times> u64" where
  "resolve_members v bindings base runtime text type offset =
     (let next = find_dot text;
          component = (case next of None \<Rightarrow> text | Some p \<Rightarrow> take p text)
      in if component = [] then (query_invalid_input, type, offset)
         else case normalize_location v base runtime type offset of (normalized, type, offset) \<Rightarrow>
           if normalized \<noteq> query_success then (normalized, type, offset)
           else if tr_kind type \<noteq> type_ref_named then (query_unsupported_type, type, offset)
           else
             let owner = view_type_at v (unat (tr_payload type - 1))
             in if owner = 0 then (query_invalid_runtime, type, offset)
                else
                  let name = find_string v component
                  in if name = 0 then (query_not_found, type, offset)
                     else case find_member_recursive v bindings (type_count_value v + 1) owner name of (found, member) \<Rightarrow>
                       (case found of
                          member_none \<Rightarrow> (query_not_found, type, offset)
                        | member_ambiguous \<Rightarrow> (query_invalid_input, type, offset)
                        | member_invalid \<Rightarrow> (query_invalid_runtime, type, offset)
                        | member_found \<Rightarrow>
                            (case add_offset offset (rm_offset member) of
                               None \<Rightarrow> (query_invalid_runtime, type, offset)
                             | Some location \<Rightarrow>
                                 if location \<ge> of_nat (length runtime) then (query_invalid_runtime, type, offset)
                                 else case next of
                                     None \<Rightarrow> (query_success, rm_type member, location)
                                   | Some p \<Rightarrow>
                                       resolve_members v bindings base runtime (drop (p + 1) text) (rm_type member) location)))"
  by pat_completeness auto
termination by (relation "measure (\<lambda>(v, bindings, base, runtime, text, type, offset). length text)")
  (auto dest: find_dot_bound [OF sym] simp del: find_member_recursive.simps)

declare resolve_members.simps [simp del]

definition read_value ::
    "compiled_project_view \<Rightarrow> runtime_binding_index \<Rightarrow> u64 \<Rightarrow> u8 list \<Rightarrow> type_ref \<Rightarrow> u64 \<Rightarrow>
       runtime_query_result \<times> runtime_value" where
  "read_value v bindings base runtime type offset =
     (case normalize_location v base runtime type offset of (normalized, type, offset) \<Rightarrow>
        if normalized \<noteq> query_success then (normalized, empty_value)
        else if tr_kind type \<noteq> type_ref_intrinsic then (query_unsupported_type, empty_value)
        else
          let intrinsic = unat (tr_payload type)
          in case bi_intrinsic_size bindings intrinsic of
               None \<Rightarrow> (query_unsupported_type, empty_value)
             | Some width \<Rightarrow>
                 if width > 8 then (query_unsupported_type, empty_value)
                 else case read_native_bits runtime offset width of (read, bits) \<Rightarrow>
                   if read \<noteq> query_success then (read, empty_value)
                   else (query_success, \<lparr>rv_type = intrinsic, rv_size = width, rv_bits = bits\<rparr>))"

definition get_runtime_value ::
    "compiled_project_view \<Rightarrow> runtime_binding_index \<Rightarrow> u64 \<Rightarrow> u8 list \<Rightarrow> string \<Rightarrow> runtime_query_result \<times> runtime_value" where
  "get_runtime_value v bindings base runtime name =
     (if \<not> view_valid v \<or> name = [] then (query_invalid_input, empty_value)
      else
        let dot = find_dot name
        in case query_resolve_object v (case dot of None \<Rightarrow> name | Some p \<Rightarrow> take p name) of (result, object) \<Rightarrow>
          if result \<noteq> query_success then (result, empty_value)
          else case view_object v object of
              None \<Rightarrow> (query_invalid_runtime, empty_value)
            | Some entry \<Rightarrow>
                (case bi_object_offset bindings object of
                   None \<Rightarrow> (query_invalid_runtime, empty_value)
                 | Some offset \<Rightarrow>
                     (case dot of
                        None \<Rightarrow> read_value v bindings base runtime (oe_type entry) offset
                      | Some p \<Rightarrow>
                          if drop (p + 1) name = [] then (query_invalid_input, empty_value)
                          else case resolve_members v bindings base runtime (drop (p + 1) name) (oe_type entry) offset of
                            (members, type, offset) \<Rightarrow>
                              if members \<noteq> query_success then (members, empty_value)
                              else read_value v bindings base runtime type offset)))"

end
