(* ===== verification/Query_Safety.thy ===== *)
theory Query_Safety
  imports Runtime_Query
begin

text \<open>
  Queries are type safe: on an audited image, with the layout prepared from it and references that point
  to values of their type, a query never leaves the runtime image, and a value it returns is a value of
  the intrinsic type it names.
\<close>

section \<open>Typed locations\<close>

text \<open>
  The locations of the runtime image that hold a value of a type, and those that hold a record: objects,
  targets of references, and what lies inside them.
\<close>

inductive typed_at :: "compiled_project_view \<Rightarrow> runtime_layout \<Rightarrow> u64 \<Rightarrow> type_ref \<Rightarrow> bool"
  and record_at :: "compiled_project_view \<Rightarrow> runtime_layout \<Rightarrow> u64 \<Rightarrow> type_handle \<Rightarrow> bool"
  for v r where
  typed_object: "view_object v h = Some e \<Longrightarrow> rl_object_offset r h = Some off \<Longrightarrow> typed_at v r off (oe_type e)"
| typed_target: "t \<in> set (rl_unconnected_types r) \<Longrightarrow> rl_unconnected_offset r t = Some off \<Longrightarrow> typed_at v r off t"
| typed_qualified:
    "typed_at v r off t \<Longrightarrow> view_derived v t = Some d \<Longrightarrow> dr_kind d = 0 \<or> dr_kind d = 1 \<Longrightarrow> typed_at v r off (dr_child d)"
| typed_element:
    "typed_at v r off t \<Longrightarrow> view_derived v t = Some d \<Longrightarrow> dr_kind d = 5 \<Longrightarrow> rl_value r (dr_child d) = Some y \<Longrightarrow>
     i < unat (dr_payload d) \<Longrightarrow> typed_at v r (off + of_nat (i * unat (vl_size y))) (dr_child d)"
| typed_record: "typed_at v r off t \<Longrightarrow> tr_kind t = type_ref_named \<Longrightarrow> record_at v r off (tr_payload t)"
| typed_member:
    "record_at v r off h \<Longrightarrow> g \<in> type_members v h \<Longrightarrow> view_member_at v g = Some m \<Longrightarrow> rl_member_offset r g = Some o' \<Longrightarrow>
     typed_at v r (off + ucast o') (mr_type m)"
| record_base:
    "record_at v r off h \<Longrightarrow> g \<in> type_bases v h \<Longrightarrow> view_base_at v g = Some b \<Longrightarrow> rl_base_offset r g = Some o' \<Longrightarrow>
     record_at v r (off + ucast o') (br_type b)"

definition fits :: "runtime_layout \<Rightarrow> u64 \<Rightarrow> runtime_value_layout \<Rightarrow> bool" where
  "fits r off x \<longleftrightarrow> good_value x \<and> unat off + unat (vl_size x) \<le> unat (rl_size r)"

text \<open>What the audit and the preparation of the layout establish.\<close>

definition image_ready :: "compiled_project_view \<Rightarrow> server_abi_configuration \<Rightarrow> runtime_layout \<Rightarrow> bool" where
  "image_ready v abi r \<longleftrightarrow>
     (\<exists>path_ok alloc_sources alloc_push alloc_marks alloc_stack.
        verify_contents v path_ok alloc_sources alloc_push alloc_marks alloc_stack = Some image_success) \<and>
     (\<exists>alloc_slots alloc. prepare_runtime_layout v abi alloc_slots alloc = Some (layout_success, r)) \<and>
     type_count_value v \<le> uint32_max"

lemma image_ready_prepared:
  assumes "image_ready v abi r"
  obtains alloc_slots alloc where "prepare_runtime_layout v abi alloc_slots alloc = Some (layout_success, r)"
  using assms by (auto simp: image_ready_def)

lemma image_ready_exclusive: "image_ready v abi r \<Longrightarrow> exclusive_parts v h"
proof -
  assume "image_ready v abi r"
  then obtain p a b c d where "verify_contents v p a b c d = Some image_success" by (auto simp: image_ready_def)
  from verify_graph_parts [OF verify_contents_parts(4) [OF this]] show "exclusive_parts v h"
    by (metis verify_types_exclusive)
qed

section \<open>Typed locations lie in the image\<close>

lemma unat_add_fits:
  fixes x y z :: u64
  shows "unat x + unat y + n \<le> unat z \<Longrightarrow> unat (x + y) = unat x + unat y"
  using unat_u64_le [of z] by (simp add: unat_word_ariths)

lemma unat_ucast_offset: "unat (ucast (x :: u32) :: u64) = unat x"
  using unsigned_less [of x, where 'a = nat] by (simp add: unsigned_ucast_eq take_bit_nat_eq_self)

lemma ready_record:
  assumes ready: "image_ready v abi r" and x: "rl_type r h = Some x"
  obtains s where "type_slot r h = Some s" "x = value_layout (ls_size s) (ls_alignment s)" "good_value x"
    "record_laid_out v abi r h s"
proof -
  obtain s where s: "type_slot r h = Some s" using x by (auto simp: rl_type_slot bind_eq_Some_conv)
  obtain a b where "prepare_runtime_layout v abi a b = Some (layout_success, r)" by (rule image_ready_prepared [OF ready])
  from prepared_record [OF this s x] show thesis using that [OF s] image_ready_exclusive [OF ready, of h] by iprover
qed

lemma ready_part:
  assumes ready: "image_ready v abi r" and x: "rl_type r h = Some x" and p: "p \<in> type_parts v h"
  obtains y where "part_layout v (abi_target_of abi) r p = Some y" "part_offset r p + unat (vl_size y) \<le> unat (vl_size x)"
    "unat (vl_size x) \<le> uint32_max"
proof -
  obtain s where s: "x = value_layout (ls_size s) (ls_alignment s)" "good_value x" "record_laid_out v abi r h s"
    by (rule ready_record [OF ready x])
  then obtain lo al where "part_within v abi r lo (unat (ls_size s)) al p"
    using p unfolding record_laid_out_def by blast
  then show thesis using that s(1,2) by (auto simp: part_within_def good_value_def)
qed

lemma prepared_target:
  assumes "prepare_runtime_layout v abi alloc_slots alloc = Some (layout_success, r)"
  shows "rl_prepared r" "rl_target r = abi_target_of abi"
  using assms by (cases rule: prepare_cases; auto simp: image_done_def object_inv_def frozen_def)+

lemma ready_value:
  assumes "image_ready v abi r"
  shows "rl_value r t = layout_value (abi_target_of abi) r t"
proof -
  obtain a b where "prepare_runtime_layout v abi a b = Some (layout_success, r)" by (rule image_ready_prepared [OF assms])
  from prepared_target [OF this] show ?thesis using rl_value_layout [of r t] by simp
qed

lemma ready_good: "image_ready v abi r \<Longrightarrow> rl_value r t = Some x \<Longrightarrow> good_value x"
proof -
  assume ready: "image_ready v abi r" and x: "rl_value r t = Some x"
  obtain a b where prepared: "prepare_runtime_layout v abi a b = Some (layout_success, r)" by (rule image_ready_prepared [OF ready])
  have val: "layout_value (abi_target_of abi) r t = Some x" using x ready_value [OF ready] by simp
  show "good_value x"
  proof (cases "tr_kind t")
    case type_ref_intrinsic
    then show ?thesis using val by (auto simp: layout_value_def split: if_splits sum.splits intro: intrinsic_good)
  next
    case type_ref_named
    then have "rl_type r (tr_payload t) = Some x" using val by (simp add: layout_value_def rl_type_slot split: if_splits)
    then show ?thesis using ready_record [OF ready] by metis
  next
    case type_ref_derived
    then show ?thesis using prepared_derived [OF prepared _ x] by simp
  next
    case type_ref_invalid
    then show ?thesis using val by (simp add: layout_value_def split: if_splits)
  qed
qed

lemma named_value: "image_ready v abi r \<Longrightarrow> tr_kind t = type_ref_named \<Longrightarrow> rl_value r t = Some x \<Longrightarrow> rl_type r (tr_payload t) = Some x"
  using ready_value [of v abi r t] by (simp add: layout_value_def rl_type_slot split: if_splits)

lemma ready_derived:
  assumes "image_ready v abi r" "rl_value r t = Some x" "view_derived v t = Some d"
  shows "if dr_kind d = 0 \<or> dr_kind d = 1 then rl_value r (dr_child d) = Some x
    else if dr_kind d = 3 \<or> dr_kind d = 4
    then \<exists>p. abi_layout_properties (abi_target_of abi) = Some p \<and> vl_size x = ucast (reference_size p)
    else dr_kind d = 5 \<longrightarrow> (\<exists>y. rl_value r (dr_child d) = Some y \<and> unat (vl_size x) = unat (vl_size y) * unat (dr_payload d))"
proof -
  obtain a b where "prepare_runtime_layout v abi a b = Some (layout_success, r)" by (rule image_ready_prepared [OF assms(1)])
  note shape = prepared_derived [OF this view_derived_kind(1) [OF assms(3)] assms(2), unfolded assms(3) option.inject ex_simps simp_thms]
  consider "dr_kind d = 0 \<or> dr_kind d = 1" | "dr_kind d = 2" | "dr_kind d = 3 \<or> dr_kind d = 4" | "dr_kind d = 5"
    using shape by argo
  then show ?thesis using shape by cases auto
qed

lemma ready_lengths:
  assumes "image_ready v abi r" "rl_type r h = Some x"
  shows "length (rl_member_offsets r) = sec_count (members_section v)"
    "length (rl_base_offsets r) = sec_count (bases_section v)"
proof -
  obtain a b where prepared: "prepare_runtime_layout v abi a b = Some (layout_success, r)" by (rule image_ready_prepared [OF assms(1)])
  from prepared have "length (rl_member_offsets r) = sec_count (members_section v) \<and>
    length (rl_base_offsets r) = sec_count (bases_section v)"
  proof (cases rule: prepare_cases)
    case no_objects
    then have "rl_type_slots r = []" by (simp add: fresh_runtime_layout_def)
    then show ?thesis using assms(2) by (auto simp: rl_type_def word_unat_eq_iff split: if_splits)
  qed (auto simp: image_done_def object_inv_def frozen_def layout_inv_def layout_sizes_def)
  then show "length (rl_member_offsets r) = sec_count (members_section v)"
    "length (rl_base_offsets r) = sec_count (bases_section v)" by simp_all
qed

text \<open>The member and base queries of the layout give the offset of a part.\<close>

lemma ready_offset:
  assumes "image_ready v abi r" "rl_type r h = Some x"
  shows "g \<in> type_members v h \<Longrightarrow> view_member_at v g = Some m \<Longrightarrow>
      \<exists>o' y. rl_member_offset r g = Some o' \<and> rl_value r (mr_type m) = Some y \<and> unat o' + unat (vl_size y) \<le> unat (vl_size x)"
    "g \<in> type_bases v h \<Longrightarrow>
      \<exists>b o' y. view_base_at v g = Some b \<and> \<not> br_virtual_base b \<and> rl_base_offset r g = Some o' \<and>
        rl_type r (br_type b) = Some y \<and> unat o' + unat (vl_size y) \<le> unat (vl_size x)"
proof -
  have small: "(o' :: u32) \<noteq> invalid_record_offset" if "unat o' + n \<le> uint32_max" "0 < n" for o' n
    using that by (auto simp: invalid_record_offset_def unsigned_minus_1_eq_mask mask_eq_exp_minus_1)
  show "\<exists>o' y. rl_member_offset r g = Some o' \<and> rl_value r (mr_type m) = Some y \<and> unat o' + unat (vl_size y) \<le> unat (vl_size x)"
    if "g \<in> type_members v h" "view_member_at v g = Some m"
  proof -
    have "Inr g \<in> type_parts v h" using that(1) by (simp add: type_parts_def)
    then obtain y where y: "part_layout v (abi_target_of abi) r (Inr g) = Some y"
      "unat (rl_member_offsets r ! g) + unat (vl_size y) \<le> unat (vl_size x)" "unat (vl_size x) \<le> uint32_max"
      by (rule ready_part [OF assms]) (simp add: part_offset_def)
    then have "rl_value r (mr_type m) = Some y" using that(2) ready_value [OF assms(1)] by (simp add: part_layout_def)
    moreover have "rl_member_offset r g = Some (rl_member_offsets r ! g)"
      using small [OF order_trans [OF y(2,3)]] ready_good [OF assms(1) calculation] ready_lengths(1) [OF assms]
        view_member_at_record [OF that(2)]
      by (simp add: rl_member_offset_def record_offset_at_def good_value_def)
    ultimately show ?thesis using y(2) by blast
  qed
  show "\<exists>b o' y. view_base_at v g = Some b \<and> \<not> br_virtual_base b \<and> rl_base_offset r g = Some o' \<and>
        rl_type r (br_type b) = Some y \<and> unat o' + unat (vl_size y) \<le> unat (vl_size x)" if "g \<in> type_bases v h"
  proof -
    have "Inl g \<in> type_parts v h" using that by (simp add: type_parts_def)
    then obtain y where y: "part_layout v (abi_target_of abi) r (Inl g) = Some y"
      "unat (rl_base_offsets r ! g) + unat (vl_size y) \<le> unat (vl_size x)" "unat (vl_size x) \<le> uint32_max"
      by (rule ready_part [OF assms]) (simp add: part_offset_def)
    then obtain b where b: "view_base_at v g = Some b" "\<not> br_virtual_base b" "rl_type r (br_type b) = Some y"
      by (auto simp: part_layout_def rl_type_slot bind_eq_Some_conv split: if_splits)
    have "good_value y" by (rule ready_record [OF assms(1) b(3)])
    then have "rl_base_offset r g = Some (rl_base_offsets r ! g)"
      using small [OF order_trans [OF y(2,3)]] ready_lengths(2) [OF assms] view_base_at_index [OF b(1)]
      by (simp add: rl_base_offset_def record_offset_at_def good_value_def)
    then show ?thesis using y(2) b by blast
  qed
qed

lemma typed_fits:
  assumes ready: "image_ready v abi r"
  shows "typed_at v r off t \<Longrightarrow> \<exists>x. rl_value r t = Some x \<and> fits r off x"
    and "record_at v r off h \<Longrightarrow> \<exists>x. rl_type r h = Some x \<and> fits r off x"
proof (induction rule: typed_at_record_at.inducts)
  case (typed_object h e off)
  obtain a b where prepared: "prepare_runtime_layout v abi a b = Some (layout_success, r)" by (rule image_ready_prepared [OF ready])
  have "Inr h \<in> image_items v r" using typed_object by (auto simp: image_items_def view_object_def split: if_splits)
  from prepared_span [OF prepared this] typed_object show ?case
    by (auto simp: image_span_def span_inside_def fits_def bind_eq_Some_conv)
next
  case (typed_target t off)
  obtain a b where prepared: "prepare_runtime_layout v abi a b = Some (layout_success, r)" by (rule image_ready_prepared [OF ready])
  have "Inl t \<in> image_items v r" using typed_target by (auto simp: image_items_def)
  from prepared_span [OF prepared this] typed_target show ?case
    by (auto simp: image_span_def span_inside_def fits_def bind_eq_Some_conv)
next
  case (typed_qualified off t d)
  then show ?case using ready_derived [OF ready] by (metis (full_types))
next
  case (typed_element off t d y i)
  then obtain x where x: "rl_value r t = Some x" "fits r off x" by blast
  have size: "unat (vl_size x) = unat (vl_size y) * unat (dr_payload d)"
    using ready_derived [OF ready x(1) \<open>view_derived v t = Some d\<close>] \<open>dr_kind d = 5\<close> \<open>rl_value r (dr_child d) = Some y\<close> by auto
  have "Suc i * unat (vl_size y) \<le> unat (dr_payload d) * unat (vl_size y)" using \<open>i < unat (dr_payload d)\<close> by (intro mult_le_mono1) simp
  then have le: "i * unat (vl_size y) + unat (vl_size y) \<le> unat (vl_size x)" using size by (simp add: mult.commute)
  then have i: "unat (of_nat (i * unat (vl_size y)) :: u64) = i * unat (vl_size y)"
    using unat_u64_le [of "vl_size x"] by (simp add: unsigned_of_nat take_bit_nat_eq_self del: of_nat_mult)
  have "unat (off + of_nat (i * unat (vl_size y))) = unat off + i * unat (vl_size y)"
    using unat_add_fits [of off "of_nat (i * unat (vl_size y))" "unat (vl_size y)" "rl_size r"] x(2) le i by (simp add: fits_def)
  then show ?case using \<open>rl_value r (dr_child d) = Some y\<close> ready_good [OF ready \<open>rl_value r (dr_child d) = Some y\<close>] x(2) le by (simp add: fits_def)
next
  case (typed_record off t)
  then show ?case using named_value [OF ready] by blast
next
  case (typed_member off h g m o')
  then obtain x where x: "rl_type r h = Some x" "fits r off x" by blast
  obtain y where y: "rl_value r (mr_type m) = Some y" "unat o' + unat (vl_size y) \<le> unat (vl_size x)"
    using ready_offset(1) [OF ready x(1) typed_member(3,4)] typed_member(5) by auto
  then have "unat (off + ucast o') = unat off + unat o'"
    using unat_add_fits [of off "ucast o'" "unat (vl_size y)" "rl_size r"] x(2) by (simp add: fits_def unat_ucast_offset)
  then show ?case using y x(2) ready_good [OF ready y(1)] by (auto simp: fits_def)
next
  case (record_base off h g b o')
  then obtain x where x: "rl_type r h = Some x" "fits r off x" by blast
  obtain y where y: "rl_type r (br_type b) = Some y" "unat o' + unat (vl_size y) \<le> unat (vl_size x)"
    using ready_offset(2) [OF ready x(1) record_base(3)] record_base(4,5) by auto
  then have "unat (off + ucast o') = unat off + unat o'"
    using unat_add_fits [of off "ucast o'" "unat (vl_size y)" "rl_size r"] x(2) by (simp add: fits_def unat_ucast_offset)
  moreover have "good_value y" using ready_record [OF ready y(1)] by metis
  ultimately show ?case using y x(2) by (auto simp: fits_def)
qed

section \<open>References\<close>

text \<open>The bytes of the image, and references that hold the address of a value of the type they refer to.\<close>

definition runtime_bytes :: "runtime_layout \<Rightarrow> u64 \<Rightarrow> u8 list \<Rightarrow> bool" where
  "runtime_bytes r base runtime \<longleftrightarrow> length runtime = unat (rl_size r) \<and> unat base + length runtime \<le> size_max"

definition references_bound :: "compiled_project_view \<Rightarrow> runtime_layout \<Rightarrow> u64 \<Rightarrow> u8 list \<Rightarrow> bool" where
  "references_bound v r base runtime \<longleftrightarrow>
     (\<forall>off t d. typed_at v r off t \<longrightarrow> view_derived v t = Some d \<longrightarrow> dr_kind d = 3 \<or> dr_kind d = 4 \<longrightarrow>
        (\<exists>off'. native_bits (take 8 (drop (unat off) runtime)) = base + off' \<and> typed_at v r off' (dr_child d)))"

lemma image_ready_ordered: "image_ready v abi r \<Longrightarrow> derived_ordered v"
proof -
  assume "image_ready v abi r"
  then obtain p a b c d where "verify_contents v p a b c d = Some image_success" by (auto simp: image_ready_def)
  from verify_graph_parts [OF verify_contents_parts(4) [OF this]]
  have "au_for (verify_derived v) [1..<sec_count (derived_types_section v) + 1] () = Some (Inr ())" by metis
  from verify_derived_each(1) [OF this] show "derived_ordered v" by (auto simp: derived_ordered_def not_le)
qed

lemma reference_read:
  assumes ready: "image_ready v abi r" and abi: "abi_target_of abi \<noteq> windows_x86" and mem: "runtime_bytes r base runtime"
    and bound: "references_bound v r base runtime" and at: "typed_at v r off t"
    and d: "view_derived v t = Some d" "dr_kind d = 3 \<or> dr_kind d = 4"
  obtains off' where "\<not> off > of_nat (length runtime)" "\<not> 8 > of_nat (length runtime) - off"
    "native_bits (take 8 (drop (unat off) runtime)) = base + off'" "\<not> base + off' < base"
    "\<not> off' \<ge> of_nat (length runtime)" "typed_at v r off' (dr_child d)"
proof -
  have len: "(of_nat (length runtime) :: u64) = rl_size r" and top: "unat base + unat (rl_size r) \<le> size_max"
    using mem by (simp_all add: runtime_bytes_def)
  obtain x where x: "rl_value r t = Some x" "fits r off x" using typed_fits(1) [OF ready at] by blast
  have "vl_size x = 8"
    using ready_derived [OF ready x(1) d(1)] d(2) abi by (cases "abi_target_of abi") (auto simp: abi_layout_properties_def)
  then have off: "unat off + 8 \<le> unat (rl_size r)" using x(2) by (simp add: fits_def)
  then have "off \<le> rl_size r" by (simp add: word_le_nat_alt)
  then have "unat (rl_size r - off) = unat (rl_size r) - unat off" by (simp add: unat_sub)
  then have "\<not> 8 > rl_size r - off" using off by (simp add: word_less_nat_alt)
  obtain off' where off': "native_bits (take 8 (drop (unat off) runtime)) = base + off'" "typed_at v r off' (dr_child d)"
    using bound at d unfolding references_bound_def by blast
  obtain y where "fits r off' y" using typed_fits(1) [OF ready off'(2)] by blast
  then have "unat off' < unat (rl_size r)" by (auto simp: fits_def good_value_def)
  moreover from this have "unat (base + off') = unat base + unat off'" using top by (simp add: unat_word_ariths)
  ultimately show thesis
    using that [of off'] off' \<open>off \<le> rl_size r\<close> \<open>\<not> 8 > rl_size r - off\<close> len by (simp add: word_less_nat_alt word_le_nat_alt)
qed

lemma normalize_rounds_typed:
  assumes ready: "image_ready v abi r" and abi: "abi_target_of abi \<noteq> windows_x86" and mem: "runtime_bytes r base runtime"
    and bound: "references_bound v r base runtime" and at: "typed_at v r off t" and n: "qualifier_rank t < n"
  shows "\<exists>t' off'. normalize_rounds v base runtime n t off = (query_success, t', off') \<and> typed_at v r off' t'"
  using at n
proof (induction n arbitrary: t off)
  case (Suc n)
  obtain x where x: "rl_value r t = Some x" using typed_fits(1) [OF ready Suc.prems(1)] by blast
  have valid: "tr_valid t" using x by (simp add: rl_value_def split: if_splits)
  show ?case
  proof (cases "tr_kind t = type_ref_derived")
    case False
    then show ?thesis using valid Suc.prems(1) by simp
  next
    case True
    obtain a b where "prepare_runtime_layout v abi a b = Some (layout_success, r)" by (rule image_ready_prepared [OF ready])
    from prepared_derived [OF this True x] obtain d where d: "view_derived v t = Some d" by blast
    have rank: "qualifier_rank (dr_child d) < n"
      using derived_child_rank [OF image_ready_ordered [OF ready] d] Suc.prems(2) by simp
    consider "dr_kind d = 0 \<or> dr_kind d = 1" | "dr_kind d = 3 \<or> dr_kind d = 4"
      | "\<not> (dr_kind d = 0 \<or> dr_kind d = 1)" "\<not> (dr_kind d = 3 \<or> dr_kind d = 4)" by blast
    then show ?thesis
    proof cases
      case 1
      then show ?thesis using Suc.IH [OF typed_qualified [OF Suc.prems(1) d 1] rank] valid True d by simp
    next
      case 2
      obtain off' where off': "\<not> off > of_nat (length runtime)" "\<not> 8 > of_nat (length runtime) - off"
        "native_bits (take 8 (drop (unat off) runtime)) = base + off'" "\<not> base + off' < base"
        "\<not> off' \<ge> of_nat (length runtime)" "typed_at v r off' (dr_child d)"
        by (rule reference_read [OF ready abi mem bound Suc.prems(1) d 2])
      have not_qualifier: "\<not> (dr_kind d = 0 \<or> dr_kind d = 1)" using 2 by auto
      have "normalize_rounds v base runtime (Suc n) t off = normalize_rounds v base runtime n (dr_child d) off'"
        unfolding normalize_rounds.simps using valid True d 2 not_qualifier off'(1-5) by (simp only: Let_def if_False if_True simp_thms option.case) simp
      then show ?thesis using Suc.IH [OF off'(6) rank] by simp
    next
      case 3
      then show ?thesis using valid True d Suc.prems(1) by simp
    qed
  qed
qed simp

lemma ready_view_derived:
  assumes "image_ready v abi r" "rl_value r t = Some x" "tr_kind t = type_ref_derived"
  obtains d where "view_derived v t = Some d"
proof -
  obtain a b where "prepare_runtime_layout v abi a b = Some (layout_success, r)" by (rule image_ready_prepared [OF assms(1)])
  from prepared_derived [OF this assms(3,2)] show thesis using that by blast
qed

lemma normalize_typed:
  assumes ready: "image_ready v abi r" and abi: "abi_target_of abi \<noteq> windows_x86" and mem: "runtime_bytes r base runtime"
    and bound: "references_bound v r base runtime" and at: "typed_at v r off t"
  obtains t' off' where "normalize_location v base runtime t off = (query_success, t', off')" "typed_at v r off' t'"
proof -
  obtain x where x: "rl_value r t = Some x" using typed_fits(1) [OF ready at] by blast
  have "qualifier_rank t \<le> sec_count (derived_types_section v)"
  proof (cases "tr_kind t = type_ref_derived")
    case True
    obtain d where "view_derived v t = Some d" by (rule ready_view_derived [OF ready x True])
    then show ?thesis using view_derived_kind(3) True by (simp add: qualifier_rank_def)
  qed (simp add: qualifier_rank_def)
  then have "qualifier_rank t < sec_count (derived_types_section v) + 1 + 1" by simp
  from normalize_rounds_typed [OF ready abi mem bound at this] show thesis
    using that by (auto simp: normalize_location_def Let_def)
qed

section \<open>Members\<close>

lemma known_types_card: "finite {s. known_type v s}" "card {s. known_type v s} \<le> type_count_value v"
proof -
  have "unat ` {s. known_type v s} \<subseteq> {1..type_count_value v}"
  proof
    fix n assume "n \<in> unat ` {s. known_type v s}"
    then obtain s :: type_handle where "n = unat s" "s \<noteq> 0" "unat s \<le> type_count_value v" by (auto simp: known_type_def)
    then show "n \<in> {1..type_count_value v}" using unat_gt_0 [of s] by simp
  qed
  then show "card {s. known_type v s} \<le> type_count_value v"
    using card_inj_on_le [of unat "{s. known_type v s}" "{1..type_count_value v}"] by (simp add: inj_on_def word_unat_eq_iff)
  show "finite {s. known_type v s}" by simp
qed

lemma image_ready_acyclic: "image_ready v abi r \<Longrightarrow> acyclic (inheritance v)"
proof -
  assume ready: "image_ready v abi r"
  then obtain p a b c d where "verify_contents v p a b c d = Some image_success" by (auto simp: image_ready_def)
  from verify_graph_parts [OF verify_contents_parts(4) [OF this]]
  obtain states where "verify_inheritance v = Some (Inr states)" by metis
  then show "acyclic (inheritance v)" using verify_inheritance_ok [of v] ready by (auto simp: image_ready_def)
qed

lemma ready_base_edge:
  assumes "image_ready v abi r" "rl_type r h = Some x" "g \<in> type_bases v h" "view_base_at v g = Some b"
  shows "(br_type b, h) \<in> inheritance v"
proof -
  obtain s where "record_laid_out v abi r h s" by (rule ready_record [OF assms(1,2)])
  then obtain e where "view_type v h = Some e" "te_defined e" by (auto simp: record_laid_out_def)
  then show ?thesis using assms(3,4) by (auto simp: inheritance_def base_edge_def)
qed

text \<open>A search that is right for a record at an offset: what it finds is a value inside the image.\<close>

definition member_typed ::
    "compiled_project_view \<Rightarrow> runtime_layout \<Rightarrow> u64 \<Rightarrow> member_search_result \<times> resolved_member \<Rightarrow> bool" where
  "member_typed v r off = (\<lambda>(state, member).
     state \<noteq> member_invalid \<and>
     (state = member_found \<longrightarrow> typed_at v r (off + rm_offset member) (rm_type member) \<and>
        unat off + unat (rm_offset member) < unat (rl_size r)))"

lemma add_offset_fits:
  assumes "unat x + unat y \<le> size_max"
  shows "add_offset x y = Some (x + y)" "unat (x + y) = unat x + unat y"
proof -
  show "unat (x + y) = unat x + unat y" using assms by (simp add: unat_word_ariths)
  then have "add_u64 x y = Some (x + y)" using assms by (simp add: add_u64_Some)
  then show "add_offset x y = Some (x + y)" by (simp add: add_offset_def add_u64_def)
qed

lemma search_bases_typed:
  assumes ready: "image_ready v abi r" and at: "record_at v r off h" "set gs \<subseteq> type_bases v h"
    and offsets: "bi_base_offsets bindings = rl_base_offsets r"
    and search: "\<And>t off'. (t, h) \<in> inheritance v \<Longrightarrow> record_at v r off' t \<Longrightarrow> member_typed v r off' (search t)"
    and acc: "member_typed v r off acc" "fst acc \<noteq> member_ambiguous"
  shows "member_typed v r off (search_bases search v bindings gs acc)"
  using at(2) acc
proof (induction gs arbitrary: acc)
  case Nil
  then show ?case by (cases acc) (auto simp: member_typed_def)
next
  case (Cons g gs)
  obtain state selected where acc: "acc = (state, selected)" by (cases acc)
  obtain x where x: "rl_type r h = Some x" "fits r off x" using typed_fits(2) [OF ready at(1)] by blast
  have g: "g \<in> type_bases v h" using Cons.prems(1) by simp
  obtain b o' y where b: "view_base_at v g = Some b" "\<not> br_virtual_base b" "rl_base_offset r g = Some o'"
    "unat o' + unat (vl_size y) \<le> unat (vl_size x)" "rl_type r (br_type b) = Some y"
    using ready_offset(2) [OF ready x(1) g] by blast
  have base: "record_at v r (off + ucast o') (br_type b)" by (rule record_base [OF at(1) g b(1,3)])
  have edge: "(br_type b, h) \<in> inheritance v" using ready_base_edge [OF ready x(1) g b(1)] .
  obtain found candidate where found: "search (br_type b) = (found, candidate)" by (cases "search (br_type b)")
  note res = search [OF edge base, unfolded found]
  have o': "bi_base_offset bindings g = Some o'" using b(3) offsets by (simp add: bi_base_offset_def rl_base_offset_def)
  have sum: "unat (off + ucast o') = unat off + unat o'"
    using unat_add_fits [of off "ucast o'" "unat (vl_size y)" "rl_size r"] x(2) b(4) by (simp add: fits_def unat_ucast_offset)
  show ?case
  proof (cases "found = member_found")
    case False
    then show ?thesis using Cons.IH [of acc] Cons.prems res b(1,2) o' found by (auto simp: acc member_typed_def)
  next
    case True
    then have c: "typed_at v r (off + ucast o' + rm_offset candidate) (rm_type candidate)"
      "unat off + unat o' + unat (rm_offset candidate) < unat (rl_size r)" using res sum by (simp_all add: member_typed_def)
    have "unat (ucast o' :: u64) + unat (rm_offset candidate) \<le> size_max"
      using c(2) unat_u64_le [of "rl_size r"] by (simp add: unat_ucast_offset)
    note add = add_offset_fits [OF this]
    show ?thesis
    proof (cases "state = member_found")
      case True
      then show ?thesis using \<open>found = member_found\<close> b(1,2) o' found add by (simp add: acc member_typed_def)
    next
      case False
      let ?acc = "(member_found, candidate\<lparr>rm_offset := ucast o' + rm_offset candidate\<rparr>)"
      have "search_bases search v bindings (g # gs) acc = search_bases search v bindings gs ?acc"
        using False \<open>found = member_found\<close> b(1,2) o' found add by (simp add: acc)
      moreover have "member_typed v r off ?acc"
        using c add(2) by (simp add: member_typed_def add.assoc unat_ucast_offset)
      ultimately show ?thesis using Cons.IH [of ?acc] Cons.prems(1) by simp
    qed
  qed
qed

lemma find_member_typed:
  assumes ready: "image_ready v abi r" and at: "record_at v r off h"
    and offsets: "bi_base_offsets bindings = rl_base_offsets r" "bi_member_offsets bindings = rl_member_offsets r"
    and above: "\<forall>s\<in>S. (h, s) \<in> (inheritance v)\<^sup>+" "S \<subseteq> {s. known_type v s}" "type_count_value v < card S + n"
  shows "member_typed v r off (find_member_recursive v bindings n h name)"
  using at above
proof (induction n arbitrary: h off S)
  case 0
  have "finite {s. known_type v s}" "card {s. known_type v s} \<le> type_count_value v" using known_types_card [of v] by simp_all
  then show ?case using card_mono [of "{s. known_type v s}" S] 0 by simp
next
  case (Suc n)
  obtain x where x: "rl_type r h = Some x" "fits r off x" using typed_fits(2) [OF ready Suc.prems(1)] by blast
  obtain s where "record_laid_out v abi r h s" by (rule ready_record [OF ready x(1)])
  then obtain e where e: "view_type v h = Some e" "te_defined e" by (auto simp: record_laid_out_def)
  have h: "h \<noteq> 0" using e(1) by (auto simp: view_type_def)
  let ?bases = "[unat (gr_begin (te_bases e)) ..< unat (gr_begin (te_bases e)) + unat (gr_count (te_bases e))]"
  show ?case
  proof (cases "view_find_member v h name = 0xffffffff")
    case True
    have "member_typed v r off (search_bases (\<lambda>t. find_member_recursive v bindings n t name) v bindings ?bases (member_none, empty_member))"
    proof (rule search_bases_typed [OF ready Suc.prems(1) _ offsets(1)])
      show "set ?bases \<subseteq> type_bases v h" using e(1) by (simp add: type_bases_def)
    next
      fix t off' assume t: "(t, h) \<in> inheritance v" "record_at v r off' t"
      have "h \<notin> S" using Suc.prems(2) image_ready_acyclic [OF ready] by (auto simp: acyclic_def)
      moreover have "finite S" using Suc.prems(3) known_types_card(1) finite_subset by blast
      ultimately have card: "type_count_value v < card (insert h S) + n" using Suc.prems(4) by simp
      show "member_typed v r off' (find_member_recursive v bindings n t name)"
      proof (rule Suc.IH [OF t(2) _ _ card])
        show "\<forall>s\<in>insert h S. (t, s) \<in> (inheritance v)\<^sup>+" using t(1) Suc.prems(2) by (auto intro: trancl_into_trancl2)
        show "insert h S \<subseteq> {s. known_type v s}" using Suc.prems(3) view_type_known [OF e(1)] by simp
      qed
    qed (simp_all add: member_typed_def)
    then show ?thesis using e h True by simp
  next
    case False
    let ?m = "view_find_member v h name"
    obtain member where m: "view_member v h ?m = Some member" using view_find_member_sound [OF refl False] by blast
    have at: "?m < gr_count (te_members e)" "member = view_member_record v (unat (gr_begin (te_members e)) + unat ?m)"
      using m e by (auto simp: view_member_def Let_def not_le split: if_splits)
    then have g: "unat (gr_begin (te_members e)) + unat ?m \<in> type_members v h"
      using e(1) by (simp add: type_members_def word_less_nat_alt)
    have "\<exists>y. part_layout v (abi_target_of abi) r (Inr (unat (gr_begin (te_members e)) + unat ?m)) = Some y"
      by (rule ready_part [OF ready x(1)]) (use g in \<open>auto simp: type_parts_def\<close>)
    then have member: "view_member_at v (unat (gr_begin (te_members e)) + unat ?m) = Some member"
      using view_member_at_record at(2) by (fastforce simp: part_layout_def bind_eq_Some_conv)
    obtain o' y where o': "rl_member_offset r (unat (gr_begin (te_members e)) + unat ?m) = Some o'"
      "rl_value r (mr_type member) = Some y" "unat o' + unat (vl_size y) \<le> unat (vl_size x)"
      using ready_offset(1) [OF ready x(1) g member] by blast
    have "typed_at v r (off + ucast o') (mr_type member)" by (rule typed_member [OF Suc.prems(1) g member o'(1)])
    moreover have "unat off + unat o' < unat (rl_size r)"
      using x(2) o'(3) ready_good [OF ready o'(2)] by (auto simp: fits_def good_value_def)
    moreover have "bi_member_offset bindings (unat (gr_begin (te_members e)) + unat ?m) = Some o'"
      using o'(1) offsets(2) by (simp add: bi_member_offset_def rl_member_offset_def)
    ultimately show ?thesis using e h False m by (simp add: member_typed_def unat_ucast_offset)
  qed
qed

section \<open>Names\<close>

text \<open>Everything a query relies on.\<close>

definition query_ready ::
    "compiled_project_view \<Rightarrow> server_abi_configuration \<Rightarrow> runtime_layout \<Rightarrow> runtime_binding_index \<Rightarrow> u64 \<Rightarrow> u8 list \<Rightarrow> bool" where
  "query_ready v abi r bindings base runtime \<longleftrightarrow>
     image_ready v abi r \<and> abi_target_of abi \<noteq> windows_x86 \<and> runtime_bytes r base runtime \<and>
     references_bound v r base runtime \<and> (\<exists>r' x. release_bindings r x = (True, r', bindings))"

lemma query_ready_bindings:
  assumes "query_ready v abi r bindings base runtime"
  shows "bi_base_offsets bindings = rl_base_offsets r" "bi_member_offsets bindings = rl_member_offsets r"
    "bi_object_offsets bindings = rl_object_offsets r"
    "intrinsic_size_loop (rl_target r) [1..<intrinsic_slot_count] (replicate intrinsic_slot_count 0) = (True, bi_intrinsic_sizes bindings)"
  using assms by (auto simp: query_ready_def release_bindings_def split: prod.splits if_splits)

lemma query_member_typed:
  assumes q: "query_ready v abi r bindings base runtime" and at: "record_at v r off h"
  shows "member_typed v r off (find_member_recursive v bindings (type_count_value v + 1) h name)"
  using q query_ready_bindings [OF q]
  by (intro find_member_typed [where S = "{}" and abi = abi, OF _ at]) (simp_all add: query_ready_def)

lemma owner_known:
  assumes "image_ready v abi r" "record_at v r off h"
  shows "view_type_at v (unat (h - 1)) = h" "h \<noteq> 0"
proof -
  obtain x where x: "rl_type r h = Some x" using typed_fits(2) [OF assms] by blast
  obtain s where "record_laid_out v abi r h s" by (rule ready_record [OF assms(1) x])
  then obtain e where "view_type v h = Some e" by (auto simp: record_laid_out_def)
  then show "view_type_at v (unat (h - 1)) = h" "h \<noteq> 0" using handle_view_type_at(2) by (auto simp: view_type_def)
qed

lemma resolve_members_typed:
  assumes q: "query_ready v abi r bindings base runtime"
  shows "typed_at v r off t \<Longrightarrow> resolve_members v bindings base runtime s t off = (result, t', off') \<Longrightarrow>
    result \<noteq> query_invalid_runtime \<and> (result = query_success \<longrightarrow> typed_at v r off' t')"
proof (induction s arbitrary: t off rule: length_induct)
  case (1 s)
  have ready: "image_ready v abi r" "abi_target_of abi \<noteq> windows_x86" "runtime_bytes r base runtime"
    "references_bound v r base runtime" using q by (simp_all add: query_ready_def)
  have len: "(of_nat (length runtime) :: u64) = rl_size r" using ready(3) by (simp add: runtime_bytes_def)
  let ?component = "case find_dot s of None \<Rightarrow> s | Some p \<Rightarrow> take p s"
  obtain t1 off1 where n: "normalize_location v base runtime t off = (query_success, t1, off1)" "typed_at v r off1 t1"
    by (rule normalize_typed [OF ready 1(2)])
  note run = 1(3) [unfolded resolve_members.simps [of v bindings base runtime s] n(1) prod.case Let_def]
  consider "?component = []" | "tr_kind t1 \<noteq> type_ref_named" | "find_string v ?component = 0"
    | "?component \<noteq> []" "tr_kind t1 = type_ref_named" "find_string v ?component \<noteq> 0" by blast
  then show ?case
  proof cases
    case 4
    have rec: "record_at v r off1 (tr_payload t1)" by (rule typed_record [OF n(2) 4(2)])
    note owner = owner_known [OF ready(1) rec]
    obtain found member where found: "find_member_recursive v bindings (type_count_value v + 1) (tr_payload t1)
        (find_string v ?component) = (found, member)" by fastforce
    have typed: "member_typed v r off1 (found, member)" using query_member_typed [OF q rec] found by metis
    note run' = run [unfolded owner(1) found prod.case]
    show ?thesis
    proof (cases found)
      case member_found
      then have m: "typed_at v r (off1 + rm_offset member) (rm_type member)"
        "unat off1 + unat (rm_offset member) < unat (rl_size r)" using typed by (simp_all add: member_typed_def)
      have "unat off1 + unat (rm_offset member) \<le> size_max" using m(2) unat_u64_le [of "rl_size r"] by simp
      note add = add_offset_fits [OF this]
      have inside: "\<not> off1 + rm_offset member \<ge> of_nat (length runtime)" using m(2) add(2) len by (simp add: word_le_nat_alt)
      show ?thesis
      proof (cases "find_dot s")
        case None
        then show ?thesis using run' 4 owner(2) member_found add(1) inside m(1) by (simp add: len)
      next
        case (Some p)
        have "resolve_members v bindings base runtime (drop (p + 1) s) (rm_type member) (off1 + rm_offset member) = (result, t', off')"
          using run' 4 owner(2) member_found add(1) inside Some by (simp add: len)
        moreover have "length (drop (p + 1) s) < length s" using find_dot_bound [OF Some] by simp
        ultimately show ?thesis using 1(1) m(1) by blast
      qed
    qed (use run' 4 owner(2) typed in \<open>auto simp: member_typed_def\<close>)
  next
    case 3
    then show ?thesis
      using run owner_known [OF ready(1) typed_record [OF n(2)]] by (auto split: if_splits)
  qed (use run in \<open>auto split: if_splits\<close>)
qed

lemma resolve_scopes_object:
  "resolve_scopes v parent s = (result, h) \<Longrightarrow> result \<noteq> query_invalid_runtime \<and>
     (result = query_success \<longrightarrow> h \<noteq> 0 \<and> unat h \<le> object_count_value v)"
proof (induction s arbitrary: parent rule: length_induct)
  case (1 s)
  have found: "view_find_object v i \<noteq> 0 \<Longrightarrow> unat (view_find_object v i) \<le> object_count_value v" for i
    by (simp add: view_find_object_def object_from_raw_def split: if_splits)
  show ?case
  proof (cases "find_scope s")
    case None
    then show ?thesis using 1(2) found by (auto simp: resolve_scopes.simps [of v parent s] Let_def split: if_splits)
  next
    case (Some p)
    have shorter: "length (drop (p + 2) s) < length s" using find_scope_bound [OF Some] by simp
    then have "result \<noteq> query_invalid_runtime \<and> (result = query_success \<longrightarrow> h \<noteq> 0 \<and> unat h \<le> object_count_value v)"
      if "resolve_scopes v i (drop (p + 2) s) = (result, h)" for i using 1(1) that by blast
    then show ?thesis using 1(2) Some by (auto simp: resolve_scopes.simps [of v parent s] Let_def split: if_splits)
  qed
qed

lemma query_object_found:
  assumes "verify_identities v" "query_resolve_object v s = (result, h)"
  shows "result \<noteq> query_invalid_runtime \<and> (result = query_success \<longrightarrow> h \<noteq> 0 \<and> unat h \<le> object_count_value v)"
proof -
  have "ref_valid (identity_root v)" using assms(1) by (simp add: verify_identities_def Let_def split: if_splits)
  then show ?thesis
    using assms(2) resolve_scopes_object [of v "identity_root v" _ result h] by (auto simp: query_resolve_object_def Let_def split: if_splits)
qed

section \<open>Values\<close>

lemma intrinsic_size_loop_length: "intrinsic_size_loop target xs sizes = (ok, sizes') \<Longrightarrow> length sizes' = length sizes"
  by (induction xs arbitrary: sizes) (auto split: sum.splits if_splits)

lemma intrinsic_size_loop_each:
  assumes "intrinsic_size_loop target xs sizes = (True, sizes')" "i < length sizes" "sizes' ! i \<noteq> 0"
    "sizes ! i \<noteq> 0 \<Longrightarrow> \<exists>x. intrinsic_layout (intrinsic_of i) target = Inr x \<and> vl_size x = ucast (sizes ! i)"
  shows "\<exists>x. intrinsic_layout (intrinsic_of i) target = Inr x \<and> vl_size x = ucast (sizes' ! i)"
  using assms
proof (induction xs arbitrary: sizes)
  case (Cons k xs)
  show ?case
  proof (cases "intrinsic_layout (intrinsic_of k) target")
    case (Inl e)
    then show ?thesis using Cons by (auto split: if_splits)
  next
    case (Inr x)
    then have small: "\<not> (vl_size x = 0 \<or> vl_size x > 255)" using Cons.prems(1) by (auto split: if_splits)
    then have same: "(ucast (ucast (vl_size x) :: u8) :: u64) = vl_size x"
      by (simp add: word_unat_eq_iff unsigned_ucast_eq unsigned_take_bit_eq take_bit_nat_eq_self word_less_nat_alt)
    show ?thesis
      by (rule Cons.IH [of "sizes[k := ucast (vl_size x)]"])
        (use Cons.prems Inr small same in \<open>cases "k = i"; auto\<close>)+
  qed
qed simp

lemma read_value_typed:
  assumes q: "query_ready v abi r bindings base runtime" and at: "typed_at v r off t"
    and run: "read_value v bindings base runtime t off = (result, out)"
  shows "result \<noteq> query_invalid_runtime \<and> (result = query_success \<longrightarrow>
    (\<exists>off' t' x. typed_at v r off' t' \<and> tr_kind t' = type_ref_intrinsic \<and> rl_value r t' = Some x \<and>
       rv_type out = unat (tr_payload t') \<and> unat (rv_size out) = unat (vl_size x) \<and>
       rv_bits out = native_bits (take (unat (vl_size x)) (drop (unat off') runtime))))"
proof -
  have ready: "image_ready v abi r" "abi_target_of abi \<noteq> windows_x86" "runtime_bytes r base runtime"
    "references_bound v r base runtime" using q by (simp_all add: query_ready_def)
  obtain t1 off1 where n: "normalize_location v base runtime t off = (query_success, t1, off1)" "typed_at v r off1 t1"
    by (rule normalize_typed [OF ready at])
  obtain x where x: "rl_value r t1 = Some x" "fits r off1 x" using typed_fits(1) [OF ready(1) n(2)] by blast
  note run' = run [unfolded read_value_def n(1) prod.case]
  show ?thesis
  proof (cases "tr_kind t1 = type_ref_intrinsic \<and> (\<exists>w. bi_intrinsic_size bindings (unat (tr_payload t1)) = Some w \<and> \<not> w > 8)")
    case False
    then show ?thesis using run' by (auto simp: Let_def split: if_splits option.splits)
  next
    case True
    then obtain w where w: "tr_kind t1 = type_ref_intrinsic" "bi_intrinsic_size bindings (unat (tr_payload t1)) = Some w" "\<not> w > 8"
      by blast
    have "intrinsic_layout (intrinsic_of (unat (tr_payload t1))) (rl_target r) = Inr x"
      using x(1) w(1) by (auto simp: rl_value_def split: if_splits sum.splits)
    moreover have "\<exists>y. intrinsic_layout (intrinsic_of (unat (tr_payload t1))) (rl_target r) = Inr y \<and>
        vl_size y = ucast (bi_intrinsic_sizes bindings ! unat (tr_payload t1))"
      by (rule intrinsic_size_loop_each [OF query_ready_bindings(4) [OF q]])
        (use w(2) intrinsic_size_loop_length [OF query_ready_bindings(4) [OF q]] in \<open>auto simp: bi_intrinsic_size_def split: if_splits\<close>)
    moreover have w': "bi_intrinsic_sizes bindings ! unat (tr_payload t1) = w" "w \<noteq> 0"
      using w(2) by (auto simp: bi_intrinsic_size_def split: if_splits)
    ultimately have "vl_size x = ucast w" by auto
    then have bytes: "unat (vl_size x) = unat w"
      using unsigned_less [of w, where 'a = nat] by (simp add: unsigned_ucast_eq take_bit_nat_eq_self)
    have len: "(of_nat (length runtime) :: u64) = rl_size r" using ready(3) by (simp add: runtime_bytes_def)
    have inside: "unat off1 + unat w \<le> unat (rl_size r)" using x(2) bytes by (simp add: fits_def)
    then have "off1 \<le> rl_size r" by (simp add: word_le_nat_alt)
    moreover from this have "\<not> ucast w > rl_size r - off1"
      using inside bytes \<open>vl_size x = ucast w\<close> by (simp add: word_less_nat_alt unat_sub)
    ultimately have "read_native_bits runtime off1 w = (query_success, native_bits (take (unat w) (drop (unat off1) runtime)))"
      using w(3) w'(2) by (simp add: read_native_bits_def len)
    then have "result = query_success" "out = \<lparr>rv_type = unat (tr_payload t1), rv_size = w,
        rv_bits = native_bits (take (unat (vl_size x)) (drop (unat off1) runtime))\<rparr>"
      using run' w bytes by (simp_all add: Let_def)
    then show ?thesis using n(2) x(1) w(1) bytes by (intro conjI impI exI [of _ off1] exI [of _ t1] exI [of _ x]) simp_all
  qed
qed

section \<open>Properties\<close>

text \<open>\<^bold>\<open>C3.\<close> Queries are type safe. Take an image that the audit accepts, the layout prepared from it for a
  64-bit target, the binding index released from that layout, a runtime image of its size, and references
  that hold the address of a value of the type they refer to. Then no query reports a broken runtime image,
  whatever the name; and a query that succeeds returns exactly the bytes of a value of the image, at a
  location of the intrinsic type it reports.\<close>

theorem query_type_safe:
  assumes "verify_contents v path_ok alloc_sources alloc_push alloc_marks alloc_stack = Some image_success"
    "type_count_value v \<le> uint32_max" "prepare_runtime_layout v abi alloc_slots alloc = Some (layout_success, r)"
    "abi_target_of abi \<noteq> windows_x86" "release_bindings r x = (True, r', bindings)"
    "runtime_bytes r base runtime" "references_bound v r base runtime"
    "get_runtime_value v bindings base runtime name = (result, out)"
  shows "result \<noteq> query_invalid_runtime \<and> (result = query_success \<longrightarrow>
    (\<exists>off t y. typed_at v r off t \<and> tr_kind t = type_ref_intrinsic \<and> rl_value r t = Some y \<and>
       rv_type out = unat (tr_payload t) \<and> unat (rv_size out) = unat (vl_size y) \<and>
       rv_bits out = native_bits (take (unat (vl_size y)) (drop (unat off) runtime))))"
proof -
  have q: "query_ready v abi r bindings base runtime" using assms(1-7) unfolding query_ready_def image_ready_def by blast
  let ?object = "case find_dot name of None \<Rightarrow> name | Some p \<Rightarrow> take p name"
  obtain res h where h: "query_resolve_object v ?object = (res, h)" by fastforce
  note found = query_object_found [OF verify_contents_parts(3) [OF assms(1)] h]
  note run = assms(8) [unfolded get_runtime_value_def Let_def h prod.case]
  show ?thesis
  proof (cases "view_valid v \<and> name \<noteq> [] \<and> res = query_success")
    case False
    then show ?thesis using run found by (auto split: if_splits)
  next
    case True
    then have known: "h \<noteq> 0" "unat h \<le> object_count_value v" using found by simp_all
    obtain s where "image_span v r (Inr h) = Some s"
      using prepared_span [OF assms(3), of "Inr h"] known by (auto simp: image_items_def)
    then obtain off e where e: "view_object v h = Some e" "rl_object_offset r h = Some off"
      by (auto simp: image_span_def bind_eq_Some_conv)
    have off: "bi_object_offset bindings h = Some off"
      using e(2) query_ready_bindings(3) [OF q] by (simp add: bi_object_offset_def rl_object_offset_def)
    note at = typed_object [OF e]
    show ?thesis
    proof (cases "find_dot name")
      case None
      then have "read_value v bindings base runtime (oe_type e) off = (result, out)" using run True e(1) off by simp
      then show ?thesis by (rule read_value_typed [OF q at])
    next
      case (Some p)
      obtain res' t' off' where m: "resolve_members v bindings base runtime (drop (p + 1) name) (oe_type e) off = (res', t', off')"
        by (metis prod_cases3)
      note member = resolve_members_typed [OF q at m]
      show ?thesis
      proof (cases "drop (p + 1) name \<noteq> [] \<and> res' = query_success")
        case True
        then have "read_value v bindings base runtime t' off' = (result, out)"
          using run \<open>view_valid v \<and> _\<close> e(1) off Some m by simp
        then show ?thesis using read_value_typed [OF q] member True by blast
      next
        case False
        then show ?thesis using run \<open>view_valid v \<and> _\<close> e(1) off Some m member by (auto split: if_splits)
      qed
    qed
  qed
qed

text \<open>The audited image of one object \<^verbatim>\<open>a\<close> with one member \<^verbatim>\<open>a\<close>, laid out and filled.\<close>

definition audited_image :: runtime_layout where
  "audited_image = the (map_option snd (prepare_runtime_layout audited_graph sample_abi True (\<lambda>_. True)))"

lemma audited_prepared:
  "prepare_runtime_layout audited_graph sample_abi True (\<lambda>_. True) = Some (layout_success, audited_image)"
proof -
  have "map_option fst (prepare_runtime_layout audited_graph sample_abi True (\<lambda>_. True)) = Some layout_success"
    by code_simp
  then show ?thesis
    by (cases "prepare_runtime_layout audited_graph sample_abi True (\<lambda>_. True)") (auto simp: audited_image_def)
qed

definition empty_bindings :: runtime_binding_index where
  "empty_bindings = \<lparr>bi_intrinsic_sizes = [], bi_object_offsets = [], bi_member_offsets = [], bi_base_offsets = []\<rparr>"

definition audited_bindings :: runtime_binding_index where
  "audited_bindings = snd (snd (release_bindings audited_image empty_bindings))"

lemma audited_released:
  "release_bindings audited_image empty_bindings = (True, fst (snd (release_bindings audited_image empty_bindings)), audited_bindings)"
proof -
  have "fst (release_bindings audited_image empty_bindings)" by code_simp
  then show ?thesis by (simp add: audited_bindings_def prod_eq_iff)
qed

lemma audited_offsets:
  "bi_object_offset audited_bindings 1 = Some 0" "bi_member_offset audited_bindings 0 = Some 0"
  "bi_intrinsic_size audited_bindings 12 = Some 4" "rl_size audited_image = 4"
  by code_simp+

lemma audited_query:
  "get_runtime_value audited_graph audited_bindings 0x10000 [42, 1, 0, 0] ''a.a'' =
     (query_success, \<lparr>rv_type = 12, rv_size = 4, rv_bits = 298\<rparr>)"
proof -
  have root: "identity_root audited_graph = 1"
    by (simp add: identity_root_def audited_counts audited_refs identity_core_size_def audited_identity_reads)
  have object: "query_resolve_object audited_graph ''a'' = (query_success, 1)"
    by (simp add: query_resolve_object_def root ref_valid_def audited_refs resolve_scopes.simps audited_find_string
        audited_find audited_objects)
  have kinds: "tr_valid 0x80000001" "tr_kind 0x80000001 = type_ref_named" "tr_payload 0x80000001 = 1"
    "tr_valid 0x4000000C" "tr_kind 0x4000000C = type_ref_intrinsic" "tr_payload 0x4000000C = 12"
    by (simp_all add: tr_valid_def tr_kind_def tr_payload_def type_ref_kind_of_def maximum_payload_def)
  have member: "find_member_recursive audited_graph audited_bindings (Suc (Suc 0)) 1 1 =
      (member_found, \<lparr>rm_offset = 0, rm_type = 0x4000000C\<rparr>)"
    by (simp add: audited_types te_defined_def audited_find_member audited_members audited_offsets)
  have members: "resolve_members audited_graph audited_bindings 0x10000 [42, 1, 0, 0] ''a'' 0x80000001 0 =
      (query_success, 0x4000000C, 0)"
    by (simp add: resolve_members.simps normalize_location_def kinds audited_types audited_find_string audited_counts
        member add_offset_def del: find_member_recursive.simps)
  show ?thesis
    by (simp add: get_runtime_value_def audited_counts object audited_objects audited_offsets members read_value_def
        normalize_location_def kinds read_native_bits_def native_bits_def)
qed

theorem query_type_safe_witness:
  "\<exists>off t y. typed_at audited_graph audited_image off t \<and> tr_kind t = type_ref_intrinsic \<and>
     rl_value audited_image t = Some y \<and> unat (tr_payload t) = 12 \<and> unat (vl_size y) = 4 \<and>
     native_bits (take (unat (vl_size y)) (drop (unat off) [42, 1, 0, 0])) = 298"
proof -
  have none: "view_derived audited_graph t = None" for t
    using view_derived_kind(2,3) [of audited_graph t] by (cases "view_derived audited_graph t") (auto simp: audited_counts)
  then have bound: "references_bound audited_graph audited_image 0x10000 [42, 1, 0, 0]" by (simp add: references_bound_def)
  have mem: "runtime_bytes audited_image 0x10000 [42, 1, 0, 0]" by (simp add: runtime_bytes_def audited_offsets)
  show ?thesis
    using query_type_safe [OF audited_verify_contents _ audited_prepared _ audited_released mem bound audited_query]
    by (simp add: audited_counts sample_abi_def)
qed

section \<open>References of a 32-bit target\<close>

text \<open>The sample image laid out for a 32-bit target: its references have four bytes.\<close>

definition x86_abi :: server_abi_configuration where
  "x86_abi = \<lparr>abi_target_of = windows_x86, abi_pack = 8\<rparr>"

definition x86_layout :: runtime_layout where
  "x86_layout = the (map_option snd (prepare_runtime_layout sample_graph x86_abi True (\<lambda>_. True)))"

text \<open>The reference member of the second object holds the address \<open>0x10000\<close> of the integer at offset zero.\<close>

definition x86_runtime :: "u8 list" where
  "x86_runtime = [42, 0, 0, 0, 0, 0, 0, 0, 0, 0, 0, 0, 0, 0, 0, 0, 0, 0, 0, 0, 0, 0, 1, 0]"


end
