(* ===== verification/Spec2Isabelle.thy ===== *)
theory Spec2Isabelle
  imports Image_Audit Preprocessor Identity_Space Json_Roundtrip Connection Assign_Input Query_Safety
begin

text \<open>
  A verification of the server engine. The program compiles a project of C++-like declarations into a
  binary image, lays the objects of the image out in memory, and serves clients that read and change
  them over connections that speak JSON. This theory imports the whole development; all file names are
  below \<^verbatim>\<open>src/server_engine\<close>.

  \<^bold>\<open>Parts of the program and theories.\<close>

  \<^item> Tables of a project. \<^verbatim>\<open>project/string/string_table\<close> interns spellings (theory \<open>String_Table\<close>),
    \<^verbatim>\<open>project/semantic/identity\<close> numbers the scopes, types and objects (\<open>Identity_Ref\<close>,
    \<open>Identity_Space\<close>), \<^verbatim>\<open>project/preprocessor/preprocessor\<close> keeps the macro definitions
    (\<open>Preprocessor\<close>), \<^verbatim>\<open>project/assign\<close> reads and stores the assign pairs (\<open>Assign_Input\<close>).
    All hashed tables use linear probing over a power-of-two index; \<open>Probing\<close> holds the probe loops
    and their theory once. The states are records with the fields of the classes, every member
    function is a definition with the same early returns. \<open>Interner\<close> is the contract that the string
    table and the identity space share.

  \<^item> The compiled image. \<^verbatim>\<open>project/persistence/crc64_ecma.hpp\<close> is \<open>Crc64\<close>; the queries of
    \<^verbatim>\<open>project/persistence/compiled_project.cpp\<close> on the bytes of the sections are \<open>Compiled_View\<close>
    (strings and identities) and \<open>Graph_View\<close> (types, members, bases, derived types, objects, links,
    endpoint paths, assigns, with the value types of \<^verbatim>\<open>project/graph\<close>). The audit \<^verbatim>\<open>verify_contents\<close> of an
    untrusted image is \<open>Image_Audit\<close> (checksums, strings, identities) and \<open>Graph_Audit\<close> (sources, types,
    inheritance, derived types, objects, paths, links, assigns, with
    \<^verbatim>\<open>project/graph/construction_semantics.hpp\<close>), pass by pass in the order of the code; \<open>Audit_Types\<close>,
    \<open>Audit_Inheritance\<close>, \<open>Audit_Graph\<close> and \<open>Audit_Results\<close> hold its theory.

  \<^item> The memory layout. \<^verbatim>\<open>project/abi/abi_layout\<close> and \<^verbatim>\<open>project/runtime/runtime_layout\<close> are
    \<open>Runtime_Layout\<close>: the methods of the builder are functions over its state in a small error monad,
    in the order of the source. \<open>Layout_Logic\<close> is a total-correctness calculus for that monad and the
    theory of the checked arithmetic, \<open>Layout_Errors\<close> shows that a failure always carries an error
    code, \<open>Layout_Correct\<close>, \<open>Layout_Class\<close> and \<open>Layout_Resolve\<close> hold the invariant of the builder and
    its preservation by records, class records, derived types and the recursion, and \<open>Layout_Image\<close>
    the placement of the objects and the properties of the finished layout.

  \<^item> Queries of the running image. \<^verbatim>\<open>project/runtime/runtime_query.cpp\<close> is \<open>Runtime_Query\<close>: a name is
    resolved in the image and its value is read from the bytes of the runtime, through members, bases,
    qualifiers and references. \<open>Query_Safety\<close> says which locations hold a value of which type and shows
    that queries only visit those.

  \<^item> JSON. \<open>Json_Unicode\<close>, \<open>Json_Parser\<close>, \<open>Json_Tree\<close> (\<^verbatim>\<open>json/json_parser.cpp\<close> with its scanners,
    and the documents it accepts) and \<open>Json_Writer\<close>, \<open>Json_Roundtrip\<close> (\<^verbatim>\<open>json/json_writer.hpp\<close>).

  \<^item> Connections. \<open>Message_Queue\<close> is the contract of a bounded queue, \<open>Channels\<close> its two
    implementations (\<^verbatim>\<open>communication/request_queue.cpp\<close> and
    \<^verbatim>\<open>communication/connection/outbound_channel.cpp\<close>), \<open>Connection\<close> the connection with its session,
    its life time and the registry that routes to it (\<^verbatim>\<open>communication/communication.cpp\<close>). A critical
    section is one step; the theorems quantify over all interleavings of steps.

  \<^bold>\<open>Interaction.\<close> The string table and the identity space bind an image as their baseline and add to it:
  they read it through the queries of \<open>Compiled_View\<close>, whose good behaviour is what \<open>Image_Audit\<close>
  establishes (the properties below). The layout reads types, members and objects through \<open>Graph_View\<close>;
  that no two records share a slot is a result of the audit, and with it the layout of every record is
  right. Queries use the image, the offsets released from the layout and the bytes of the runtime; their
  safety rests on the audit (the order of derived types, the absence of inheritance cycles) and the layout.
  The queues instantiate the locale of \<open>Message_Queue\<close>, the two interning tables that of \<open>Interner\<close>; the
  connection uses the outbound channel.

  \<^bold>\<open>What the lemmas show.\<close> For the tables: an invariant that every operation keeps, refinement of an
  abstract map, canonical identifiers, termination of the probe loops. For the checksum: equality with
  the polynomial definition and detection of bursts. For the image: what passes the audit satisfies
  the invariant the tables need, its records partition the slots, its look-ups invert its queries and
  inheritance has no cycle; the audit returns when derived types are well founded, and a counterexample
  shows that it does not return on every image. For the layout: it is total, and objects, members and bases are aligned,
  in bounds and apart. For queries: no name makes a query leave the image, and what it returns is a value of
  the type it reports; a counterexample shows that references of a 32-bit target cannot be read. For JSON: the parser is total, accepts exactly trees, and reads back what the
  writer writes; the writer only completes with the rendering of a document. For connections: first-in
  first-out delivery, silence after closing, and a reference count that equals the number of holders.

  \<^bold>\<open>Errors, effects and bounds.\<close> Status codes are the constructors of \<open>server_status\<close> or of the
  component's own enumeration; output parameters are components of the result, \<open>None\<close> a look-up that
  returned false. Machine integers that can overflow are words, container sizes are natural numbers
  with the guards of the source. Every allocation that the source guards has its outcome as a
  parameter. Functions whose recursion is not structural have a termination proof, or fuel that is
  proved to be enough: the parser runs with \<open>3 * length text + 4\<close> (each call consumes a character or
  descends one of at most three productions), the type resolution with \<open>2 * (types + derived types) + 2\<close>
  (two calls per slot that is marked as visited), the list of reference targets with one round for each
  intrinsic, named or derived type. The results are total: \<open>None\<close> for exhausted fuel never occurs
  (\<open>json_parse_total\<close>, \<open>prepare_returns\<close>). Loops that may run for ever, the removal of qualifiers and the
  inheritance walk of the audit, are \<open>partial_function (option)\<close>, where \<open>None\<close> means that the loop does not
  end. The bounded loops of a query count the rounds the code allows: the number of derived types plus two,
  and one level of bases for each type plus one, which an audited image never exhausts.

  \<^bold>\<open>Not modelled.\<close> The mutable graph and its delta, the lexer and the declaration parser, the encoder of
  the image and the check of its header, the source map and the snapshots of sources, and the materializer
  that writes the layout into shared memory are large parts of the program without a model; the queries
  assume of the materializer that references are bound. Sockets, files, memory mappings, thread pools, the
  cryptography of licenses and tokens, diagnostics texts and process start-up are input and output of the
  operating system or libraries and have no model. Memory ordering and blocking are abstracted: a call that
  would block is a call that does not happen. The text of a floating-point number is a parameter of the
  writer, the test whether a path is valid UTF-8 a parameter of the audit.
\<close>

section \<open>Properties that span components\<close>

text \<open>
  An image that passes the audit can be the baseline of both tables: the bound string table and
  the identity space over it are well formed.
\<close>

lemma audited_tables:
  assumes "view_valid v" "string_count_value v \<le> uint32_max" "string_byte_size v \<le> uint32_max"
    "identity_count_value v \<le> maximum_slot" "verify_strings v" "verify_identities v"
  obtains strings st where "bind_baseline v fresh_string_table = (success, strings)"
    "isp_bind_baseline strings v fresh_identity_space = (success, st)"
    "string_table_ok strings" "isp_ok strings st" "isp_baseline st = Some v"
proof -
  let ?strings = "fresh_string_table\<lparr>str_baseline := Some v,
    str_baseline_count := string_count_value v, str_baseline_bytes := string_byte_size v\<rparr>"
  have v: "view_strings_ok v" "view_identities_ok v"
    using verify_strings_ok [OF assms(1-3,5)] verify_identities_ok [OF assms(4,6)] by simp_all
  have "bind_baseline v fresh_string_table = (success, ?strings)"
    using v(1) by (simp add: bind_baseline_def fresh_string_table_def view_strings_ok_def)
  then show thesis
    using that bound_string_table_ok [OF v(1)] isp_bind_ok [OF assms(1) v(2), of ?strings] by simp
qed

text \<open>\<^bold>\<open>C19.\<close>
  An image that passes the string and identity audit can be bound: both \<open>bind_baseline\<close> calls
  succeed, the tables are well formed, and every persisted identity is found under its parent,
  name and kind.\<close>

theorem audited_image_binds:
  assumes "view_valid v" "string_count_value v \<le> uint32_max" "string_byte_size v \<le> uint32_max"
    "identity_count_value v \<le> maximum_slot" "verify_strings v" "verify_identities v"
  shows "\<exists>strings st. bind_baseline v fresh_string_table = (success, strings) \<and>
    isp_bind_baseline strings v fresh_identity_space = (success, st) \<and>
    string_table_ok strings \<and> isp_ok strings st \<and>
    (\<forall>r. identity_valid v r \<and> ref_slot r \<noteq> 1 \<longrightarrow>
       isp_find strings st (identity_parent v r) (identity_name v r) (ref_kind r) = r)"
proof -
  obtain strings st where b: "bind_baseline v fresh_string_table = (success, strings)"
    "isp_bind_baseline strings v fresh_identity_space = (success, st)"
    "string_table_ok strings" "isp_ok strings st" "isp_baseline st = Some v"
    by (rule audited_tables [OF assms])
  have "isp_find strings st (identity_parent v r) (identity_name v r) (ref_kind r) = r"
    if r: "identity_valid v r" "ref_slot r \<noteq> 1" for r
  proof (rule isp_key_find [OF b(4,3)])
    show "isp_key st r = Some (identity_parent v r, identity_name v r, ref_kind r)"
      using b(4) by (intro isp_key_persisted [of strings, OF _ b(5) r]) (simp add: isp_ok_def)
  qed
  then show ?thesis using b by blast
qed

theorem audited_image_binds_witness:
  "\<exists>strings st. bind_baseline sample_view fresh_string_table = (success, strings) \<and>
    isp_bind_baseline strings sample_view fresh_identity_space = (success, st) \<and>
    string_table_ok strings \<and> isp_ok strings st \<and>
    (\<forall>r. identity_valid sample_view r \<and> ref_slot r \<noteq> 1 \<longrightarrow>
       isp_find strings st (identity_parent sample_view r) (identity_name sample_view r) (ref_kind r) = r)"
  by (rule audited_image_binds)
    (simp_all add: sample_view_fields maximum_slot_eq sample_verify_strings sample_verify_identities)

text \<open>Interning keeps every string known, so it keeps the identity space well formed.\<close>

lemma string_step_contains:
  assumes "string_table_ok strings" "string_step strings k strings' i" "str_contains strings sid"
  shows "str_contains strings' sid"
proof -
  have "str_name strings sid = Some (str_get strings sid)" using assms(3) by (simp add: str_name_def)
  then have "str_name strings' sid = Some (str_get strings sid)"
    using string_interner.step_keeps [OF assms(1,2)] by blast
  then show ?thesis by (simp add: str_name_def split: if_splits)
qed

lemma string_step_baseline: "string_step strings k strings' i \<Longrightarrow> str_baseline strings' = str_baseline strings"
  by (auto simp: string_step_def intern_def Let_def ensure_index_capacity_def
      split: if_splits option.splits prod.splits)

text \<open>Interning further strings never disturbs the identities: a well-formed identity space stays
  well formed over the grown string table, with the same keys.\<close>

theorem intern_keeps_identities:
  assumes "isp_ok strings st" "string_table_ok strings" "string_step strings text strings' sid"
  shows "isp_ok strings' st \<and> string_table_ok strings'"
proof -
  have "isp_baseline_ok strings' st"
    using assms(1) string_step_baseline [OF assms(3)]
    by (simp add: isp_ok_def isp_baseline_ok_def split: option.splits)
  moreover have "isp_records_ok strings' st"
    using assms(1) string_step_contains [OF assms(2,3)] by (auto simp: isp_ok_def isp_records_ok_def)
  ultimately show ?thesis
    using assms(1) string_interner.step_ok [OF assms(2,3)] by (simp add: isp_ok_def)
qed

theorem intern_keeps_identities_witness:
  "\<exists>strings' sid. string_step fresh_string_table ''a'' strings' sid \<and>
     isp_ok strings' fresh_identity_space \<and> string_table_ok strings'"
proof -
  obtain status sid st' where r: "intern fresh_string_table ''a'' True True = Some (status, sid, st')"
    "status = success"
    by (rule intern_total [OF fresh_string_table_ok, of "''a''" True True])
      (auto simp: intern_fits_def string_table_size_def string_table_byte_size_def fresh_string_table_def)
  then have "string_step fresh_string_table ''a'' st' sid" unfolding string_step_def by blast
  then show ?thesis
    using intern_keeps_identities [OF fresh_identity_space_ok fresh_string_table_ok] by blast
qed

section \<open>The layout of an audited image\<close>

text \<open>\<^bold>\<open>C5.\<close>
  In an image that the audit accepts no two records share a base or member slot. So in the layout prepared
  from it every record has a size between one byte and \<open>2 ^ 32 - 1\<close> that is a multiple of its power-of-two
  alignment, and its parts lie behind the virtual function pointer it introduces and inside it, aligned under
  the pack value and apart from each other in declaration order, or all at offset zero in a union.\<close>

theorem audited_layout:
  assumes audit: "verify_contents v path_ok alloc_sources alloc_push alloc_marks alloc_stack = Some image_success"
    and layout: "prepare_runtime_layout v abi alloc_slots alloc = Some (layout_success, r)"
      "type_slot r h = Some s" "rl_type r h = Some x"
  shows "x = value_layout (ls_size s) (ls_alignment s) \<and> good_value x \<and> record_laid_out v abi r h s"
proof -
  obtain marks states where "verify_types v = Some (Inr marks)"
    by (rule verify_graph_parts [OF verify_contents_parts(4) [OF audit]])
  then have "exclusive_parts v h" by (rule verify_types_exclusive)
  then show ?thesis using prepared_record [OF layout] by iprover
qed

theorem audited_layout_witness:
  "\<exists>s. type_slot audited_image 1 = Some s \<and> ls_size s = 4 \<and> ls_alignment s = 4 \<and>
     record_laid_out audited_graph sample_abi audited_image 1 s"
proof -
  have x: "rl_type audited_image 1 = Some (value_layout 4 4)" by code_simp
  then obtain s where s: "type_slot audited_image 1 = Some s" by (auto simp: rl_type_slot bind_eq_Some_conv)
  show ?thesis using audited_layout [OF audited_verify_contents audited_prepared s x] s by auto
qed

end
